(* ===== verification/Prelude.thy ===== *)
theory Prelude
  imports Main "HOL-Library.Word"
begin

text \<open>
  Shared vocabulary of the LoOS development: the C integer types at their width,
  the result type of kernel operations (a call that halts the machine, trips an
  assertion, leaves its buffer or never comes back is a value of \<open>kerr\<close>), the
  sequencing combinator \<open>kbind\<close>, and the generic facts on words and lists that
  the component theories use.
\<close>

unbundle bit_operations_syntax

named_theorems kres_simps \<open>inversion of sequenced kernel operations\<close>
named_theorems mem_simps \<open>reads over writes in byte memory\<close>

section \<open>C integer types\<close>

type_synonym u8 = "8 word"
type_synonym u16 = "16 word"
type_synonym u32 = "32 word"
type_synonym u64 = "64 word"
type_synonym i32 = "32 word"  \<comment> \<open>C \<open>int\<close>, read with \<open>sint\<close>\<close>
type_synonym bytes = "u8 list"

section \<open>Results of kernel operations\<close>

text \<open>
  \<open>panic\<close> (lolibc/klib.h) prints and calls \<open>halt\<close>, which never returns.
  \<open>assert\<close> halts too in the default configuration (\<open>ENABLE_DEBUG\<close> and
  \<open>ASSERT_HALT_BEHAVIOR\<close> are \<open>y\<close> in the Kconfig file). \<open>BadAccess\<close> is an
  access outside the object the code points into, and any other operation to which C gives no
  meaning (an undefined shift, a division by zero, an \<open>int\<close> that overflows); \<open>Hang\<close> is a loop that does not end.
\<close>

datatype kerr = Panic string | AssertFail string | BadAccess string | Hang string

type_synonym 'a kres = "kerr + 'a"

fun kbind :: "'a kres \<Rightarrow> ('a \<Rightarrow> 'b kres) \<Rightarrow> 'b kres" where
  "kbind (Inl e) f = Inl e"
| "kbind (Inr a) f = f a"

definition kassert :: "bool \<Rightarrow> string \<Rightarrow> unit kres" where
  "kassert b msg = (if b then Inr () else Inl (AssertFail msg))"

text \<open>A counted loop whose body may fail.\<close>

primrec kfold :: "('i \<Rightarrow> 's \<Rightarrow> 's kres) \<Rightarrow> 'i list \<Rightarrow> 's \<Rightarrow> 's kres" where
  "kfold f [] s = Inr s"
| "kfold f (i # is) s = kbind (f i s) (kfold f is)"

definition kret :: "'a kres \<Rightarrow> bool" where
  "kret r \<longleftrightarrow> (\<exists>a. r = Inr a)"

lemma kbind_Inr_iff [kres_simps]:
  "kbind x f = Inr y \<longleftrightarrow> (\<exists>a. x = Inr a \<and> f a = Inr y)"
  by (cases x) auto

lemma kbind_Inl_iff [kres_simps]:
  "kbind x f = Inl e \<longleftrightarrow> x = Inl e \<or> (\<exists>a. x = Inr a \<and> f a = Inl e)"
  by (cases x) auto

lemma kbind_assoc: "kbind (kbind x f) g = kbind x (\<lambda>a. kbind (f a) g)"
  by (cases x) auto

lemma kbind_cong [fundef_cong]:
  "x = y \<Longrightarrow> (\<And>a. y = Inr a \<Longrightarrow> f a = g a) \<Longrightarrow> kbind x f = kbind y g"
  by (cases y) auto

lemma kfold_append: "kfold f (is @ js) s = kbind (kfold f is s) (kfold f js)"
proof (induction "is" arbitrary: s)
  case (Cons i "is")
  then show ?case by (cases "f i s") simp_all
qed simp

lemma kassert_simps [simp]:
  "kassert True msg = Inr ()" "kassert False msg = Inl (AssertFail msg)"
  by (simp_all add: kassert_def)

lemma kassert_Inr_iff [kres_simps]: "kassert b msg = Inr u \<longleftrightarrow> b"
  by (simp add: kassert_def)

section \<open>Words\<close>

lemma unat_lt_64 [simp]: "unat (x :: u64) < 18446744073709551616"
proof -
  have "unat x < 2 ^ LENGTH(64)" by (rule unsigned_less)
  then show ?thesis by simp
qed

lemma unat_le_64 [simp]: "unat (x :: u64) \<le> 18446744073709551616"
  by (simp add: less_imp_le)

lemma unat_lt_32 [simp]: "unat (x :: u32) < 4294967296"
proof -
  have "unat x < 2 ^ LENGTH(32)" by (rule unsigned_less)
  then show ?thesis by simp
qed

lemma unat_lt_16 [simp]: "unat (x :: u16) < 65536"
proof -
  have "unat x < 2 ^ LENGTH(16)" by (rule unsigned_less)
  then show ?thesis by simp
qed

lemma unat_lt_8 [simp]: "unat (x :: u8) < 256"
proof -
  have "unat x < 2 ^ LENGTH(8)" by (rule unsigned_less)
  then show ?thesis by simp
qed

lemma unat_of_nat_64 [simp]: "n < 18446744073709551616 \<Longrightarrow> unat (of_nat n :: u64) = n"
  by (simp add: unat_of_nat)

lemma unat_of_nat_32 [simp]: "n < 4294967296 \<Longrightarrow> unat (of_nat n :: u32) = n"
  by (simp add: unat_of_nat)

lemma unat_of_nat_diff_64 [simp]:
  assumes "i \<le> n" "n < 18446744073709551616"
  shows "unat (of_nat n - of_nat i :: u64) = n - i"
proof -
  have "(of_nat n - of_nat i :: u64) = of_nat (n - i)" using assms by simp
  then show ?thesis using assms by (simp only: unat_of_nat) simp
qed

lemma unat_minus_one_64 [simp]: "unat (- 1 :: u64) = 18446744073709551615"
  by (simp add: unsigned_minus_1_eq_mask mask_eq_exp_minus_1)

lemma word_sub_unat:
  fixes a b :: u64
  assumes "unat b \<le> unat a"
  shows "unat (a - b) = unat a - unat b"
  using assms by (simp add: unat_sub word_le_nat_alt)

lemma unat_plus_64:
  fixes a b :: u64
  assumes "unat a + unat b < 18446744073709551616"
  shows "unat (a + b) = unat a + unat b"
  using assms by (simp add: unat_word_ariths)

lemma of_nat_inj_64:
  assumes "i < 18446744073709551616" "j < 18446744073709551616"
  shows "(of_nat i :: u64) = of_nat j \<longleftrightarrow> i = j"
  using assms by (metis unat_of_nat_64)

text \<open>Rounding down to a power of two, as an arithmetic fact.\<close>

lemma unat_and_mask:
  fixes a :: "'a::len word"
  shows "unat (a AND mask n) = unat a mod 2 ^ n"
  by (simp add: unsigned_take_bit_eq take_bit_nat_def flip: take_bit_eq_mask)

lemma and_not_mask_plus:
  fixes a :: "'a::len word"
  shows "(a AND NOT (mask n)) + (a AND mask n) = a"
proof -
  have "a AND NOT (mask n) = push_bit n (drop_bit n a)"
    by (rule bit_word_eqI) (auto simp: bit_simps)
  then show ?thesis
    by (metis bits_ident take_bit_eq_mask)
qed

lemma unat_and_not_mask:
  fixes a :: "'a::len word"
  shows "unat (a AND NOT (mask n)) = unat a - unat a mod 2 ^ n"
proof -
  have "a AND NOT (mask n) = a - (a AND mask n)"
    using and_not_mask_plus [of a n] by (simp add: eq_diff_eq)
  moreover have "a AND mask n \<le> a"
    by (rule word_and_le2)
  ultimately show ?thesis
    by (simp add: unat_sub unat_and_mask)
qed

section \<open>Lists\<close>

lemma nth_take_drop: "i < n \<Longrightarrow> k + n \<le> length xs \<Longrightarrow> take n (drop k xs) ! i = xs ! (k + i)"
  by simp

lemma upt_Suc_conv: "[0..<Suc n] = 0 # map Suc [0..<n]"
  by (simp add: map_Suc_upt upt_conv_Cons del: upt_Suc)

end
