(* ===== verification/CMem.thy ===== *)
theory CMem
  imports Prelude
begin

text \<open>
  Byte-addressed memory as the kernel sees it: a function from 64-bit addresses to
  bytes. LoongArch is little endian; \<open>load64\<close> and its relatives read the bytes of
  an object, \<open>store64\<close> writes them. A region \<open>[s, s + n)\<close> is described by the
  offset \<open>unat (a - s) < n\<close>, which stays meaningful when addresses wrap.
\<close>

section \<open>Definitions\<close>

type_synonym mem = "u64 \<Rightarrow> u8"

definition in_region :: "u64 \<Rightarrow> nat \<Rightarrow> u64 \<Rightarrow> bool" where
  "in_region s n a \<longleftrightarrow> unat (a - s) < n"

primrec le_nat :: "bytes \<Rightarrow> nat" where
  "le_nat [] = 0"
| "le_nat (b # bs) = unat b + 256 * le_nat bs"

primrec le_bytes :: "nat \<Rightarrow> nat \<Rightarrow> bytes" where
  "le_bytes 0 v = []"
| "le_bytes (Suc k) v = of_nat v # le_bytes k (v div 256)"

definition read_bytes :: "mem \<Rightarrow> u64 \<Rightarrow> nat \<Rightarrow> bytes" where
  "read_bytes m a n = map (\<lambda>i. m (a + of_nat i)) [0..<n]"

definition write_bytes :: "mem \<Rightarrow> u64 \<Rightarrow> bytes \<Rightarrow> mem" where
  "write_bytes m a bs =
     (\<lambda>x. if unat (x - a) < length bs then bs ! unat (x - a) else m x)"

definition load16 :: "mem \<Rightarrow> u64 \<Rightarrow> u16" where
  "load16 m a = of_nat (le_nat (read_bytes m a 2))"

definition load32 :: "mem \<Rightarrow> u64 \<Rightarrow> u32" where
  "load32 m a = of_nat (le_nat (read_bytes m a 4))"

definition load64 :: "mem \<Rightarrow> u64 \<Rightarrow> u64" where
  "load64 m a = of_nat (le_nat (read_bytes m a 8))"

definition store64 :: "mem \<Rightarrow> u64 \<Rightarrow> u64 \<Rightarrow> mem" where
  "store64 m a v = write_bytes m a (le_bytes 8 (unat v))"

text \<open>Fields of packed on-disk and file structures, read from a byte list.\<close>

definition get16 :: "bytes \<Rightarrow> nat \<Rightarrow> u16" where
  "get16 bs off = of_nat (le_nat (take 2 (drop off bs)))"

definition get32 :: "bytes \<Rightarrow> nat \<Rightarrow> u32" where
  "get32 bs off = of_nat (le_nat (take 4 (drop off bs)))"

definition get64 :: "bytes \<Rightarrow> nat \<Rightarrow> u64" where
  "get64 bs off = of_nat (le_nat (take 8 (drop off bs)))"

text \<open>Two memories that agree on a set of addresses.\<close>

definition mem_eq_on :: "u64 set \<Rightarrow> mem \<Rightarrow> mem \<Rightarrow> bool" where
  "mem_eq_on A m m' \<longleftrightarrow> (\<forall>a\<in>A. m a = m' a)"

section \<open>Little-endian encoding\<close>

lemma length_le_bytes [simp]: "length (le_bytes k v) = k"
  by (induction k arbitrary: v) auto

lemma le_bytes_numeral: "le_bytes (numeral n) v = of_nat v # le_bytes (pred_numeral n) (v div 256)"
  by (simp only: numeral_eq_Suc [of n] le_bytes.simps)

lemma le_nat_replicate_0 [simp]: "le_nat (replicate n 0) = 0"
  by (induction n) auto

lemma le_nat_bound: "le_nat bs < 256 ^ length bs"
proof (induction bs)
  case Nil
  then show ?case by simp
next
  case (Cons b bs)
  have "unat b + 256 * le_nat bs < 256 + 256 * le_nat bs"
    by simp
  also have "\<dots> = 256 * (le_nat bs + 1)"
    by simp
  also have "\<dots> \<le> 256 * 256 ^ length bs"
    using Cons.IH by (intro mult_le_mono2) simp
  finally show ?case by simp
qed

lemma le_nat_le_bytes [simp]: "le_nat (le_bytes k v) = v mod 256 ^ k"
proof (induction k arbitrary: v)
  case 0
  then show ?case by simp
next
  case (Suc k)
  have "le_nat (le_bytes (Suc k) v) = v mod 256 + 256 * (v div 256 mod 256 ^ k)"
    using Suc.IH by (simp add: unat_of_nat)
  also have "\<dots> = v mod (256 * 256 ^ k)"
    by (simp add: mod_mult2_eq)
  finally show ?case by simp
qed

lemma le_bytes_le_nat [simp]: "le_bytes (length bs) (le_nat bs) = bs"
proof (induction bs)
  case Nil
  then show ?case by simp
next
  case (Cons b bs)
  have "unat (of_nat (unat b + 256 * le_nat bs) :: u8) = (unat b + 256 * le_nat bs) mod 256"
    unfolding unat_of_nat by simp
  then have "unat (of_nat (unat b + 256 * le_nat bs) :: u8) = unat b"
    by (simp del: of_nat_add)
  then have "(of_nat (unat b + 256 * le_nat bs) :: u8) = b"
    by (rule unsigned_word_eqI)
  with Cons.IH show ?case by simp
qed

lemma le_bytes_mod: "le_bytes k (v mod 256 ^ k) = le_bytes k v"
  by (metis le_nat_le_bytes length_le_bytes le_bytes_le_nat)

section \<open>Reads and writes\<close>

lemma length_read_bytes [simp]: "length (read_bytes m a n) = n"
  by (simp add: read_bytes_def)

lemma nth_read_bytes [simp]: "i < n \<Longrightarrow> read_bytes m a n ! i = m (a + of_nat i)"
  by (simp add: read_bytes_def)

lemma read_bytes_0 [simp]: "read_bytes m a 0 = []"
  by (simp add: read_bytes_def)

lemma read_bytes_Suc: "read_bytes m a (Suc n) = m a # read_bytes m (a + 1) n"
  by (simp add: read_bytes_def upt_Suc_conv o_def add.assoc del: upt_Suc)

lemma read_bytes_append:
  "read_bytes m a (i + j) = read_bytes m a i @ read_bytes m (a + of_nat i) j"
proof (rule nth_equalityI)
  fix k
  assume "k < length (read_bytes m a (i + j))"
  then show "read_bytes m a (i + j) ! k = (read_bytes m a i @ read_bytes m (a + of_nat i) j) ! k"
    by (simp add: nth_append of_nat_diff)
qed simp

lemma in_region_offset [simp]: "i < n \<Longrightarrow> n \<le> 2 ^ 64 \<Longrightarrow> in_region s n (s + of_nat i)"
  by (simp add: in_region_def)

lemma read_bytes_cong:
  assumes "\<And>x. in_region a n x \<Longrightarrow> m x = m' x" and "n \<le> 2 ^ 64"
  shows "read_bytes m a n = read_bytes m' a n"
  using assms by (auto intro!: nth_equalityI)

lemma write_bytes_in:
  "in_region a (length bs) x \<Longrightarrow> write_bytes m a bs x = bs ! unat (x - a)"
  by (simp add: write_bytes_def in_region_def)

lemma write_bytes_out [mem_simps]:
  "\<not> in_region a (length bs) x \<Longrightarrow> write_bytes m a bs x = m x"
  by (simp add: write_bytes_def in_region_def)

lemma write_bytes_Nil [simp]: "write_bytes m a [] = m"
  by (simp add: write_bytes_def)

lemma read_write_same [mem_simps]:
  assumes "length bs \<le> 2 ^ 64"
  shows "read_bytes (write_bytes m a bs) a (length bs) = bs"
  using assms by (auto intro!: nth_equalityI simp: write_bytes_def)

lemma read_write_disjoint:
  assumes "\<And>x. in_region a n x \<Longrightarrow> \<not> in_region b (length bs) x" and "n \<le> 2 ^ 64"
  shows "read_bytes (write_bytes m b bs) a n = read_bytes m a n"
  using assms by (intro read_bytes_cong) (auto simp: write_bytes_out)

lemma load64_store64_same [simp, mem_simps]: "load64 (store64 m a v) a = v"
proof -
  have "read_bytes (store64 m a v) a 8 = le_bytes 8 (unat v)"
    using read_write_same [of "le_bytes 8 (unat v)" m a] by (simp add: store64_def)
  then show ?thesis by (simp add: load64_def)
qed

lemma load64_cong:
  assumes "\<And>x. in_region a 8 x \<Longrightarrow> m x = m' x"
  shows "load64 m a = load64 m' a"
proof -
  have "read_bytes m a 8 = read_bytes m' a 8"
    using assms by (rule read_bytes_cong) simp_all
  then show ?thesis by (simp add: load64_def)
qed

lemma store64_out [mem_simps]: "\<not> in_region a 8 x \<Longrightarrow> store64 m a v x = m x"
  by (simp add: store64_def write_bytes_out)

lemma load64_store64_disjoint:
  assumes "\<And>x. in_region a 8 x \<Longrightarrow> \<not> in_region b 8 x"
  shows "load64 (store64 m b v) a = load64 m a"
  using assms by (intro load64_cong) (simp add: store64_out)

lemma store64_load64: "store64 m a (load64 m a) = m"
proof (rule ext)
  fix x
  have "le_bytes 8 (unat (load64 m a)) = read_bytes m a 8"
    using le_bytes_le_nat [of "read_bytes m a 8"] le_nat_bound [of "read_bytes m a 8"]
    by (simp add: load64_def)
  then show "store64 m a (load64 m a) x = m x"
    by (cases "unat (x - a) < 8") (simp_all add: store64_def write_bytes_def)
qed

section \<open>Fields in byte lists\<close>

lemma get32_le [simp]: "get32 (pre @ le_bytes 4 (unat x) @ rest) (length pre) = x"
  by (simp add: get32_def)

lemma get16_le [simp]: "n < 65536 \<Longrightarrow> get16 (pre @ le_bytes 2 n @ rest) (length pre) = of_nat n"
  by (simp add: get16_def)

lemma read_bytes_drop:
  assumes "read_bytes m a n = bs" and "off + k \<le> n"
  shows "read_bytes m (a + of_nat off) k = take k (drop off bs)"
proof -
  have "n = off + (k + (n - (off + k)))" using assms(2) by simp
  then have "bs = read_bytes m a off @ read_bytes m (a + of_nat off) k @
      read_bytes m (a + of_nat off + of_nat k) (n - (off + k))"
    using assms(1) by (metis read_bytes_append)
  then show ?thesis by simp
qed

end
