(* ===== verification/CString.thy ===== *)
theory CString
  imports CMem
begin

text \<open>
  The string and memory routines of lolibc/string.c over byte memory. Every loop of
  the source is a recursion: those that count \<open>n\<close> down recurse on \<open>unat n\<close>; those
  that run to a NUL byte are \<open>option\<close>-valued partial functions, \<open>None\<close> when no NUL
  is ever met. The lemmas show that on C strings (\<open>cstr\<close>) each routine returns and
  computes the list operation it stands for, for the overlaps the source allows.
\<close>

section \<open>Definitions\<close>

partial_function (option) strlen_loop :: "mem \<Rightarrow> u64 \<Rightarrow> u64 \<Rightarrow> u64 option" where
  "strlen_loop m p s = (if m s \<noteq> 0 then strlen_loop m p (s + 1) else Some (s - p))"

definition strlen :: "mem \<Rightarrow> u64 \<Rightarrow> u64 option" where
  "strlen m s = strlen_loop m s s"

partial_function (option) strcpy_loop :: "mem \<Rightarrow> u64 \<Rightarrow> u64 \<Rightarrow> mem option" where
  "strcpy_loop m dst src =
     (if m src \<noteq> 0 then strcpy_loop (m(dst := m src)) (dst + 1) (src + 1)
      else Some (m(dst := 0)))"

definition strcpy :: "mem \<Rightarrow> u64 \<Rightarrow> u64 \<Rightarrow> (mem \<times> u64) option" where
  "strcpy m dst src = map_option (\<lambda>m'. (m', dst)) (strcpy_loop m dst src)"

text \<open>\<open>strncpy\<close>: the copying loop returns where it stopped and what is left of \<open>n\<close>.\<close>

fun strncpy_copy :: "mem \<Rightarrow> u64 \<Rightarrow> u64 \<Rightarrow> nat \<Rightarrow> mem \<times> u64 \<times> nat" where
  "strncpy_copy m dst src 0 = (m, dst, 0)"
| "strncpy_copy m dst src (Suc n) =
     (if m src \<noteq> 0 then strncpy_copy (m(dst := m src)) (dst + 1) (src + 1) n
      else (m, dst, Suc n))"

fun strncpy_pad :: "mem \<Rightarrow> u64 \<Rightarrow> nat \<Rightarrow> mem" where
  "strncpy_pad m dst 0 = m"
| "strncpy_pad m dst (Suc n) = strncpy_pad (m(dst := 0)) (dst + 1) n"

definition strncpy :: "mem \<Rightarrow> u64 \<Rightarrow> u64 \<Rightarrow> u64 \<Rightarrow> mem \<times> u64" where
  "strncpy m dst src n =
     (case strncpy_copy m dst src (unat n) of (m', dst', n') \<Rightarrow> (strncpy_pad m' dst' n', dst))"

partial_function (option) str_end :: "mem \<Rightarrow> u64 \<Rightarrow> u64 option" where
  "str_end m dst = (if m dst \<noteq> 0 then str_end m (dst + 1) else Some dst)"

definition strcat :: "mem \<Rightarrow> u64 \<Rightarrow> u64 \<Rightarrow> (mem \<times> u64) option" where
  "strcat m dst src =
     (case str_end m dst of None \<Rightarrow> None
      | Some e \<Rightarrow> map_option (\<lambda>m'. (m', dst)) (strcpy_loop m e src))"

definition MAX_STR_LEN :: u64 where
  "MAX_STR_LEN = 1024"

text \<open>
  \<open>char\<close> is signed on LoongArch and is promoted to \<open>int\<close> before the subtraction,
  which cannot overflow.
\<close>

fun strncmp_loop :: "mem \<Rightarrow> u64 \<Rightarrow> u64 \<Rightarrow> nat \<Rightarrow> u64 \<times> u64" where
  "strncmp_loop m s1 s2 n =
     (if m s1 \<noteq> 0 \<and> m s1 = m s2 \<and> n > 1 then strncmp_loop m (s1 + 1) (s2 + 1) (n - 1)
      else (s1, s2))"

definition strncmp :: "mem \<Rightarrow> u64 \<Rightarrow> u64 \<Rightarrow> u64 \<Rightarrow> int" where
  "strncmp m s1 s2 n =
     (case strncmp_loop m s1 s2 (unat n) of (p1, p2) \<Rightarrow> sint (m p1) - sint (m p2))"

definition strcmp :: "mem \<Rightarrow> u64 \<Rightarrow> u64 \<Rightarrow> int" where
  "strcmp m s1 s2 = strncmp m s1 s2 MAX_STR_LEN"

fun memset_loop :: "mem \<Rightarrow> u64 \<Rightarrow> u8 \<Rightarrow> nat \<Rightarrow> mem \<times> u64" where
  "memset_loop m s c 0 = (m, s)"
| "memset_loop m s c (Suc n) = memset_loop (m(s := c)) (s + 1) c n"

definition memset :: "mem \<Rightarrow> u64 \<Rightarrow> i32 \<Rightarrow> u64 \<Rightarrow> mem \<times> u64" where
  "memset m s c n = memset_loop m s (ucast c) (unat n)"

fun memcpy_loop :: "mem \<Rightarrow> u64 \<Rightarrow> u64 \<Rightarrow> nat \<Rightarrow> mem \<times> u64" where
  "memcpy_loop m out inp 0 = (m, out)"
| "memcpy_loop m out inp (Suc n) = memcpy_loop (m(out := m inp)) (out + 1) (inp + 1) n"

definition memcpy :: "mem \<Rightarrow> u64 \<Rightarrow> u64 \<Rightarrow> u64 \<Rightarrow> mem \<times> u64" where
  "memcpy m out inp n = memcpy_loop m out inp (unat n)"

fun memmove_back :: "mem \<Rightarrow> u64 \<Rightarrow> u64 \<Rightarrow> nat \<Rightarrow> mem \<times> u64" where
  "memmove_back m out inp 0 = (m, out)"
| "memmove_back m out inp (Suc n) = memmove_back (m(out := m inp)) (out - 1) (inp - 1) n"

text \<open>The forward branch of \<open>memmove\<close> drops the result of \<open>memcpy\<close> and returns \<open>dst\<close>.\<close>

definition memmove :: "mem \<Rightarrow> u64 \<Rightarrow> u64 \<Rightarrow> u64 \<Rightarrow> mem \<times> u64" where
  "memmove m dst src n =
     (if src < dst \<and> dst \<le> src + n
      then memmove_back m (dst + n - 1) (src + n - 1) (unat n)
      else (fst (memcpy m dst src n), dst))"

fun memcmp_loop :: "mem \<Rightarrow> u64 \<Rightarrow> u64 \<Rightarrow> nat \<Rightarrow> u64 \<times> u64" where
  "memcmp_loop m m1 m2 n =
     (if m m1 = m m2 \<and> n > 1 then memcmp_loop m (m1 + 1) (m2 + 1) (n - 1) else (m1, m2))"

definition memcmp :: "mem \<Rightarrow> u64 \<Rightarrow> u64 \<Rightarrow> u64 \<Rightarrow> int" where
  "memcmp m s1 s2 n =
     (case memcmp_loop m s1 s2 (unat n) of (p1, p2) \<Rightarrow> uint (m p1) - uint (m p2))"

definition ascii_lower :: "u8 \<Rightarrow> u8" where
  "ascii_lower c = (if 65 \<le> sint c \<and> sint c \<le> 90 then c + (97 - 65) else c)"

partial_function (option) strcasecmp :: "mem \<Rightarrow> u64 \<Rightarrow> u64 \<Rightarrow> int option" where
  "strcasecmp m s1 s2 =
     (if m s1 \<noteq> 0 \<and> m s2 \<noteq> 0 then
        (let c1 = ascii_lower (m s1); c2 = ascii_lower (m s2) in
         if c1 \<noteq> c2 then Some (sint c1 - sint c2) else strcasecmp m (s1 + 1) (s2 + 1))
      else Some (sint (m s1) - sint (m s2)))"

text \<open>The inner loops of \<open>strspn\<close> and \<open>strcspn\<close>: where the scan for \<open>c\<close> stops.\<close>

partial_function (option) str_scan :: "mem \<Rightarrow> u8 \<Rightarrow> u64 \<Rightarrow> u64 option" where
  "str_scan m c a = (if m a \<noteq> 0 then (if c = m a then Some a else str_scan m c (a + 1)) else Some a)"

partial_function (option) strspn_loop :: "mem \<Rightarrow> u64 \<Rightarrow> u64 \<Rightarrow> u64 \<Rightarrow> u64 option" where
  "strspn_loop m accept p count =
     (if m p \<noteq> 0 then
        (case str_scan m (m p) accept of None \<Rightarrow> None
         | Some a \<Rightarrow> if m a = 0 then Some count
                     else strspn_loop m accept (p + 1) (count + 1))
      else Some count)"

definition strspn :: "mem \<Rightarrow> u64 \<Rightarrow> u64 \<Rightarrow> u64 option" where
  "strspn m s accept = strspn_loop m accept s 0"

partial_function (option) strcspn_loop :: "mem \<Rightarrow> u64 \<Rightarrow> u64 \<Rightarrow> u64 \<Rightarrow> u64 option" where
  "strcspn_loop m reject p count =
     (if m p \<noteq> 0 then
        (case str_scan m (m p) reject of None \<Rightarrow> None
         | Some a \<Rightarrow> if m a \<noteq> 0 then Some count
                     else strcspn_loop m reject (p + 1) (count + 1))
      else Some count)"

definition strcspn :: "mem \<Rightarrow> u64 \<Rightarrow> u64 \<Rightarrow> u64 option" where
  "strcspn m s reject = strcspn_loop m reject s 0"

text \<open>
  \<open>strtok\<close> keeps a static pointer \<open>lasts\<close>, threaded here; the result is the new
  memory, the new \<open>lasts\<close> and the token's address (0 for NULL).
\<close>

definition strtok :: "mem \<Rightarrow> u64 \<Rightarrow> u64 \<Rightarrow> u64 \<Rightarrow> (mem \<times> u64 \<times> u64) option" where
  "strtok m lasts str delim =
     (let sbegin = (if str \<noteq> 0 then str else lasts) in
      if sbegin = 0 then Some (m, lasts, 0)
      else (case strspn m sbegin delim of None \<Rightarrow> None
        | Some k \<Rightarrow>
          (let sbegin = sbegin + k in
           if m sbegin = 0 then Some (m, 0, 0)
           else (case strcspn m sbegin delim of None \<Rightarrow> None
             | Some l \<Rightarrow>
               (let send = sbegin + l in
                if m send \<noteq> 0 then Some (m(send := 0), send + 1, sbegin)
                else Some (m, send, sbegin))))))"

text \<open>A NUL-terminated string at an address, and overlaps a forward copy survives.\<close>

primrec cstr :: "mem \<Rightarrow> u64 \<Rightarrow> bytes \<Rightarrow> bool" where
  "cstr m s [] \<longleftrightarrow> m s = 0"
| "cstr m s (x # xs) \<longleftrightarrow> x \<noteq> 0 \<and> m s = x \<and> cstr m (s + 1) xs"

definition fwd_ok :: "u64 \<Rightarrow> u64 \<Rightarrow> nat \<Rightarrow> bool" where
  "fwd_ok dst src n \<longleftrightarrow> dst = src \<or> n \<le> unat (dst - src)"

definition disjoint_regions :: "u64 \<Rightarrow> nat \<Rightarrow> u64 \<Rightarrow> nat \<Rightarrow> bool" where
  "disjoint_regions a n b k \<longleftrightarrow> n \<le> unat (b - a) \<and> k \<le> unat (a - b)"

section \<open>Byte-wise facts\<close>

lemma unat_step: "x \<noteq> a \<Longrightarrow> unat (x - (a + 1)) = unat (x - a) - 1" for x a :: u64
proof -
  assume "x \<noteq> a"
  then have "x - a \<noteq> 0" by simp
  then have "unat (x - a - 1) = unat (x - a) - 1" by (rule unat_minus_one)
  then show ?thesis by (simp add: diff_diff_eq)
qed

lemma write_bytes_Cons:
  assumes "length bs < 2 ^ 64"
  shows "write_bytes (m(a := b)) (a + 1) bs = write_bytes m a (b # bs)"
proof (rule ext)
  fix x
  show "write_bytes (m(a := b)) (a + 1) bs x = write_bytes m a (b # bs) x"
  proof (cases "x = a")
    case True
    with assms show ?thesis
      by (simp add: write_bytes_def)
  next
    case False
    then have "unat (x - a) \<noteq> 0" by (simp add: unat_eq_0)
    with False show ?thesis
      by (auto simp: write_bytes_def unat_step nth_Cons split: nat.splits)
  qed
qed

lemma write_bytes_snoc:
  assumes "length bs < 2 ^ 64"
  shows "write_bytes (m(a + of_nat (length bs) := b)) a bs = write_bytes m a (bs @ [b])"
proof (rule ext)
  fix x
  have *: "x = a + of_nat (length bs) \<longleftrightarrow> unat (x - a) = length bs"
  proof
    assume "unat (x - a) = length bs"
    then have "x - a = of_nat (length bs)" by (metis of_nat_unat ucast_id)
    then show "x = a + of_nat (length bs)" by (simp add: diff_eq_eq)
  qed (use assms in simp)
  show "write_bytes (m(a + of_nat (length bs) := b)) a bs x = write_bytes m a (bs @ [b]) x"
    by (auto simp: write_bytes_def nth_append *)
qed

lemma fwd_ok_Suc:
  assumes "fwd_ok dst src (Suc n)"
  shows "fwd_ok (dst + 1) (src + 1) n"
  using assms by (auto simp: fwd_ok_def)

lemma fwd_ok_unread:
  assumes "fwd_ok dst src (Suc n)" and "i < n" and "n < 2 ^ 64" and "b = m src"
  shows "(m(dst := b)) (src + 1 + of_nat i) = m (src + 1 + of_nat i)"
proof (cases "src + 1 + of_nat i = dst")
  case True
  have "unat (1 + of_nat i :: u64) = Suc i"
    using assms(2,3) by (simp add: unat_word_ariths)
  moreover from True have "dst - src = 1 + of_nat i" by auto
  ultimately have "unat (dst - src) = Suc i" by simp
  with assms(1,2) have "dst = src" by (simp add: fwd_ok_def)
  with \<open>unat (dst - src) = Suc i\<close> show ?thesis by simp
qed auto

lemma read_bytes_fwd:
  assumes "fwd_ok dst src (Suc n)" and "n < 2 ^ 64"
  shows "read_bytes (m(dst := m src)) (src + 1) n = read_bytes m (src + 1) n"
proof (rule nth_equalityI)
  fix i
  assume "i < length (read_bytes (m(dst := m src)) (src + 1) n)"
  then show "read_bytes (m(dst := m src)) (src + 1) n ! i = read_bytes m (src + 1) n ! i"
    using fwd_ok_unread [OF assms(1) _ assms(2) refl] by (simp del: fun_upd_apply)
qed simp

section \<open>memset, memcpy, memmove\<close>

lemma memset_loop_eq:
  assumes "n \<le> 2 ^ 64"
  shows "memset_loop m s c n = (write_bytes m s (replicate n c), s + of_nat n)"
  using assms
proof (induction n arbitrary: m s)
  case (Suc n)
  then show ?case
    using write_bytes_Cons [of "replicate n c" m s c] by (simp add: add.assoc)
qed simp

lemma memset_eq:
  "memset m s c n = (write_bytes m s (replicate (unat n) (ucast c)), s + n)"
  by (simp add: memset_def memset_loop_eq less_imp_le)

lemma memset_at:
  "fst (memset m s c n) x = (if in_region s (unat n) x then ucast c else m x)"
  by (auto simp: memset_eq write_bytes_def in_region_def)

lemma memcpy_loop_eq:
  assumes "fwd_ok out inp n" and "n \<le> 2 ^ 64"
  shows "memcpy_loop m out inp n = (write_bytes m out (read_bytes m inp n), out + of_nat n)"
  using assms
proof (induction n arbitrary: m out inp)
  case (Suc n)
  have "memcpy_loop m out inp (Suc n) =
      (write_bytes (m(out := m inp)) (out + 1) (read_bytes (m(out := m inp)) (inp + 1) n),
       out + 1 + of_nat n)"
    using Suc.IH [of "out + 1" "inp + 1" "m(out := m inp)"] Suc.prems
    by (simp add: fwd_ok_Suc del: fun_upd_apply)
  also have "read_bytes (m(out := m inp)) (inp + 1) n = read_bytes m (inp + 1) n"
    using Suc.prems by (intro read_bytes_fwd) auto
  finally show ?case
    using Suc.prems write_bytes_Cons [of "read_bytes m (inp + 1) n" m out "m inp"]
    by (simp add: read_bytes_Suc add.assoc del: fun_upd_apply)
qed simp

lemma memcpy_eq:
  assumes "fwd_ok out inp (unat n)"
  shows "memcpy m out inp n = (write_bytes m out (read_bytes m inp (unat n)), out + n)"
  using assms by (simp add: memcpy_def memcpy_loop_eq less_imp_le)

lemma read_bytes_snoc: "read_bytes m a (Suc n) = read_bytes m a n @ [m (a + of_nat n)]"
  by (simp add: read_bytes_def)

lemma read_bytes_bwd:
  assumes "fwd_ok src dst (Suc n)" and "n < 2 ^ 64"
  shows "read_bytes (m(dst + of_nat n := b)) src n = read_bytes m src n"
proof (rule nth_equalityI)
  fix i
  assume i: "i < length (read_bytes (m(dst + of_nat n := b)) src n)"
  have "src + of_nat i \<noteq> dst + of_nat n"
  proof
    assume "src + of_nat i = dst + of_nat n"
    with i have "src - dst = of_nat (n - i)"
      by (simp add: of_nat_diff diff_eq_eq eq_diff_eq algebra_simps)
    with i assms(2) have "unat (src - dst) = n - i" by simp
    with i assms show False by (auto simp: fwd_ok_def)
  qed
  with i show "read_bytes (m(dst + of_nat n := b)) src n ! i = read_bytes m src n ! i"
    by simp
qed simp

lemma memmove_back_eq:
  assumes "fwd_ok src dst n" and "n \<le> 2 ^ 64"
  shows "memmove_back m (dst + of_nat n - 1) (src + of_nat n - 1) n =
           (write_bytes m dst (read_bytes m src n), dst - 1)"
  using assms
proof (induction n arbitrary: m)
  case (Suc n)
  let ?m = "m(dst + of_nat n := m (src + of_nat n))"
  from Suc.prems have ok: "fwd_ok src dst n" by (auto simp: fwd_ok_def)
  have "memmove_back m (dst + of_nat (Suc n) - 1) (src + of_nat (Suc n) - 1) (Suc n) =
      memmove_back ?m (dst + of_nat n - 1) (src + of_nat n - 1) n"
    by (simp del: fun_upd_apply)
  also have "\<dots> = (write_bytes ?m dst (read_bytes ?m src n), dst - 1)"
    using Suc.prems ok by (intro Suc.IH) simp_all
  also have "read_bytes ?m src n = read_bytes m src n"
    using Suc.prems by (intro read_bytes_bwd) auto
  also have "write_bytes ?m dst (read_bytes m src n) =
      write_bytes m dst (read_bytes m src n @ [m (src + of_nat n)])"
    using write_bytes_snoc [of "read_bytes m src n" m dst "m (src + of_nat n)"] Suc.prems
    by (simp del: fun_upd_apply)
  finally show ?case by (simp only: read_bytes_snoc)
qed simp

lemma memmove_eq:
  assumes "unat src + unat n < 2 ^ 64" and "unat dst + unat n \<le> 2 ^ 64"
  shows "fst (memmove m dst src n) = write_bytes m dst (read_bytes m src (unat n))"
proof (cases "src < dst \<and> dst \<le> src + n")
  case True
  have "unat (src + n) = unat src + unat n"
    using assms(1) by (simp add: unat_plus_64)
  with True have lt: "unat src < unat dst" and "unat dst \<le> unat src + unat n"
    by (simp_all add: word_less_nat_alt word_le_nat_alt)
  with assms have "unat n \<le> unat (src - dst)"
    by (simp add: unat_sub_if')
  then have "fwd_ok src dst (unat n)" by (simp add: fwd_ok_def)
  then have "memmove_back m (dst + of_nat (unat n) - 1) (src + of_nat (unat n) - 1) (unat n) =
      (write_bytes m dst (read_bytes m src (unat n)), dst - 1)"
    by (rule memmove_back_eq) (simp add: less_imp_le)
  with True show ?thesis by (simp add: memmove_def)
next
  case False
  have "unat (src + n) = unat src + unat n"
    using assms(1) by (simp add: unat_plus_64)
  with False assms have "fwd_ok dst src (unat n)"
    by (cases "dst = src")
      (auto simp: fwd_ok_def unat_sub_if' word_less_nat_alt word_le_nat_alt dest: unsigned_word_eqI)
  with False show ?thesis by (auto simp: memmove_def memcpy_eq)
qed

section \<open>Strings\<close>

lemma cstr_iff:
  "cstr m s xs \<longleftrightarrow> read_bytes m s (Suc (length xs)) = xs @ [0] \<and> 0 \<notin> set xs"
  by (induction xs arbitrary: s) (auto simp: read_bytes_Suc)

lemma cstr_nth:
  assumes "cstr m s xs" and "i < length xs"
  shows "m (s + of_nat i) = xs ! i" and "m (s + of_nat i) \<noteq> 0"
  using assms
proof (induction xs arbitrary: s i)
  case (Cons x xs)
  { case 1
    with Cons show ?case by (cases i) (auto simp flip: add.assoc)
  next
    case 2
    with Cons show ?case by (cases i) (auto simp flip: add.assoc) }
qed simp_all

lemma cstr_end: "cstr m s xs \<Longrightarrow> m (s + of_nat (length xs)) = 0"
  by (induction xs arbitrary: s) (auto simp flip: add.assoc)

lemma cstr_length: "cstr m s xs \<Longrightarrow> length xs < 18446744073709551616"
proof (rule ccontr)
  assume str: "cstr m s xs" and "\<not> length xs < 18446744073709551616"
  define i where "i = length xs - 18446744073709551616"
  with \<open>\<not> _\<close> have len: "length xs = i + 18446744073709551616" by simp
  have "(of_nat (i + 18446744073709551616) :: u64) = of_nat i"
    by simp
  with cstr_end [OF str] cstr_nth(2) [OF str, of i] len show False
    by (simp del: of_nat_add)
qed

lemma cstr_cong:
  assumes "\<And>i. i \<le> length xs \<Longrightarrow> m' (s + of_nat i) = m (s + of_nat i)"
  shows "cstr m' s xs = cstr m s xs"
  using assms
proof (induction xs arbitrary: s)
  case (Cons x xs)
  have "m' (s + 1 + of_nat i) = m (s + 1 + of_nat i)" if "i \<le> length xs" for i
    using Cons.prems [of "Suc i"] that by (simp flip: add.assoc)
  with Cons.IH Cons.prems [of 0] show ?case by simp
next
  case Nil
  from Nil [of 0] show ?case by simp
qed

lemma strlen_loop_eq:
  "cstr m s xs \<Longrightarrow> strlen_loop m p s = Some (s + of_nat (length xs) - p)"
  by (induction xs arbitrary: s) (simp_all add: strlen_loop.simps algebra_simps)

lemma strlen_eq: "cstr m s xs \<Longrightarrow> strlen m s = Some (of_nat (length xs))"
  by (simp add: strlen_def strlen_loop_eq)

lemma str_end_eq: "cstr m s xs \<Longrightarrow> str_end m s = Some (s + of_nat (length xs))"
  by (induction xs arbitrary: s) (simp_all add: str_end.simps algebra_simps)

lemma cstr_fwd:
  assumes "cstr m src (x # xs)" and "fwd_ok dst src (Suc (Suc (length xs)))"
  shows "cstr (m(dst := x)) (src + 1) xs"
proof -
  have len: "length xs < 18446744073709551615"
    using cstr_length [OF assms(1)] by simp
  have "cstr (m(dst := x)) (src + 1) xs = cstr m (src + 1) xs"
    using fwd_ok_unread [OF assms(2), of _ x m] assms(1) len
    by (intro cstr_cong) (simp del: fun_upd_apply)
  with assms(1) show ?thesis by simp
qed

lemma strcpy_loop_eq:
  assumes "cstr m src xs" and "fwd_ok dst src (Suc (length xs))"
  shows "strcpy_loop m dst src = Some (write_bytes m dst (xs @ [0]))"
  using assms
proof (induction xs arbitrary: m dst src)
  case Nil
  have "write_bytes m dst [0] = m(dst := 0)"
    using write_bytes_Cons [of "[]" m dst 0] by (simp del: fun_upd_apply)
  with Nil show ?case by (simp add: strcpy_loop.simps del: fun_upd_apply)
next
  case (Cons x xs)
  let ?m = "m(dst := x)"
  have len: "length xs < 18446744073709551615"
    using cstr_length [OF Cons.prems(1)] by simp
  have "cstr ?m (src + 1) xs"
    using Cons.prems by (intro cstr_fwd) simp_all
  then have "strcpy_loop ?m (dst + 1) (src + 1) = Some (write_bytes ?m (dst + 1) (xs @ [0]))"
    using Cons.prems(2) by (intro Cons.IH) (simp_all add: fwd_ok_Suc del: fun_upd_apply)
  with Cons.prems(1) len show ?case
    using write_bytes_Cons [of "xs @ [0]" m dst x]
    by (simp add: strcpy_loop.simps [of m dst src] del: fun_upd_apply)
qed

lemma cstr_write:
  assumes "0 \<notin> set xs" and "length xs < 2 ^ 64"
  shows "cstr (write_bytes m a (xs @ [0])) a xs"
proof -
  have "read_bytes (write_bytes m a (xs @ [0])) a (length (xs @ [0])) = xs @ [0]"
    using assms(2) by (intro read_write_same) simp
  with assms(1) show ?thesis by (simp add: cstr_iff)
qed

lemma cstr_nonzero: "cstr m s xs \<Longrightarrow> 0 \<notin> set xs"
  by (simp add: cstr_iff)

lemma strcpy_eq:
  assumes "cstr m src xs" and "fwd_ok dst src (Suc (length xs))"
  shows "strcpy m dst src = Some (write_bytes m dst (xs @ [0]), dst)"
  using assms by (simp add: strcpy_def strcpy_loop_eq)

lemma write_bytes_append:
  assumes "length xs + length ys \<le> 2 ^ 64"
  shows "write_bytes (write_bytes m a xs) (a + of_nat (length xs)) ys = write_bytes m a (xs @ ys)"
  using assms
proof (induction xs arbitrary: m a)
  case (Cons x xs)
  have "write_bytes (write_bytes (m(a := x)) (a + 1) xs) (a + 1 + of_nat (length xs)) ys =
      write_bytes (m(a := x)) (a + 1) (xs @ ys)"
    using Cons.prems by (intro Cons.IH) simp
  then show ?case
    using Cons.prems write_bytes_Cons [of xs m a x] write_bytes_Cons [of "xs @ ys" m a x]
    by (simp add: add.assoc del: fun_upd_apply)
qed simp

lemma write_bytes_self:
  assumes "\<And>i. i < length bs \<Longrightarrow> m (a + of_nat i) = bs ! i"
  shows "write_bytes m a bs = m"
proof (rule ext)
  fix x
  show "write_bytes m a bs x = m x"
    using assms [of "unat (x - a)"] by (simp add: write_bytes_def)
qed

lemma strcat_eq:
  assumes "cstr m dst ys" and "cstr m src xs"
    and "fwd_ok (dst + of_nat (length ys)) src (Suc (length xs))"
    and "length ys + length xs < 2 ^ 64"
  shows "strcat m dst src = Some (write_bytes m dst (ys @ xs @ [0]), dst)"
proof -
  have "write_bytes m dst ys = m"
    using cstr_nth(1) [OF assms(1)] by (rule write_bytes_self)
  with write_bytes_append [of ys "xs @ [0]" m dst] assms
  have "write_bytes m (dst + of_nat (length ys)) (xs @ [0]) = write_bytes m dst (ys @ xs @ [0])"
    by simp
  with assms show ?thesis by (simp add: strcat_def str_end_eq strcpy_loop_eq)
qed

lemma strncpy_copy_eq:
  assumes "cstr m src xs" and "fwd_ok dst src (Suc (length xs))" and "n \<le> 2 ^ 64"
  shows "strncpy_copy m dst src n =
    (write_bytes m dst (take n xs), dst + of_nat (min n (length xs)), n - length xs)"
  using assms
proof (induction n arbitrary: m dst src xs)
  case (Suc n)
  show ?case
  proof (cases xs)
    case Nil
    with Suc.prems show ?thesis by simp
  next
    case (Cons x ys)
    let ?m = "m(dst := x)"
    have "strncpy_copy ?m (dst + 1) (src + 1) n =
        (write_bytes ?m (dst + 1) (take n ys), dst + 1 + of_nat (min n (length ys)), n - length ys)"
      using Suc.prems Cons
      by (intro Suc.IH) (simp_all add: cstr_fwd fwd_ok_Suc del: fun_upd_apply)
    moreover have "write_bytes ?m (dst + 1) (take n ys) = write_bytes m dst (x # take n ys)"
      using Suc.prems by (intro write_bytes_Cons) simp
    ultimately show ?thesis
      using Cons Suc.prems by (simp add: add.assoc del: fun_upd_apply)
  qed
qed simp

lemma strncpy_pad_eq:
  "n \<le> 2 ^ 64 \<Longrightarrow> strncpy_pad m dst n = write_bytes m dst (replicate n 0)"
proof (induction n arbitrary: m dst)
  case (Suc n)
  then show ?case
    using write_bytes_Cons [of "replicate n 0" m dst 0] by (simp del: fun_upd_apply)
qed simp

lemma strncpy_eq:
  assumes "cstr m src xs" and "fwd_ok dst src (Suc (length xs))"
  shows "strncpy m dst src n =
    (write_bytes m dst (take (unat n) xs @ replicate (unat n - length xs) 0), dst)"
proof -
  have "write_bytes (write_bytes m dst (take (unat n) xs))
      (dst + of_nat (length (take (unat n) xs))) (replicate (unat n - length xs) 0) =
    write_bytes m dst (take (unat n) xs @ replicate (unat n - length xs) 0)"
    by (rule write_bytes_append) (simp add: min_def)
  moreover have "unat n - length xs \<le> 2 ^ 64"
    using unat_le_64 [of n] by (simp del: unat_le_64)
  ultimately show ?thesis
    using assms by (simp add: strncpy_def strncpy_copy_eq strncpy_pad_eq min.commute)
qed

section \<open>Comparison\<close>

fun cmp_spec :: "nat \<Rightarrow> bytes \<Rightarrow> bytes \<Rightarrow> int" where
  "cmp_spec n (x # xs) (y # ys) =
     (if x = y \<and> n > 1 then cmp_spec (n - 1) xs ys else sint x - sint y)"
| "cmp_spec n (x # xs) [] = sint x"
| "cmp_spec n [] (y # ys) = - sint y"
| "cmp_spec n [] [] = 0"

declare strncmp_loop.simps [simp del]

lemma strncmp_eq:
  assumes "cstr m s1 xs" and "cstr m s2 ys"
  shows "strncmp m s1 s2 n = cmp_spec (unat n) xs ys"
proof -
  have "(case strncmp_loop m s1 s2 k of (p1, p2) \<Rightarrow> sint (m p1) - sint (m p2)) = cmp_spec k xs ys"
    for k
    using assms
  proof (induction k xs ys arbitrary: s1 s2 rule: cmp_spec.induct)
    case (1 n x xs y ys)
    then show ?case by (auto simp: strncmp_loop.simps [of m s1 s2 n])
  qed (auto simp: strncmp_loop.simps)
  then show ?thesis by (simp add: strncmp_def)
qed

lemma cmp_spec_eq_0:
  assumes "0 \<notin> set xs" and "0 \<notin> set ys" and "0 < n"
  shows "cmp_spec n xs ys = 0 \<longleftrightarrow> take n xs = take n ys"
  using assms
proof (induction n xs ys rule: cmp_spec.induct)
  case (1 n x xs y ys)
  then show ?case
    by (auto simp: take_Cons' dest: signed_word_eqI)
qed (auto simp: signed_eq_0_iff)

lemma str_scan_eq:
  assumes "cstr m a ds"
  shows "\<exists>p. str_scan m c a = Some p \<and> (m p = 0 \<longleftrightarrow> c \<notin> set ds)"
  using assms
  by (induction ds arbitrary: a) (auto simp: str_scan.simps)

lemma strspn_loop_eq:
  assumes "cstr m accept ds" and "cstr m p xs"
  shows "strspn_loop m accept p count =
    Some (count + of_nat (length (takeWhile (\<lambda>c. c \<in> set ds) xs)))"
  using assms(2)
proof (induction xs arbitrary: p count)
  case Nil
  then show ?case by (simp add: strspn_loop.simps)
next
  case (Cons x xs)
  obtain q where "str_scan m x accept = Some q" "m q = 0 \<longleftrightarrow> x \<notin> set ds"
    using str_scan_eq [OF assms(1)] by blast
  with Cons show ?case
    by (simp add: strspn_loop.simps [of m accept p])
qed

lemma strspn_eq:
  assumes "cstr m s xs" and "cstr m accept ds"
  shows "strspn m s accept = Some (of_nat (length (takeWhile (\<lambda>c. c \<in> set ds) xs)))"
  using assms by (simp add: strspn_def strspn_loop_eq)

lemma strcspn_loop_eq:
  assumes "cstr m reject ds" and "cstr m p xs"
  shows "strcspn_loop m reject p count =
    Some (count + of_nat (length (takeWhile (\<lambda>c. c \<notin> set ds) xs)))"
  using assms(2)
proof (induction xs arbitrary: p count)
  case Nil
  then show ?case by (simp add: strcspn_loop.simps)
next
  case (Cons x xs)
  obtain q where "str_scan m x reject = Some q" "m q = 0 \<longleftrightarrow> x \<notin> set ds"
    using str_scan_eq [OF assms(1)] by blast
  with Cons show ?case
    by (simp add: strcspn_loop.simps [of m reject p])
qed

lemma strcspn_eq:
  assumes "cstr m s xs" and "cstr m reject ds"
  shows "strcspn m s reject = Some (of_nat (length (takeWhile (\<lambda>c. c \<notin> set ds) xs)))"
  using assms by (simp add: strcspn_def strcspn_loop_eq)

lemma cstr_drop:
  assumes "cstr m s xs" and "k \<le> length xs"
  shows "cstr m (s + of_nat k) (drop k xs)"
  using assms
proof (induction k arbitrary: s xs)
  case (Suc k)
  then obtain x ys where "xs = x # ys" by (cases xs) auto
  with Suc.IH [of "s + 1" ys] Suc.prems show ?case by (simp add: add.assoc)
qed simp

lemma cstr_terminate:
  assumes "cstr m s xs" and "k \<le> length xs"
  shows "cstr (m(s + of_nat k := 0)) s (take k xs)"
proof -
  have "cstr (m(s + of_nat k := 0)) s (take k xs) = (read_bytes (m(s + of_nat k := 0)) s (Suc k) = take k xs @ [0])"
    using assms cstr_nonzero [OF assms(1)] by (auto simp: cstr_iff min_def dest: in_set_takeD)
  moreover have "read_bytes (m(s + of_nat k := 0)) s k = take k xs"
    using assms cstr_length [OF assms(1)] of_nat_inj_64
    by (intro nth_equalityI) (auto simp: cstr_nth)
  ultimately show ?thesis by (simp add: read_bytes_snoc)
qed

lemma strtok_eq:
  assumes "cstr m s xs" and "cstr m delim ds" and "s \<noteq> 0"
    and "rest = dropWhile (\<lambda>c. c \<in> set ds) xs" and "rest \<noteq> []"
    and "tok = takeWhile (\<lambda>c. c \<notin> set ds) rest"
  shows "\<exists>m' l t. strtok m lasts s delim = Some (m', l, t) \<and>
           cstr m' t tok \<and> cstr m' l (drop (Suc (length tok)) rest)"
proof -
  define k where "k = length (takeWhile (\<lambda>c. c \<in> set ds) xs)"
  let ?b = "s + of_nat k"
  let ?e = "?b + of_nat (length tok)"
  have k: "k \<le> length xs" "drop k xs = rest"
    by (simp_all add: k_def assms(4) length_takeWhile_le flip: dropWhile_eq_drop)
  have b: "cstr m ?b rest"
    using cstr_drop [OF assms(1) k(1)] k(2) by simp
  have e: "length tok \<le> length rest" "take (length tok) rest = tok"
    by (simp_all add: assms(6) length_takeWhile_le flip: takeWhile_eq_take)
  have mb: "m ?b \<noteq> 0"
    using b assms(5) cstr_nth(2) [OF b, of 0] by simp
  have sp: "strspn m s delim = Some (of_nat k)" "strcspn m ?b delim = Some (of_nat (length tok))"
    using assms b by (simp_all add: strspn_eq strcspn_eq k_def)
  have start: "strtok m lasts s delim =
      (if m ?e \<noteq> 0 then Some (m(?e := 0), ?e + 1, ?b) else Some (m, ?e, ?b))"
    using sp mb assms(3) by (simp add: strtok_def Let_def)
  show ?thesis
  proof (cases "length tok < length rest")
    case True
    have "cstr m (?e + 1) (drop (Suc (length tok)) rest)"
      using cstr_drop [OF b, of "Suc (length tok)"] True by (simp add: algebra_simps)
    moreover have "cstr (m(?e := 0)) (?e + 1) (drop (Suc (length tok)) rest) =
        cstr m (?e + 1) (drop (Suc (length tok)) rest)"
    proof (rule cstr_cong)
      fix i
      assume "i \<le> length (drop (Suc (length tok)) rest)"
      with True cstr_length [OF b] have "Suc i < 18446744073709551616" by simp
      then have "(of_nat (Suc i) :: u64) \<noteq> of_nat 0"
        by (subst of_nat_inj_64) simp_all
      then show "(m(?e := 0)) (?e + 1 + of_nat i) = m (?e + 1 + of_nat i)"
        by (simp add: add.assoc)
    qed
    moreover have "m ?e \<noteq> 0"
      using cstr_nth(2) [OF b True] .
    ultimately show ?thesis
      using start cstr_terminate [OF b e(1)] e(2) by simp
  next
    case False
    then have "take (length tok) rest = rest" by simp
    with e(2) have tok: "tok = rest" by (rule subst)
    then have me: "m ?e = 0" using cstr_end [OF b] by simp
    with start have "strtok m lasts s delim = Some (m, ?e, ?b)" by simp
    moreover have "cstr m ?b tok" using b tok by simp
    moreover have "cstr m ?e (drop (Suc (length tok)) rest)" using me tok by simp
    ultimately show ?thesis by blast
  qed
qed

section \<open>Properties\<close>

text \<open>
  C23: \<open>memmove\<close> moves \<open>n\<close> bytes from \<open>src\<close> to \<open>dst\<close> correctly for every overlap of the
  two regions, and changes no other byte, as long as neither region runs past the end
  of the address space.
\<close>

theorem memmove_moves:
  assumes "unat src + unat n < 2 ^ 64" and "unat dst + unat n \<le> 2 ^ 64"
  shows "fst (memmove m dst src n) a =
    (if in_region dst (unat n) a then m (src + (a - dst)) else m a)"
  using assms by (simp add: memmove_eq write_bytes_def in_region_def)

theorem memmove_moves_witness:
  "fst (memmove (\<lambda>a. if a = 100 then 7 else if a = 101 then 8 else 9) 101 100 2) 102 = 8"
proof -
  have "unat (100 :: u64) + unat (2 :: u64) < 2 ^ 64" "unat (101 :: u64) + unat (2 :: u64) \<le> 2 ^ 64"
    by simp_all
  from memmove_moves [OF this] show ?thesis by (simp add: in_region_def)
qed

text \<open>
  \<open>strcmp\<close> on two C strings is zero exactly when their first 1024 bytes
  (\<open>MAX_STR_LEN\<close>) agree; so it decides equality of strings shorter than that.
\<close>

theorem strcmp_prefix:
  assumes "cstr m s1 xs" and "cstr m s2 ys"
  shows "strcmp m s1 s2 = 0 \<longleftrightarrow> take 1024 xs = take 1024 ys"
  using assms
  by (simp add: strcmp_def strncmp_eq MAX_STR_LEN_def cmp_spec_eq_0 cstr_nonzero)

theorem strcmp_prefix_witness:
  "strcmp (\<lambda>a. if a = 10 then 97 else if a = 20 then 98 else 0) 10 20 \<noteq> 0"
proof -
  have "cstr (\<lambda>a. if a = 10 then 97 else if a = 20 then 98 else 0) 10 [97]"
    "cstr (\<lambda>a. if a = 10 then 97 else if a = 20 then 98 else 0) 20 [98]"
    by simp_all
  from strcmp_prefix [OF this] show ?thesis by simp
qed

text \<open>
  \<open>strcat\<close> appends: after it the destination holds the concatenation of the two
  strings, nothing outside the destination's \<open>length ys + length xs + 1\<close> bytes changes,
  and the destination is returned.
\<close>

theorem strcat_appends:
  assumes "cstr m dst ys" and "cstr m src xs" and "length ys + length xs < 2 ^ 64"
    and "fwd_ok (dst + of_nat (length ys)) src (Suc (length xs))"
  shows "\<exists>m'. strcat m dst src = Some (m', dst) \<and> cstr m' dst (ys @ xs) \<and>
    (\<forall>a. \<not> in_region dst (length ys + length xs + 1) a \<longrightarrow> m' a = m a)"
proof (intro exI conjI)
  show "strcat m dst src = Some (write_bytes m dst ((ys @ xs) @ [0]), dst)"
    using assms by (simp add: strcat_eq)
  show "cstr (write_bytes m dst ((ys @ xs) @ [0])) dst (ys @ xs)"
    using assms by (intro cstr_write) (simp_all add: cstr_nonzero)
  show "\<forall>a. \<not> in_region dst (length ys + length xs + 1) a \<longrightarrow>
      write_bytes m dst ((ys @ xs) @ [0]) a = m a"
    by (simp add: write_bytes_out)
qed

theorem strcat_appends_witness:
  "\<exists>m'. strcat (\<lambda>a. if a = 10 then 97 else if a = 20 then 98 else 0) 10 20 = Some (m', 10) \<and>
    cstr m' 10 ([97] @ [98]) \<and>
    (\<forall>a. \<not> in_region 10 (length [97 :: u8] + length [98 :: u8] + 1) a \<longrightarrow>
       m' a = (if a = 10 then 97 else if a = 20 then 98 else 0))"
  by (rule strcat_appends) (simp_all add: fwd_ok_def)

text \<open>
  \<open>strtok\<close> on a string with a token left returns a pointer to the first maximal
  run of non-delimiters, NUL-terminated in place, and leaves \<open>lasts\<close> at the rest of the
  string behind the delimiter it overwrote.
\<close>

theorem strtok_token:
  assumes "cstr m s xs" and "cstr m delim ds" and "s \<noteq> 0"
    and "dropWhile (\<lambda>c. c \<in> set ds) xs \<noteq> []"
  shows "\<exists>m' l t. strtok m lasts s delim = Some (m', l, t) \<and>
    cstr m' t (takeWhile (\<lambda>c. c \<notin> set ds) (dropWhile (\<lambda>c. c \<in> set ds) xs)) \<and>
    cstr m' l (drop (Suc (length (takeWhile (\<lambda>c. c \<notin> set ds) (dropWhile (\<lambda>c. c \<in> set ds) xs))))
      (dropWhile (\<lambda>c. c \<in> set ds) xs))"
  using strtok_eq [OF assms(1-3) refl assms(4) refl] .

theorem strtok_token_witness:
  "\<exists>m' l t. strtok (\<lambda>a. if a = 10 then 47 else if a = 11 then 97 else if a = 12 then 47
      else if a = 13 then 98 else if a = 20 then 47 else 0) 0 10 20 = Some (m', l, t) \<and>
    cstr m' t [97] \<and> cstr m' l [98]"
proof -
  let ?m = "\<lambda>a :: u64. if a = 10 then 47 else if a = 11 then 97 else if a = 12 then 47
      else if a = 13 then 98 else if a = 20 then 47 else (0 :: u8)"
  have "cstr ?m 10 [47, 97, 47, 98]" "cstr ?m 20 [47]" by simp_all
  from strtok_token [OF this] show ?thesis by simp
qed

end
