(* ===== verification/SortSpec.thy ===== *)
theory SortSpec
  imports Prelude "HOL-Library.Multiset"
begin

text \<open>
  What \<open>qsort\<close> of lolibc/string.c does to the list of the elements of its array: the same scans, exchanges and recursive
  calls on indices instead of addresses. A call on a part of the array is a call on that part of the list. \<open>left\<close> never lies on
  the first element, which is the pivot; the loops have this as a condition, so that \<open>right\<close> stays a natural number. The theory
  shows that these functions end and that the result is sorted. Theory CSort has the code, and carries this over to it.
\<close>

section \<open>The sort on lists\<close>

function list_scan_left :: "('a \<Rightarrow> 'a \<Rightarrow> int) \<Rightarrow> 'a list \<Rightarrow> nat \<Rightarrow> nat \<Rightarrow> nat" where
  "list_scan_left compar a l r = (if l \<le> r \<and> compar (a ! l) (a ! 0) \<le> 0 then list_scan_left compar a (Suc l) r else l)"
  by pat_completeness auto

termination list_scan_left
  by (relation "measure (\<lambda>(c, a, l, r). Suc r - l)") auto

function list_scan_right :: "('a \<Rightarrow> 'a \<Rightarrow> int) \<Rightarrow> 'a list \<Rightarrow> nat \<Rightarrow> nat \<Rightarrow> nat" where
  "list_scan_right compar a l r = (if 0 < l \<and> l \<le> r \<and> compar (a ! r) (a ! 0) > 0 then list_scan_right compar a l (r - 1) else r)"
  by pat_completeness auto

termination list_scan_right
  by (relation "measure (\<lambda>(c, a, l, r). r)") auto

declare list_scan_left.simps [simp del] list_scan_right.simps [simp del]

definition list_swap :: "nat \<Rightarrow> nat \<Rightarrow> 'a list \<Rightarrow> 'a list" where
  "list_swap i j a = a[i := a ! j, j := a ! i]"

lemma list_scan_left_spec:
  "l \<le> list_scan_left compar a l r" "\<And>i. l \<le> i \<Longrightarrow> i < list_scan_left compar a l r \<Longrightarrow> compar (a ! i) (a ! 0) \<le> 0"
  "list_scan_left compar a l r \<le> r \<Longrightarrow> compar (a ! list_scan_left compar a l r) (a ! 0) > 0" "l \<le> Suc r \<Longrightarrow> list_scan_left compar a l r \<le> Suc r"
proof (induction compar a l r rule: list_scan_left.induct)
  case (1 compar a l r)
  note IH = "1.IH"
  show "l \<le> list_scan_left compar a l r"
    using IH(1) by (subst list_scan_left.simps) (auto simp: Suc_le_eq)
  show "compar (a ! i) (a ! 0) \<le> 0" if "l \<le> i" "i < list_scan_left compar a l r" for i
    using that IH(2) [of i] by (subst (asm) list_scan_left.simps) (cases "i = l"; simp split: if_splits)
  show "compar (a ! list_scan_left compar a l r) (a ! 0) > 0" if "list_scan_left compar a l r \<le> r"
    using that IH(3) by (subst list_scan_left.simps, subst (asm) list_scan_left.simps) (auto split: if_splits)
  show "list_scan_left compar a l r \<le> Suc r" if "l \<le> Suc r"
    using that IH(4) by (subst list_scan_left.simps) auto
qed

lemma list_scan_right_spec:
  "list_scan_right compar a l r \<le> r" "\<And>i. i \<le> r \<Longrightarrow> list_scan_right compar a l r < i \<Longrightarrow> compar (a ! i) (a ! 0) > 0"
  "0 < l \<Longrightarrow> l \<le> list_scan_right compar a l r \<Longrightarrow> compar (a ! list_scan_right compar a l r) (a ! 0) \<le> 0"
  "0 < l \<Longrightarrow> l \<le> Suc r \<Longrightarrow> l \<le> Suc (list_scan_right compar a l r)"
proof (induction compar a l r rule: list_scan_right.induct)
  case (1 compar a l r)
  note IH = "1.IH"
  show "list_scan_right compar a l r \<le> r"
    using IH(1) by (subst list_scan_right.simps) auto
  show "compar (a ! i) (a ! 0) > 0" if "i \<le> r" "list_scan_right compar a l r < i" for i
    using that IH(2) [of i] by (subst (asm) list_scan_right.simps) (cases "i = r"; force split: if_splits)
  show "compar (a ! list_scan_right compar a l r) (a ! 0) \<le> 0" if "0 < l" "l \<le> list_scan_right compar a l r"
    using that IH(3) by (subst list_scan_right.simps, subst (asm) list_scan_right.simps) (auto split: if_splits)
  show "l \<le> Suc (list_scan_right compar a l r)" if "0 < l" "l \<le> Suc r"
    using that IH(4) by (subst list_scan_right.simps) auto
qed

text \<open>A round of the outer loop leaves nothing between the indices or brings them closer.\<close>

lemma scans_meet:
  assumes "0 < l" "l \<le> r" "\<not> list_scan_left compar a l r < list_scan_right compar a (list_scan_left compar a l r) r"
  shows "list_scan_right compar a (list_scan_left compar a l r) r < list_scan_left compar a l r"
proof (rule ccontr)
  let ?l = "list_scan_left compar a l r"
  let ?r = "list_scan_right compar a ?l r"
  assume "\<not> ?r < ?l"
  then have e: "?l = ?r" using assms(3) by simp
  have "0 < ?l" using list_scan_left_spec(1) [of l compar a r] assms(1) by simp
  moreover have "?r \<le> r" by (rule list_scan_right_spec(1))
  ultimately show False using list_scan_left_spec(3) [of compar a l r] list_scan_right_spec(3) [of ?l compar a r] e by simp
qed

function list_partition :: "('a \<Rightarrow> 'a \<Rightarrow> int) \<Rightarrow> 'a list \<Rightarrow> nat \<Rightarrow> nat \<Rightarrow> 'a list \<times> nat" where
  "list_partition compar a l r =
     (if 0 < l \<and> l \<le> r then
        let l1 = list_scan_left compar a l r; r1 = list_scan_right compar a l1 r in
        if l1 < r1 then list_partition compar (list_swap l1 r1 a) (Suc l1) (r1 - 1)
        else list_partition compar a l1 r1
      else (a, r))"
  by pat_completeness auto

termination list_partition
proof (relation "measure (\<lambda>(c, a, l, r). Suc r - l)", goal_cases)
  case (2 compar a l r l1 r1)
  then show ?case using list_scan_left_spec(1) [of l compar a r] list_scan_right_spec(1) [of compar a l1 r] by simp
next
  case (3 compar a l r l1 r1)
  then show ?case using scans_meet [of l r compar a] by simp
qed simp

declare list_partition.simps [simp del]

lemma length_list_swap [simp]: "length (list_swap i j a) = length a"
  by (simp add: list_swap_def)

lemma mset_list_swap [simp]: "i < length a \<Longrightarrow> j < length a \<Longrightarrow> mset (list_swap i j a) = mset a"
  by (simp add: list_swap_def mset_swap)

lemma nth_list_swap: "i < length a \<Longrightarrow> j < length a \<Longrightarrow> m < length a \<Longrightarrow>
    list_swap i j a ! m = (if m = j then a ! i else if m = i then a ! j else a ! m)"
  by (simp add: list_swap_def nth_list_update)

text \<open>What holds before every round: behind the pivot up to \<open>left\<close> nothing is greater, behind \<open>right\<close> everything is.\<close>

definition split_at :: "('a \<Rightarrow> 'a \<Rightarrow> int) \<Rightarrow> 'a list \<Rightarrow> nat \<Rightarrow> nat \<Rightarrow> bool" where
  "split_at compar a l r \<longleftrightarrow> 0 < l \<and> l \<le> Suc r \<and> r < length a \<and>
     (\<forall>i. 0 < i \<and> i < l \<longrightarrow> compar (a ! i) (a ! 0) \<le> 0) \<and> (\<forall>i. r < i \<and> i < length a \<longrightarrow> compar (a ! i) (a ! 0) > 0)"

lemma split_at_scans:
  assumes "split_at compar a l r" "l \<le> r"
  defines "l1 \<equiv> list_scan_left compar a l r"
  defines "r1 \<equiv> list_scan_right compar a l1 r"
  shows "split_at compar a l1 r1"
    "l1 < r1 \<Longrightarrow> split_at compar (list_swap l1 r1 a) (Suc l1) (r1 - 1)"
proof -
  have S: "0 < l" "r < length a" "\<And>i. 0 < i \<Longrightarrow> i < l \<Longrightarrow> compar (a ! i) (a ! 0) \<le> 0"
    "\<And>i. r < i \<Longrightarrow> i < length a \<Longrightarrow> compar (a ! i) (a ! 0) > 0"
    using assms(1) by (auto simp: split_at_def)
  have L: "l \<le> l1" "l1 \<le> Suc r" "\<And>i. 0 < i \<Longrightarrow> i < l1 \<Longrightarrow> compar (a ! i) (a ! 0) \<le> 0" "l1 \<le> r \<Longrightarrow> compar (a ! l1) (a ! 0) > 0"
    using list_scan_left_spec [where l = l and compar = compar and a = a and r = r] assms(2) S(3) unfolding l1_def by (simp_all, meson not_less)
  have R: "r1 \<le> r" "l1 \<le> Suc r1" "\<And>i. r1 < i \<Longrightarrow> i < length a \<Longrightarrow> compar (a ! i) (a ! 0) > 0" "l1 \<le> r1 \<Longrightarrow> compar (a ! r1) (a ! 0) \<le> 0"
    using list_scan_right_spec [where l = l1 and compar = compar and a = a and r = r] L(1,2) S(1,4) unfolding r1_def by (simp_all, meson not_less)
  show "split_at compar a l1 r1" using S(1,2) L R by (simp add: split_at_def)
  assume lt: "l1 < r1"
  have l0: "0 < l1" using S(1) L(1) by simp
  have n: "list_swap l1 r1 a ! m = (if m = r1 then a ! l1 else if m = l1 then a ! r1 else a ! m)" if "m < length a" for m
    using that lt R(1) S(2) by (intro nth_list_swap) simp_all
  show "split_at compar (list_swap l1 r1 a) (Suc l1) (r1 - 1)"
    unfolding split_at_def
  proof (intro conjI allI impI)
    have p: "list_swap l1 r1 a ! 0 = a ! 0" using n [of 0] l0 lt R(1) S(2) by fastforce
    show "compar (list_swap l1 r1 a ! i) (list_swap l1 r1 a ! 0) \<le> 0" if "0 < i \<and> i < Suc l1" for i
      using that n [of i] p L(3) [of i] R(4) lt R(1) S(2) by (cases "i = l1") auto
    show "compar (list_swap l1 r1 a ! i) (list_swap l1 r1 a ! 0) > 0" if "r1 - 1 < i \<and> i < length (list_swap l1 r1 a)" for i
      using that n [of i] p R(3) [of i] L(4) lt R(1) by (cases "i = r1") auto
  qed (use lt R(1) S(2) in auto)
qed

lemma list_partition_spec:
  "split_at compar a l r \<Longrightarrow> list_partition compar a l r = (b, q) \<Longrightarrow>
     split_at compar b (Suc q) q \<and> mset b = mset a \<and> length b = length a \<and> b ! 0 = a ! 0"
proof (induction compar a l r rule: list_partition.induct)
  case (1 compar a l r)
  let ?l = "list_scan_left compar a l r"
  let ?r = "list_scan_right compar a ?l r"
  have l: "0 < l" "r < length a" using "1.prems"(1) by (auto simp: split_at_def)
  show ?case
  proof (cases "l \<le> r")
    case True
    note S = split_at_scans [OF "1.prems"(1) True]
    have b: "l \<le> ?l" "?r \<le> r" by (simp_all add: list_scan_left_spec(1) list_scan_right_spec(1))
    show ?thesis
    proof (cases "?l < ?r")
      case lt: True
      have P: "list_partition compar (list_swap ?l ?r a) (Suc ?l) (?r - 1) = (b, q)"
        using "1.prems"(2) l True lt by (subst (asm) list_partition.simps) (simp add: Let_def)
      have "list_swap ?l ?r a ! 0 = a ! 0" using nth_list_swap [of ?l a ?r 0] lt b l by fastforce
      moreover have "mset (list_swap ?l ?r a) = mset a" using lt b l by (intro mset_list_swap) auto
      ultimately show ?thesis using "1.IH"(1) [OF _ refl refl lt S(2) [OF lt] P] l True by simp
    next
      case False
      have P: "list_partition compar a ?l ?r = (b, q)"
        using "1.prems"(2) l True False by (subst (asm) list_partition.simps) (simp add: Let_def)
      show ?thesis using "1.IH"(2) [OF _ refl refl False S(1) P] l True by simp
    qed
  next
    case False
    then have "(b, q) = (a, r)" using "1.prems"(2) by (subst (asm) list_partition.simps) simp
    moreover have "l = Suc r" using False "1.prems"(1) by (simp add: split_at_def)
    ultimately show ?thesis using "1.prems"(1) by simp
  qed
qed

function list_qsort :: "('a \<Rightarrow> 'a \<Rightarrow> int) \<Rightarrow> 'a list \<Rightarrow> 'a list" where
  "list_qsort compar a =
     (if length a \<le> 1 then a
      else let (b, r) = list_partition compar a 1 (length a - 1); c = list_swap 0 r b in
        list_qsort compar (take r c) @ [c ! r] @ list_qsort compar (drop (Suc r) c))"
  by pat_completeness auto

lemma partition_start: "1 < length a \<Longrightarrow> split_at compar a 1 (length a - 1)"
  by (auto simp: split_at_def)

termination list_qsort
proof (relation "measure (\<lambda>(c, a). length a)", goal_cases)
  case (2 compar a p b r c)
  then show ?case using list_partition_spec [OF partition_start, of a compar b r] by (auto simp: split_at_def min_def)
next
  case (3 compar a p b r c)
  then show ?case using list_partition_spec [OF partition_start, of a compar b r] by (auto simp: split_at_def)
qed simp

declare list_qsort.simps [simp del]

text \<open>The parts of the array before and behind the place of the pivot.\<close>

lemma list_qsort_parts:
  assumes "1 < length a" "list_partition compar a 1 (length a - 1) = (b, r)"
  defines "c \<equiv> list_swap 0 r b"
  shows "list_qsort compar a = list_qsort compar (take r c) @ [c ! r] @ list_qsort compar (drop (Suc r) c)" "mset c = mset a" "r < length c"
    "\<forall>x\<in>set (take r c). compar x (c ! r) \<le> 0" "\<forall>x\<in>set (drop (Suc r) c). compar x (c ! r) > 0" "length c = length a"
proof -
  have P: "split_at compar b (Suc r) r" "mset b = mset a" "length b = length a"
    using list_partition_spec [OF partition_start [OF assms(1)] assms(2)] by simp_all
  then have r: "r < length b" "\<And>i. 0 < i \<Longrightarrow> i \<le> r \<Longrightarrow> compar (b ! i) (b ! 0) \<le> 0"
    "\<And>i. r < i \<Longrightarrow> i < length b \<Longrightarrow> compar (b ! i) (b ! 0) > 0"
    by (auto simp: split_at_def)
  have n: "c ! m = (if m = r then b ! 0 else if m = 0 then b ! r else b ! m)" if "m < length b" for m
    unfolding c_def using that r(1) by (intro nth_list_swap) auto
  show "list_qsort compar a = list_qsort compar (take r c) @ [c ! r] @ list_qsort compar (drop (Suc r) c)"
    using assms(1,2) unfolding c_def by (subst list_qsort.simps) (simp add: Let_def)
  show "mset c = mset a" using r(1) P(2) mset_list_swap [of 0 b r] unfolding c_def by (cases b) auto
  show l: "r < length c" "length c = length a" using r(1) P(3) by (simp_all add: c_def)
  show "\<forall>x\<in>set (take r c). compar x (c ! r) \<le> 0"
  proof
    fix x assume "x \<in> set (take r c)"
    then obtain i where i: "i < r" "x = c ! i" by (auto simp: in_set_conv_nth)
    then show "compar x (c ! r) \<le> 0" using n [of i] n [of r] r(1) r(2) [of i] r(2) [of r] by (cases "i = 0") fastforce+
  qed
  show "\<forall>x\<in>set (drop (Suc r) c). compar x (c ! r) > 0"
  proof
    fix x assume "x \<in> set (drop (Suc r) c)"
    then obtain j where j: "j < length c - Suc r" "x = c ! (Suc r + j)" by (auto simp: in_set_conv_nth)
    then obtain i where i: "r < i" "i < length c" "x = c ! i" by (metis less_add_Suc1 less_diff_conv2 add.commute add_Suc l(1) Suc_leI less_diff_conv)
    then show "compar x (c ! r) > 0" using n [of i] n [of r] r(1) r(3) [of i] by (auto simp: c_def)
  qed
qed

lemma mset_list_qsort: "mset (list_qsort compar a) = mset a"
proof (induction "length a" arbitrary: a rule: less_induct)
  case less
  show ?case
  proof (cases "1 < length a")
    case True
    obtain b r where b: "list_partition compar a 1 (length a - 1) = (b, r)" by fastforce
    note P = list_qsort_parts [OF True b]
    let ?c = "list_swap 0 r b"
    have "mset (take r ?c) + (mset [?c ! r] + mset (drop (Suc r) ?c)) = mset ?c"
      using P(3) by (metis id_take_nth_drop mset.simps(2) mset_append union_assoc append_Cons append_Nil)
    then show ?thesis using P(1,2,3,6) less [of "take r ?c"] less [of "drop (Suc r) ?c"] by simp
  qed (subst list_qsort.simps, simp)
qed

lemma list_qsort_sorts:
  assumes "\<And>x y z. compar x y \<le> 0 \<Longrightarrow> compar y z \<le> 0 \<Longrightarrow> compar x z \<le> 0" and "\<And>x y. compar x y > 0 \<Longrightarrow> compar y x \<le> 0"
  shows "sorted_wrt (\<lambda>x y. compar x y \<le> 0) (list_qsort compar a) \<and> mset (list_qsort compar a) = mset a"
proof
  show "mset (list_qsort compar a) = mset a" by (rule mset_list_qsort)
  show "sorted_wrt (\<lambda>x y. compar x y \<le> 0) (list_qsort compar a)"
  proof (induction "length a" arbitrary: a rule: less_induct)
    case less
    show ?case
    proof (cases "1 < length a")
      case True
      obtain b r where b: "list_partition compar a 1 (length a - 1) = (b, r)" by fastforce
      note P = list_qsort_parts [OF True b]
      let ?c = "list_swap 0 r b"
      have s: "set (list_qsort compar (take r ?c)) = set (take r ?c)" "set (list_qsort compar (drop (Suc r) ?c)) = set (drop (Suc r) ?c)"
        by (metis mset_list_qsort set_mset_mset)+
      have "compar x y \<le> 0" if "x \<in> set (take r ?c)" "y \<in> set (drop (Suc r) ?c)" for x y
        using that P(4,5) assms by blast
      then show ?thesis
        using P(1,3,6) less [of "take r ?c"] less [of "drop (Suc r) ?c"] P(4,5) assms(2)
        by (simp add: sorted_wrt_append s)
    next
      case False
      then have "length a \<le> 1" by simp
      then have "list_qsort compar a = a" by (subst list_qsort.simps) simp
      moreover have "a = [] \<or> (\<exists>x. a = [x])" using \<open>length a \<le> 1\<close> by (cases a) auto
      ultimately show ?thesis by auto
    qed
  qed
qed

end
