(* ===== verification/Memblock.thy ===== *)
theory Memblock
  imports CString
begin

text \<open>
  The physical page allocator: mm/memblock.c and the \<open>kmalloc\<close>/\<open>kfree\<close> front end of
  mm/mm.c, with the page macros of include/memlayout.h. The free list is threaded
  through the free pages themselves: the first eight bytes of a free page hold the
  address of the next one. \<open>mm_inv s xs\<close> says that the list starting at
  \<open>kmem.freelist\<close> visits exactly the distinct, aligned pages \<open>xs\<close>. The locale
  \<open>page_allocator\<close> is the contract the virtual-memory code relies on; it is
  interpreted on \<open>kmalloc\<close> and \<open>kfree\<close>.
\<close>

section \<open>Definitions\<close>

definition PGSIZE :: u64 where
  "PGSIZE = 16384"

definition PGROUNDUP :: "u64 \<Rightarrow> u64" where
  "PGROUNDUP sz = (sz + PGSIZE - 1) AND NOT (PGSIZE - 1)"

definition PGROUNDDOWN :: "u64 \<Rightarrow> u64" where
  "PGROUNDDOWN a = a AND NOT (PGSIZE - 1)"

definition KERNBASE :: u64 where
  "KERNBASE = 0x9000000090000000"

definition KMEMSIZE :: u64 where
  "KMEMSIZE = 128 * 1024 * 1024"

definition PHYSTOP :: u64 where
  "PHYSTOP = KERNBASE + KMEMSIZE"

text \<open>Byte memory and \<open>kmem.freelist\<close>.\<close>

record mm =
  mem :: mem
  freelist :: u64

text \<open>Fill the page with 1s, then link it in front of the list.\<close>

definition kfree_page_memblock :: "u64 \<Rightarrow> mm \<Rightarrow> mm" where
  "kfree_page_memblock pa s =
     (let m1 = fst (memset (mem s) pa 1 PGSIZE);
          m2 = store64 m1 pa (freelist s)
      in s\<lparr>mem := m2, freelist := pa\<rparr>)"

text \<open>Pop the first page, fill it with 5s; panic on an empty list.\<close>

definition kalloc_page_memblock :: "mm \<Rightarrow> (u64 \<times> mm) kres" where
  "kalloc_page_memblock s =
     (let r = freelist s in
      if r = 0 then Inl (Panic ''kalloc'')
      else Inr (r, s\<lparr>freelist := load64 (mem s) r, mem := fst (memset (mem s) r 5 PGSIZE)\<rparr>))"

partial_function (option) freerange_loop :: "u64 \<Rightarrow> u64 \<Rightarrow> mm \<Rightarrow> mm option" where
  "freerange_loop p pa_end s =
     (if p + PGSIZE \<le> pa_end
      then freerange_loop (p + PGSIZE) pa_end (kfree_page_memblock p s)
      else Some s)"

definition freerange :: "u64 \<Rightarrow> u64 \<Rightarrow> mm \<Rightarrow> mm option" where
  "freerange pa_start pa_end s = freerange_loop (PGROUNDUP pa_start) pa_end s"

text \<open>\<open>kernel_end\<close> is a symbol of the linker script.\<close>

definition kinit_memblock :: "u64 \<Rightarrow> mm \<Rightarrow> mm option" where
  "kinit_memblock kernel_end s = freerange kernel_end PHYSTOP s"

definition pmm_init :: "u64 \<Rightarrow> mm \<Rightarrow> mm option" where
  "pmm_init kernel_end s = kinit_memblock kernel_end s"

definition kmalloc :: "i32 \<Rightarrow> mm \<Rightarrow> (u64 \<times> mm) kres" where
  "kmalloc sz s =
     (if sint sz > 16384 then Inl (Panic ''too big alloc request!'')
      else kalloc_page_memblock s)"

definition kfree :: "u64 \<Rightarrow> mm \<Rightarrow> mm kres" where
  "kfree paddr s =
     (if paddr mod PGSIZE = 0 then Inr (kfree_page_memblock paddr s)
      else Inl (Panic ''unaligned kfree request''))"

text \<open>Pages, the list they form, and the allocator's invariant.\<close>

definition page_aligned :: "u64 \<Rightarrow> bool" where
  "page_aligned p \<longleftrightarrow> unat p mod 16384 = 0"

definition in_page :: "u64 \<Rightarrow> u64 \<Rightarrow> bool" where
  "in_page p a \<longleftrightarrow> in_region p 16384 a"

primrec free_chain :: "mem \<Rightarrow> u64 \<Rightarrow> u64 list \<Rightarrow> bool" where
  "free_chain m p [] \<longleftrightarrow> p = 0"
| "free_chain m p (x # xs) \<longleftrightarrow> p = x \<and> x \<noteq> 0 \<and> free_chain m (load64 m x) xs"

definition mm_inv :: "mm \<Rightarrow> u64 list \<Rightarrow> bool" where
  "mm_inv s xs \<longleftrightarrow> free_chain (mem s) (freelist s) xs \<and> distinct xs \<and>
     (\<forall>x\<in>set xs. page_aligned x)"

definition page_run :: "u64 \<Rightarrow> nat \<Rightarrow> u64 list" where
  "page_run p n = map (\<lambda>i. p + of_nat (i * 16384)) [0..<n]"

text \<open>A client that asks for \<open>n\<close> pages in a row, generic in the allocator it calls.\<close>

primrec alloc_many :: "('s \<Rightarrow> (u64 \<times> 's) kres) \<Rightarrow> nat \<Rightarrow> 's \<Rightarrow> (u64 list \<times> 's) kres" where
  "alloc_many alloc 0 s = Inr ([], s)"
| "alloc_many alloc (Suc n) s =
     kbind (alloc s) (\<lambda>(p, s1). kbind (alloc_many alloc n s1) (\<lambda>(ps, s2). Inr (p # ps, s2)))"

section \<open>Pages\<close>

lemma page_alignedE:
  assumes "page_aligned p"
  obtains k where "unat p = 16384 * k" and "k < 1125899906842624"
proof
  show "unat p = 16384 * (unat p div 16384)"
    using assms mult_div_mod_eq [of 16384 "unat p"] by (simp add: page_aligned_def)
  then show "unat p div 16384 < 1125899906842624"
    using unat_lt_64 [of p] by linarith
qed

lemma in_page_iff:
  assumes "page_aligned p"
  shows "in_page p a \<longleftrightarrow> unat a div 16384 = unat p div 16384"
proof -
  obtain k where k: "unat p = 16384 * k" "k < 1125899906842624"
    using assms by (rule page_alignedE)
  define q r where "q = unat a div 16384" and "r = unat a mod 16384"
  have a: "unat a = 16384 * q + r" and r: "r < 16384"
    by (simp_all add: q_def r_def)
  have "unat (a - p) < 16384 \<longleftrightarrow> q = k"
  proof (cases "unat p \<le> unat a")
    case True
    then have "k \<le> q" using k(1) a r by linarith
    moreover have "unat (a - p) = 16384 * q + r - 16384 * k"
      using True k(1) a by (simp add: word_sub_unat)
    ultimately show ?thesis using r by linarith
  next
    case False
    then have "q < k" using k(1) a r by linarith
    moreover have "unat (a - p) = unat a + 18446744073709551616 - unat p"
      using False by (simp add: unat_sub_if')
    ultimately show ?thesis using k by linarith
  qed
  then show ?thesis
    unfolding in_page_def in_region_def using k(1) by (simp add: q_def)
qed

lemma in_page_unique:
  assumes "page_aligned p" "page_aligned q" "in_page p a" "in_page q a"
  shows "p = q"
proof -
  obtain k where k: "unat p = 16384 * k" using assms(1) by (rule page_alignedE)
  obtain l where l: "unat q = 16384 * l" using assms(2) by (rule page_alignedE)
  have "unat p div 16384 = unat q div 16384"
    using assms by (simp add: in_page_iff)
  with k l have "unat p = unat q" by simp
  then show ?thesis by (rule unsigned_word_eqI)
qed

lemma in_page_word:
  assumes "in_region (p + of_nat k) 8 a" and "k \<le> 16376"
  shows "in_page p a"
proof -
  have "unat (a - p) < k + 8"
  proof -
    have "a - p = (a - (p + of_nat k)) + of_nat k" by simp
    then have "unat (a - p) = unat ((a - (p + of_nat k)) + of_nat k)" by simp
    also have "\<dots> = unat (a - (p + of_nat k)) + k"
      using assms by (subst unat_plus_64) (simp_all add: in_region_def)
    finally show ?thesis using assms(1) by (simp add: in_region_def)
  qed
  with assms(2) show ?thesis by (simp add: in_page_def in_region_def)
qed

lemma in_page_word0: "in_region p 8 a \<Longrightarrow> in_page p a"
  using in_page_word [of p 0 a] by simp

lemma kfree_aligned: "p mod PGSIZE = 0 \<longleftrightarrow> page_aligned p"
proof -
  have "unat (p mod PGSIZE) = unat p mod 16384"
    by (simp add: PGSIZE_def unat_mod)
  then show ?thesis by (metis page_aligned_def unat_eq_0)
qed

lemma memset_page:
  "fst (memset m p c PGSIZE) a = (if in_page p a then ucast c else m a)"
  by (simp add: memset_at in_page_def PGSIZE_def)

section \<open>The free list\<close>

lemma free_chain_cong:
  assumes "\<And>x a. x \<in> set xs \<Longrightarrow> in_page x a \<Longrightarrow> m' a = m a"
  shows "free_chain m' p xs = free_chain m p xs"
  using assms
proof (induction xs arbitrary: p)
  case (Cons x xs)
  have "load64 m' x = load64 m x"
    using Cons.prems [of x] in_page_word0 by (intro load64_cong) auto
  moreover have "free_chain m' q xs = free_chain m q xs" for q
    using Cons.prems by (intro Cons.IH) auto
  ultimately show ?case by simp
qed simp

lemma mm_inv_frame:
  assumes "mm_inv s xs" and "\<And>x a. x \<in> set xs \<Longrightarrow> in_page x a \<Longrightarrow> m a = mem s a"
  shows "mm_inv (s\<lparr>mem := m\<rparr>) xs"
  using assms free_chain_cong [of xs m "mem s" "freelist s"] by (simp add: mm_inv_def)

lemma mm_inv_nonzero: "mm_inv s xs \<Longrightarrow> x \<in> set xs \<Longrightarrow> x \<noteq> 0"
proof -
  have "free_chain m p xs \<Longrightarrow> x \<in> set xs \<Longrightarrow> x \<noteq> 0" for m p
    by (induction xs arbitrary: p) auto
  then show "mm_inv s xs \<Longrightarrow> x \<in> set xs \<Longrightarrow> x \<noteq> 0" by (auto simp: mm_inv_def)
qed

lemma kalloc_empty: "mm_inv s [] \<Longrightarrow> kalloc_page_memblock s = Inl (Panic ''kalloc'')"
  by (simp add: mm_inv_def kalloc_page_memblock_def)

lemma kalloc_Cons:
  assumes "mm_inv s (x # xs)"
  shows "\<exists>s'. kalloc_page_memblock s = Inr (x, s') \<and> mm_inv s' xs \<and>
    (\<forall>a. mem s' a = (if in_page x a then 5 else mem s a))"
proof -
  let ?m = "fst (memset (mem s) x 5 PGSIZE)"
  let ?s = "s\<lparr>freelist := load64 (mem s) x, mem := ?m\<rparr>"
  have "kalloc_page_memblock s = Inr (x, ?s)"
    using assms by (auto simp: mm_inv_def kalloc_page_memblock_def Let_def)
  moreover have "mm_inv ?s xs"
  proof -
    have "mm_inv (s\<lparr>freelist := load64 (mem s) x\<rparr>) xs"
      using assms by (simp add: mm_inv_def)
    then have "mm_inv (s\<lparr>freelist := load64 (mem s) x, mem := ?m\<rparr>) xs"
      using assms by (intro mm_inv_frame) (auto simp: memset_page mm_inv_def dest: in_page_unique)
    then show ?thesis .
  qed
  ultimately show ?thesis by (simp add: memset_page)
qed

lemma kfree_page_inv:
  assumes "mm_inv s xs" and "page_aligned p" and "p \<noteq> 0" and "p \<notin> set xs"
  shows "mm_inv (kfree_page_memblock p s) (p # xs)"
    and "\<not> in_page p a \<Longrightarrow> mem (kfree_page_memblock p s) a = mem s a"
proof -
  let ?m = "store64 (fst (memset (mem s) p 1 PGSIZE)) p (freelist s)"
  have frame: "?m a = mem s a" if "\<not> in_page p a" for a
  proof -
    from that have "\<not> in_region p 8 a" using in_page_word0 by blast
    with that show ?thesis by (simp add: store64_out memset_page)
  qed
  then show "\<not> in_page p a \<Longrightarrow> mem (kfree_page_memblock p s) a = mem s a"
    by (simp add: kfree_page_memblock_def Let_def)
  have "?m a = mem s a" if "x \<in> set xs" "in_page x a" for x a
    using that assms by (intro frame) (auto simp: mm_inv_def dest: in_page_unique)
  then have "free_chain ?m (freelist s) xs = free_chain (mem s) (freelist s) xs"
    by (rule free_chain_cong)
  with assms show "mm_inv (kfree_page_memblock p s) (p # xs)"
    by (simp add: kfree_page_memblock_def Let_def mm_inv_def)
qed

lemma kfree_inv:
  assumes "mm_inv s xs" and "page_aligned p" and "p \<noteq> 0" and "p \<notin> set xs"
  shows "\<exists>s'. kfree p s = Inr s' \<and> mm_inv s' (p # xs) \<and>
    (\<forall>a. \<not> in_page p a \<longrightarrow> mem s' a = mem s a)"
  using assms kfree_page_inv [OF assms] by (simp add: kfree_def kfree_aligned)

section \<open>Initialisation\<close>

lemma PGROUNDDOWN_unat: "unat (PGROUNDDOWN a) = unat a - unat a mod 16384"
proof -
  have "PGROUNDDOWN a = a AND NOT (mask 14)"
    by (simp add: PGROUNDDOWN_def PGSIZE_def mask_eq_exp_minus_1)
  then show ?thesis by (simp add: unat_and_not_mask)
qed

lemma PGROUNDUP_unat:
  assumes "unat a + 16383 < 2 ^ 64"
  shows "unat (PGROUNDUP a) = unat a + 16383 - (unat a + 16383) mod 16384"
proof -
  have "unat (a + 16383) = unat a + 16383"
    using assms by (subst unat_plus_64) simp_all
  moreover have "PGROUNDUP a = PGROUNDDOWN (a + 16383)"
    by (simp add: PGROUNDUP_def PGROUNDDOWN_def PGSIZE_def add.commute)
  ultimately show ?thesis by (simp add: PGROUNDDOWN_unat)
qed

lemma page_run_Suc: "page_run p (Suc n) = p # page_run (p + PGSIZE) n"
  by (simp add: page_run_def upt_Suc_conv PGSIZE_def o_def algebra_simps del: upt_Suc)

lemma page_run_0 [simp]: "page_run p 0 = []"
  by (simp add: page_run_def)

lemma page_aligned_plus:
  assumes "page_aligned p" and "unat p + 16384 < 2 ^ 64"
  shows "page_aligned (p + PGSIZE)" and "unat (p + PGSIZE) = unat p + 16384"
proof -
  show u: "unat (p + PGSIZE) = unat p + 16384"
    using assms(2) by (simp add: PGSIZE_def unat_plus_64)
  then show "page_aligned (p + PGSIZE)"
    using assms(1) by (simp add: page_aligned_def)
qed

lemma freerange_loop_eq:
  assumes "mm_inv s xs" and "page_aligned p" and "p \<noteq> 0"
    and "unat pa_end = unat p + n * 16384 + r" and "r < 16384"
    and "unat pa_end < 18446744073709535232"
    and "\<And>x. x \<in> set xs \<Longrightarrow> unat x < unat p"
  shows "\<exists>s'. freerange_loop p pa_end s = Some s' \<and> mm_inv s' (rev (page_run p n) @ xs)"
  using assms
proof (induction n arbitrary: s xs p)
  case 0
  then have "\<not> p + PGSIZE \<le> pa_end"
    using page_aligned_plus(2) [of p] by (simp add: word_le_nat_alt)
  with 0 show ?case by (simp add: freerange_loop.simps [of p])
next
  case (Suc n)
  have lt: "unat p + 16384 < 2 ^ 64" using Suc.prems(4,6) by simp
  note next_page = page_aligned_plus [OF Suc.prems(2) lt]
  have "p \<notin> set xs" using Suc.prems(7) by blast
  then have inv: "mm_inv (kfree_page_memblock p s) (p # xs)"
    using Suc.prems by (intro kfree_page_inv) auto
  have "p + PGSIZE \<noteq> 0" using next_page(2) by (metis add_is_0 unat_0 zero_neq_numeral)
  moreover have "unat x < unat (p + PGSIZE)" if "x \<in> set (p # xs)" for x
    using that Suc.prems(7) next_page(2) by fastforce
  ultimately have "\<exists>s'. freerange_loop (p + PGSIZE) pa_end (kfree_page_memblock p s) = Some s' \<and>
      mm_inv s' (rev (page_run (p + PGSIZE) n) @ (p # xs))"
    using Suc.prems next_page by (intro Suc.IH [OF inv]) simp_all
  moreover have "p + PGSIZE \<le> pa_end"
    using next_page(2) Suc.prems(4) by (simp add: word_le_nat_alt)
  ultimately show ?case
    by (simp add: freerange_loop.simps [of p] page_run_Suc)
qed

section \<open>The allocator contract\<close>

locale page_allocator =
  fixes alloc :: "'s \<Rightarrow> (u64 \<times> 's) kres"
    and release :: "u64 \<Rightarrow> 's \<Rightarrow> 's kres"
    and free_pages :: "'s \<Rightarrow> u64 list \<Rightarrow> bool"
    and contents :: "'s \<Rightarrow> mem"
    and put :: "mem \<Rightarrow> 's \<Rightarrow> 's"
    and junk :: u8
  assumes alloc_none: "free_pages s [] \<Longrightarrow> \<exists>msg. alloc s = Inl (Panic msg)"
    and alloc_some: "free_pages s (x # xs) \<Longrightarrow>
      \<exists>s'. alloc s = Inr (x, s') \<and> free_pages s' xs \<and>
        (\<forall>a. \<not> in_page x a \<longrightarrow> contents s' a = contents s a)"
    and alloc_fills: "free_pages s (x # xs) \<Longrightarrow> alloc s = Inr (p, s') \<Longrightarrow> in_page p a \<Longrightarrow> contents s' a = junk"
    and release_page: "free_pages s xs \<Longrightarrow> page_aligned p \<Longrightarrow> p \<noteq> 0 \<Longrightarrow> p \<notin> set xs \<Longrightarrow>
      \<exists>s'. release p s = Inr s' \<and> free_pages s' (p # xs) \<and>
        (\<forall>a. \<not> in_page p a \<longrightarrow> contents s' a = contents s a)"
    and pages_ok: "free_pages s xs \<Longrightarrow> distinct xs \<and> (\<forall>x\<in>set xs. page_aligned x \<and> x \<noteq> 0)"
    and contents_put: "contents (put m s) = m"
    and put_frame: "free_pages s xs \<Longrightarrow>
      (\<And>x a. x \<in> set xs \<Longrightarrow> in_page x a \<Longrightarrow> m a = contents s a) \<Longrightarrow> free_pages (put m s) xs"
begin

lemma alloc_fresh:
  assumes "free_pages s xs" and "alloc s = Inr (p, s')"
  shows "xs = p # tl xs \<and> free_pages s' (tl xs) \<and> p \<notin> set (tl xs) \<and> page_aligned p \<and> p \<noteq> 0 \<and>
    (\<forall>a. \<not> in_page p a \<longrightarrow> contents s' a = contents s a)"
proof (cases xs)
  case Nil
  with assms alloc_none show ?thesis by fastforce
next
  case (Cons x ys)
  with assms alloc_some [of s x ys] pages_ok [of s xs] show ?thesis by auto
qed

lemma release_then_alloc:
  assumes "free_pages s xs" and "page_aligned p" and "p \<noteq> 0" and "p \<notin> set xs"
  shows "\<exists>s1 s2. release p s = Inr s1 \<and> alloc s1 = Inr (p, s2) \<and> free_pages s2 xs \<and>
    (\<forall>a. \<not> in_page p a \<longrightarrow> contents s2 a = contents s a)"
  using release_page [OF assms] alloc_some by fastforce

text \<open>A page used as a buffer and given back leaves no trace but in the page itself.\<close>

lemma scratch_page:
  assumes "free_pages s (x # xs)"
  shows "\<exists>s1. alloc s = Inr (x, s1) \<and>
    (\<forall>m. (\<forall>a. \<not> in_page x a \<longrightarrow> m a = contents s1 a) \<longrightarrow>
      (\<exists>s2. release x (put m s1) = Inr s2 \<and> free_pages s2 (x # xs) \<and>
        (\<forall>a. \<not> in_page x a \<longrightarrow> contents s2 a = contents s a)))"
proof -
  obtain s1 where s1: "alloc s = Inr (x, s1)" "free_pages s1 xs"
    "\<And>a. \<not> in_page x a \<Longrightarrow> contents s1 a = contents s a"
    using alloc_some [OF assms] by blast
  have x: "page_aligned x" "x \<noteq> 0" "x \<notin> set xs" and al: "\<And>y. y \<in> set xs \<Longrightarrow> page_aligned y"
    using pages_ok [OF assms] by auto
  have "\<exists>s2. release x (put m s1) = Inr s2 \<and> free_pages s2 (x # xs) \<and>
        (\<forall>a. \<not> in_page x a \<longrightarrow> contents s2 a = contents s a)"
    if m: "\<forall>a. \<not> in_page x a \<longrightarrow> m a = contents s1 a" for m
  proof -
    have "m a = contents s1 a" if "y \<in> set xs" "in_page y a" for y a
      using m that x al in_page_unique by metis
    then have "free_pages (put m s1) xs" by (rule put_frame [OF s1(2)])
    then show ?thesis
      using release_page [of "put m s1" xs x] x m s1(3) by (auto simp: contents_put)
  qed
  with s1(1) show ?thesis by blast
qed

lemma alloc_many_distinct:
  assumes "free_pages s xs"
  shows "n \<le> length xs \<Longrightarrow> \<exists>s'. alloc_many alloc n s = Inr (take n xs, s') \<and>
    free_pages s' (drop n xs) \<and>
    (\<forall>a. (\<forall>p\<in>set (take n xs). \<not> in_page p a) \<longrightarrow> contents s' a = contents s a) \<and>
    (\<forall>p\<in>set (take n xs). \<forall>a. in_page p a \<longrightarrow> contents s' a = junk)"
    and "length xs < n \<Longrightarrow> \<exists>msg. alloc_many alloc n s = Inl (Panic msg)"
  using assms
proof (induction n arbitrary: s xs)
  case (Suc n)
  { case 1
    then obtain x ys where xs: "xs = x # ys" by (cases xs) auto
    with 1 obtain s1 where s1: "alloc s = Inr (x, s1)" "free_pages s1 ys"
      "\<And>a. \<not> in_page x a \<Longrightarrow> contents s1 a = contents s a"
      using alloc_some by blast
    moreover obtain s2 where s2: "alloc_many alloc n s1 = Inr (take n ys, s2)" "free_pages s2 (drop n ys)"
      "\<And>a. (\<forall>p\<in>set (take n ys). \<not> in_page p a) \<Longrightarrow> contents s2 a = contents s1 a"
      "\<And>p a. p \<in> set (take n ys) \<Longrightarrow> in_page p a \<Longrightarrow> contents s2 a = junk"
      using Suc.IH(1) [of ys s1] s1(2) 1 xs by auto
    moreover have "contents s2 a = junk" if "in_page x a" for a
    proof (cases "\<exists>p\<in>set (take n ys). in_page p a")
      case False
      then have "contents s2 a = contents s1 a" using s2(3) by blast
      then show ?thesis using alloc_fills [of s x ys x s1 a] 1(2) xs s1(1) that by simp
    qed (use s2(4) in blast)
    ultimately show ?case using xs by auto
  next
    case 2
    show ?case
    proof (cases xs)
      case Nil
      with 2 alloc_none show ?thesis by fastforce
    next
      case (Cons x ys)
      with 2 obtain s1 where "alloc s = Inr (x, s1)" "free_pages s1 ys"
        using alloc_some by blast
      with Suc.IH(2) [of ys s1] Cons 2 show ?thesis by auto
    qed }
qed simp_all

end

lemma kmalloc_page: "kmalloc 16384 s = kalloc_page_memblock s"
  by (simp add: kmalloc_def)

interpretation kp: page_allocator "kmalloc 16384" kfree mm_inv mem "\<lambda>m s. s\<lparr>mem := m\<rparr>" 5
proof unfold_locales
  fix s x xs
  assume "mm_inv s (x # xs)"
  then show "\<exists>s'. kmalloc 16384 s = Inr (x, s') \<and> mm_inv s' xs \<and>
      (\<forall>a. \<not> in_page x a \<longrightarrow> mem s' a = mem s a)"
    using kalloc_Cons [of s x xs] by (auto simp: kmalloc_page)
next
  fix s s' :: mm and x p a :: u64 and xs
  assume "mm_inv s (x # xs)" "kmalloc 16384 s = Inr (p, s')" "in_page p a"
  then show "mem s' a = 5" using kalloc_Cons [of s x xs] by (auto simp: kmalloc_page)
qed (auto simp: kmalloc_page kalloc_empty kfree_inv mm_inv_nonzero mm_inv_frame, auto simp: mm_inv_def)

text \<open>What the initialisation puts on the free list.\<close>

lemma kinit_pages:
  assumes "unat KERNBASE \<le> unat kernel_end" and "unat kernel_end \<le> unat PHYSTOP"
  shows "\<exists>s'. kinit_memblock kernel_end \<lparr>mem = m, freelist = 0\<rparr> = Some s' \<and>
    mm_inv s' (rev (page_run (PGROUNDUP kernel_end)
      ((unat PHYSTOP - unat (PGROUNDUP kernel_end)) div 16384)))"
proof -
  have top: "unat PHYSTOP = 10376293544011759616" and base: "unat KERNBASE = 10376293543877541888"
    by (simp_all add: PHYSTOP_def KERNBASE_def KMEMSIZE_def)
  let ?p = "PGROUNDUP kernel_end"
  define k where "k = (unat kernel_end + 16383) div 16384"
  have "unat ?p = unat kernel_end + 16383 - (unat kernel_end + 16383) mod 16384"
    using assms top by (intro PGROUNDUP_unat) simp
  then have up: "unat ?p = 16384 * k"
    by (simp add: k_def minus_mod_eq_mult_div)
  have "unat kernel_end + 16383 \<le> 10376293544011775999"
    using assms(2) top by linarith
  then have "k \<le> 10376293544011775999 div 16384"
    unfolding k_def by (rule div_le_mono)
  then have "k \<le> 633318697754624" by simp
  then have le: "unat ?p \<le> unat PHYSTOP" using up top by linarith
  have pos: "0 < unat ?p"
  proof -
    have "16384 \<le> unat kernel_end + 16383" using assms(1) base by linarith
    then have "0 < k" unfolding k_def by (simp add: div_greater_zero_iff)
    with up show ?thesis by simp
  qed
  define d where "d = unat PHYSTOP - unat ?p"
  have "\<exists>s'. freerange_loop ?p PHYSTOP \<lparr>mem = m, freelist = 0\<rparr> = Some s' \<and>
      mm_inv s' (rev (page_run ?p (d div 16384)) @ [])"
  proof (rule freerange_loop_eq [where r = "d mod 16384"])
    show "mm_inv \<lparr>mem = m, freelist = 0\<rparr> []" by (simp add: mm_inv_def)
    show "page_aligned ?p" using up by (simp add: page_aligned_def)
    show "?p \<noteq> 0" using pos by auto
    show "unat PHYSTOP = unat ?p + d div 16384 * 16384 + d mod 16384"
      using le by (simp add: d_def add.assoc)
    show "unat PHYSTOP < 18446744073709535232" by (simp add: top)
  qed simp_all
  then show ?thesis by (simp add: kinit_memblock_def freerange_def d_def)
qed

section \<open>Properties\<close>

text \<open>
  C24: initialisation puts every whole page between the rounded-up end of the kernel image
  and \<open>PHYSTOP\<close> on the free list, each once, and terminates.
\<close>

theorem kinit_memblock_all:
  assumes "unat KERNBASE \<le> unat kernel_end" and "unat kernel_end \<le> unat PHYSTOP"
  shows "\<exists>s'. kinit_memblock kernel_end \<lparr>mem = m, freelist = 0\<rparr> = Some s' \<and>
    mm_inv s' (rev (page_run (PGROUNDUP kernel_end)
      ((unat PHYSTOP - unat (PGROUNDUP kernel_end)) div 16384)))"
  by (rule kinit_pages [OF assms])

theorem kinit_memblock_all_witness:
  "\<exists>s'. kinit_memblock 0x9000000091000001 \<lparr>mem = (\<lambda>_. 0), freelist = 0\<rparr> = Some s' \<and>
    mm_inv s' (rev (page_run (PGROUNDUP 0x9000000091000001)
      ((unat PHYSTOP - unat (PGROUNDUP 0x9000000091000001)) div 16384)))"
  by (rule kinit_memblock_all) (simp_all add: KERNBASE_def PHYSTOP_def KMEMSIZE_def)

text \<open>
  C7: \<open>n\<close> allocations in a row return \<open>n\<close> different pages of the free list, in its order,
  leave the rest of the list intact, fill every byte of the pages they return with 5 and change no byte outside of
  them; one allocation too many panics.
\<close>

theorem kmalloc_pages_distinct:
  assumes "mm_inv s xs"
  shows "(n \<le> length xs \<longrightarrow> (\<exists>s'. alloc_many (kmalloc 16384) n s = Inr (take n xs, s') \<and>
      distinct (take n xs) \<and> mm_inv s' (drop n xs) \<and>
      (\<forall>p\<in>set (take n xs). \<forall>a. in_page p a \<longrightarrow> mem s' a = 5) \<and>
      (\<forall>a. (\<forall>p\<in>set (take n xs). \<not> in_page p a) \<longrightarrow> mem s' a = mem s a))) \<and>
    (length xs < n \<longrightarrow> (\<exists>msg. alloc_many (kmalloc 16384) n s = Inl (Panic msg)))"
proof (intro conjI impI)
  assume "n \<le> length xs"
  then obtain s' where "alloc_many (kmalloc 16384) n s = Inr (take n xs, s')" "mm_inv s' (drop n xs)"
      "\<forall>p\<in>set (take n xs). \<forall>a. in_page p a \<longrightarrow> mem s' a = 5"
      "\<forall>a. (\<forall>p\<in>set (take n xs). \<not> in_page p a) \<longrightarrow> mem s' a = mem s a"
    using kp.alloc_many_distinct(1) [OF assms] by blast
  moreover have "distinct (take n xs)" using kp.pages_ok [OF assms] by simp
  ultimately show "\<exists>s'. alloc_many (kmalloc 16384) n s = Inr (take n xs, s') \<and>
      distinct (take n xs) \<and> mm_inv s' (drop n xs) \<and>
      (\<forall>p\<in>set (take n xs). \<forall>a. in_page p a \<longrightarrow> mem s' a = 5) \<and>
      (\<forall>a. (\<forall>p\<in>set (take n xs). \<not> in_page p a) \<longrightarrow> mem s' a = mem s a)" by blast
next
  assume "length xs < n"
  then show "\<exists>msg. alloc_many (kmalloc 16384) n s = Inl (Panic msg)" by (rule kp.alloc_many_distinct(2) [OF assms])
qed

lemma two_page_heap:
  "mm_inv \<lparr>mem = store64 (\<lambda>_. 0) 16384 32768, freelist = 16384\<rparr> [16384, 32768]"
proof -
  have "load64 (store64 (\<lambda>_. 0) 16384 32768) 32768 = load64 (\<lambda>_. 0) 32768"
    by (rule load64_store64_disjoint) (auto simp: in_region_def unat_sub_if' split: if_splits)
  also have "\<dots> = 0"
    by (simp add: load64_def read_bytes_def upt_rec)
  finally show ?thesis by (simp add: mm_inv_def page_aligned_def)
qed

theorem kmalloc_pages_distinct_witness:
  "(\<exists>s'. alloc_many (kmalloc 16384) 2
      \<lparr>mem = store64 (\<lambda>_. 0) 16384 32768, freelist = 16384\<rparr> = Inr ([16384, 32768], s')) \<and>
   (\<exists>msg. alloc_many (kmalloc 16384) 3
      \<lparr>mem = store64 (\<lambda>_. 0) 16384 32768, freelist = 16384\<rparr> = Inl (Panic msg))"
  using kmalloc_pages_distinct [OF two_page_heap, of 2]
    kmalloc_pages_distinct [OF two_page_heap, of 3] by auto

text \<open>
  Freeing a page and allocating again gives that page back and restores the free
  list; freeing an address that is not page aligned, or asking for more than a page,
  panics.
\<close>

theorem kfree_kmalloc_roundtrip:
  assumes "mm_inv s xs" and "page_aligned p" and "p \<noteq> 0" and "p \<notin> set xs"
  shows "\<exists>s1 s2. kfree p s = Inr s1 \<and> kmalloc 16384 s1 = Inr (p, s2) \<and> mm_inv s2 xs \<and>
    (\<forall>a. \<not> in_page p a \<longrightarrow> mem s2 a = mem s a) \<and>
    (\<forall>q. \<not> page_aligned q \<longrightarrow> kfree q s = Inl (Panic ''unaligned kfree request'')) \<and>
    (\<forall>n. 16384 < sint n \<longrightarrow> kmalloc n s = Inl (Panic ''too big alloc request!''))"
  using kp.release_then_alloc [OF assms] by (auto simp: kfree_def kfree_aligned kmalloc_def)

theorem kfree_kmalloc_roundtrip_witness:
  "\<exists>s1 s2. kfree 49152 \<lparr>mem = store64 (\<lambda>_. 0) 16384 32768, freelist = 16384\<rparr> = Inr s1 \<and>
    kmalloc 16384 s1 = Inr (49152, s2) \<and> mm_inv s2 [16384, 32768]"
  using kfree_kmalloc_roundtrip [OF two_page_heap, of 49152] by (auto simp: page_aligned_def)

end
