(* ===== verification/KHeap.thy ===== *)
theory KHeap
  imports Memblock
begin

text \<open>
  The small-object allocator of lolibc/stdlib.c: \<open>apply_alloc\<close> cuts blocks off a page,
  \<open>malloc\<close> and \<open>free\<close> recycle them through eleven size bins and one list for large
  blocks, all in byte memory on top of the page allocator. The arithmetic helpers of the
  same file are here too. The theory shows that blocks below 160 bytes are never handed
  out twice while they are in use and never overlap, and that a recycled block may be
  smaller than the request.
\<close>

section \<open>Definitions\<close>

subsection \<open>Numbers\<close>

definition rand :: "u64 \<Rightarrow> i32 \<times> u64" where
  "rand seed = (let nxt = seed * 1103515245 + 12345 in (ucast (nxt div 65536) mod 32768, nxt))"

definition srand :: "u32 \<Rightarrow> u64" where
  "srand seed = ucast seed"

text \<open>Negating the least \<open>int\<close> has no meaning in C.\<close>

definition abs_int :: "i32 \<Rightarrow> i32 kres" where
  "abs_int x = (if sint x < 0 then if sint x = - (2 ^ 31) then Inl (BadAccess ''int overflow'') else Inr (- x)
     else Inr x)"

text \<open>A string without its terminator; a value that does not fit an \<open>int\<close> overflows.\<close>

fun atoi_digits :: "bytes \<Rightarrow> int \<Rightarrow> int kres" where
  "atoi_digits [] x = Inr x"
| "atoi_digits (c # cs) x =
     (if 48 \<le> c \<and> c \<le> 57 then
        let y = x * 10 + uint c - 48 in
        if x * 10 + uint c > 2 ^ 31 - 1 then Inl (BadAccess ''int overflow'') else atoi_digits cs y
      else Inr x)"

definition atoi :: "bytes \<Rightarrow> int kres" where
  "atoi s = atoi_digits (dropWhile (\<lambda>c. c = 32) s) 0"

definition min_int :: "int \<Rightarrow> int \<Rightarrow> int" where
  "min_int a b = (if a < b then a else b)"

definition max_int :: "int \<Rightarrow> int \<Rightarrow> int" where
  "max_int a b = (if a > b then a else b)"

subsection \<open>Blocks\<close>

text \<open>
  A chunk has the address of the next free chunk at offset 0, the size of the last request
  at offset 8 and its data at offset 16 (\<open>chunk_info_size\<close>).
\<close>

record kheap =
  hmm :: mm
  fastbin :: "u64 list"
  unsorted_bin :: u64
  p_start :: u64
  p_end :: u64

definition heap_boot :: "mm \<Rightarrow> kheap" where
  "heap_boot m = \<lparr>hmm = m, fastbin = replicate 11 0, unsorted_bin = 0, p_start = 0, p_end = 0\<rparr>"

definition chunk_next :: "kheap \<Rightarrow> u64 \<Rightarrow> u64" where
  "chunk_next h c = load64 (mem (hmm h)) c"

definition chunk_size :: "kheap \<Rightarrow> u64 \<Rightarrow> u64" where
  "chunk_size h c = load64 (mem (hmm h)) (c + 8)"

definition put64 :: "u64 \<Rightarrow> u64 \<Rightarrow> kheap \<Rightarrow> kheap" where
  "put64 a v h = h\<lparr>hmm := (hmm h)\<lparr>mem := store64 (mem (hmm h)) a v\<rparr>\<rparr>"

definition apply_alloc :: "u64 \<Rightarrow> kheap \<Rightarrow> (u64 \<times> kheap) kres" where
  "apply_alloc n h =
     (if n > PGSIZE then Inl (Panic ''apply'')
      else kbind (if p_start h + n \<ge> p_end h
                  then kbind (kmalloc 16384 (hmm h)) (\<lambda>(a, m).
                    Inr (h\<lparr>hmm := m, p_start := a, p_end := a + PGSIZE\<rparr>))
                  else Inr h)
             (\<lambda>h1. Inr (p_start h1, h1\<lparr>p_start := p_start h1 + n\<rparr>)))"

definition fits :: "u64 \<Rightarrow> u64 \<Rightarrow> bool" where
  "fits n hv \<longleftrightarrow> hv \<ge> n \<and> hv < n + 128"

text \<open>
  The search for a large block: where the loop of 100 rounds ends, and whether it ended
  at a block that fits.
\<close>

primrec search_unsorted :: "nat \<Rightarrow> u64 \<Rightarrow> u64 \<Rightarrow> kheap \<Rightarrow> u64 \<times> bool" where
  "search_unsorted 0 sz c h = (c, False)"
| "search_unsorted (Suc n) sz c h =
     (if c = 0 then (c, False)
      else if fits sz (chunk_size h c) then (c, True)
      else search_unsorted n sz (chunk_next h c) h)"

definition malloc :: "u64 \<Rightarrow> kheap \<Rightarrow> (u64 \<times> kheap) kres" where
  "malloc sz h =
     kbind (if sz \<ge> 0xa0 then
              (case search_unsorted 100 sz (unsorted_bin h) h of (c, found) \<Rightarrow>
                let h1 = (if found then h\<lparr>unsorted_bin := chunk_next h (unsorted_bin h)\<rparr> else h) in
                if c = 0 \<or> \<not> fits sz (chunk_size h1 c) then apply_alloc (sz + 16) h1 else Inr (c, h1))
            else
              (let index = unat (sz div 0xF); c = fastbin h ! index in
               if c \<noteq> 0 then Inr (c, h\<lparr>fastbin := (fastbin h)[index := chunk_next h c]\<rparr>)
               else apply_alloc (((sz + 0xF) AND NOT 0xF) + 16) h))
       (\<lambda>(c, h2). if c = 0 then Inr (0, h2) else Inr (c + 16, put64 (c + 8) sz h2))"

definition free :: "u64 \<Rightarrow> kheap \<Rightarrow> kheap" where
  "free ptr h =
     (let c = ptr - 16; sz = chunk_size h c in
      if sz \<ge> 0xa0 then (put64 c (unsorted_bin h) h)\<lparr>unsorted_bin := c\<rparr>
      else let index = unat (sz div 0xF) in
        (put64 c (fastbin h ! index) h)\<lparr>fastbin := (fastbin h)[index := c]\<rparr>)"

definition calloc :: "u64 \<Rightarrow> u64 \<Rightarrow> kheap \<Rightarrow> (u64 \<times> kheap) kres" where
  "calloc nitems sz h =
     kbind (malloc (nitems * sz) h) (\<lambda>(p, h1).
       if p = 0 then Inr (0, h1)
       else Inr (p, h1\<lparr>hmm := (hmm h1)\<lparr>mem := fst (memset (mem (hmm h1)) p 0 (nitems * sz))\<rparr>\<rparr>))"

subsection \<open>Clients\<close>

text \<open>A client asks for a block, or gives back one of those it holds with their sizes.\<close>

datatype heap_op = Malloc u64 | Free nat

fun heap_step :: "heap_op \<Rightarrow> kheap \<times> (u64 \<times> u64) list \<Rightarrow> (kheap \<times> (u64 \<times> u64) list) kres" where
  "heap_step (Malloc n) (h, ps) = kbind (malloc n h) (\<lambda>(p, h'). Inr (h', (p, n) # ps))"
| "heap_step (Free k) (h, ps) =
     Inr (if k < length ps then (free (fst (ps ! k)) h, take k ps @ drop (Suc k) ps) else (h, ps))"

section \<open>Invariant\<close>

definition reg :: "u64 \<Rightarrow> nat \<Rightarrow> u64 set" where
  "reg c n = {a. in_region c n a}"

definition free_space :: "u64 list \<Rightarrow> u64 set" where
  "free_space xs = {a. \<exists>x\<in>set xs. in_page x a}"

text \<open>What is left of the page that blocks are cut off.\<close>

definition window :: "kheap \<Rightarrow> u64 set" where
  "window h = {a. p_start h \<le> a \<and> a < p_end h}"

definition window_ok :: "kheap \<Rightarrow> bool" where
  "window_ok h \<longleftrightarrow> p_end h = 0 \<or>
     (page_aligned (p_end h) \<and> p_start h \<noteq> 0 \<and> p_start h \<le> p_end h)"

fun bin_chain :: "mem \<Rightarrow> u64 \<Rightarrow> u64 list \<Rightarrow> bool" where
  "bin_chain m p [] \<longleftrightarrow> p = 0"
| "bin_chain m p (c # cs) \<longleftrightarrow> p = c \<and> c \<noteq> 0 \<and> bin_chain m (load64 m c) cs"

text \<open>
  The chunks of every bin form a chain; the chunks in use (\<open>live\<close>) and those in the bins
  are different and, each with the capacity it was cut with, disjoint from one another,
  from the rest of the current page and from the free pages.
\<close>

definition chunks :: "(nat \<Rightarrow> u64 list) \<Rightarrow> u64 list \<Rightarrow> u64 list" where
  "chunks B live = live @ concat (map B [0..<11])"

definition held :: "kheap \<Rightarrow> (u64 \<Rightarrow> u64) \<Rightarrow> (u64 \<Rightarrow> nat) \<Rightarrow> u64 \<Rightarrow> bool" where
  "held h rq cap c \<longleftrightarrow> chunk_size h c = rq c \<and> rq c < 0xa0 \<and> 15 * (unat (rq c) div 15) \<le> cap c"

definition heap_inv :: "kheap \<Rightarrow> (nat \<Rightarrow> u64 list) \<Rightarrow> u64 list \<Rightarrow> (u64 \<Rightarrow> u64) \<Rightarrow> (u64 \<Rightarrow> nat) \<Rightarrow> u64 list \<Rightarrow> bool" where
  "heap_inv h B live rq cap xs \<longleftrightarrow>
     mm_inv (hmm h) xs \<and> window_ok h \<and> window h \<inter> free_space xs = {} \<and> length (fastbin h) = 11 \<and>
     (\<forall>i<11. bin_chain (mem (hmm h)) (fastbin h ! i) (B i)) \<and> distinct (chunks B live) \<and>
     (\<forall>c\<in>set (chunks B live). c \<noteq> 0 \<and> reg c (16 + cap c) \<inter> (window h \<union> free_space xs) = {} \<and> cap c < 16384) \<and>
     (\<forall>c\<in>set (chunks B live). \<forall>d\<in>set (chunks B live). c \<noteq> d \<longrightarrow> reg c (16 + cap c) \<inter> reg d (16 + cap d) = {}) \<and>
     (\<forall>i<11. \<forall>c\<in>set (B i). 15 * i \<le> cap c) \<and>
     (\<forall>c\<in>set live. held h rq cap c)"

lemma bin_chain_cong:
  "(\<And>c a. c \<in> set cs \<Longrightarrow> a \<in> reg c 16 \<Longrightarrow> m a = m' a) \<Longrightarrow> bin_chain m p cs = bin_chain m' p cs"
proof (induction cs arbitrary: p)
  case (Cons c cs)
  have "load64 m c = load64 m' c"
    using Cons.prems [of c] by (intro load64_cong) (auto simp: reg_def in_region_def)
  then show ?case using Cons.IH [of "load64 m c"] Cons.prems by auto
qed simp

lemma reg_mono: "m \<le> n \<Longrightarrow> reg c m \<subseteq> reg c n"
  by (auto simp: reg_def in_region_def)

lemma reg_header: "in_region c 8 a \<Longrightarrow> a \<in> reg c 16" "in_region (c + 8) 8 a \<Longrightarrow> a \<in> reg c 16"
proof -
  assume "in_region (c + 8) 8 a"
  then show "a \<in> reg c 16"
    using in_region_def [of c 16 a] unat_plus_64 [of "a - (c + 8)" 8] by (simp add: reg_def in_region_def)
qed (simp add: reg_def in_region_def)

lemma put64_simps [simp]:
  "mem (hmm (put64 a v h)) = store64 (mem (hmm h)) a v" "freelist (hmm (put64 a v h)) = freelist (hmm h)"
  "fastbin (put64 a v h) = fastbin h" "unsorted_bin (put64 a v h) = unsorted_bin h"
  "p_start (put64 a v h) = p_start h" "p_end (put64 a v h) = p_end h" "window (put64 a v h) = window h"
  "window_ok (put64 a v h) = window_ok h"
  by (simp_all add: put64_def window_def window_ok_def)

lemma reg_iff:
  assumes "unat c + n \<le> 18446744073709551616"
  shows "a \<in> reg c n \<longleftrightarrow> unat c \<le> unat a \<and> unat a < unat c + n"
proof (cases "unat c \<le> unat a")
  case True
  then show ?thesis by (auto simp: reg_def in_region_def word_sub_unat)
next
  case False
  then have "unat (a - c) = unat a + 18446744073709551616 - unat c" by (simp add: unat_sub_if')
  then show ?thesis using False assms unat_lt_64 [of a] by (auto simp: reg_def in_region_def)
qed

lemma page_reg: "page_aligned x \<Longrightarrow> unat x + 16384 \<le> 18446744073709551616"
  by (elim page_alignedE) simp

lemma free_space_Cons: "free_space (x # xs) = reg x 16384 \<union> free_space xs"
  by (auto simp: free_space_def reg_def in_page_def)

lemma pages_disjoint:
  assumes "mm_inv s (x # xs)" shows "reg x 16384 \<inter> free_space xs = {}"
proof -
  have "x = y" if "y \<in> set xs" "in_page x a" "in_page y a" for y a
    using assms that in_page_unique [of x y a] by (simp add: mm_inv_def)
  then show ?thesis using assms by (auto simp: free_space_def reg_def in_page_def [symmetric] mm_inv_def)
qed

lemma apply_alloc_old:
  assumes "window_ok h" and "0 < unat n" "unat n \<le> 1024" and "\<not> p_start h + n \<ge> p_end h"
  shows "apply_alloc n h = Inr (p_start h, h\<lparr>p_start := p_start h + n\<rparr>)"
    and "window_ok (h\<lparr>p_start := p_start h + n\<rparr>)" and "p_start h \<noteq> 0"
    and "reg (p_start h) (unat n) \<subseteq> window h" and "window (h\<lparr>p_start := p_start h + n\<rparr>) \<subseteq> window h"
    and "reg (p_start h) (unat n) \<inter> window (h\<lparr>p_start := p_start h + n\<rparr>) = {}"
proof -
  have nz: "p_end h \<noteq> 0" using assms(4) by auto
  then have w: "page_aligned (p_end h)" "p_start h \<noteq> 0" "unat (p_start h) \<le> unat (p_end h)"
    using assms(1) by (auto simp: window_ok_def word_le_nat_alt)
  have fit: "unat (p_start h) + 16384 \<le> 18446744073709551616" using page_reg [OF w(1)] w(3) by linarith
  then have u: "unat (p_start h + n) = unat (p_start h) + unat n" using assms(3) by (intro unat_plus_64) linarith
  then have lt: "unat (p_start h) + unat n < unat (p_end h)" using assms(4) by (simp add: word_le_nat_alt)
  have "\<not> n > PGSIZE" using assms(3) by (simp add: PGSIZE_def word_less_nat_alt)
  then show "apply_alloc n h = Inr (p_start h, h\<lparr>p_start := p_start h + n\<rparr>)"
    using assms(4) by (simp add: apply_alloc_def)
  show "p_start h \<noteq> 0" by (rule w(2))
  have "p_start h + n \<noteq> 0"
  proof
    assume "p_start h + n = 0"
    with u have "unat (p_start h) + unat n = 0" by simp
    then show False using assms(2) by simp
  qed
  then show "window_ok (h\<lparr>p_start := p_start h + n\<rparr>)"
    using w(1) lt u by (auto simp: window_ok_def word_le_nat_alt)
  have r: "a \<in> reg (p_start h) (unat n) \<longleftrightarrow> unat (p_start h) \<le> unat a \<and> unat a < unat (p_start h) + unat n" for a
    using fit assms(3) by (intro reg_iff) linarith
  show "reg (p_start h) (unat n) \<subseteq> window h" "window (h\<lparr>p_start := p_start h + n\<rparr>) \<subseteq> window h"
    "reg (p_start h) (unat n) \<inter> window (h\<lparr>p_start := p_start h + n\<rparr>) = {}"
    using lt u by (auto simp: window_def word_le_nat_alt word_less_nat_alt r)
qed

lemma apply_alloc_new:
  assumes "mm_inv (hmm h) (x # xs)" and "0 < unat n" "unat n \<le> 1024" and "p_start h + n \<ge> p_end h"
  shows "\<exists>m. apply_alloc n h = Inr (x, h\<lparr>hmm := m, p_start := x + n, p_end := x + PGSIZE\<rparr>) \<and> mm_inv m xs \<and>
      (\<forall>a. a \<notin> reg x 16384 \<longrightarrow> mem m a = mem (hmm h) a) \<and>
      window_ok (h\<lparr>hmm := m, p_start := x + n, p_end := x + PGSIZE\<rparr>) \<and> x \<noteq> 0 \<and>
      reg x (unat n) \<subseteq> reg x 16384 \<and> window (h\<lparr>hmm := m, p_start := x + n, p_end := x + PGSIZE\<rparr>) \<subseteq> reg x 16384 \<and>
      reg x (unat n) \<inter> window (h\<lparr>hmm := m, p_start := x + n, p_end := x + PGSIZE\<rparr>) = {}"
proof -
  obtain m where m: "kmalloc 16384 (hmm h) = Inr (x, m)" "mm_inv m xs"
    "\<forall>a. mem m a = (if in_page x a then 5 else mem (hmm h) a)"
    using kalloc_Cons [OF assms(1)] by (auto simp: kmalloc_def)
  let ?h = "h\<lparr>hmm := m, p_start := x + n, p_end := x + PGSIZE\<rparr>"
  have al: "page_aligned x" "x \<noteq> 0" using assms(1) mm_inv_nonzero by (auto simp: mm_inv_def)
  note top = page_reg [OF al(1)]
  have u: "unat (x + n) = unat x + unat n" using top assms(3) by (intro unat_plus_64) linarith
  have e: "x + PGSIZE = 0 \<or> unat (x + PGSIZE) = unat x + 16384"
  proof (cases "unat x + 16384 = 18446744073709551616")
    case True
    then have "unat (x + PGSIZE) = 0" by (simp add: unat_word_ariths PGSIZE_def)
    then show ?thesis by (simp add: unat_eq_0)
  next
    case False
    then show ?thesis using top unat_plus_64 [of x PGSIZE] by (simp add: PGSIZE_def)
  qed
  have "\<not> n > PGSIZE" using assms(3) by (simp add: PGSIZE_def word_less_nat_alt)
  then have "apply_alloc n h = Inr (x, ?h)" using m(1) assms(4) by (simp add: apply_alloc_def)
  moreover have "window_ok ?h"
  proof -
    have "x + n \<noteq> 0" using u assms(2) by (metis add_is_0 neq0_conv unat_0)
    moreover have "page_aligned (x + PGSIZE)" if "unat (x + PGSIZE) = unat x + 16384"
      using that al(1) by (simp add: page_aligned_def)
    ultimately show ?thesis using e u assms(3) by (auto simp: window_ok_def word_le_nat_alt)
  qed
  moreover have "window ?h \<subseteq> reg x 16384"
    using e u by (auto simp: window_def word_le_nat_alt word_less_nat_alt reg_iff [OF top])
  moreover have "reg x (unat n) \<inter> window ?h = {}"
    using u reg_iff [of x "unat n"] top assms(3) by (auto simp: window_def word_le_nat_alt)
  moreover have "reg x (unat n) \<subseteq> reg x 16384" using assms(3) by (intro reg_mono) simp
  ultimately show ?thesis using m al(2) by (auto simp: reg_def in_page_def)
qed

lemma apply_alloc_ok:
  assumes "heap_inv h B live rq cap (x # xs)" and "0 < unat n" "unat n \<le> 1024"
  shows "\<exists>c h' ys. apply_alloc n h = Inr (c, h') \<and> mm_inv (hmm h') ys \<and> (ys = xs \<or> ys = x # xs) \<and>
    window_ok h' \<and> c \<noteq> 0 \<and> fastbin h' = fastbin h \<and>
    reg c (unat n) \<subseteq> window h \<union> free_space (x # xs) \<and> window h' \<subseteq> window h \<union> free_space (x # xs) \<and>
    reg c (unat n) \<inter> window h' = {} \<and> (reg c (unat n) \<union> window h') \<inter> free_space ys = {} \<and>
    (\<forall>a. a \<notin> free_space (x # xs) \<longrightarrow> mem (hmm h') a = mem (hmm h) a)"
proof (cases "p_start h + n \<ge> p_end h")
  case False
  have "window_ok h" "mm_inv (hmm h) (x # xs)" "window h \<inter> free_space (x # xs) = {}"
    using assms(1) by (simp_all add: heap_inv_def)
  moreover note old = apply_alloc_old [OF this(1) assms(2,3) False]
  ultimately show ?thesis
    by (intro exI [of _ "p_start h"] exI [of _ "h\<lparr>p_start := p_start h + n\<rparr>"] exI [of _ "x # xs"])
      (simp, blast)
next
  case True
  have inv: "mm_inv (hmm h) (x # xs)" using assms(1) by (simp add: heap_inv_def)
  obtain m where m: "apply_alloc n h = Inr (x, h\<lparr>hmm := m, p_start := x + n, p_end := x + PGSIZE\<rparr>)"
      "mm_inv m xs" "\<forall>a. a \<notin> reg x 16384 \<longrightarrow> mem m a = mem (hmm h) a" "x \<noteq> 0"
      "window_ok (h\<lparr>hmm := m, p_start := x + n, p_end := x + PGSIZE\<rparr>)"
      "reg x (unat n) \<subseteq> reg x 16384" "window (h\<lparr>hmm := m, p_start := x + n, p_end := x + PGSIZE\<rparr>) \<subseteq> reg x 16384"
      "reg x (unat n) \<inter> window (h\<lparr>hmm := m, p_start := x + n, p_end := x + PGSIZE\<rparr>) = {}"
    using apply_alloc_new [OF inv assms(2,3) True] by blast
  show ?thesis
    using m pages_disjoint [OF inv]
    by (intro exI [of _ x] exI [of _ "h\<lparr>hmm := m, p_start := x + n, p_end := x + PGSIZE\<rparr>"] exI [of _ xs])
      (simp add: free_space_Cons, blast)
qed

lemma chunks_split:
  "i < 11 \<Longrightarrow> chunks B live = live @ concat (map B [0..<i]) @ B i @ concat (map B [Suc i..<11])"
  using upt_add_eq_append [of 0 i "11 - i"] upt_conv_Cons [of i 11] by (simp add: chunks_def)

lemma chunks_upd:
  "i < 11 \<Longrightarrow> chunks (B(i := cs)) live = live @ concat (map B [0..<i]) @ cs @ concat (map B [Suc i..<11])"
proof -
  have "map (B(i := cs)) [0..<i] = map B [0..<i]" "map (B(i := cs)) [Suc i..<11] = map B [Suc i..<11]"
    by (rule map_cong; simp)+
  then show "i < 11 \<Longrightarrow> ?thesis" by (simp only: chunks_split [of i] fun_upd_same)
qed

lemma in_chunks:
  "c \<in> set live \<Longrightarrow> c \<in> set (chunks B live)" "i < 11 \<Longrightarrow> c \<in> set (B i) \<Longrightarrow> c \<in> set (chunks B live)"
  using chunks_split [of i B live] by (simp_all add: chunks_def)

lemma heap_invD:
  assumes "heap_inv h B live rq cap xs"
  shows "mm_inv (hmm h) xs" "window_ok h" "window h \<inter> free_space xs = {}" "length (fastbin h) = 11"
    "\<And>i. i < 11 \<Longrightarrow> bin_chain (mem (hmm h)) (fastbin h ! i) (B i)" "distinct (chunks B live)"
    "\<And>c. c \<in> set (chunks B live) \<Longrightarrow> c \<noteq> 0" "\<And>c. c \<in> set (chunks B live) \<Longrightarrow> cap c < 16384"
    "\<And>c. c \<in> set (chunks B live) \<Longrightarrow> reg c (16 + cap c) \<inter> (window h \<union> free_space xs) = {}"
    "\<And>c d. c \<in> set (chunks B live) \<Longrightarrow> d \<in> set (chunks B live) \<Longrightarrow> c \<noteq> d \<Longrightarrow>
      reg c (16 + cap c) \<inter> reg d (16 + cap d) = {}"
    "\<And>c. c \<in> set live \<Longrightarrow> held h rq cap c"
    "\<And>i c. i < 11 \<Longrightarrow> c \<in> set (B i) \<Longrightarrow> 15 * i \<le> cap c"
  using assms by (simp_all add: heap_inv_def)

lemma heap_invI:
  assumes "mm_inv (hmm h) xs" "window_ok h" "window h \<inter> free_space xs = {}" "length (fastbin h) = 11"
    "\<And>i. i < 11 \<Longrightarrow> bin_chain (mem (hmm h)) (fastbin h ! i) (B i)" "distinct (chunks B live)"
    "\<And>c. c \<in> set (chunks B live) \<Longrightarrow> c \<noteq> 0" "\<And>c. c \<in> set (chunks B live) \<Longrightarrow> cap c < 16384"
    "\<And>c. c \<in> set (chunks B live) \<Longrightarrow> reg c (16 + cap c) \<inter> (window h \<union> free_space xs) = {}"
    "\<And>c d. c \<in> set (chunks B live) \<Longrightarrow> d \<in> set (chunks B live) \<Longrightarrow> c \<noteq> d \<Longrightarrow>
      reg c (16 + cap c) \<inter> reg d (16 + cap d) = {}"
    "\<And>c. c \<in> set live \<Longrightarrow> held h rq cap c"
    "\<And>i c. i < 11 \<Longrightarrow> c \<in> set (B i) \<Longrightarrow> 15 * i \<le> cap c"
  shows "heap_inv h B live rq cap xs"
  unfolding heap_inv_def by (intro conjI ballI allI impI) (rule assms; assumption)+

lemma bin_chain_same:
  assumes "heap_inv h B live rq cap xs" and "i < 11" and "\<And>c a. c \<in> set (B i) \<Longrightarrow> a \<in> reg c 16 \<Longrightarrow> m a = mem (hmm h) a"
  shows "bin_chain m (fastbin h ! i) (B i)"
  using heap_invD(5) [OF assms(1,2)] bin_chain_cong [of "B i" m "mem (hmm h)"] assms(3) by blast

lemma chunk_size_same:
  assumes "\<And>a. a \<in> reg c 16 \<Longrightarrow> mem (hmm h') a = mem (hmm h) a"
  shows "chunk_size h' c = chunk_size h c"
  unfolding chunk_size_def using assms reg_header(2) [of c] by (intro load64_cong) auto

text \<open>What does not touch the chunks keeps the invariant.\<close>

lemma heap_inv_frame:
  assumes inv: "heap_inv h B live rq cap xs" and "mm_inv (hmm h') ys" "window_ok h'" "fastbin h' = fastbin h"
    and "window h' \<subseteq> window h \<union> free_space xs" "free_space ys \<subseteq> free_space xs" "window h' \<inter> free_space ys = {}"
    and mem: "\<And>a. a \<notin> window h \<union> free_space xs \<Longrightarrow> mem (hmm h') a = mem (hmm h) a"
  shows "heap_inv h' B live rq cap ys"
proof -
  have out: "reg c (16 + cap c) \<inter> (window h \<union> free_space xs) = {}" if "c \<in> set (chunks B live)" for c
    using inv that by (simp add: heap_inv_def)
  have same: "mem (hmm h') a = mem (hmm h) a" if "c \<in> set (chunks B live)" "a \<in> reg c 16" for c a
  proof -
    have "a \<in> reg c (16 + cap c)" using that(2) by (rule subsetD [OF reg_mono, rotated]) simp
    with out [OF that(1)] have "a \<notin> window h \<union> free_space xs" by (meson disjoint_iff)
    then show ?thesis by (rule mem)
  qed
  show ?thesis
  proof (rule heap_invI)
    show "bin_chain (mem (hmm h')) (fastbin h' ! i) (B i)" if "i < 11" for i
      unfolding assms(4) by (rule bin_chain_same [OF inv that]) (rule same [OF in_chunks(2) [OF that]])
    show "held h' rq cap c" if "c \<in> set live" for c
      using chunk_size_same [OF same [OF in_chunks(1) [OF that]]] heap_invD(11) [OF inv that] by (simp add: held_def)
    show "reg c (16 + cap c) \<inter> (window h' \<union> free_space ys) = {}" if "c \<in> set (chunks B live)" for c
      using out [OF that] assms(5,6) by blast
  qed (use assms(2-4,7) heap_invD [OF inv] in \<open>simp_all\<close>)
qed

lemma heap_inv_put:
  assumes inv: "heap_inv h B live rq cap xs" and c: "reg c 16 \<inter> free_space xs = {}"
    "\<And>d. d \<in> set (chunks B live) \<Longrightarrow> reg c 16 \<inter> reg d 16 = {}" and a: "\<And>b. in_region a 8 b \<Longrightarrow> b \<in> reg c 16"
  shows "heap_inv (put64 a v h) B live rq cap xs"
proof -
  have out: "store64 (mem (hmm h)) a v b = mem (hmm h) b" if "b \<notin> reg c 16" for b
    using a that by (auto intro!: store64_out)
  have same: "store64 (mem (hmm h)) a v b = mem (hmm h) b" if "d \<in> set (chunks B live)" "b \<in> reg d 16" for d b
    using out [of b] c(2) [OF that(1)] that(2) by blast
  show ?thesis
  proof (rule heap_invI)
    show "mm_inv (hmm (put64 a v h)) xs"
      using heap_invD(1) [OF inv] out c(1) unfolding put64_def
      by (auto simp: free_space_def intro!: mm_inv_frame)
    show "bin_chain (mem (hmm (put64 a v h))) (fastbin (put64 a v h) ! i) (B i)" if "i < 11" for i
      by (simp, rule bin_chain_same [OF inv that]) (rule same [OF in_chunks(2) [OF that]])
    show "held (put64 a v h) rq cap d" if "d \<in> set live" for d
      using chunk_size_same [of d "put64 a v h" h] same [OF in_chunks(1) [OF that]] heap_invD(11) [OF inv that]
      by (simp add: held_def)
  qed (use heap_invD [OF inv] in \<open>simp_all\<close>)
qed

section \<open>Operations keep the invariant\<close>

lemma reg_self: "0 < n \<Longrightarrow> c \<in> reg c n"
  by (simp add: reg_def in_region_def)

lemma reg16: "reg c 16 \<subseteq> reg c (16 + k)"
  by (rule reg_mono) simp

lemma chunk_size_put: "chunk_size (put64 (c + 8) v h) c = v"
  by (simp add: chunk_size_def)

text \<open>A block from outside the chunks becomes a chunk in use.\<close>

lemma heap_inv_add:
  assumes inv: "heap_inv h B live rq cap xs" and c: "c \<noteq> 0" "k < 16384" and sz: "sz < 0xa0" "15 * (unat sz div 15) \<le> k"
    and free: "reg c (16 + k) \<inter> (window h \<union> free_space xs) = {}"
    and new: "\<And>d. d \<in> set (chunks B live) \<Longrightarrow> reg c (16 + k) \<inter> reg d (16 + cap d) = {}"
  shows "heap_inv (put64 (c + 8) sz h) B (c # live) (rq(c := sz)) (cap(c := k)) xs"
proof -
  have notin: "c \<notin> set (chunks B live)"
    using new [of c] reg_self [of "16 + k" c] reg_self [of "16 + cap c" c] by auto
  have sub: "reg c 16 \<inter> reg d 16 = {}" if "d \<in> set (chunks B live)" for d
    using new [OF that] reg16 [of c k] reg16 [of d "cap d"] by blast
  have "reg c 16 \<inter> free_space xs = {}" using free reg16 [of c k] by blast
  then have "heap_inv (put64 (c + 8) sz h) B live rq cap xs"
    using sub reg_header(2) by (rule heap_inv_put [OF inv])
  note I = heap_invD [OF this]
  have ch: "set (chunks B (c # live)) = insert c (set (chunks B live))" "distinct (chunks B (c # live))"
    using I(6) notin by (simp_all add: chunks_def)
  have capd: "(cap(c := k)) d = cap d" if "d \<in> set (chunks B live)" for d using that notin by auto
  show ?thesis
  proof (rule heap_invI)
    fix d e
    assume d: "d \<in> set (chunks B (c # live))"
    show "d \<noteq> 0" "(cap(c := k)) d < 16384" using d ch(1) c I(7,8) capd by auto
    show "reg d (16 + (cap(c := k)) d) \<inter> (window (put64 (c + 8) sz h) \<union> free_space xs) = {}"
      using d ch(1) free I(9) [of d] by auto
    assume e: "e \<in> set (chunks B (c # live))" "d \<noteq> e"
    show "reg d (16 + (cap(c := k)) d) \<inter> reg e (16 + (cap(c := k)) e) = {}"
      using d e ch(1) new [of d] new [of e] I(10) [of d e] by (auto simp: Int_commute)
  next
    fix d
    assume "d \<in> set (c # live)"
    then show "held (put64 (c + 8) sz h) (rq(c := sz)) (cap(c := k)) d"
      using I(11) [of d] sz chunk_size_put [of c sz h] by (auto simp: held_def)
  next
    fix i d
    assume "i < 11" "d \<in> set (B i)"
    then show "15 * i \<le> (cap(c := k)) d" using I(12) capd in_chunks(2) [of i d B live] by simp
  qed (use I ch in simp_all)
qed

text \<open>Taking the first chunk of a bin.\<close>

lemma heap_inv_take:
  assumes inv: "heap_inv h B live rq cap xs" and i: "i < 11" "B i = c # cs" and sz: "sz < 0xa0" "unat sz div 15 = i"
  shows "fastbin h ! i = c" "c \<noteq> 0"
    "heap_inv (put64 (c + 8) sz (h\<lparr>fastbin := (fastbin h)[i := chunk_next h c]\<rparr>)) (B(i := cs)) (c # live) (rq(c := sz)) cap xs"
proof -
  note I = heap_invD [OF inv]
  have ch: "bin_chain (mem (hmm h)) (fastbin h ! i) (c # cs)" using I(5) [OF i(1)] i(2) by simp
  then show "fastbin h ! i = c" "c \<noteq> 0" by simp_all
  let ?h = "h\<lparr>fastbin := (fastbin h)[i := chunk_next h c]\<rparr>"
  have perm: "set (chunks (B(i := cs)) live) = set (chunks B live) - {c}" "distinct (chunks (B(i := cs)) live)"
    "c \<in> set (chunks B live)" "c \<notin> set (chunks (B(i := cs)) live)"
    using I(6) i by (auto simp: chunks_upd [OF i(1)] chunks_split [OF i(1)])
  have base: "heap_inv ?h (B(i := cs)) live rq cap xs"
  proof (rule heap_invI)
    show "bin_chain (mem (hmm ?h)) (fastbin ?h ! j) ((B(i := cs)) j)" if "j < 11" for j
      using i(1) I(4) I(5) [OF that] ch by (cases "j = i") (auto simp: chunk_next_def)
    show "held ?h rq cap d" if "d \<in> set live" for d using I(11) [OF that] by (simp add: held_def chunk_size_def)
    show "15 * j \<le> cap d" if "j < 11" "d \<in> set ((B(i := cs)) j)" for j d
      using I(12) [OF that(1), of d] that(2) i(2) by (cases "j = i") simp_all
  qed (use I perm in \<open>simp_all add: window_def window_ok_def\<close>)
  have "15 * (unat sz div 15) \<le> cap c" using I(12) [OF i(1), of c] i(2) sz(2) by simp
  note sz' = sz(1) this
  have free: "reg c (16 + cap c) \<inter> (window ?h \<union> free_space xs) = {}"
    using I(9) [OF perm(3)] by (simp add: window_def)
  have "reg c (16 + cap c) \<inter> reg d (16 + cap d) = {}" if "d \<in> set (chunks (B(i := cs)) live)" for d
    using I(10) [OF perm(3), of d] that perm(1) by auto
  from heap_inv_add [OF base \<open>c \<noteq> 0\<close> I(8) [OF perm(3)] sz' free this]
  show "heap_inv (put64 (c + 8) sz ?h) (B(i := cs)) (c # live) (rq(c := sz)) cap xs" by simp
qed

lemma bin_index: "sz < 0xa0 \<Longrightarrow> unat (sz div 0xF) < 11" for sz :: u64
  by (simp add: word_less_nat_alt unat_div)

lemma fix_size:
  fixes sz :: u64
  assumes "sz < 0xa0"
  shows "unat (((sz + 0xF) AND NOT 0xF) + 16) = 16 + unat ((sz + 0xF) AND NOT 0xF)"
    and "unat sz \<le> unat ((sz + 0xF) AND NOT 0xF)" and "unat ((sz + 0xF) AND NOT 0xF) < 176"
proof -
  have u: "unat (sz + 0xF) = unat sz + 15" using assms by (intro trans [OF unat_plus_64]) (auto simp: word_less_nat_alt)
  have "unat ((sz + 0xF) AND NOT 0xF) = unat (sz + 0xF) - unat (sz + 0xF) mod 16"
    using unat_and_not_mask [of "sz + 0xF" 4] by (simp add: mask_eq_exp_minus_1)
  then have r: "unat ((sz + 0xF) AND NOT 0xF) = unat sz + 15 - (unat sz + 15) mod 16" using u by simp
  have lt: "unat sz < 160" using assms by (simp add: word_less_nat_alt)
  show a: "unat ((sz + 0xF) AND NOT 0xF) < 176" using r lt by linarith
  show "unat sz \<le> unat ((sz + 0xF) AND NOT 0xF)" unfolding r by presburger
  show "unat (((sz + 0xF) AND NOT 0xF) + 16) = 16 + unat ((sz + 0xF) AND NOT 0xF)"
    using a by (subst unat_plus_64) simp_all
qed

lemma malloc_small_ok:
  assumes inv: "heap_inv h B live rq cap (x # xs)" and sz: "sz < 0xa0"
  shows "\<exists>c h' B' cap' ys. malloc sz h = Inr (c + 16, h') \<and> c \<noteq> 0 \<and> (ys = xs \<or> ys = x # xs) \<and>
    heap_inv h' B' (c # live) (rq(c := sz)) cap' ys \<and> (\<forall>d\<in>set live. cap' d = cap d)"
proof -
  let ?i = "unat (sz div 0xF)" and ?k = "unat ((sz + 0xF) AND NOT 0xF)" and ?n = "((sz + 0xF) AND NOT 0xF) + 16"
  note I = heap_invD [OF inv] and i = bin_index [OF sz] and F = fix_size [OF sz]
  have small: "\<not> sz \<ge> 0xa0" using sz by simp
  show ?thesis
  proof (cases "B ?i")
    case (Cons c cs)
    have "unat sz div 15 = ?i" by (simp add: unat_div)
    note T = heap_inv_take [OF inv i Cons sz this]
    have "malloc sz h = Inr (c + 16, put64 (c + 8) sz (h\<lparr>fastbin := (fastbin h)[?i := chunk_next h c]\<rparr>))"
      using small T(1,2) by (simp add: malloc_def Let_def)
    then show ?thesis using T(2,3) by blast
  next
    case Nil
    then have z: "fastbin h ! ?i = 0" using I(5) [OF i] by simp
    have "0 < unat ?n" "unat ?n \<le> 1024" using F by simp_all
    then obtain c h' ys where A: "apply_alloc ?n h = Inr (c, h')" "mm_inv (hmm h') ys" "ys = xs \<or> ys = x # xs"
      "window_ok h'" "c \<noteq> 0" "fastbin h' = fastbin h" "reg c (unat ?n) \<subseteq> window h \<union> free_space (x # xs)"
      "window h' \<subseteq> window h \<union> free_space (x # xs)" "reg c (unat ?n) \<inter> window h' = {}"
      "(reg c (unat ?n) \<union> window h') \<inter> free_space ys = {}"
      "\<forall>a. a \<notin> free_space (x # xs) \<longrightarrow> mem (hmm h') a = mem (hmm h) a"
      using apply_alloc_ok [OF inv] by blast
    have base: "heap_inv h' B live rq cap ys"
    proof (rule heap_inv_frame [OF inv A(2,4,6,8)])
      show "free_space ys \<subseteq> free_space (x # xs)" using A(3) by (auto simp: free_space_Cons)
      show "window h' \<inter> free_space ys = {}" using A(10) by blast
      show "mem (hmm h') a = mem (hmm h) a" if "a \<notin> window h \<union> free_space (x # xs)" for a
        using A(11) that by blast
    qed
    have free: "reg c (16 + ?k) \<inter> (window h' \<union> free_space ys) = {}" using A(9,10) F(1) by auto
    have new: "reg c (16 + ?k) \<inter> reg d (16 + cap d) = {}" if "d \<in> set (chunks B live)" for d
      using A(7) I(9) [OF that] unfolding F(1) by blast
    have "?k < 16384" "15 * (unat sz div 15) \<le> ?k" using F(2,3) by linarith+
    from heap_inv_add [OF base A(5) this(1) sz this(2) free new]
    have "heap_inv (put64 (c + 8) sz h') B (c # live) (rq(c := sz)) (cap(c := ?k)) ys" .
    moreover have "malloc sz h = Inr (c + 16, put64 (c + 8) sz h')"
      using small z A(1,5) by (simp add: malloc_def Let_def)
    moreover have "c \<notin> set live"
      using new [of c] in_chunks(1) [of c live B] reg_self [of "16 + ?k" c] reg_self [of "16 + cap c" c] by auto
    ultimately show ?thesis using A(3,5)
      by (intro exI [of _ c] exI [of _ "put64 (c + 8) sz h'"] exI [of _ B] exI [of _ "cap(c := ?k)"] exI [of _ ys]) auto
  qed
qed

lemma free_small_ok:
  assumes inv: "heap_inv h B (as @ c # bs) rq cap xs"
  shows "\<exists>B'. heap_inv (free (c + 16) h) B' (as @ bs) rq cap xs"
proof -
  note I = heap_invD [OF inv]
  let ?i = "unat (chunk_size h c div 0xF)"
  have hc: "held h rq cap c" using I(11) [of c] by simp
  then have small: "chunk_size h c < 0xa0" by (simp add: held_def)
  note i = bin_index [OF small]
  have c: "c \<in> set (chunks B (as @ c # bs))" by (simp add: chunks_def)
  have perm: "set (chunks B (as @ bs)) = set (chunks B (as @ c # bs)) - {c}" "distinct (chunks B (as @ bs))"
    "distinct (chunks (B(?i := c # B ?i)) (as @ bs))"
    "set (chunks (B(?i := c # B ?i)) (as @ bs)) = set (chunks B (as @ c # bs))"
    using I(6) by (auto simp: chunks_upd [OF i] chunks_split [OF i])
  have less: "heap_inv h B (as @ bs) rq cap xs"
    by (rule heap_invI) (use I perm in simp_all)
  have "reg c 16 \<inter> free_space xs = {}" using I(9) [OF c] reg16 [of c "cap c"] by blast
  moreover have "reg c 16 \<inter> reg d 16 = {}" if "d \<in> set (chunks B (as @ bs))" for d
    using I(10) [OF c, of d] that perm(1) reg16 [of c "cap c"] reg16 [of d "cap d"] by blast
  ultimately have put: "heap_inv (put64 c (fastbin h ! ?i) h) B (as @ bs) rq cap xs"
    using reg_header(1) by (rule heap_inv_put [OF less])
  note P = heap_invD [OF put]
  let ?h = "(put64 c (fastbin h ! ?i) h)\<lparr>fastbin := (fastbin h)[?i := c]\<rparr>"
  have "heap_inv ?h (B(?i := c # B ?i)) (as @ bs) rq cap xs"
  proof (rule heap_invI)
    show "bin_chain (mem (hmm ?h)) (fastbin ?h ! j) ((B(?i := c # B ?i)) j)" if "j < 11" for j
      using i I(4) I(7) [OF c] P(5) [OF that] by (cases "j = ?i") simp_all
    show "held ?h rq cap d" if "d \<in> set (as @ bs)" for d using P(11) [OF that] by (simp add: held_def chunk_size_def)
    have "15 * ?i \<le> cap c" using hc by (simp add: held_def unat_div)
    then show "15 * j \<le> cap d" if "j < 11" "d \<in> set ((B(?i := c # B ?i)) j)" for j d
      using I(12) [OF that(1), of d] that(2) by (cases "j = ?i") auto
  qed (use P I perm in \<open>simp_all add: window_def window_ok_def\<close>)
  moreover have "free (c + 16) h = ?h" using small by (simp add: free_def Let_def)
  ultimately show ?thesis by auto
qed

text \<open>A page taken from the page allocator is no business of the heap.\<close>

lemma heap_inv_kmalloc:
  assumes inv: "heap_inv h B live rq cap (x # xs)" and sz: "sint sz \<le> 16384"
  shows "\<exists>m. kmalloc sz (hmm h) = Inr (x, m) \<and> x \<noteq> 0 \<and>
    (\<forall>m'. (\<forall>a. \<not> in_page x a \<longrightarrow> m' a = mem m a) \<longrightarrow> heap_inv (h\<lparr>hmm := m\<lparr>mem := m'\<rparr>\<rparr>) B live rq cap xs)"
proof -
  note I = heap_invD [OF inv]
  obtain m where m: "kmalloc sz (hmm h) = Inr (x, m)" "mm_inv m xs" "\<forall>a. mem m a = (if in_page x a then 5 else mem (hmm h) a)"
    using kalloc_Cons [OF I(1)] sz by (auto simp: kmalloc_def)
  have "heap_inv (h\<lparr>hmm := m\<lparr>mem := m'\<rparr>\<rparr>) B live rq cap xs" if m': "\<forall>a. \<not> in_page x a \<longrightarrow> m' a = mem m a" for m'
  proof (rule heap_inv_frame [OF inv])
    have "\<not> in_page x a" if "y \<in> set xs" "in_page y a" for y a
      using pages_disjoint [OF I(1)] that by (auto simp: free_space_def reg_def in_page_def)
    then show "mm_inv (hmm (h\<lparr>hmm := m\<lparr>mem := m'\<rparr>\<rparr>)) xs" using m(2) m' by (auto intro!: mm_inv_frame)
    show "mem (hmm (h\<lparr>hmm := m\<lparr>mem := m'\<rparr>\<rparr>)) a = mem (hmm h) a" if "a \<notin> window h \<union> free_space (x # xs)" for a
      using that m(3) m' by (auto simp: free_space_def)
  qed (use I(2,3) in \<open>auto simp: window_def window_ok_def free_space_Cons\<close>)
  then show ?thesis using m(1) mm_inv_nonzero [OF I(1)] by auto
qed

section \<open>Clients of small blocks\<close>

fun small_op :: "heap_op \<Rightarrow> bool" where
  "small_op (Malloc n) \<longleftrightarrow> n < 0xa0"
| "small_op (Free k) \<longleftrightarrow> True"

fun is_malloc :: "heap_op \<Rightarrow> bool" where
  "is_malloc (Malloc n) \<longleftrightarrow> True"
| "is_malloc (Free k) \<longleftrightarrow> False"

lemma heap_run_ok:
  assumes "heap_inv h B live rq cap xs" and "\<forall>op\<in>set ops. small_op op" and "length (filter is_malloc ops) \<le> length xs"
  shows "\<exists>h' B' live' rq' cap' ys.
    kfold heap_step ops (h, map (\<lambda>c. (c + 16, rq c)) live) = Inr (h', map (\<lambda>c. (c + 16, rq' c)) live') \<and>
    heap_inv h' B' live' rq' cap' ys"
  using assms
proof (induction ops arbitrary: h B live rq cap xs)
  case Nil
  then show ?case by (simp, blast)
next
  case (Cons op ops)
  show ?case
  proof (cases op)
    case (Malloc n)
    then obtain x ys where xs: "xs = x # ys" using Cons.prems(3) by (cases xs) auto
    obtain c h' B' cap' zs where M: "malloc n h = Inr (c + 16, h')" "zs = ys \<or> zs = x # ys"
      "heap_inv h' B' (c # live) (rq(c := n)) cap' zs"
      using malloc_small_ok [OF Cons.prems(1) [unfolded xs], of n] Cons.prems(2) Malloc
      by (simp only: list.set ball_simps small_op.simps) metis
    have "c \<notin> set live" using heap_invD(6) [OF M(3)] by (auto simp: chunks_def)
    then have "map (\<lambda>d. (d + 16, (rq(c := n)) d)) (c # live) = (c + 16, n) # map (\<lambda>d. (d + 16, rq d)) live"
      by auto
    moreover have "length (filter is_malloc ops) \<le> length zs" using Cons.prems(3) Malloc M(2) xs by auto
    moreover have "kfold heap_step (op # ops) (h, map (\<lambda>c. (c + 16, rq c)) live) =
        kfold heap_step ops (h', (c + 16, n) # map (\<lambda>d. (d + 16, rq d)) live)" using M(1) Malloc by simp
    ultimately show ?thesis using Cons.IH [OF M(3)] Cons.prems(2) by (simp only: list.set ball_simps) blast
  next
    case (Free k)
    show ?thesis
    proof (cases "k < length live")
      case True
      then have live: "live = take k live @ live ! k # drop (Suc k) live" by (rule id_take_nth_drop)
      obtain B' where F: "heap_inv (free (live ! k + 16) h) B' (take k live @ drop (Suc k) live) rq cap xs"
        using free_small_ok [of h B "take k live" "live ! k" "drop (Suc k) live" rq cap xs] Cons.prems(1) live by auto
      show ?thesis
        using Cons.IH [OF F] Cons.prems(2,3) Free True by (simp add: take_map drop_map)
    next
      case False
      then show ?thesis using Cons.IH [OF Cons.prems(1)] Cons.prems(2,3) Free by simp
    qed
  qed
qed

lemma chunks_Nil: "chunks (\<lambda>_. []) [] = []"
proof -
  have "concat (map (\<lambda>_. []) js) = ([] :: u64 list)" for js :: "nat list" by (induction js) simp_all
  then show ?thesis by (simp add: chunks_def del: concat_map_singleton)
qed

lemma heap_boot_inv: "mm_inv m xs \<Longrightarrow> heap_inv (heap_boot m) (\<lambda>_. []) [] rq cap xs"
  by (rule heap_invI) (simp_all add: heap_boot_def window_def window_ok_def chunks_Nil)

section \<open>Properties\<close>

text \<open>
  C8: a client of blocks below 160 bytes with a page left for each of its requests is always
  served; the blocks it holds are different, the allocator keeps the size of each, and the
  blocks, each as long as the greatest multiple of 15 in its size, do not overlap, however
  the client mixes requests and releases.
\<close>

theorem small_blocks_disjoint:
  assumes "mm_inv m xs" and "\<forall>op\<in>set ops. small_op op" and "length (filter is_malloc ops) \<le> length xs"
  shows "\<exists>h ps. kfold heap_step ops (heap_boot m, []) = Inr (h, ps) \<and> distinct (map fst ps) \<and>
    (\<forall>(p, n)\<in>set ps. n < 0xa0 \<and> chunk_size h (p - 16) = n) \<and>
    (\<forall>(p, n)\<in>set ps. \<forall>(q, k)\<in>set ps. p \<noteq> q \<longrightarrow>
      reg p (15 * (unat n div 15)) \<inter> reg q (15 * (unat k div 15)) = {})"
proof -
  obtain h B live rq cap ys where R: "kfold heap_step ops (heap_boot m, []) = Inr (h, map (\<lambda>c. (c + 16, rq c)) live)"
    "heap_inv h B live rq cap ys"
    using heap_run_ok [OF heap_boot_inv [OF assms(1)] assms(2,3)] by fastforce
  note I = heap_invD [OF R(2)]
  have "distinct live" using I(6) by (simp add: chunks_def)
  then have "distinct (map fst (map (\<lambda>c. (c + 16, rq c)) live))" by (simp add: distinct_map o_def inj_on_def)
  moreover have "reg (c + 16) (15 * (unat (rq c) div 15)) \<inter> reg (d + 16) (15 * (unat (rq d) div 15)) = {}"
    if "c \<in> set live" "d \<in> set live" "c \<noteq> d" for c d
  proof -
    have "reg (e + 16) (15 * (unat (rq e) div 15)) \<subseteq> reg e (16 + cap e)" if "e \<in> set live" for e
    proof
      fix a
      assume "a \<in> reg (e + 16) (15 * (unat (rq e) div 15))"
      then have "unat (a - (e + 16)) < cap e" "cap e < 16384"
        using I(11) [OF that] I(8) [OF in_chunks(1) [OF that]] by (auto simp: reg_def in_region_def held_def)
      then show "a \<in> reg e (16 + cap e)"
        using unat_plus_64 [of "a - (e + 16)" 16] by (simp add: reg_def in_region_def)
    qed
    then show ?thesis using I(10) [of c d] in_chunks(1) that by blast
  qed
  ultimately show ?thesis
    using R(1) I(11) by (intro exI [of _ h] exI [of _ "map (\<lambda>c. (c + 16, rq c)) live"]) (auto simp: held_def)
qed

theorem small_blocks_disjoint_witness:
  "\<exists>h ps. kfold heap_step [Malloc 24, Free 0, Malloc 29]
      (heap_boot \<lparr>mem = store64 (\<lambda>_. 0) 16384 32768, freelist = 16384\<rparr>, []) = Inr (h, ps) \<and> distinct (map fst ps)"
  using small_blocks_disjoint [OF two_page_heap, of "[Malloc 24, Free 0, Malloc 29]"] by auto

lemma words_apart:
  fixes a b c :: u64
  assumes "8 \<le> unat (a - b)" and "8 \<le> unat (b - a)" and "in_region a 8 c"
  shows "\<not> in_region b 8 c"
proof
  assume "in_region b 8 c"
  then have u: "unat (c - a) < 8" "unat (c - b) < 8" using assms(3) by (simp_all add: in_region_def)
  show False
  proof (cases "unat (c - a) \<le> unat (c - b)")
    case True
    have "unat (a - b) = unat (c - b) - unat (c - a)" using word_sub_unat [OF True] by simp
    then show False using u assms(1) by simp
  next
    case False
    have "unat (b - a) = unat (c - a) - unat (c - b)" using word_sub_unat [of "c - b" "c - a"] False by simp
    then show False using u assms(2) by simp
  qed
qed

lemma load64_store64_apart:
  "8 \<le> unat (a - b) \<Longrightarrow> 8 \<le> unat (b - a) \<Longrightarrow> load64 (store64 m b v) a = load64 m a"
  using words_apart by (intro load64_store64_disjoint) blast

text \<open>
  C39: blocks of 16 to 29 bytes share a bin although 16-byte blocks have no room for more: a
  block of 16 bytes that is given back serves the next request for 24 bytes, whose last
  8 bytes are the header of the neighbouring block. These are the sizes of \<open>struct mlist\<close>
  and \<open>struct mlist_element\<close>.
\<close>

theorem recycled_block_too_small:
  assumes "mm_inv m (x # xs)" and "x + PGSIZE \<noteq> 0"
  shows "\<exists>h. kfold heap_step [Malloc 16, Malloc 40, Free 1, Malloc 24] (heap_boot m, []) =
      Inr (h, [(x + 16, 24), (x + 48, 40)]) \<and>
    reg (x + 16) 24 \<inter> reg (x + 48 - 16) 16 \<noteq> {}"
proof -
  have al: "page_aligned x" "x \<noteq> 0" using assms(1) mm_inv_nonzero by (auto simp: mm_inv_def)
  have top: "unat x + 16384 < 18446744073709551616"
  proof (rule ccontr)
    assume "\<not> ?thesis"
    then have "unat x + 16384 = 18446744073709551616" using page_reg [OF al(1)] by linarith
    then have "unat (x + PGSIZE) = 0" by (simp add: unat_word_ariths PGSIZE_def)
    then show False using assms(2) unat_eq_0 by blast
  qed
  obtain m' where m': "kmalloc 16384 m = Inr (x, m')" using kalloc_Cons [OF assms(1)] by (auto simp: kmalloc_def)
  have u: "unat (x + of_nat k) = unat x + k" if "k \<le> 16384" for k
    using top that unat_plus_64 [of x "of_nat k"] by (simp add: unat_of_nat_64)
  have lt: "\<not> x + 96 \<ge> x + PGSIZE" and nz: "x + 32 \<noteq> 0"
    using u [of 96] u [of 16384] u [of 32] unat_eq_0 [of "x + 32"] by (auto simp: word_le_nat_alt PGSIZE_def)
  define h1 where "h1 = put64 (x + 8) 16
    \<lparr>hmm = m', fastbin = replicate 11 0, unsorted_bin = 0, p_start = x + 32, p_end = x + PGSIZE\<rparr>"
  have 1: "malloc 16 (heap_boot m) = Inr (x + 16, h1)"
    using al(2) m' by (simp add: malloc_def heap_boot_def apply_alloc_def Let_def h1_def PGSIZE_def)
  define h2 where "h2 = put64 (x + 40) 40 (h1\<lparr>p_start := x + 96\<rparr>)"
  have 2: "malloc 40 h1 = Inr (x + 48, h2)"
    using nz lt by (simp add: malloc_def apply_alloc_def Let_def h2_def h1_def PGSIZE_def put64_def add.assoc)
  have "chunk_size h2 x = 16"
    by (simp add: chunk_size_def h2_def h1_def put64_def load64_store64_apart)
  then have 3: "free (x + 16) h2 = (put64 x (fastbin h2 ! 1) h2)\<lparr>fastbin := (fastbin h2)[1 := x]\<rparr>"
    by (simp add: free_def Let_def)
  have "length (fastbin h2) = 11" by (simp add: h2_def h1_def)
  then have 4: "\<exists>h. malloc 24 (free (x + 16) h2) = Inr (x + 16, h)"
    unfolding 3 using al(2) by (simp add: malloc_def Let_def)
  moreover have "x + 32 \<in> reg (x + 16) 24 \<inter> reg (x + 48 - 16) 16" by (simp add: reg_def in_region_def)
  ultimately show ?thesis using 1 2 by auto
qed

theorem recycled_block_too_small_witness:
  "\<exists>h. kfold heap_step [Malloc 16, Malloc 40, Free 1, Malloc 24]
      (heap_boot \<lparr>mem = store64 (\<lambda>_. 0) 16384 32768, freelist = 16384\<rparr>, []) = Inr (h, [(16400, 24), (16432, 40)])"
  using recycled_block_too_small [OF two_page_heap] by (simp add: PGSIZE_def)

text \<open>
  The search for a large block takes the first block off the list, not the one it found:
  with a block that does not fit before one that does, two requests in a row are given
  the same block.
\<close>

theorem large_block_handed_out_twice:
  assumes "unsorted_bin h = a" "a \<noteq> 0" "\<not> fits n (chunk_size h a)"
    and "chunk_next h a = b" "b \<noteq> 0" "fits n (chunk_size h b)" and "0xa0 \<le> n" "n \<le> 0x4000"
  shows "\<exists>h1 h2. malloc n h = Inr (b + 16, h1) \<and> malloc n h1 = Inr (b + 16, h2)"
proof -
  have self: "fits n n"
  proof -
    have "unat (n + 128) = unat n + 128" using assms(8) by (subst unat_plus_64) (simp_all add: word_le_nat_alt)
    then show ?thesis by (simp add: fits_def word_less_nat_alt)
  qed
  have s: "search_unsorted 100 n a h = (b, True)"
  proof -
    have "search_unsorted (Suc (Suc k)) n a h = (b, True)" for k using assms(2-6) by simp
    from this [of 98] show ?thesis by simp
  qed
  let ?h = "put64 (b + 8) n (h\<lparr>unsorted_bin := b\<rparr>)"
  have 1: "malloc n h = Inr (b + 16, ?h)"
    using s assms by (simp add: malloc_def Let_def chunk_size_def chunk_next_def)
  have sz: "chunk_size ?h b = n" by (rule chunk_size_put)
  have "search_unsorted (Suc k) n b ?h = (b, True)" for k
    using assms(5) self sz by simp
  from this [of 99] have "search_unsorted 100 n (unsorted_bin ?h) ?h = (b, True)" by simp
  then have "\<exists>h2. malloc n ?h = Inr (b + 16, h2)"
    using assms(5,7) self sz by (simp add: malloc_def Let_def chunk_size_def)
  with 1 show ?thesis by blast
qed

theorem large_block_handed_out_twice_witness:
  "\<exists>h h1 h2. malloc 200 h = Inr (4112, h1) \<and> malloc 200 h1 = Inr (4112, h2)"
proof -
  let ?m = "store64 (store64 (store64 (\<lambda>_. 0) 1000 4096) 1008 400) 4104 200"
  let ?h = "(heap_boot \<lparr>mem = ?m, freelist = 0\<rparr>)\<lparr>unsorted_bin := 1000\<rparr>"
  have "chunk_size ?h 1000 = 400" "chunk_next ?h 1000 = 4096" "chunk_size ?h 4096 = 200"
    by (simp_all add: chunk_size_def chunk_next_def heap_boot_def load64_store64_apart)
  then show ?thesis
    using large_block_handed_out_twice [of ?h 1000 200 4096] by (auto simp: fits_def)
qed

end
