(* ===== verification/CSort.thy ===== *)
theory CSort
  imports SortSpec KHeap CString
begin

text \<open>
  \<open>qsort\<close> of lolibc/string.c on the bytes of memory: the array lies at \<open>base\<close>, pointers are addresses, and two elements change
  places through a buffer that is taken from \<open>malloc\<close> and given back. \<open>compar\<close> is the function the caller passes; it may
  read memory, and changes nothing. The loops are those of the code and need not end: \<open>None\<close> is a call that does not return. The
  theory shows that the code does to the elements what the functions of theory SortSpec do to their list, so that it
  ends and sorts, as long as the allocator has a block for the buffer.
\<close>

section \<open>Definitions\<close>

type_synonym comparison = "mem \<Rightarrow> u64 \<Rightarrow> u64 \<Rightarrow> int"

abbreviation kmem_of :: "kheap \<Rightarrow> mem" where
  "kmem_of h \<equiv> mem (hmm h)"

definition set_kmem :: "mem \<Rightarrow> kheap \<Rightarrow> kheap" where
  "set_kmem m h = h\<lparr>hmm := (hmm h)\<lparr>mem := m\<rparr>\<rparr>"

definition swap :: "u64 \<Rightarrow> u64 \<Rightarrow> u64 \<Rightarrow> kheap \<Rightarrow> kheap kres" where
  "swap sz left right h =
     kbind (malloc sz h) (\<lambda>(temp, h1).
       let m1 = fst (memcpy (kmem_of h1) temp left sz);
           m2 = fst (memcpy m1 left right sz);
           m3 = fst (memcpy m2 right temp sz) in
       Inr (free temp (set_kmem m3 h1)))"

partial_function (option) scan_left :: "comparison \<Rightarrow> u64 \<Rightarrow> u64 \<Rightarrow> mem \<Rightarrow> u64 \<Rightarrow> u64 \<Rightarrow> u64 option" where
  "scan_left compar sz pivot m left right =
     (if left \<le> right \<and> compar m left pivot \<le> 0 then scan_left compar sz pivot m (left + sz) right else Some left)"

partial_function (option) scan_right :: "comparison \<Rightarrow> u64 \<Rightarrow> u64 \<Rightarrow> mem \<Rightarrow> u64 \<Rightarrow> u64 \<Rightarrow> u64 option" where
  "scan_right compar sz pivot m left right =
     (if left \<le> right \<and> compar m right pivot > 0 then scan_right compar sz pivot m left (right - sz) else Some right)"

text \<open>The outer loop gives where \<open>right\<close> ends.\<close>

partial_function (option) partition_loop ::
    "comparison \<Rightarrow> u64 \<Rightarrow> u64 \<Rightarrow> u64 \<Rightarrow> u64 \<Rightarrow> kheap \<Rightarrow> (u64 \<times> kheap) kres option" where
  "partition_loop compar sz pivot left right h =
     (if left \<le> right then
        Option.bind (scan_left compar sz pivot (kmem_of h) left right) (\<lambda>l.
        Option.bind (scan_right compar sz pivot (kmem_of h) l right) (\<lambda>r.
          if l < r then
            (case swap sz l r h of Inl e \<Rightarrow> Some (Inl e)
             | Inr h1 \<Rightarrow> partition_loop compar sz pivot (l + sz) (r - sz) h1)
          else partition_loop compar sz pivot l r h))
      else Some (Inr (right, h)))"

partial_function (option) qsort :: "comparison \<Rightarrow> u64 \<Rightarrow> u64 \<Rightarrow> u64 \<Rightarrow> kheap \<Rightarrow> kheap kres option" where
  "qsort compar base num sz h =
     (if num \<le> 1 then Some (Inr h)
      else Option.bind (partition_loop compar sz base (base + sz) (base + (num - 1) * sz) h) (\<lambda>res.
        case res of Inl e \<Rightarrow> Some (Inl e)
        | Inr (right, h1) \<Rightarrow>
            (case swap sz base right h1 of Inl e \<Rightarrow> Some (Inl e)
             | Inr h2 \<Rightarrow>
                 if sz = 0 then Some (Inl (BadAccess ''division by zero''))
                 else let left_size = (right - base) div sz; right_size = num - left_size - 1 in
                   Option.bind (qsort compar base left_size sz h2) (\<lambda>res2.
                     case res2 of Inl e \<Rightarrow> Some (Inl e)
                     | Inr h3 \<Rightarrow> qsort compar (right + sz) right_size sz h3))))"

section \<open>The buffer\<close>

text \<open>
  The memory of the allocator: the rest of its page, the free pages, and the chunks of the bins. A caller that holds chunks
  leaves them out, so that the chunks in use are none of the allocator's business here.
\<close>

definition territory :: "kheap \<Rightarrow> (nat \<Rightarrow> u64 list) \<Rightarrow> (u64 \<Rightarrow> nat) \<Rightarrow> u64 list \<Rightarrow> u64 set" where
  "territory h B cap xs = window h \<union> free_space xs \<union> {a. \<exists>c\<in>set (chunks B []). a \<in> reg c (16 + cap c)}"

definition bin_of :: "u64 \<Rightarrow> nat" where
  "bin_of sz = unat (sz div 0xF)"

text \<open>A block of \<open>sz\<close> bytes is to be had, and every block in its bin has room for them.\<close>

definition buffer_ok :: "u64 \<Rightarrow> kheap \<Rightarrow> (nat \<Rightarrow> u64 list) \<Rightarrow> (u64 \<Rightarrow> nat) \<Rightarrow> u64 list \<Rightarrow> bool" where
  "buffer_ok sz h B cap xs \<longleftrightarrow> (\<exists>rq. heap_inv h B [] rq cap xs) \<and> (B (bin_of sz) \<noteq> [] \<or> xs \<noteq> []) \<and>
     (\<forall>c\<in>set (B (bin_of sz)). unat sz \<le> cap c)"

lemma set_chunks: "set (chunks B live) = set live \<union> {c. \<exists>i<11. c \<in> set (B i)}"
  by (auto simp: chunks_def)

lemma heap_inv_mem:
  assumes inv: "heap_inv h B live rq cap xs"
    and m: "\<And>a. a \<in> free_space xs \<or> (\<exists>c\<in>set (chunks B live). a \<in> reg c 16) \<Longrightarrow> m a = kmem_of h a"
  shows "heap_inv (set_kmem m h) B live rq cap xs"
proof -
  note I = heap_invD [OF inv]
  show ?thesis
  proof (rule heap_invI)
    show "mm_inv (hmm (set_kmem m h)) xs"
      using I(1) m by (auto simp: set_kmem_def free_space_def intro!: mm_inv_frame)
    show "bin_chain (kmem_of (set_kmem m h)) (fastbin (set_kmem m h) ! i) (B i)" if "i < 11" for i
    proof -
      have "bin_chain m (fastbin h ! i) (B i)"
        by (rule bin_chain_same [OF inv that], rule m) (use in_chunks(2) [OF that] in blast)
      then show ?thesis by (simp add: set_kmem_def)
    qed
    show "held (set_kmem m h) rq cap c" if "c \<in> set live" for c
      using I(11) [OF that] chunk_size_same [of c "set_kmem m h" h] m in_chunks(1) [OF that, of B]
      by (auto simp: held_def set_kmem_def)
  qed (use I in \<open>simp_all add: set_kmem_def window_def window_ok_def\<close>)
qed

lemma take_buffer:
  assumes ok: "buffer_ok sz h B cap xs" and sz: "sz < 0xa0"
  shows "\<exists>c h' B' rq' cap' ys. malloc sz h = Inr (c + 16, h') \<and> heap_inv h' B' [c] rq' cap' ys \<and> rq' c = sz \<and>
    unat sz \<le> cap' c \<and> (\<forall>d\<in>set (B' (bin_of sz)). unat sz \<le> cap' d) \<and>
    reg c (16 + cap' c) \<union> territory h' B' cap' ys \<subseteq> territory h B cap xs \<and>
    (\<forall>a. a \<notin> territory h B cap xs \<longrightarrow> kmem_of h' a = kmem_of h a)"
proof -
  obtain rq where inv: "heap_inv h B [] rq cap xs" using ok by (auto simp: buffer_ok_def)
  let ?i = "unat (sz div 0xF)" and ?k = "unat ((sz + 0xF) AND NOT 0xF)" and ?n = "((sz + 0xF) AND NOT 0xF) + 16"
  note I = heap_invD [OF inv] and i = bin_index [OF sz] and F = fix_size [OF sz]
  have small: "\<not> sz \<ge> 0xa0" using sz by simp
  have cap: "\<forall>d\<in>set (B ?i). unat sz \<le> cap d" using ok by (simp add: buffer_ok_def bin_of_def)
  show ?thesis
  proof (cases "B ?i")
    case (Cons c cs)
    have "unat sz div 15 = ?i" by (simp add: unat_div)
    note T = heap_inv_take [OF inv i Cons sz this]
    let ?h = "put64 (c + 8) sz (h\<lparr>fastbin := (fastbin h)[?i := chunk_next h c]\<rparr>)"
    have "malloc sz h = Inr (c + 16, ?h)" using small T(1,2) by (simp add: malloc_def Let_def)
    moreover have c: "c \<in> set (chunks B [])" using Cons i by (auto simp: set_chunks)
    have "set (chunks (B(?i := cs)) []) \<subseteq> set (chunks B [])" using Cons by (auto simp: set_chunks split: if_splits)
    then have "territory ?h (B(?i := cs)) cap xs \<subseteq> territory h B cap xs"
      by (auto simp: territory_def window_def)
    moreover have r: "reg c (16 + cap c) \<subseteq> territory h B cap xs" using c by (auto simp: territory_def)
    moreover have "kmem_of ?h a = kmem_of h a" if "a \<notin> territory h B cap xs" for a
      using that r reg_header(2) [of c a] reg16 [of c "cap c"] by (auto intro!: store64_out)
    moreover have "unat sz \<le> cap c" "\<forall>d\<in>set cs. unat sz \<le> cap d" using cap Cons by simp_all
    ultimately show ?thesis using T(3)
      by (intro exI [of _ c] exI [of _ ?h] exI [of _ "B(?i := cs)"] exI [of _ "rq(c := sz)"] exI [of _ cap] exI [of _ xs])
        (simp add: bin_of_def)
  next
    case Nil
    then obtain x xs' where xs: "xs = x # xs'" using ok by (cases xs) (auto simp: buffer_ok_def bin_of_def)
    have z: "fastbin h ! ?i = 0" using I(5) [OF i] Nil by simp
    have "0 < unat ?n" "unat ?n \<le> 1024" using F by simp_all
    then obtain c h' ys where A: "apply_alloc ?n h = Inr (c, h')" "mm_inv (hmm h') ys" "ys = xs' \<or> ys = x # xs'"
      "window_ok h'" "c \<noteq> 0" "fastbin h' = fastbin h" "reg c (unat ?n) \<subseteq> window h \<union> free_space xs"
      "window h' \<subseteq> window h \<union> free_space xs" "reg c (unat ?n) \<inter> window h' = {}"
      "(reg c (unat ?n) \<union> window h') \<inter> free_space ys = {}"
      "\<forall>a. a \<notin> free_space xs \<longrightarrow> kmem_of h' a = kmem_of h a"
      using apply_alloc_ok [OF inv [unfolded xs]] unfolding xs by blast
    have fs: "free_space ys \<subseteq> free_space xs" using A(3) xs by (auto simp: free_space_Cons)
    have base: "heap_inv h' B [] rq cap ys"
    proof (rule heap_inv_frame [OF inv A(2,4,6,8) fs])
      show "window h' \<inter> free_space ys = {}" using A(10) by blast
      show "kmem_of h' a = kmem_of h a" if "a \<notin> window h \<union> free_space xs" for a
        using A(11) that by blast
    qed
    have free: "reg c (16 + ?k) \<inter> (window h' \<union> free_space ys) = {}" using A(9,10) F(1) by auto
    have new: "reg c (16 + ?k) \<inter> reg d (16 + cap d) = {}" if "d \<in> set (chunks B [])" for d
      using A(7) I(9) [OF that] unfolding F(1) by blast
    have "?k < 16384" "15 * (unat sz div 15) \<le> ?k" using F(2,3) by linarith+
    from heap_inv_add [OF base A(5) this(1) sz this(2) free new]
    have inv': "heap_inv (put64 (c + 8) sz h') B [c] (rq(c := sz)) (cap(c := ?k)) ys" .
    have m: "malloc sz h = Inr (c + 16, put64 (c + 8) sz h')"
      using small z A(1,5) by (simp add: malloc_def Let_def)
    have notin: "c \<notin> set (chunks B [])"
      using new [of c] reg_self [of "16 + ?k" c] reg_self [of "16 + cap c" c] by auto
    have r: "reg c (16 + ?k) \<subseteq> territory h B cap xs" using A(7) F(1) by (auto simp: territory_def)
    have "territory (put64 (c + 8) sz h') B (cap(c := ?k)) ys \<subseteq> territory h B cap xs"
      using A(8) fs notin by (auto simp: territory_def)
    moreover have "kmem_of (put64 (c + 8) sz h') a = kmem_of h a" if "a \<notin> territory h B cap xs" for a
    proof -
      have "\<not> in_region (c + 8) 8 a" using that r reg_header(2) [of c a] reg16 [of c ?k] by blast
      then show ?thesis using A(11) that by (simp add: store64_out territory_def)
    qed
    ultimately show ?thesis
      using m inv' F(2) r Nil
      by (intro exI [of _ c] exI [of _ "put64 (c + 8) sz h'"] exI [of _ B] exI [of _ "rq(c := sz)"]
          exI [of _ "cap(c := ?k)"] exI [of _ ys]) (simp add: bin_of_def)
  qed
qed

lemma give_buffer:
  assumes inv: "heap_inv h B [c] rq cap xs" and rq: "rq c = sz" "unat sz \<le> cap c"
    and cap: "\<forall>d\<in>set (B (bin_of sz)). unat sz \<le> cap d"
  shows "\<exists>B'. buffer_ok sz (free (c + 16) h) B' cap xs \<and>
    territory (free (c + 16) h) B' cap xs \<subseteq> reg c (16 + cap c) \<union> territory h B cap xs \<and>
    (\<forall>a. a \<notin> reg c (16 + cap c) \<longrightarrow> kmem_of (free (c + 16) h) a = kmem_of h a)"
proof -
  note I = heap_invD [OF inv]
  let ?i = "bin_of sz"
  have hc: "held h rq cap c" using I(11) [of c] by simp
  then have small: "chunk_size h c < 0xa0" and sz: "chunk_size h c = sz" using rq by (simp_all add: held_def)
  then have i: "?i < 11" using bin_index [of sz] by (simp add: bin_of_def)
  have c: "c \<in> set (chunks B [c])" by (simp add: chunks_def)
  have perm: "set (chunks B []) = set (chunks B [c]) - {c}" "distinct (chunks B [])"
    "distinct (chunks (B(?i := c # B ?i)) [])" "set (chunks (B(?i := c # B ?i)) []) = set (chunks B [c])"
    using I(6) by (auto simp: chunks_upd [OF i] chunks_split [OF i])
  have less: "heap_inv h B [] rq cap xs" by (rule heap_invI) (use I perm in simp_all)
  have "reg c 16 \<inter> free_space xs = {}" using I(9) [OF c] reg16 [of c "cap c"] by blast
  moreover have "reg c 16 \<inter> reg d 16 = {}" if "d \<in> set (chunks B [])" for d
    using I(10) [OF c, of d] that perm(1) reg16 [of c "cap c"] reg16 [of d "cap d"] by blast
  ultimately have put: "heap_inv (put64 c (fastbin h ! ?i) h) B [] rq cap xs"
    using reg_header(1) by (rule heap_inv_put [OF less])
  note P = heap_invD [OF put]
  let ?h = "(put64 c (fastbin h ! ?i) h)\<lparr>fastbin := (fastbin h)[?i := c]\<rparr>"
  have inv': "heap_inv ?h (B(?i := c # B ?i)) [] rq cap xs"
  proof (rule heap_invI)
    show "bin_chain (kmem_of ?h) (fastbin ?h ! j) ((B(?i := c # B ?i)) j)" if "j < 11" for j
      using i I(4) I(7) [OF c] P(5) [OF that] by (cases "j = ?i") simp_all
    have "15 * ?i \<le> cap c" using hc sz by (simp add: held_def bin_of_def unat_div)
    then show "15 * j \<le> cap d" if "j < 11" "d \<in> set ((B(?i := c # B ?i)) j)" for j d
      using I(12) [OF that(1), of d] that(2) by (cases "j = ?i") auto
  qed (use P I perm in \<open>simp_all add: window_def window_ok_def\<close>)
  have f: "free (c + 16) h = ?h" using small sz by (simp add: free_def Let_def bin_of_def)
  have "buffer_ok sz ?h (B(?i := c # B ?i)) cap xs" using inv' rq(2) cap by (auto simp: buffer_ok_def)
  moreover have "territory ?h (B(?i := c # B ?i)) cap xs \<subseteq> reg c (16 + cap c) \<union> territory h B cap xs"
    using perm(1,4) by (auto simp: territory_def window_def)
  moreover have "kmem_of ?h a = kmem_of h a" if "a \<notin> reg c (16 + cap c)" for a
    using that reg_header(1) [of c a] reg16 [of c "cap c"] by (auto intro!: store64_out)
  ultimately show ?thesis unfolding f by blast
qed

section \<open>Exchanging two elements\<close>

lemma reg_fwd_ok:
  assumes "reg a n \<inter> reg b n = {}" shows "fwd_ok a b n"
proof (cases "n = 0")
  case False
  then have "a \<in> reg a n" by (simp add: reg_def in_region_def)
  then have "a \<notin> reg b n" using assms by blast
  then show ?thesis by (simp add: fwd_ok_def reg_def in_region_def)
qed (simp add: fwd_ok_def)

lemma reg_data:
  assumes "n \<le> k" "k < 16384"
  shows "reg (c + 16) n \<subseteq> reg c (16 + k)" "reg c 16 \<inter> reg (c + 16) n = {}"
proof -
  have "unat (a - c) = unat (a - (c + 16)) + 16" if "unat (a - (c + 16)) < n" for a
    using unat_plus_64 [of "a - (c + 16)" 16] that assms by simp
  then show "reg (c + 16) n \<subseteq> reg c (16 + k)" "reg c 16 \<inter> reg (c + 16) n = {}"
    using assms by (auto simp: reg_def in_region_def)
qed

text \<open>Reading and writing a region as a set of addresses.\<close>

lemma write_reg: "a \<notin> reg b (length bs) \<Longrightarrow> write_bytes m b bs a = m a"
  by (simp add: write_bytes_out reg_def)

lemma read_reg:
  assumes "\<And>a. a \<in> reg b n \<Longrightarrow> m a = m' a" "n < 16384" shows "read_bytes m b n = read_bytes m' b n"
proof (rule nth_equalityI)
  fix i assume "i < length (read_bytes m b n)"
  then have "i < n" by simp
  then have "b + of_nat i \<in> reg b n" using assms(2) by (simp add: reg_def in_region_def unat_of_nat_64)
  then show "read_bytes m b n ! i = read_bytes m' b n ! i" using assms(1) \<open>i < n\<close> by simp
qed simp

lemma read_written: "length bs < 16384 \<Longrightarrow> read_bytes (write_bytes m b bs) b (length bs) = bs"
  by (rule nth_equalityI) (simp_all add: write_bytes_def unat_of_nat_64)

definition exchanged :: "mem \<Rightarrow> u64 \<Rightarrow> u64 \<Rightarrow> nat \<Rightarrow> mem" where
  "exchanged m l r n = write_bytes (write_bytes m l (read_bytes m r n)) r (read_bytes m l n)"

lemma swap_ok:
  assumes ok: "buffer_ok sz h B cap xs" and sz: "sz < 0xa0"
    and lr: "reg l (unat sz) \<inter> territory h B cap xs = {}" "reg r (unat sz) \<inter> territory h B cap xs = {}"
    and d: "l = r \<or> reg l (unat sz) \<inter> reg r (unat sz) = {}"
  shows "\<exists>h' B' cap' ys. swap sz l r h = Inr h' \<and> buffer_ok sz h' B' cap' ys \<and>
    territory h' B' cap' ys \<subseteq> territory h B cap xs \<and>
    (\<forall>a. a \<notin> territory h B cap xs \<longrightarrow> kmem_of h' a = exchanged (kmem_of h) l r (unat sz) a)"
proof -
  let ?n = "unat sz" and ?T = "territory h B cap xs"
  obtain c h1 B1 rq1 cap1 ys where M: "malloc sz h = Inr (c + 16, h1)" "heap_inv h1 B1 [c] rq1 cap1 ys" "rq1 c = sz"
    "unat sz \<le> cap1 c" "\<forall>d\<in>set (B1 (bin_of sz)). unat sz \<le> cap1 d"
    "reg c (16 + cap1 c) \<union> territory h1 B1 cap1 ys \<subseteq> ?T" "\<forall>a. a \<notin> ?T \<longrightarrow> kmem_of h1 a = kmem_of h a"
    using take_buffer [OF ok sz] by blast
  note I = heap_invD [OF M(2)]
  have n: "?n < 16384" using sz by (simp add: word_less_nat_alt)
  have c: "c \<in> set (chunks B1 [c])" by (simp add: chunks_def)
  note P = reg_data [OF M(4) I(8) [OF c], of c]
  let ?p = "c + 16"
  have pT: "reg ?p ?n \<subseteq> ?T" using P(1) M(6) by blast
  have pl: "reg ?p ?n \<inter> reg l ?n = {}" "reg ?p ?n \<inter> reg r ?n = {}" using pT lr by blast+
  define m1 where "m1 = write_bytes (kmem_of h1) ?p (read_bytes (kmem_of h1) l ?n)"
  define m2 where "m2 = write_bytes m1 l (read_bytes m1 r ?n)"
  define m3 where "m3 = write_bytes m2 r (read_bytes m2 ?p ?n)"
  have rl: "read_bytes (kmem_of h1) l ?n = read_bytes (kmem_of h) l ?n"
    using M(7) lr(1) n by (intro read_reg) auto
  have rr: "read_bytes m1 r ?n = read_bytes (kmem_of h) r ?n"
  proof (rule read_reg [OF _ n])
    fix a assume "a \<in> reg r ?n"
    then have "a \<notin> reg ?p ?n" "a \<notin> ?T" using pl(2) lr(2) by blast+
    then show "m1 a = kmem_of h a" using M(7) by (simp add: m1_def write_reg)
  qed
  have "read_bytes m2 ?p ?n = read_bytes m1 ?p ?n"
  proof (rule read_reg [OF _ n])
    fix a assume "a \<in> reg ?p ?n"
    then have "a \<notin> reg l ?n" using pl(1) by blast
    then show "m2 a = m1 a" by (simp add: m2_def write_reg)
  qed
  also have "\<dots> = read_bytes (kmem_of h) l ?n"
    unfolding m1_def rl using read_written [of "read_bytes (kmem_of h) l ?n" "kmem_of h1" ?p] n by simp
  finally have rp: "read_bytes m2 ?p ?n = read_bytes (kmem_of h) l ?n" .
  have "fwd_ok l r ?n" using d reg_fwd_ok [of l ?n r] by (auto simp: fwd_ok_def)
  moreover have "fwd_ok ?p l ?n" "fwd_ok r ?p ?n" using pl by (auto intro!: reg_fwd_ok)
  ultimately have sw: "swap sz l r h = Inr (free ?p (set_kmem m3 h1))"
    using M(1) by (simp add: swap_def Let_def memcpy_eq m1_def m2_def m3_def)
  have out: "m3 a = kmem_of h1 a" if "a \<notin> reg ?p ?n" "a \<notin> reg l ?n" "a \<notin> reg r ?n" for a
    using that by (simp add: m3_def m2_def m1_def write_reg)
  have inv: "heap_inv (set_kmem m3 h1) B1 [c] rq1 cap1 ys"
  proof (rule heap_inv_mem [OF M(2)])
    fix a assume a: "a \<in> free_space ys \<or> (\<exists>d\<in>set (chunks B1 [c]). a \<in> reg d 16)"
    have "a \<notin> reg ?p ?n \<and> a \<in> ?T"
    proof (cases "a \<in> free_space ys")
      case True
      then show ?thesis using I(9) [OF c] P(1) M(6) by (auto simp: territory_def)
    next
      case False
      then obtain d where d: "d \<in> set (chunks B1 [c])" "a \<in> reg d 16" using a by blast
      have "a \<notin> reg ?p ?n"
        using d P I(10) [OF d(1) c] reg16 [of d "cap1 d"] by (cases "d = c") auto
      moreover have "a \<in> ?T"
      proof (cases "d = c")
        case False
        then have "d \<in> set (chunks B1 [])" using d(1) by (simp add: chunks_def)
        then have "a \<in> territory h1 B1 cap1 ys" using d(2) reg16 [of d "cap1 d"] unfolding territory_def by blast
        then show ?thesis using M(6) by blast
      qed (use d(2) reg16 [of c "cap1 c"] M(6) in auto)
      ultimately show ?thesis by blast
    qed
    then show "m3 a = kmem_of h1 a" using lr by (intro out) auto
  qed
  obtain B' where F: "buffer_ok sz (free ?p (set_kmem m3 h1)) B' cap1 ys"
    "territory (free ?p (set_kmem m3 h1)) B' cap1 ys \<subseteq> reg c (16 + cap1 c) \<union> territory (set_kmem m3 h1) B1 cap1 ys"
    "\<forall>a. a \<notin> reg c (16 + cap1 c) \<longrightarrow> kmem_of (free ?p (set_kmem m3 h1)) a = kmem_of (set_kmem m3 h1) a"
    using give_buffer [OF inv M(3-5)] by blast
  have "territory (set_kmem m3 h1) B1 cap1 ys = territory h1 B1 cap1 ys"
    by (simp add: territory_def set_kmem_def window_def)
  then have "territory (free ?p (set_kmem m3 h1)) B' cap1 ys \<subseteq> ?T" using F(2) M(6) by blast
  moreover have "kmem_of (free ?p (set_kmem m3 h1)) a = exchanged (kmem_of h) l r ?n a" if a: "a \<notin> ?T" for a
  proof -
    have "a \<notin> reg ?p ?n" using a pT by blast
    then have m1: "m1 a = kmem_of h a" using a M(7) by (simp add: m1_def write_reg)
    have "kmem_of (free ?p (set_kmem m3 h1)) a = m3 a" using F(3) M(6) a by (auto simp: set_kmem_def)
    also have "\<dots> = exchanged (kmem_of h) l r ?n a"
      unfolding m3_def rp unfolding m2_def rr exchanged_def using m1 by (simp add: write_bytes_def)
    finally show ?thesis .
  qed
  ultimately show ?thesis using sw F(1) by blast
qed

section \<open>The array\<close>

text \<open>The address of element \<open>i\<close>, and the list of the elements.\<close>

definition place :: "u64 \<Rightarrow> u64 \<Rightarrow> nat \<Rightarrow> u64" where
  "place base sz i = base + of_nat i * sz"

definition elems :: "mem \<Rightarrow> u64 \<Rightarrow> u64 \<Rightarrow> nat \<Rightarrow> bytes list" where
  "elems m base sz k = map (\<lambda>i. read_bytes m (place base sz i) (unat sz)) [0..<k]"

text \<open>The array does not wrap around, and its elements are small enough for the bins.\<close>

definition arr :: "u64 \<Rightarrow> u64 \<Rightarrow> nat \<Rightarrow> bool" where
  "arr base sz k \<longleftrightarrow> 0 < sz \<and> sz < 0xa0 \<and> unat base + k * unat sz < 2 ^ 64"

lemma length_elems [simp]: "length (elems m base sz k) = k"
  by (simp add: elems_def)

lemma nth_elems: "i < k \<Longrightarrow> elems m base sz k ! i = read_bytes m (place base sz i) (unat sz)"
  by (simp add: elems_def)

lemma place_0 [simp]: "place base sz 0 = base"
  by (simp add: place_def)

lemma place_Suc: "place base sz (Suc i) = place base sz i + sz"
  by (simp add: place_def algebra_simps)

lemma place_add: "place (place base sz i) sz j = place base sz (i + j)"
  by (simp add: place_def algebra_simps)

lemma unat_place:
  assumes "arr base sz k" "i \<le> k" shows "unat (place base sz i) = unat base + i * unat sz"
proof -
  have le: "i * unat sz \<le> k * unat sz" using assms(2) by simp
  have k: "unat base + k * unat sz < 18446744073709551616" using assms(1) by (simp add: arr_def)
  have "of_nat i * sz = (of_nat (i * unat sz) :: u64)" by simp
  moreover have "unat (of_nat (i * unat sz) :: u64) = i * unat sz" using le k by (intro unat_of_nat_64) linarith
  ultimately have "unat (of_nat i * sz :: u64) = i * unat sz" by simp
  moreover have "unat base + i * unat sz < 18446744073709551616" using le k by linarith
  ultimately show ?thesis unfolding place_def by (subst unat_plus_64) simp_all
qed

lemma arr_size: "arr base sz k \<Longrightarrow> 0 < unat sz" "arr base sz k \<Longrightarrow> unat sz < 160"
  by (simp_all add: arr_def word_less_nat_alt unat_gt_0)

lemma place_le:
  assumes "arr base sz k" "i \<le> k" "j \<le> k"
  shows "place base sz i \<le> place base sz j \<longleftrightarrow> i \<le> j" "place base sz i < place base sz j \<longleftrightarrow> i < j"
  using assms arr_size(1) [OF assms(1)] by (simp_all add: word_le_nat_alt word_less_nat_alt unat_place)

lemma arr_mono:
  assumes "arr base sz k" "j \<le> k" shows "arr base sz j"
proof -
  have "unat base + j * unat sz \<le> unat base + k * unat sz" using assms(2) by simp
  then have "unat base + j * unat sz < 2 ^ 64" using assms(1) unfolding arr_def by (meson le_less_trans)
  then show ?thesis using assms(1) by (simp add: arr_def)
qed

lemma arr_place:
  assumes "arr base sz k" "i + j \<le> k" shows "arr (place base sz i) sz j"
proof -
  have "unat base + (i + j) * unat sz < 2 ^ 64" using arr_mono [OF assms] by (simp only: arr_def)
  moreover have "unat (place base sz i) = unat base + i * unat sz" using assms by (intro unat_place) auto
  ultimately show ?thesis using assms(1) by (simp add: arr_def add_mult_distrib)
qed

lemma arr_count:
  assumes "arr base sz k" shows "k < 18446744073709551616"
proof -
  have "k * 1 \<le> k * unat sz" using arr_size(1) [OF assms] by (intro mult_le_mono2) simp
  moreover have "unat base + k * unat sz < 18446744073709551616" using assms by (simp add: arr_def)
  ultimately show ?thesis by linarith
qed

lemma in_places:
  assumes "arr base sz k" "i + j \<le> k"
  shows "a \<in> reg (place base sz i) (j * unat sz) \<longleftrightarrow>
    unat base + i * unat sz \<le> unat a \<and> unat a < unat base + (i + j) * unat sz"
proof -
  have u: "unat (place base sz i) = unat base + i * unat sz" using unat_place [OF assms(1)] assms(2) by simp
  have "unat (place base sz i) + j * unat sz \<le> 18446744073709551616"
    using arr_place [OF assms] by (simp add: arr_def)
  from reg_iff [OF this] show ?thesis by (simp add: u add_mult_distrib add.assoc)
qed

lemma in_place:
  "arr base sz k \<Longrightarrow> i < k \<Longrightarrow> a \<in> reg (place base sz i) (unat sz) \<longleftrightarrow>
    unat base + i * unat sz \<le> unat a \<and> unat a < unat base + Suc i * unat sz"
  using in_places [of base sz k i 1] by simp

lemma in_array:
  "arr base sz k \<Longrightarrow> a \<in> reg base (k * unat sz) \<longleftrightarrow> unat base \<le> unat a \<and> unat a < unat base + k * unat sz"
  using in_places [of base sz k 0 k] by simp

lemma place_in_array:
  assumes "arr base sz k" "i + j \<le> k" shows "reg (place base sz i) (j * unat sz) \<subseteq> reg base (k * unat sz)"
proof
  fix a assume "a \<in> reg (place base sz i) (j * unat sz)"
  then have "unat base + i * unat sz \<le> unat a" "unat a < unat base + (i + j) * unat sz" using in_places [OF assms] by simp_all
  moreover have "(i + j) * unat sz \<le> k * unat sz" using assms(2) by (rule mult_le_mono1)
  ultimately have "unat base \<le> unat a" "unat a < unat base + k * unat sz" by linarith+
  then show "a \<in> reg base (k * unat sz)" using in_array [OF assms(1)] by simp
qed

lemma parts_apart:
  assumes "arr base sz k" "i + j \<le> i'" "i' + j' \<le> k"
  shows "reg (place base sz i) (j * unat sz) \<inter> reg (place base sz i') (j' * unat sz) = {}"
proof -
  have le: "(i + j) * unat sz \<le> i' * unat sz" using assms(2) by (rule mult_le_mono1)
  have "i + j \<le> k" using assms(2,3) by linarith
  note P = in_places [OF assms(1) this] in_places [OF assms(1,3)]
  have False if a: "a \<in> reg (place base sz i) (j * unat sz)" "a \<in> reg (place base sz i') (j' * unat sz)" for a
  proof -
    have "unat a < unat base + (i + j) * unat sz" "unat base + i' * unat sz \<le> unat a" using a P by simp_all
    then show False using le by linarith
  qed
  then show ?thesis by blast
qed

lemma places_apart:
  assumes "arr base sz k" "i < k" "j < k" "i \<noteq> j"
  shows "reg (place base sz i) (unat sz) \<inter> reg (place base sz j) (unat sz) = {}"
  using parts_apart [of base sz k i 1 j 1] parts_apart [of base sz k j 1 i 1] assms by (cases "i < j") auto

lemma elems_cong:
  assumes "arr base sz k" "\<And>a. a \<in> reg base (k * unat sz) \<Longrightarrow> m a = m' a"
  shows "elems m base sz k = elems m' base sz k"
proof (rule nth_equalityI)
  fix i assume i: "i < length (elems m base sz k)"
  have "reg (place base sz i) (unat sz) \<subseteq> reg base (k * unat sz)" using place_in_array [OF assms(1), of i 1] i by simp
  then have "read_bytes m (place base sz i) (unat sz) = read_bytes m' (place base sz i) (unat sz)"
    using assms(2) arr_size(2) [OF assms(1)] by (intro read_reg) auto
  then show "elems m base sz k ! i = elems m' base sz k ! i" using i by (simp add: nth_elems)
qed simp

lemma elems_split: "r < k \<Longrightarrow> elems m base sz k =
    elems m base sz r @ [read_bytes m (place base sz r) (unat sz)] @ elems m (place base sz (Suc r)) sz (k - Suc r)"
proof (rule nth_equalityI)
  assume r: "r < k"
  fix i assume "i < length (elems m base sz k)"
  then have i: "i < k" by simp
  consider "i < r" | "i = r" | j where "i = Suc r + j" by (metis less_imp_Suc_add linorder_neqE_nat add_Suc)
  then show "elems m base sz k ! i = (elems m base sz r @ [read_bytes m (place base sz r) (unat sz)] @
      elems m (place base sz (Suc r)) sz (k - Suc r)) ! i"
    using i r by cases (auto simp: nth_elems nth_append place_add)
qed auto

lemma elems_exchanged:
  assumes A: "arr base sz k" and i: "i < k" "j < k"
  shows "elems (exchanged m (place base sz i) (place base sz j) (unat sz)) base sz k = list_swap i j (elems m base sz k)"
proof (rule nth_equalityI)
  let ?n = "unat sz" and ?p = "place base sz"
  have n: "?n < 16384" using arr_size(2) [OF A] by simp
  fix x assume "x < length (elems (exchanged m (?p i) (?p j) ?n) base sz k)"
  then have x: "x < k" by simp
  let ?m1 = "write_bytes m (?p i) (read_bytes m (?p j) ?n)"
  have w: "read_bytes (write_bytes mm (?p y) (read_bytes m z ?n)) (?p x) ?n =
      (if x = y then read_bytes m z ?n else read_bytes mm (?p x) ?n)" if "y < k" for mm y z
  proof (cases "x = y")
    case True
    then show ?thesis using read_written [of "read_bytes m z ?n" mm "?p y"] n by simp
  next
    case False
    have "read_bytes (write_bytes mm (?p y) (read_bytes m z ?n)) (?p x) ?n = read_bytes mm (?p x) ?n"
    proof (rule read_reg [OF _ n])
      fix a assume "a \<in> reg (?p x) ?n"
      then have "a \<notin> reg (?p y) ?n" using places_apart [OF A x that False] by blast
      then show "write_bytes mm (?p y) (read_bytes m z ?n) a = mm a" by (simp add: write_reg)
    qed
    then show ?thesis using False by simp
  qed
  have "read_bytes (exchanged m (?p i) (?p j) ?n) (?p x) ?n =
      (if x = j then read_bytes m (?p i) ?n else if x = i then read_bytes m (?p j) ?n else read_bytes m (?p x) ?n)"
    by (simp add: exchanged_def w i)
  then show "elems (exchanged m (?p i) (?p j) ?n) base sz k ! x = list_swap i j (elems m base sz k) ! x"
    using x i by (simp add: nth_elems nth_list_swap)
qed simp

lemma exchanged_out:
  assumes "arr base sz k" "i < k" "j < k" "a \<notin> reg base (k * unat sz)"
  shows "exchanged m (place base sz i) (place base sz j) (unat sz) a = m a"
proof -
  have "a \<notin> reg (place base sz i) (unat sz)" "a \<notin> reg (place base sz j) (unat sz)"
    using place_in_array [OF assms(1), of i 1] place_in_array [OF assms(1), of j 1] assms by auto
  then show ?thesis by (simp add: exchanged_def write_reg)
qed

section \<open>The sort\<close>

text \<open>The allocator has a buffer, and its memory lies in \<open>T\<close>.\<close>

definition ready :: "u64 \<Rightarrow> u64 set \<Rightarrow> kheap \<Rightarrow> bool" where
  "ready sz T h \<longleftrightarrow> (\<exists>B cap xs. buffer_ok sz h B cap xs \<and> territory h B cap xs \<subseteq> T)"

text \<open>
  What the parts of the sort do to an array: it has the elements \<open>ys\<close> afterwards, the allocator is ready again, and the rest of
  the memory is as before.
\<close>

definition arranged :: "u64 \<Rightarrow> u64 \<Rightarrow> nat \<Rightarrow> u64 set \<Rightarrow> kheap \<Rightarrow> bytes list \<Rightarrow> kheap \<Rightarrow> bool" where
  "arranged base sz k T h ys h' \<longleftrightarrow> elems (kmem_of h') base sz k = ys \<and> ready sz T h' \<and>
     (\<forall>a. a \<notin> T \<union> reg base (k * unat sz) \<longrightarrow> kmem_of h' a = kmem_of h a)"

lemma arranged_refl: "ready sz T h \<Longrightarrow> arranged base sz k T h (elems (kmem_of h) base sz k) h"
  by (simp add: arranged_def)

lemma arranged_trans: "arranged base sz k T h xs h1 \<Longrightarrow> arranged base sz k T h1 ys h2 \<Longrightarrow> arranged base sz k T h ys h2"
  by (simp add: arranged_def)

lemma swap_arranges:
  assumes A: "arr base sz k" and r: "ready sz T h" and T: "reg base (k * unat sz) \<inter> T = {}" and i: "i < k" "j < k"
  shows "\<exists>h'. swap sz (place base sz i) (place base sz j) h = Inr h' \<and>
    arranged base sz k T h (list_swap i j (elems (kmem_of h) base sz k)) h'"
proof -
  obtain B cap xs where B: "buffer_ok sz h B cap xs" "territory h B cap xs \<subseteq> T" using r by (auto simp: ready_def)
  have sz: "sz < 0xa0" using A by (simp add: arr_def)
  have p: "reg (place base sz x) (unat sz) \<inter> territory h B cap xs = {}" if "x < k" for x
    using place_in_array [OF A, of x 1] that B(2) T by auto
  have d: "place base sz i = place base sz j \<or> reg (place base sz i) (unat sz) \<inter> reg (place base sz j) (unat sz) = {}"
    using places_apart [OF A i] by (cases "i = j") auto
  obtain h' B' cap' ys where S: "swap sz (place base sz i) (place base sz j) h = Inr h'" "buffer_ok sz h' B' cap' ys"
    "territory h' B' cap' ys \<subseteq> territory h B cap xs"
    "\<forall>a. a \<notin> territory h B cap xs \<longrightarrow> kmem_of h' a = exchanged (kmem_of h) (place base sz i) (place base sz j) (unat sz) a"
    using swap_ok [OF B(1) sz p [OF i(1)] p [OF i(2)] d] by blast
  have "elems (kmem_of h') base sz k = elems (exchanged (kmem_of h) (place base sz i) (place base sz j) (unat sz)) base sz k"
    using S(4) B(2) T by (intro elems_cong [OF A]) blast
  also have "\<dots> = list_swap i j (elems (kmem_of h) base sz k)" by (rule elems_exchanged [OF A i])
  finally have "elems (kmem_of h') base sz k = list_swap i j (elems (kmem_of h) base sz k)" .
  moreover have "ready sz T h'" using S(2) subset_trans [OF S(3) B(2)] unfolding ready_def by blast
  moreover have "kmem_of h' a = kmem_of h a" if "a \<notin> T \<union> reg base (k * unat sz)" for a
    using that S(4) B(2) exchanged_out [OF A i, of a "kmem_of h"] by auto
  ultimately show ?thesis using S(1) by (auto simp: arranged_def)
qed

text \<open>The comparison looks at the bytes of two elements and at nothing else.\<close>

definition compares :: "comparison \<Rightarrow> u64 \<Rightarrow> (bytes \<Rightarrow> bytes \<Rightarrow> int) \<Rightarrow> bool" where
  "compares compar sz cmp \<longleftrightarrow> (\<forall>m p q. compar m p q = cmp (read_bytes m p (unat sz)) (read_bytes m q (unat sz)))"

lemma compares_at:
  "compares compar sz cmp \<Longrightarrow> i < k \<Longrightarrow> compar m (place base sz i) base = cmp (elems m base sz k ! i) (elems m base sz k ! 0)"
  by (simp add: compares_def nth_elems)

lemma scan_left_place:
  assumes A: "arr base sz k" and c: "compares compar sz cmp" and "r < k" "l \<le> Suc r"
  shows "scan_left compar sz base m (place base sz l) (place base sz r) =
    Some (place base sz (list_scan_left cmp (elems m base sz k) l r))"
  using assms(3,4)
proof (induction "Suc r - l" arbitrary: l rule: less_induct)
  case less
  have le: "place base sz l \<le> place base sz r \<longleftrightarrow> l \<le> r" using less.prems by (intro place_le [OF A]) auto
  have at: "l \<le> r \<Longrightarrow> compar m (place base sz l) base = cmp (elems m base sz k ! l) (elems m base sz k ! 0)"
    using compares_at [OF c, of l k m base] less.prems by simp
  show ?case
  proof (cases "l \<le> r \<and> cmp (elems m base sz k ! l) (elems m base sz k ! 0) \<le> 0")
    case True
    then have "Suc r - Suc l < Suc r - l" "Suc l \<le> Suc r" by linarith+
    then have "scan_left compar sz base m (place base sz (Suc l)) (place base sz r) =
        Some (place base sz (list_scan_left cmp (elems m base sz k) (Suc l) r))"
      using less.hyps less.prems(1) by blast
    then show ?thesis using True le at
      by (subst scan_left.simps, subst list_scan_left.simps) (simp add: place_Suc)
  next
    case False
    then show ?thesis using le at by (subst scan_left.simps, subst list_scan_left.simps) auto
  qed
qed

lemma scan_right_place:
  assumes A: "arr base sz k" and c: "compares compar sz cmp" and "r < k" "0 < l" "l \<le> Suc r"
  shows "scan_right compar sz base m (place base sz l) (place base sz r) =
    Some (place base sz (list_scan_right cmp (elems m base sz k) l r))"
  using assms(3-5)
proof (induction r rule: less_induct)
  case (less r)
  have le: "place base sz l \<le> place base sz r \<longleftrightarrow> l \<le> r" using less.prems by (intro place_le [OF A]) auto
  have at: "compar m (place base sz r) base = cmp (elems m base sz k ! r) (elems m base sz k ! 0)"
    using compares_at [OF c, of r k m base] less.prems by simp
  show ?case
  proof (cases "l \<le> r \<and> cmp (elems m base sz k ! r) (elems m base sz k ! 0) > 0")
    case True
    then have r: "place base sz r - sz = place base sz (r - 1)" using less.prems place_Suc [of base sz "r - 1"] by simp
    have "scan_right compar sz base m (place base sz l) (place base sz (r - 1)) =
        Some (place base sz (list_scan_right cmp (elems m base sz k) l (r - 1)))"
      using True less.IH [of "r - 1"] less.prems by simp
    then show ?thesis using True le at less.prems r
      by (subst scan_right.simps, subst list_scan_right.simps) simp
  next
    case False
    then show ?thesis using le at by (subst scan_right.simps, subst list_scan_right.simps) auto
  qed
qed

lemma partition_place:
  assumes A: "arr base sz k" and c: "compares compar sz cmp" and T: "reg base (k * unat sz) \<inter> T = {}"
    and "ready sz T h" "split_at cmp (elems (kmem_of h) base sz k) l r"
  shows "\<exists>b q h'. list_partition cmp (elems (kmem_of h) base sz k) l r = (b, q) \<and>
    partition_loop compar sz base (place base sz l) (place base sz r) h = Some (Inr (place base sz q, h')) \<and>
    arranged base sz k T h b h'"
  using assms(4,5)
proof (induction "Suc r - l" arbitrary: l r h rule: less_induct)
  case less
  let ?a = "elems (kmem_of h) base sz k" and ?p = "place base sz"
  have l: "0 < l" "r < k" "l \<le> Suc r" using less.prems(2) by (auto simp: split_at_def)
  have le: "?p l \<le> ?p r \<longleftrightarrow> l \<le> r" using l by (intro place_le [OF A]) auto
  show ?case
  proof (cases "l \<le> r")
    case False
    then show ?thesis using le arranged_refl [OF less.prems(1)] l
      by (subst partition_loop.simps, subst list_partition.simps) auto
  next
    case True
    define l1 where "l1 = list_scan_left cmp ?a l r"
    define r1 where "r1 = list_scan_right cmp ?a l1 r"
    note S = split_at_scans [OF less.prems(2) True, folded l1_def, folded r1_def]
    have b: "l \<le> l1" "r1 \<le> r" "l1 \<le> Suc r" using list_scan_left_spec [where l = l and compar = cmp and a = ?a and r = r] list_scan_right_spec(1) [of cmp ?a l1 r] l
      by (simp_all add: l1_def r1_def)
    have scans: "scan_left compar sz base (kmem_of h) (?p l) (?p r) = Some (?p l1)"
      "scan_right compar sz base (kmem_of h) (?p l1) (?p r) = Some (?p r1)"
      using scan_left_place [OF A c] scan_right_place [OF A c] l b by (simp_all add: l1_def r1_def)
    have lt: "?p l1 < ?p r1 \<longleftrightarrow> l1 < r1" using l b by (intro place_le [OF A]) auto
    show ?thesis
    proof (cases "l1 < r1")
      case sw: True
      obtain h1 where h1: "swap sz (?p l1) (?p r1) h = Inr h1" "arranged base sz k T h (list_swap l1 r1 ?a) h1"
        using swap_arranges [OF A less.prems(1) T, of l1 r1] sw l b by auto
      then have e: "elems (kmem_of h1) base sz k = list_swap l1 r1 ?a" "ready sz T h1" by (simp_all add: arranged_def)
      have p: "?p l1 + sz = ?p (Suc l1)" "?p r1 - sz = ?p (r1 - 1)"
        using place_Suc [of base sz "r1 - 1"] sw by (simp_all add: place_Suc)
      have "split_at cmp (elems (kmem_of h1) base sz k) (Suc l1) (r1 - 1)" using S(2) [OF sw] e(1) by simp
      moreover have "Suc (r1 - 1) - Suc l1 < Suc r - l" using sw b by simp
      ultimately obtain b q h' where R: "list_partition cmp (list_swap l1 r1 ?a) (Suc l1) (r1 - 1) = (b, q)"
        "partition_loop compar sz base (?p (Suc l1)) (?p (r1 - 1)) h1 = Some (Inr (?p q, h'))" "arranged base sz k T h1 b h'"
        using less.hyps [of "r1 - 1" "Suc l1" h1] e by auto
      have "list_partition cmp ?a l r = (b, q)"
        using R(1) True l sw by (subst list_partition.simps) (simp add: Let_def l1_def [symmetric] r1_def [symmetric])
      moreover have "partition_loop compar sz base (?p l) (?p r) h = Some (Inr (?p q, h'))"
        using R(2) True le lt sw scans h1(1) p by (subst partition_loop.simps) simp
      ultimately show ?thesis using arranged_trans [OF h1(2) R(3)] by blast
    next
      case False
      have "r1 < l1" using scans_meet [OF l(1) True, of cmp ?a] False by (simp add: l1_def r1_def)
      then have "Suc r1 - l1 < Suc r - l" using True b by simp
      then obtain b q h' where R: "list_partition cmp ?a l1 r1 = (b, q)"
        "partition_loop compar sz base (?p l1) (?p r1) h = Some (Inr (?p q, h'))" "arranged base sz k T h b h'"
        using less.hyps [of r1 l1 h] less.prems(1) S(1) by auto
      have "list_partition cmp ?a l r = (b, q)"
        using R(1) True l False by (subst list_partition.simps) (simp add: Let_def l1_def [symmetric] r1_def [symmetric])
      moreover have "partition_loop compar sz base (?p l) (?p r) h = Some (Inr (?p q, h'))"
        using R(2) True le lt False scans by (subst partition_loop.simps) simp
      ultimately show ?thesis using R(3) by blast
    qed
  qed
qed

text \<open>The recursive calls work on parts of the array.\<close>

lemma elems_take: "r \<le> k \<Longrightarrow> elems m base sz r = take r (elems m base sz k)"
  by (simp add: elems_def take_map)

lemma elems_drop: "elems m (place base sz r) sz (k - r) = drop r (elems m base sz k)"
  by (rule nth_equalityI) (simp_all add: nth_elems place_add)

lemma arranged_part:
  assumes A: "arr base sz k" and ij: "i + j \<le> k" and r: "arranged (place base sz i) sz j T h ys h'"
    and T: "reg base (k * unat sz) \<inter> T = {}"
  shows "arranged base sz k T h (take i (elems (kmem_of h) base sz k) @ ys @ drop (i + j) (elems (kmem_of h) base sz k)) h'"
proof -
  let ?e = "\<lambda>m. elems m base sz k"
  have same: "kmem_of h' a = kmem_of h a" if "a \<notin> T \<union> reg (place base sz i) (j * unat sz)" for a
    using r that by (simp add: arranged_def)
  have el: "read_bytes (kmem_of h') (place base sz x) (unat sz) = read_bytes (kmem_of h) (place base sz x) (unat sz)"
    if x: "x < k" "x < i \<or> i + j \<le> x" for x
  proof (rule read_reg)
    fix a assume a: "a \<in> reg (place base sz x) (unat sz)"
    have "a \<notin> reg (place base sz i) (j * unat sz)"
      using a x parts_apart [OF A, of x 1 i j] parts_apart [OF A, of i j x 1] ij by auto
    moreover have "a \<notin> T" using a T place_in_array [OF A, of x 1] x(1) by auto
    ultimately show "kmem_of h' a = kmem_of h a" using same by blast
  qed (use arr_size [OF A] in simp)
  have ys: "ys = elems (kmem_of h') (place base sz i) sz j" using r by (simp add: arranged_def)
  have "?e (kmem_of h') = take i (?e (kmem_of h)) @ ys @ drop (i + j) (?e (kmem_of h))"
  proof (rule nth_equalityI)
    fix x assume "x < length (?e (kmem_of h'))"
    then have x: "x < k" by simp
    consider "x < i" | y where "x = i + y" "y < j" | y where "x = i + j + y"
      by (metis add.commute le_Suc_ex less_diff_conv linorder_not_less le_add_diff_inverse nat_add_left_cancel_less)
    then show "?e (kmem_of h') ! x = (take i (?e (kmem_of h)) @ ys @ drop (i + j) (?e (kmem_of h))) ! x"
      using x ij el [of x] by cases (auto simp: nth_elems nth_append ys place_add)
  qed (use ij ys in simp)
  moreover have "reg (place base sz i) (j * unat sz) \<subseteq> reg base (k * unat sz)" by (rule place_in_array [OF A ij])
  ultimately show ?thesis using r by (auto simp: arranged_def)
qed

lemma qsort_place:
  assumes "arr base sz k" and c: "compares compar sz cmp" and "reg base (k * unat sz) \<inter> T = {}" and "ready sz T h"
  shows "\<exists>h'. qsort compar base (of_nat k) sz h = Some (Inr h') \<and>
    arranged base sz k T h (list_qsort cmp (elems (kmem_of h) base sz k)) h'"
  using assms(1,3,4)
proof (induction k arbitrary: base h rule: less_induct)
  case (less k)
  let ?a = "elems (kmem_of h) base sz k" and ?p = "place base sz"
  note A = less.prems(1) and T = less.prems(2)
  have k: "unat (of_nat k :: u64) = k" using arr_count [OF A] by simp
  show ?case
  proof (cases "k \<le> 1")
    case True
    then have "(of_nat k :: u64) \<le> 1" by (simp add: word_le_nat_alt k)
    moreover have "list_qsort cmp ?a = ?a" using True by (subst list_qsort.simps) simp
    ultimately show ?thesis using arranged_refl [OF less.prems(3)] by (subst qsort.simps) simp
  next
    case False
    then have k1: "\<not> (of_nat k :: u64) \<le> 1" "1 < length ?a" by (simp_all add: word_le_nat_alt k)
    have last: "?p (k - 1) = base + (of_nat k - 1) * sz" using False by (simp add: place_def of_nat_diff)
    have first: "?p 1 = base + sz" by (simp add: place_def)
    obtain b r h1 where P: "list_partition cmp ?a 1 (k - 1) = (b, r)"
      "partition_loop compar sz base (?p 1) (?p (k - 1)) h = Some (Inr (?p r, h1))" "arranged base sz k T h b h1"
      using partition_place [OF A c T less.prems(3), of 1 "k - 1"] partition_start [OF k1(2), of cmp] by auto
    define cc where "cc = list_swap 0 r b"
    note Q = list_qsort_parts [OF k1(2), of cmp b r, folded cc_def]
    have rk: "r < k" "length cc = k" using Q(3,6) P(1) by simp_all
    have e1: "elems (kmem_of h1) base sz k = b" "ready sz T h1" using P(3) by (simp_all add: arranged_def)
    obtain h2 where S: "swap sz base (?p r) h1 = Inr h2" "arranged base sz k T h1 cc h2"
      using swap_arranges [OF A e1(2) T, of 0 r] rk(1) e1(1) by (auto simp: cc_def)
    have e2: "elems (kmem_of h2) base sz k = cc" "ready sz T h2" using S(2) by (simp_all add: arranged_def)
    have subs: "arr base sz r" "arr (?p (Suc r)) sz (k - Suc r)" using arr_mono [OF A, of r] arr_place [OF A, of "Suc r" "k - Suc r"] rk(1) by simp_all
    have subT: "reg base (r * unat sz) \<inter> T = {}" "reg (?p (Suc r)) ((k - Suc r) * unat sz) \<inter> T = {}"
      using place_in_array [OF A, of 0 r] place_in_array [OF A, of "Suc r" "k - Suc r"] rk(1) T by auto
    obtain h3 where L: "qsort compar base (of_nat r) sz h2 = Some (Inr h3)"
      "arranged base sz r T h2 (list_qsort cmp (elems (kmem_of h2) base sz r)) h3"
      using less.IH [OF rk(1) subs(1) subT(1) e2(2)] by blast
    have A3: "arranged base sz k T h2 (list_qsort cmp (take r cc) @ drop r cc) h3"
      using arranged_part [OF A, of 0 r T h2 _ h3] L(2) rk(1) T e2(1) elems_take [of r k "kmem_of h2" base sz] by simp
    then have e3: "elems (kmem_of h3) base sz k = list_qsort cmp (take r cc) @ drop r cc" "ready sz T h3" by (simp_all add: arranged_def)
    have len: "length (list_qsort cmp (take r cc)) = r" using mset_list_qsort [of cmp "take r cc"] rk by (metis length_take min.absorb2 less_imp_le size_mset)
    have d3: "elems (kmem_of h3) (?p (Suc r)) sz (k - Suc r) = drop (Suc r) cc"
      unfolding elems_drop e3(1) using len by simp
    obtain h4 where R: "qsort compar (?p (Suc r)) (of_nat (k - Suc r)) sz h3 = Some (Inr h4)"
      "arranged (?p (Suc r)) sz (k - Suc r) T h3 (list_qsort cmp (drop (Suc r) cc)) h4"
      using less.IH [OF _ subs(2) subT(2) e3(2)] d3 rk(1) by auto
    have "arranged base sz k T h3 (take (Suc r) (elems (kmem_of h3) base sz k) @ list_qsort cmp (drop (Suc r) cc)) h4"
      using arranged_part [OF A _ R(2) T] rk(1) by simp
    moreover have "take (Suc r) (elems (kmem_of h3) base sz k) = list_qsort cmp (take r cc) @ [cc ! r]"
      unfolding e3(1) using len rk by (simp add: take_Suc_conv_app_nth Cons_nth_drop_Suc [symmetric])
    ultimately have A4: "arranged base sz k T h3 (list_qsort cmp ?a) h4" using Q(1) P(1) by simp
    have size: "unat sz \<noteq> 0" "sz \<noteq> 0" using arr_size(1) [OF A] by auto
    have left: "(?p r - base) div sz = of_nat r"
    proof -
      have "unat (?p r - base) = r * unat sz"
        using unat_place [OF A, of r] rk(1) by (subst word_sub_unat) (simp_all add: word_le_nat_alt)
      then have "unat ((?p r - base) div sz) = r" using size(1) by (simp add: unat_div)
      moreover have "unat (of_nat r :: u64) = r" using arr_count [OF subs(1)] by simp
      ultimately show ?thesis by (simp add: word_unat_eq_iff)
    qed
    have right: "of_nat k - of_nat r - 1 = (of_nat (k - Suc r) :: u64)" using rk(1) by (simp add: of_nat_diff)
    have "qsort compar base (of_nat k) sz h = Some (Inr h4)"
      using k1(1) P(2) S(1) L(1) R(1) size left right
      by (subst qsort.simps) (simp add: Let_def last [symmetric] first [symmetric] place_Suc [symmetric])
    then show ?thesis using arranged_trans [OF arranged_trans [OF arranged_trans [OF P(3) S(2)] A3] A4] by blast
  qed
qed

section \<open>Properties\<close>

text \<open>
  C28: \<open>qsort\<close> on an array of \<open>k\<close> elements of fewer than 160 bytes returns, with a comparison that is a total preorder on the
  bytes of the elements and an allocator that has a block for the buffer: a free page, or a chunk in the bin of the
  element size, and no chunk of that bin shorter than an element. The array, outside of the allocator's memory, is sorted
  then and has the elements it had; no other byte outside of the allocator's memory has changed, and the allocator is as well
  off as before.
\<close>

theorem qsort_sorts:
  assumes "\<And>m p q. compar m p q = cmp (read_bytes m p (unat sz)) (read_bytes m q (unat sz))"
    and "\<And>x y z. cmp x y \<le> 0 \<Longrightarrow> cmp y z \<le> 0 \<Longrightarrow> cmp x z \<le> 0" and "\<And>x y. cmp x y > 0 \<Longrightarrow> cmp y x \<le> 0"
    and "0 < sz" and "sz < 0xa0" and "unat base + k * unat sz < 2 ^ 64"
    and "buffer_ok sz h B cap xs" and "reg base (k * unat sz) \<inter> territory h B cap xs = {}"
  shows "\<exists>h' B' cap' xs'. qsort compar base (of_nat k) sz h = Some (Inr h') \<and>
    sorted_wrt (\<lambda>x y. cmp x y \<le> 0) (elems (kmem_of h') base sz k) \<and>
    mset (elems (kmem_of h') base sz k) = mset (elems (kmem_of h) base sz k) \<and>
    (\<forall>a. a \<notin> territory h B cap xs \<union> reg base (k * unat sz) \<longrightarrow> kmem_of h' a = kmem_of h a) \<and>
    buffer_ok sz h' B' cap' xs' \<and> territory h' B' cap' xs' \<subseteq> territory h B cap xs"
proof -
  have A: "arr base sz k" using assms(4-6) by (simp add: arr_def)
  have c: "compares compar sz cmp" using assms(1) by (simp add: compares_def)
  have r: "ready sz (territory h B cap xs) h" using assms(7) by (auto simp: ready_def)
  obtain h' where Q: "qsort compar base (of_nat k) sz h = Some (Inr h')"
    "arranged base sz k (territory h B cap xs) h (list_qsort cmp (elems (kmem_of h) base sz k)) h'"
    using qsort_place [OF A c assms(8) r] by blast
  then obtain B' cap' xs' where "buffer_ok sz h' B' cap' xs'" "territory h' B' cap' xs' \<subseteq> territory h B cap xs"
    unfolding arranged_def ready_def by blast
  moreover have "sorted_wrt (\<lambda>x y. cmp x y \<le> 0) (elems (kmem_of h') base sz k)"
    "mset (elems (kmem_of h') base sz k) = mset (elems (kmem_of h) base sz k)"
    using list_qsort_sorts [of cmp, OF assms(2,3)] Q(2) by (simp_all add: arranged_def)
  ultimately show ?thesis using Q by (auto simp: arranged_def)
qed

text \<open>Two bytes at address 1000 on the heap of theory Memblock with two free pages.\<close>

definition byte_order :: comparison where
  "byte_order m p q = uint (m p) - uint (m q)"

definition two_bytes :: kheap where
  "two_bytes = heap_boot \<lparr>mem = (store64 (\<lambda>_. 0) 16384 32768)(1000 := 3, 1001 := 1), freelist = 16384\<rparr>"

theorem qsort_sorts_witness:
  "\<exists>h'. qsort byte_order 1000 2 1 two_bytes = Some (Inr h') \<and> kmem_of h' 1000 = 1 \<and> kmem_of h' 1001 = 3"
proof -
  have "mm_inv (\<lparr>mem = store64 (\<lambda>_. 0) 16384 32768, freelist = 16384\<rparr>
      \<lparr>mem := (store64 (\<lambda>_. 0) 16384 32768)(1000 := 3, 1001 := 1)\<rparr>) [16384, 32768]"
    by (rule mm_inv_frame [OF two_page_heap]) (auto simp: in_page_def in_region_def unat_sub_if' split: if_splits)
  then have inv: "heap_inv two_bytes (\<lambda>_. []) [] (\<lambda>_. 0) (\<lambda>_. 0) [16384, 32768]"
    unfolding two_bytes_def by (intro heap_boot_inv) simp
  have T: "territory two_bytes (\<lambda>_. []) (\<lambda>_. 0) [16384, 32768] = free_space [16384, 32768]"
    by (auto simp: territory_def window_def two_bytes_def heap_boot_def chunks_Nil)
  have reg: "reg 1000 2 = {1000, 1001}"
  proof -
    have "a \<in> reg 1000 2 \<longleftrightarrow> unat a = 1000 \<or> unat a = 1001" for a using reg_iff [of 1000 2 a] by auto
    moreover have "unat a = 1000 \<longleftrightarrow> a = 1000" "unat a = 1001 \<longleftrightarrow> a = 1001" for a :: u64 by (simp_all add: word_unat_eq_iff)
    ultimately show ?thesis by blast
  qed
  have "reg 1000 (2 * unat (1 :: u64)) \<inter> territory two_bytes (\<lambda>_. []) (\<lambda>_. 0) [16384, 32768] = {}"
    unfolding T by (auto simp: reg free_space_def in_page_def in_region_def)
  moreover have "buffer_ok 1 two_bytes (\<lambda>_. []) (\<lambda>_. 0) [16384, 32768]" using inv by (auto simp: buffer_ok_def)
  ultimately obtain h' where Q: "qsort byte_order 1000 (of_nat 2) 1 two_bytes = Some (Inr h')"
    "sorted_wrt (\<lambda>x y. uint (hd x) - uint (hd y) \<le> 0) (elems (kmem_of h') 1000 1 2)"
    "mset (elems (kmem_of h') 1000 1 2) = mset (elems (kmem_of two_bytes) 1000 1 2)"
    using qsort_sorts [of byte_order "\<lambda>x y. uint (hd x) - uint (hd y)" 1 1000 2 two_bytes "\<lambda>_. []" "\<lambda>_. 0" "[16384, 32768]"]
    by (auto simp: byte_order_def read_bytes_Suc)
  have e: "elems m 1000 1 2 = [[m 1000], [m 1001]]" for m
    by (simp add: elems_def place_def upt_rec read_bytes_Suc)
  have "mset [[kmem_of h' 1000], [kmem_of h' 1001]] = mset [[3], [1 :: u8]]" using Q(3) by (simp add: e two_bytes_def heap_boot_def)
  then have "{[kmem_of h' 1000], [kmem_of h' 1001]} = {[3], [1 :: u8]}" by (metis list.set set_mset_mset)
  then have "kmem_of h' 1000 = 3 \<and> kmem_of h' 1001 = 1 \<or> kmem_of h' 1000 = 1 \<and> kmem_of h' 1001 = 3"
    by (auto simp: doubleton_eq_iff)
  moreover have "uint (kmem_of h' 1000) \<le> uint (kmem_of h' 1001)" using Q(2) by (simp add: e)
  ultimately show ?thesis using Q(1) by auto
qed

end
