(* ===== verification/Ext2.thy ===== *)
theory Ext2
  imports Memblock
begin

text \<open>
  The read-only ext2 driver: fs/ext2.c with the on-disk structures of include/ext2.h.
  The drive is a parameter, a function from byte offsets to bytes; \<open>read_block\<close> copies
  1024 bytes of it. Buffers that the code takes from \<open>kmalloc\<close> live in kernel memory and
  the calls that take and give them back are part of the model; arrays on the kernel
  stack are byte lists whose part that was never written holds the bytes of the
  parameter \<open>junk\<close>. The theory shows that inodes are found where the superblock and
  the group descriptors place them, that a directory search decodes the entries an
  encoder wrote, that block numbers are resolved without leaving the indirect blocks,
  and that \<open>ext2_fread\<close> delivers the bytes of the file.
\<close>

section \<open>Definitions\<close>

type_synonym disk = "nat \<Rightarrow> u8"

record ext2_superblock =
  s_inodes_count :: u32
  s_blocks_count :: u32
  s_r_blocks_count :: u32
  s_free_blocks_count :: u32
  s_free_inodes_count :: u32
  s_first_data_block :: u32
  s_log_block_size :: u32
  s_log_frag_size :: u32
  s_blocks_per_group :: u32
  s_frags_per_group :: u32
  s_inodes_per_group :: u32
  s_mtime :: u32
  s_wtime :: u32
  s_mnt_count :: u16
  s_max_mnt_count :: u16
  s_magic :: u16
  s_state :: u16
  s_errors :: u16
  s_minor_rev_level :: u16
  s_lastcheck :: u32
  s_checkinterval :: u32
  s_creator_os :: u32
  s_rev_level :: u32
  s_def_resultd :: u16
  s_def_resgid :: u16
  s_first_ino :: u32
  s_inode_size :: u16
  s_block_group_nr :: u16
  s_rest :: bytes  \<comment> \<open>the fields from \<open>s_feature_compat\<close> on, which nothing reads\<close>

record ext2_group_desc =
  bg_block_bitmap :: u32
  bg_inode_bitmap :: u32
  bg_inode_table :: u32
  bg_free_blocks_count :: u16
  bg_free_inodes_count :: u16
  bg_used_dirs_count :: u16
  bg_pad :: u16

record ext2_inode =
  i_mode :: u16
  i_uid :: u16
  i_size :: u32
  i_atime :: u32
  i_ctime :: u32
  i_mtime :: u32
  i_dtime :: u32
  i_gid :: u16
  i_links_count :: u16
  i_blocks :: u32
  i_flags :: u32
  i_osd1 :: u32
  i_block :: "u32 list"
  i_generation :: u32
  i_file_acl :: u32
  i_dir_acl :: u32
  i_faddr :: u32
  i_osd2 :: bytes

record ext2_fs =
  sb :: ext2_superblock
  gd :: ext2_group_desc
  block_size :: u32
  inode_size :: u32
  blocks_per_group :: u32

text \<open>The packed structures, field by field at their offsets.\<close>

definition decode_superblock :: "bytes \<Rightarrow> ext2_superblock" where
  "decode_superblock bs = \<lparr>
     s_inodes_count = get32 bs 0, s_blocks_count = get32 bs 4, s_r_blocks_count = get32 bs 8,
     s_free_blocks_count = get32 bs 12, s_free_inodes_count = get32 bs 16,
     s_first_data_block = get32 bs 20, s_log_block_size = get32 bs 24, s_log_frag_size = get32 bs 28,
     s_blocks_per_group = get32 bs 32, s_frags_per_group = get32 bs 36,
     s_inodes_per_group = get32 bs 40, s_mtime = get32 bs 44, s_wtime = get32 bs 48,
     s_mnt_count = get16 bs 52, s_max_mnt_count = get16 bs 54, s_magic = get16 bs 56,
     s_state = get16 bs 58, s_errors = get16 bs 60, s_minor_rev_level = get16 bs 62,
     s_lastcheck = get32 bs 64, s_checkinterval = get32 bs 68, s_creator_os = get32 bs 72,
     s_rev_level = get32 bs 76, s_def_resultd = get16 bs 80, s_def_resgid = get16 bs 82,
     s_first_ino = get32 bs 84, s_inode_size = get16 bs 88, s_block_group_nr = get16 bs 90,
     s_rest = drop 92 bs\<rparr>"

definition decode_group_desc :: "bytes \<Rightarrow> ext2_group_desc" where
  "decode_group_desc bs = \<lparr>
     bg_block_bitmap = get32 bs 0, bg_inode_bitmap = get32 bs 4, bg_inode_table = get32 bs 8,
     bg_free_blocks_count = get16 bs 12, bg_free_inodes_count = get16 bs 14,
     bg_used_dirs_count = get16 bs 16, bg_pad = get16 bs 18\<rparr>"

definition decode_inode :: "bytes \<Rightarrow> ext2_inode" where
  "decode_inode bs = \<lparr>
     i_mode = get16 bs 0, i_uid = get16 bs 2, i_size = get32 bs 4, i_atime = get32 bs 8,
     i_ctime = get32 bs 12, i_mtime = get32 bs 16, i_dtime = get32 bs 20, i_gid = get16 bs 24,
     i_links_count = get16 bs 26, i_blocks = get32 bs 28, i_flags = get32 bs 32, i_osd1 = get32 bs 36,
     i_block = map (\<lambda>k. get32 bs (40 + 4 * k)) [0..<15], i_generation = get32 bs 100,
     i_file_acl = get32 bs 104, i_dir_acl = get32 bs 108, i_faddr = get32 bs 112,
     i_osd2 = take 12 (drop 116 bs)\<rparr>"

definition EXT2_SIGNATURE :: u16 where
  "EXT2_SIGNATURE = 0xEF53"

definition EXT2_ROOT_INO :: u32 where
  "EXT2_ROOT_INO = 2"

definition EXT2_S_IFDIR :: u16 where
  "EXT2_S_IFDIR = 0x4000"

text \<open>
  What \<open>ahci_read\<close> delivers for one block: two sectors, the sector number computed in
  32 bits.
\<close>

definition disk_block :: "disk \<Rightarrow> u32 \<Rightarrow> bytes" where
  "disk_block d block_offset = map (\<lambda>i. d (unat (block_offset * 2) * 512 + i)) [0..<1024]"

definition read_block :: "disk \<Rightarrow> u32 \<Rightarrow> u64 \<Rightarrow> mem \<Rightarrow> mem" where
  "read_block d block_offset buf m = write_bytes m buf (disk_block d block_offset)"

text \<open>The same into an array of \<open>n\<close> bytes on the kernel stack.\<close>

definition stack_block :: "disk \<Rightarrow> (nat \<Rightarrow> u8) \<Rightarrow> u32 \<Rightarrow> u32 \<Rightarrow> bytes" where
  "stack_block d junk n block_offset = disk_block d block_offset @ map junk [1024..<unat n]"

definition ext2_read_superblock :: "disk \<Rightarrow> ext2_fs \<Rightarrow> u32 \<Rightarrow> mm \<Rightarrow> (i32 \<times> ext2_fs \<times> mm) kres" where
  "ext2_read_superblock d fs block_offset s =
     kbind (kmalloc 1024 s) (\<lambda>(buf, s1).
       let m1 = read_block d block_offset buf (mem s1);
           fs1 = fs\<lparr>sb := decode_superblock (read_bytes m1 buf 1024)\<rparr> in
       kbind (kfree buf (s1\<lparr>mem := m1\<rparr>)) (\<lambda>s2.
         if s_magic (sb fs1) \<noteq> EXT2_SIGNATURE then Inr (- 1, fs1, s2)
         else if s_log_block_size (sb fs1) \<ge> 21 then Inl (BadAccess ''undefined shift'')
         else Inr (0, fs1\<lparr>block_size := push_bit (unat (s_log_block_size (sb fs1))) 1024\<rparr>, s2)))"

definition ext2_read_group_desc :: "disk \<Rightarrow> ext2_fs \<Rightarrow> mm \<Rightarrow> (ext2_fs \<times> mm) kres" where
  "ext2_read_group_desc d fs s =
     (let bgd_block = (if block_size fs = 1024 then 2 else 1) in
      kbind (kmalloc 1024 s) (\<lambda>(buf, s1).
        let m1 = read_block d bgd_block buf (mem s1);
            fs1 = fs\<lparr>gd := decode_group_desc (read_bytes m1 buf 32)\<rparr> in
        kbind (kfree buf (s1\<lparr>mem := m1\<rparr>)) (\<lambda>s2. Inr (fs1, s2))))"

text \<open>Where the group descriptor and the inode are: block number and offset in the block.\<close>

definition desc_place :: "ext2_fs \<Rightarrow> u32 \<Rightarrow> u32 \<times> u32" where
  "desc_place fs inode_num =
     (let group = (inode_num - 1) div s_inodes_per_group (sb fs);
          bgdt_start_block = s_first_data_block (sb fs) + 1;
          desc_per_block = block_size fs div 32
      in (bgdt_start_block + group div desc_per_block, (group mod desc_per_block) * 32))"

definition inode_place :: "ext2_fs \<Rightarrow> u32 \<Rightarrow> u32 \<Rightarrow> u32 \<times> u32" where
  "inode_place fs inode_num inode_table_block =
     (let index = (inode_num - 1) mod s_inodes_per_group (sb fs);
          inode_offset = index * ucast (s_inode_size (sb fs))
      in (inode_table_block + inode_offset div block_size fs, inode_offset mod block_size fs))"

text \<open>\<open>ext2_get_inode\<close>: \<open>inode\<close> is what the caller's object held before.\<close>

definition ext2_get_inode ::
    "disk \<Rightarrow> ext2_fs \<Rightarrow> u32 \<Rightarrow> ext2_inode \<Rightarrow> mm \<Rightarrow> (i32 \<times> ext2_inode \<times> mm) kres" where
  "ext2_get_inode d fs inode_num inode s =
     (if inode_num = 0 \<or> inode_num > s_inodes_count (sb fs) then Inr (- 1, inode, s)
      else if s_inodes_per_group (sb fs) = 0 \<or> block_size fs div 32 = 0
      then Inl (BadAccess ''division by zero'')
      else case desc_place fs inode_num of (desc_block, desc_offset) \<Rightarrow>
        kbind (kmalloc (block_size fs) s) (\<lambda>(desc_buf, s1).
          if desc_buf = 0 then kbind (kfree desc_buf s1) (\<lambda>s2. Inr (- 2, inode, s2))
          else let m1 = read_block d desc_block desc_buf (mem s1);
                   inode_table_block = load32 m1 (desc_buf + ucast desc_offset + 8) in
            kbind (kfree desc_buf (s1\<lparr>mem := m1\<rparr>)) (\<lambda>s2.
              case inode_place fs inode_num inode_table_block of (block_offset, intra_block_offset) \<Rightarrow>
              if unat intra_block_offset + 128 > unat (block_size fs) then Inr (- 3, inode, s2)
              else kbind (kmalloc (block_size fs) s2) (\<lambda>(block_buf, s3).
                if block_buf = 0 then kbind (kfree block_buf s3) (\<lambda>s4. Inr (- 4, inode, s4))
                else let m3 = read_block d block_offset block_buf (mem s3);
                         inode1 = decode_inode (read_bytes m3 (block_buf + ucast intra_block_offset) 128) in
                  kbind (kfree block_buf (s3\<lparr>mem := m3\<rparr>)) (\<lambda>s4.
                    if i_mode inode1 = 0 then Inr (- 5, inode1, s4) else Inr (0, inode1, s4))))))"

text \<open>
  The scan of \<open>ext2_read_dir\<close> over one block in the page at \<open>block\<close>: the names and inode
  numbers it reports. It stops at the end of the block or at a record of length 0.
\<close>

function scan_dir :: "mem \<Rightarrow> u64 \<Rightarrow> nat \<Rightarrow> nat \<Rightarrow> (bytes \<times> u32) list" where
  "scan_dir m block bsize off =
     (if off < bsize then
        (let e = block + of_nat off;
             rec_len = load16 m (e + 4);
             found = (read_bytes m (e + 8) (unat (m (e + 6))), load32 m e) in
         if rec_len = 0 then [found] else found # scan_dir m block bsize (off + unat rec_len))
      else [])"
  by pat_completeness auto

termination scan_dir
  by (relation "measure (\<lambda>(m, block, bsize, off). bsize - off)") (auto simp: unat_gt_0 intro!: diff_less_mono2)

fun read_dir_blocks :: "disk \<Rightarrow> u64 \<Rightarrow> nat \<Rightarrow> u32 list \<Rightarrow> mem \<Rightarrow> (bytes \<times> u32) list \<times> mem" where
  "read_dir_blocks d block bsize [] m = ([], m)"
| "read_dir_blocks d block bsize (b # bs) m =
     (if b = 0 then ([], m)
      else let m1 = read_block d b block m in
        case read_dir_blocks d block bsize bs m1 of (rest, m2) \<Rightarrow>
          (scan_dir m1 block bsize 0 @ rest, m2))"

text \<open>\<open>ext2_read_dir\<close> never gives its page back.\<close>

definition ext2_read_dir :: "disk \<Rightarrow> ext2_fs \<Rightarrow> ext2_inode \<Rightarrow> mm \<Rightarrow> ((bytes \<times> u32) list \<times> mm) kres" where
  "ext2_read_dir d fs dir_inode s =
     kbind (kmalloc (block_size fs) s) (\<lambda>(block, s1).
       case read_dir_blocks d block (unat (block_size fs)) (take 12 (i_block dir_inode)) (mem s1) of
         (found, m) \<Rightarrow> Inr (found, s1\<lparr>mem := m\<rparr>))"

text \<open>\<open>ext2_init\<close> ignores the result of \<open>ext2_get_inode\<close>; \<open>junk_inode\<close> is what its local held.\<close>

definition ext2_init :: "disk \<Rightarrow> ext2_inode \<Rightarrow> ext2_fs \<Rightarrow> u32 \<Rightarrow> mm \<Rightarrow> (i32 \<times> ext2_fs \<times> mm) kres" where
  "ext2_init d junk_inode fs partition_start s =
     kbind (ext2_read_superblock d fs (partition_start + 1) s) (\<lambda>(r, fs1, s1).
       if r \<noteq> 0 then Inr (- 1, fs1, s1)
       else kbind (ext2_read_group_desc d fs1 s1) (\<lambda>(fs2, s2).
         kbind (ext2_get_inode d fs2 EXT2_ROOT_INO junk_inode s2) (\<lambda>(r2, root_inode, s3).
           kbind (ext2_read_dir d fs2 root_inode s3) (\<lambda>(found, s4). Inr (0, fs2, s4)))))"

definition ext2_check :: "bytes \<Rightarrow> bool" where
  "ext2_check buf \<longleftrightarrow> s_magic (decode_superblock (drop 1024 buf)) = EXT2_SIGNATURE"

text \<open>
  \<open>parse_path_component\<close>: skip slashes, then take at most 255 bytes up to the next
  slash. A path is the bytes of a C string without its terminator.
\<close>

fun skip_slashes :: "bytes \<Rightarrow> bytes" where
  "skip_slashes [] = []"
| "skip_slashes (c # p) = (if c = 47 then skip_slashes p else c # p)"

fun take_component :: "nat \<Rightarrow> bytes \<Rightarrow> bytes \<times> bytes" where
  "take_component len [] = ([], [])"
| "take_component len (c # p) =
     (if c \<noteq> 47 \<and> len < 255
      then (case take_component (Suc len) p of (name, rest) \<Rightarrow> (c # name, rest))
      else ([], c # p))"

definition parse_path_component :: "bytes \<Rightarrow> bytes \<times> bytes" where
  "parse_path_component path = take_component 0 (skip_slashes path)"

text \<open>
  The entry loop of \<open>find_dir_entry\<close> over one block, from the record at \<open>off\<close>: fields past the
  end of the array are an out-of-bounds access. Nothing in the loop looks at a record length
  of 0, so it need not end; then its value is \<open>None\<close>.
\<close>

partial_function (option) entry_loop :: "bytes \<Rightarrow> bytes \<Rightarrow> nat \<Rightarrow> u32 option kres option" where
  "entry_loop buf name off =
     (if off < length buf then
        (if off + 8 > length buf then Some (Inl (BadAccess ''block_buf''))
         else let ino = get32 buf off; rec_len = get16 buf (off + 4); name_len = unat (buf ! (off + 6)) in
           if ino = 0 \<or> name_len = 0 then entry_loop buf name (off + unat rec_len)
           else if off + 8 + name_len > length buf then Some (Inl (BadAccess ''block_buf''))
           else if cmp_spec (unat MAX_STR_LEN) (takeWhile (\<lambda>c. c \<noteq> 0) (take name_len (drop (off + 8) buf))) name = 0
           then Some (Inr (Some ino))
           else entry_loop buf name (off + unat rec_len))
      else Some (Inr None))"

text \<open>The search of one block; a search that does not return is the error \<open>Hang\<close> for its callers.\<close>

definition find_in_block :: "bytes \<Rightarrow> bytes \<Rightarrow> nat \<Rightarrow> u32 option kres" where
  "find_in_block buf name off =
     (case entry_loop buf name off of None \<Rightarrow> Inl (Hang ''find_dir_entry'') | Some r \<Rightarrow> r)"

fun find_in_blocks :: "disk \<Rightarrow> (nat \<Rightarrow> u8) \<Rightarrow> u32 \<Rightarrow> bytes \<Rightarrow> u32 list \<Rightarrow> u32 option kres" where
  "find_in_blocks d junk n name [] = Inr None"
| "find_in_blocks d junk n name (b # bs) =
     (if b = 0 then Inr None
      else kbind (find_in_block (stack_block d junk n b) name 0) (\<lambda>r.
        case r of Some ino \<Rightarrow> Inr (Some ino) | None \<Rightarrow> find_in_blocks d junk n name bs))"

text \<open>\<open>find_dir_entry\<close>: \<open>None\<close> is the return value -1, \<open>Some ino\<close> is 0 with \<open>*ino\<close> set.\<close>

definition find_dir_entry ::
    "disk \<Rightarrow> (nat \<Rightarrow> u8) \<Rightarrow> ext2_fs \<Rightarrow> ext2_inode \<Rightarrow> bytes \<Rightarrow> u32 option kres" where
  "find_dir_entry d junk fs dir name =
     find_in_blocks d junk (block_size fs) name (take 12 (i_block dir))"

lemma skip_slashes_length: "length (skip_slashes p) \<le> length p"
  by (induction p rule: skip_slashes.induct) auto

lemma take_component_append: "take_component n p = (name, rest) \<Longrightarrow> p = name @ rest"
  by (induction n p arbitrary: name rule: take_component.induct) (auto split: if_splits prod.splits)

lemma skip_slashes_head: "skip_slashes p = [] \<or> hd (skip_slashes p) \<noteq> 47"
  by (induction p rule: skip_slashes.induct) auto

lemma parse_path_component_shorter:
  assumes "parse_path_component p = (name, rest)" and "p \<noteq> []"
  shows "length rest < length p"
proof -
  have eq: "take_component 0 (skip_slashes p) = (name, rest)"
    using assms(1) by (simp add: parse_path_component_def)
  then have app: "skip_slashes p = name @ rest" by (rule take_component_append)
  show ?thesis
  proof (cases "skip_slashes p")
    case Nil
    with app assms(2) show ?thesis by simp
  next
    case (Cons c q)
    then have "c \<noteq> 47" using skip_slashes_head [of p] by simp
    then have "name \<noteq> []" using eq Cons by (auto split: prod.splits)
    then have "length rest < length (skip_slashes p)" using app by simp
    then show ?thesis using skip_slashes_length [of p] by simp
  qed
qed

text \<open>The loop of \<open>ext2_path_lookup\<close>; the result is the return value and the current inode.\<close>

function lookup_loop ::
    "disk \<Rightarrow> (nat \<Rightarrow> u8) \<Rightarrow> ext2_fs \<Rightarrow> bytes \<Rightarrow> ext2_inode \<Rightarrow> mm \<Rightarrow> (i32 \<times> ext2_inode \<times> mm) kres" where
  "lookup_loop d junk fs p current s =
     (if p = [] then Inr (0, current, s)
      else case parse_path_component p of (component, rest) \<Rightarrow>
        if component = [] then lookup_loop d junk fs rest current s
        else if i_mode current AND EXT2_S_IFDIR = 0 then Inr (- 20, current, s)
        else kbind (find_dir_entry d junk fs current component) (\<lambda>r.
          case r of None \<Rightarrow> Inr (- 1, current, s)
          | Some next_ino \<Rightarrow>
              kbind (ext2_get_inode d fs next_ino current s) (\<lambda>(ret, current1, s1).
                if ret \<noteq> 0 then Inr (ret, current1, s1)
                else lookup_loop d junk fs rest current1 s1)))"
  by pat_completeness auto

termination lookup_loop
  by (relation "measure (\<lambda>(d, junk, fs, p, cur, s). length p)")
    (auto dest: parse_path_component_shorter [OF sym])

declare scan_dir.simps [simp del] lookup_loop.simps [simp del]

text \<open>\<open>result\<close> is the caller's object; it is written on success only.\<close>

definition ext2_path_lookup ::
    "disk \<Rightarrow> (nat \<Rightarrow> u8) \<Rightarrow> ext2_inode \<Rightarrow> ext2_fs \<Rightarrow> bytes \<Rightarrow> ext2_inode \<Rightarrow> mm \<Rightarrow>
     (i32 \<times> ext2_inode \<times> mm) kres" where
  "ext2_path_lookup d junk junk_inode fs path result s =
     kbind (ext2_get_inode d fs EXT2_ROOT_INO junk_inode s) (\<lambda>(ret, current, s1).
       if ret \<noteq> 0 then Inr (ret, result, s1)
       else if path = [] then Inr (0, current, s1)
       else kbind (lookup_loop d junk fs path current s1) (\<lambda>(ret2, current2, s2).
         if ret2 \<noteq> 0 then Inr (ret2, result, s2) else Inr (0, current2, s2)))"

definition ext2_type_to_dtype :: "u8 \<Rightarrow> u8" where
  "ext2_type_to_dtype t =
     (if t = 0 then 0 else if t = 1 then 8 else if t = 2 then 4 else if t = 3 then 2
      else if t = 4 then 6 else if t = 5 then 1 else if t = 6 then 12 else if t = 7 then 10
      else 0)"

text \<open>An element of an array of 32-bit numbers on the stack.\<close>

definition word_at :: "bytes \<Rightarrow> u32 \<Rightarrow> u32 kres" where
  "word_at buf i =
     (if 4 * unat i + 4 \<le> length buf then Inr (get32 buf (4 * unat i)) else Inl (BadAccess ''block array''))"

definition get_physical_block ::
    "disk \<Rightarrow> (nat \<Rightarrow> u8) \<Rightarrow> ext2_fs \<Rightarrow> ext2_inode \<Rightarrow> u32 \<Rightarrow> u32 kres" where
  "get_physical_block d junk fs inode logical_block =
     (let ptrs_per_block = block_size fs div 4; level = stack_block d junk (ptrs_per_block * 4);
          lb0 = logical_block - 12; lb1 = lb0 - ptrs_per_block;
          lb2 = lb1 - ptrs_per_block * ptrs_per_block in
      if logical_block < 12 then Inr (i_block inode ! unat logical_block)
      else if lb0 < ptrs_per_block then word_at (level (i_block inode ! 12)) lb0
      else if ptrs_per_block = 0 then Inl (BadAccess ''division by zero'')
      else if lb1 < ptrs_per_block * ptrs_per_block then
        kbind (word_at (level (i_block inode ! 13)) (lb1 div ptrs_per_block)) (\<lambda>b1.
          word_at (level b1) (lb1 mod ptrs_per_block))
      else if ptrs_per_block * ptrs_per_block = 0 then Inl (BadAccess ''division by zero'')
      else kbind (word_at (level (i_block inode ! 14)) (lb2 div (ptrs_per_block * ptrs_per_block))) (\<lambda>b1.
        kbind (word_at (level b1) (lb2 div ptrs_per_block mod ptrs_per_block)) (\<lambda>b2.
          word_at (level b2) (lb2 mod ptrs_per_block))))"

text \<open>The part of the rest of a read that lies in the current block, \<open>bytes_to_copy\<close>.\<close>

definition bytes_to_copy :: "u32 \<Rightarrow> u32 \<Rightarrow> u32 \<Rightarrow> u32" where
  "bytes_to_copy bsize count bytes_read = min (bsize - bytes_read mod bsize) (count - bytes_read)"

lemma bytes_to_copy_unat:
  assumes "bytes_read < count" and "bsize \<noteq> 0"
  shows "unat (bytes_to_copy bsize count bytes_read) =
    min (unat bsize - unat bytes_read mod unat bsize) (unat count - unat bytes_read)"
proof -
  have "0 < unat bsize" using assms(2) by (simp add: unat_gt_0)
  then have "unat bytes_read mod unat bsize \<le> unat bsize" by (simp add: less_imp_le)
  then have "unat (bsize - bytes_read mod bsize) = unat bsize - unat bytes_read mod unat bsize"
    by (simp add: unat_sub word_le_nat_alt unat_mod)
  moreover have "unat (count - bytes_read) = unat count - unat bytes_read"
    using assms(1) by (simp add: unat_sub less_imp_le)
  ultimately show ?thesis
    by (simp add: bytes_to_copy_def min_def word_le_nat_alt)
qed

lemma bytes_to_copy_step:
  assumes "bytes_read < count" and "bsize \<noteq> 0"
  shows "unat (bytes_read + bytes_to_copy bsize count bytes_read) =
      unat bytes_read + unat (bytes_to_copy bsize count bytes_read)"
    and "0 < unat (bytes_to_copy bsize count bytes_read)"
    and "unat bytes_read + unat (bytes_to_copy bsize count bytes_read) \<le> unat count"
proof -
  note n = bytes_to_copy_unat [OF assms]
  have lt: "unat bytes_read < unat count" using assms(1) by (simp add: word_less_nat_alt)
  then show le: "unat bytes_read + unat (bytes_to_copy bsize count bytes_read) \<le> unat count"
    using n by linarith
  have "unat bytes_read + unat (bytes_to_copy bsize count bytes_read) < 4294967296"
    using le unat_lt_32 [of count] by linarith
  then show "unat (bytes_read + bytes_to_copy bsize count bytes_read) =
      unat bytes_read + unat (bytes_to_copy bsize count bytes_read)"
    by (simp add: unat_word_ariths)
  have "0 < unat bsize" using assms(2) by (simp add: unat_gt_0)
  then have "0 < unat bsize - unat bytes_read mod unat bsize" by simp
  then show "0 < unat (bytes_to_copy bsize count bytes_read)" using n lt by simp
qed

text \<open>The loop of \<open>ext2_fread\<close>; \<open>start_offset\<close> is always 0.\<close>

function fread_loop ::
    "disk \<Rightarrow> (nat \<Rightarrow> u8) \<Rightarrow> ext2_fs \<Rightarrow> ext2_inode \<Rightarrow> u64 \<Rightarrow> u32 \<Rightarrow> u32 \<Rightarrow> mem \<Rightarrow> (mem \<times> u32) kres" where
  "fread_loop d junk fs inode buf count bytes_read m =
     (if bytes_read < count then
        (if block_size fs = 0 then Inl (BadAccess ''division by zero'')
         else let current_block = bytes_read div block_size fs;
                  block_offset = bytes_read mod block_size fs;
                  n = bytes_to_copy (block_size fs) count bytes_read in
           kbind (get_physical_block d junk fs inode current_block) (\<lambda>phys_block.
             let chunk = (if phys_block = 0 then replicate (unat n) 0
                          else take (unat n) (drop (unat block_offset)
                                 (stack_block d junk (block_size fs) phys_block))) in
             fread_loop d junk fs inode buf count (bytes_read + n)
               (write_bytes m (buf + ucast bytes_read) chunk)))
      else Inr (m, bytes_read))"
  by pat_completeness auto

termination fread_loop
proof (relation "measure (\<lambda>(d, junk, fs, inode, buf, count, br, m). unat count - unat br)")
  fix fs :: ext2_fs and count br :: u32
  assume "br < count" "block_size fs \<noteq> 0"
  then have "unat count - unat (br + bytes_to_copy (block_size fs) count br) < unat count - unat br"
    using bytes_to_copy_step [of br count "block_size fs"] by linarith
  then show "((d, junk, fs, inode, buf, count, br + n, m'), (d, junk, fs, inode, buf, count, br, m))
      \<in> measure (\<lambda>(d, junk, fs, inode, buf, count, br, m). unat count - unat br)"
    if "n = bytes_to_copy (block_size fs) count br" for d junk inode buf m m' n
    using that by simp
qed auto

declare fread_loop.simps [simp del]

definition ext2_fread ::
    "disk \<Rightarrow> (nat \<Rightarrow> u8) \<Rightarrow> ext2_fs \<Rightarrow> ext2_inode \<Rightarrow> u64 \<Rightarrow> u32 \<Rightarrow> mem \<Rightarrow> (mem \<times> u32) kres" where
  "ext2_fread d junk fs inode buf count m =
     (let start_offset = 0; file_size = i_size inode;
          max_read = (if start_offset > file_size then 0 else file_size - start_offset) in
      fread_loop d junk fs inode buf (min count max_read) 0 m)"

section \<open>Finding inodes\<close>

lemma length_disk_block [simp]: "length (disk_block d b) = 1024"
  by (simp add: disk_block_def)

lemma read_block_bytes:
  assumes "off + k \<le> 1024"
  shows "read_bytes (read_block d b buf m) (buf + of_nat off) k = take k (drop off (disk_block d b))"
proof (rule read_bytes_drop [OF _ assms])
  show "read_bytes (read_block d b buf m) buf 1024 = disk_block d b"
    unfolding read_block_def using read_write_same [of "disk_block d b" m buf] by simp
qed

lemma read_block_out: "\<not> in_page buf a \<Longrightarrow> read_block d b buf m a = m a"
  by (simp add: read_block_def write_bytes_def in_page_def in_region_def)

text \<open>A block read into a page from \<open>kmalloc\<close> that is given back afterwards.\<close>

lemma scratch_block:
  assumes "mm_inv s (x # xs)" and "sint sz \<le> 16384"
  shows "\<exists>s1 s2. kmalloc sz s = Inr (x, s1) \<and> x \<noteq> 0 \<and>
    kfree x (s1\<lparr>mem := read_block d b x (mem s1)\<rparr>) = Inr s2 \<and> mm_inv s2 (x # xs) \<and>
    (\<forall>a. \<not> in_page x a \<longrightarrow> mem s2 a = mem s a)"
proof -
  obtain s1 where s1: "kmalloc 16384 s = Inr (x, s1)"
    "\<And>m. \<forall>a. \<not> in_page x a \<longrightarrow> m a = mem s1 a \<Longrightarrow>
      \<exists>s2. kfree x (s1\<lparr>mem := m\<rparr>) = Inr s2 \<and> mm_inv s2 (x # xs) \<and>
        (\<forall>a. \<not> in_page x a \<longrightarrow> mem s2 a = mem s a)"
    using kp.scratch_page [OF assms(1)] by blast
  have "kmalloc sz s = kmalloc 16384 s" using assms(2) by (simp add: kmalloc_def)
  moreover have "x \<noteq> 0" using kp.pages_ok [OF assms(1)] by simp
  moreover obtain s2 where "kfree x (s1\<lparr>mem := read_block d b x (mem s1)\<rparr>) = Inr s2"
      "mm_inv s2 (x # xs)" "\<forall>a. \<not> in_page x a \<longrightarrow> mem s2 a = mem s a"
    using s1(2) read_block_out by blast
  ultimately show ?thesis using s1(1) by auto
qed

text \<open>The inode a number stands for, read straight from the drive.\<close>

definition inode_table :: "disk \<Rightarrow> ext2_fs \<Rightarrow> u32 \<Rightarrow> u32" where
  "inode_table d fs n = (case desc_place fs n of (b, off) \<Rightarrow> get32 (disk_block d b) (unat off + 8))"

definition inode_at :: "disk \<Rightarrow> ext2_fs \<Rightarrow> u32 \<Rightarrow> ext2_inode" where
  "inode_at d fs n = (case inode_place fs n (inode_table d fs n) of (b, off) \<Rightarrow>
     decode_inode (take 128 (drop (unat off) (disk_block d b))))"

text \<open>A file system with 1024-byte blocks whose inodes do not straddle blocks.\<close>

definition sane_fs :: "ext2_fs \<Rightarrow> bool" where
  "sane_fs fs \<longleftrightarrow> block_size fs = 1024 \<and> s_inodes_per_group (sb fs) \<noteq> 0 \<and>
     s_inode_size (sb fs) \<in> {128, 256, 512, 1024}"

definition valid_ino :: "ext2_fs \<Rightarrow> u32 \<Rightarrow> bool" where
  "valid_ino fs n \<longleftrightarrow> n \<noteq> 0 \<and> n \<le> s_inodes_count (sb fs)"

lemma desc_place_off:
  assumes "block_size fs = 1024"
  shows "unat (snd (desc_place fs n)) + 32 \<le> 1024"
proof -
  let ?g = "(n - 1) div s_inodes_per_group (sb fs)"
  have "unat (?g mod 32) < 32" by (simp add: unat_mod)
  then have "unat ((?g mod 32) * 32) = unat (?g mod 32) * 32" by (simp add: unat_word_ariths)
  then show ?thesis
    using \<open>unat (?g mod 32) < 32\<close> assms by (simp add: desc_place_def Let_def)
qed

lemma inode_place_off:
  assumes "sane_fs fs"
  shows "unat (snd (inode_place fs n t)) + 128 \<le> 1024"
proof -
  let ?i = "(n - 1) mod s_inodes_per_group (sb fs)" and ?z = "ucast (s_inode_size (sb fs)) :: u32"
  obtain k where k: "unat ?z * k = 1024" "128 \<le> unat ?z" "0 < k"
  proof -
    consider "s_inode_size (sb fs) = 128" | "s_inode_size (sb fs) = 256" |
      "s_inode_size (sb fs) = 512" | "s_inode_size (sb fs) = 1024"
      using assms by (auto simp: sane_fs_def)
    then show ?thesis
      by cases (use that [of 8] that [of 4] that [of 2] that [of 1] in simp_all)
  qed
  have "unat (?i * ?z) mod 1024 = (unat ?i * unat ?z) mod 1024"
    by (simp add: unat_word_ariths mod_mod_cancel)
  also have "\<dots> = unat ?z * (unat ?i mod k)"
    using mult_mod_right [of "unat ?z" "unat ?i" k] by (simp only: k(1) mult.commute [of "unat ?i"])
  finally have off: "unat (snd (inode_place fs n t)) = unat ?z * (unat ?i mod k)"
    using assms by (simp add: inode_place_def Let_def sane_fs_def unat_mod)
  have "Suc (unat ?i mod k) \<le> k" using k(3) by (simp add: Suc_leI)
  then have "unat ?z * Suc (unat ?i mod k) \<le> 1024" using k(1) mult_le_mono2 by metis
  then show ?thesis using off k(2) by simp
qed

lemma ext2_get_inode_ok:
  assumes inv: "mm_inv s (x # xs)" and "sane_fs fs" and "valid_ino fs n"
  shows "\<exists>s'. ext2_get_inode d fs n inode s =
      Inr (if i_mode (inode_at d fs n) = 0 then - 5 else 0, inode_at d fs n, s') \<and>
    mm_inv s' (x # xs) \<and> (\<forall>a. \<not> in_page x a \<longrightarrow> mem s' a = mem s a)"
proof -
  have bs: "block_size fs = 1024" using assms(2) by (simp add: sane_fs_def)
  obtain db doff where D: "desc_place fs n = (db, doff)" by (cases "desc_place fs n")
  obtain b off where I: "inode_place fs n (inode_table d fs n) = (b, off)"
    by (cases "inode_place fs n (inode_table d fs n)")
  have doff: "unat doff + 32 \<le> 1024" using desc_place_off [OF bs, of n] D by simp
  have off: "unat off + 128 \<le> 1024" using inode_place_off [OF assms(2), of n "inode_table d fs n"] I by simp
  obtain s1 s2 where A: "kmalloc 1024 s = Inr (x, s1)" "x \<noteq> 0"
    "kfree x (s1\<lparr>mem := read_block d db x (mem s1)\<rparr>) = Inr s2" "mm_inv s2 (x # xs)"
    "\<forall>a. \<not> in_page x a \<longrightarrow> mem s2 a = mem s a"
    using scratch_block [OF inv, of 1024 d db] by auto
  obtain s3 s4 where B: "kmalloc 1024 s2 = Inr (x, s3)"
    "kfree x (s3\<lparr>mem := read_block d b x (mem s3)\<rparr>) = Inr s4" "mm_inv s4 (x # xs)"
    "\<forall>a. \<not> in_page x a \<longrightarrow> mem s4 a = mem s2 a"
    using scratch_block [OF A(4), of 1024 d b] by auto
  have tbl: "load32 (read_block d db x (mem s1)) (x + ucast doff + 8) = inode_table d fs n"
  proof -
    have "x + ucast doff + 8 = x + of_nat (unat doff + 8)" by simp
    then show ?thesis
      using doff read_block_bytes [of "unat doff + 8" 4 d db x "mem s1"]
      by (simp add: load32_def inode_table_def get32_def D add.assoc)
  qed
  have ino: "decode_inode (read_bytes (read_block d b x (mem s3)) (x + ucast off) 128) = inode_at d fs n"
    using off read_block_bytes [of "unat off" 128 d b x "mem s3"]
    by (simp add: inode_at_def I)
  have "\<not> n > s_inodes_count (sb fs)" "n \<noteq> 0" "s_inodes_per_group (sb fs) \<noteq> 0"
    using assms(2,3) by (auto simp: valid_ino_def sane_fs_def)
  then have "ext2_get_inode d fs n inode s =
      Inr (if i_mode (inode_at d fs n) = 0 then - 5 else 0, inode_at d fs n, s4)"
    using A(1-3) B(1,2) off by (simp add: ext2_get_inode_def bs D Let_def tbl I ino)
  then show ?thesis using B(3,4) A(5) by auto
qed

section \<open>Directories\<close>

text \<open>
  A directory entry as the format has it: inode number, file type, name and the
  padding up to the next record; and the writer of entries that the search reads.
\<close>

record dirent =
  d_ino :: u32
  d_type :: u8
  d_name :: bytes
  d_pad :: bytes

definition rec_len_of :: "dirent \<Rightarrow> nat" where
  "rec_len_of e = 8 + length (d_name e) + length (d_pad e)"

definition dirent_ok :: "dirent \<Rightarrow> bool" where
  "dirent_ok e \<longleftrightarrow> length (d_name e) < 256 \<and> 0 \<notin> set (d_name e) \<and> rec_len_of e < 65536"

definition encode_dirent :: "dirent \<Rightarrow> bytes" where
  "encode_dirent e = le_bytes 4 (unat (d_ino e)) @ le_bytes 2 (rec_len_of e) @
     [of_nat (length (d_name e)), d_type e] @ d_name e @ d_pad e"

definition encode_dir :: "dirent list \<Rightarrow> bytes" where
  "encode_dir es = concat (map encode_dirent es)"

definition find_dirent :: "dirent list \<Rightarrow> bytes \<Rightarrow> u32 option" where
  "find_dirent es name = map_option d_ino (find (\<lambda>e. d_ino e \<noteq> 0 \<and> d_name e \<noteq> [] \<and> d_name e = name) es)"

lemma find_dirent_Nil [simp]: "find_dirent [] name = None"
  by (simp add: find_dirent_def)

lemma find_dirent_Cons:
  "find_dirent (e # es) name =
    (if d_ino e \<noteq> 0 \<and> d_name e \<noteq> [] \<and> d_name e = name then Some (d_ino e) else find_dirent es name)"
  by (simp add: find_dirent_def)

lemma find_dirent_append:
  "find_dirent (es @ fs) name =
    (case find_dirent es name of Some n \<Rightarrow> Some n | None \<Rightarrow> find_dirent fs name)"
  by (induction es) (auto simp: find_dirent_Cons)

lemma length_encode_dirent: "length (encode_dirent e) = rec_len_of e"
  by (simp add: encode_dirent_def rec_len_of_def)

lemma entry_fields:
  assumes "buf = pre @ encode_dirent e @ post" and "dirent_ok e" and "off = length pre"
  shows "get32 buf off = d_ino e" and "get16 buf (off + 4) = of_nat (rec_len_of e)"
    and "unat (buf ! (off + 6)) = length (d_name e)"
    and "take (length (d_name e)) (drop (off + 8) buf) = d_name e"
proof -
  let ?i = "le_bytes 4 (unat (d_ino e))" and ?r = "le_bytes 2 (rec_len_of e)"
  let ?l = "of_nat (length (d_name e)) :: u8"
  have b: "buf = pre @ ?i @ ?r @ ?l # d_type e # d_name e @ d_pad e @ post"
    using assms(1) by (simp add: encode_dirent_def)
  show "get32 buf off = d_ino e" unfolding b assms(3) by (rule get32_le)
  show "get16 buf (off + 4) = of_nat (rec_len_of e)"
    using get16_le [of "rec_len_of e" "pre @ ?i"] assms(2) by (simp add: b assms(3) dirent_ok_def)
  have "buf ! (off + 6) = ?l"
    unfolding b assms(3) by (simp add: nth_append)
  then show "unat (buf ! (off + 6)) = length (d_name e)"
    using assms(2) by (simp add: dirent_ok_def unat_of_nat)
  show "take (length (d_name e)) (drop (off + 8) buf) = d_name e"
    by (simp add: b assms(3))
qed

lemma name_match:
  assumes "0 \<notin> set xs" and "0 \<notin> set ys" and "length xs < 256" and "length ys < 256"
  shows "cmp_spec (unat MAX_STR_LEN) (takeWhile (\<lambda>c. c \<noteq> 0) xs) ys = 0 \<longleftrightarrow> xs = ys"
proof -
  have "takeWhile (\<lambda>c. c \<noteq> 0) xs = xs" using assms(1) by (auto simp: takeWhile_eq_all_conv)
  moreover have "cmp_spec (unat MAX_STR_LEN) xs ys = 0 \<longleftrightarrow> xs = ys"
    using cmp_spec_eq_0 [OF assms(1,2), of "unat MAX_STR_LEN"] assms(3,4) by (simp add: MAX_STR_LEN_def)
  ultimately show ?thesis by (simp only:)
qed

text \<open>
  The records the entry loop goes over without an answer: \<open>skipped\<close> tells that it reads the
  record at \<open>off\<close> inside the block and does not stop there, \<open>passes\<close> leads from one record to
  those it comes to.
\<close>

definition skipped :: "bytes \<Rightarrow> bytes \<Rightarrow> nat \<Rightarrow> bool" where
  "skipped buf name off \<longleftrightarrow> off + 8 \<le> length buf \<and>
     (get32 buf off = 0 \<or> buf ! (off + 6) = 0 \<or>
      off + 8 + unat (buf ! (off + 6)) \<le> length buf \<and>
      cmp_spec (unat MAX_STR_LEN) (takeWhile (\<lambda>c. c \<noteq> 0) (take (unat (buf ! (off + 6))) (drop (off + 8) buf))) name \<noteq> 0)"

inductive passes :: "bytes \<Rightarrow> bytes \<Rightarrow> nat \<Rightarrow> nat \<Rightarrow> bool" for buf name where
  here: "passes buf name off off"
| next_record: "skipped buf name off \<Longrightarrow> passes buf name (off + unat (get16 buf (off + 4))) off' \<Longrightarrow>
    passes buf name off off'"

lemma entry_loop_skip:
  "skipped buf name off \<Longrightarrow> entry_loop buf name off = entry_loop buf name (off + unat (get16 buf (off + 4)))"
  by (subst entry_loop.simps) (auto simp: skipped_def Let_def unat_eq_zero)

lemma entry_loop_stops: "\<not> skipped buf name off \<Longrightarrow> \<exists>r. entry_loop buf name off = Some r"
  by (subst entry_loop.simps) (auto simp: skipped_def Let_def unat_eq_zero not_le)

text \<open>A loop that returns never skips a record of length 0.\<close>

lemma entry_loop_progress:
  assumes "entry_loop buf name off = Some r"
  shows "skipped buf name off \<longrightarrow> get16 buf (off + 4) \<noteq> 0"
proof (rule entry_loop.raw_induct [where P = "\<lambda>b nm off r. skipped b nm off \<longrightarrow> get16 b (off + 4) \<noteq> 0", OF _ assms],
    intro impI notI)
  fix loop :: "bytes \<Rightarrow> bytes \<Rightarrow> nat \<Rightarrow> u32 option kres option" and b nm off r
  assume IH: "\<And>b nm off r. loop b nm off = Some r \<Longrightarrow> skipped b nm off \<longrightarrow> get16 b (off + 4) \<noteq> 0"
    and s: "skipped b nm off" and z: "get16 b (off + 4) = 0"
  assume "(if off < length b then
        (if off + 8 > length b then Some (Inl (BadAccess ''block_buf''))
         else let ino = get32 b off; rec_len = get16 b (off + 4); name_len = unat (b ! (off + 6)) in
           if ino = 0 \<or> name_len = 0 then loop b nm (off + unat rec_len)
           else if off + 8 + name_len > length b then Some (Inl (BadAccess ''block_buf''))
           else if cmp_spec (unat MAX_STR_LEN) (takeWhile (\<lambda>c. c \<noteq> 0) (take name_len (drop (off + 8) b))) nm = 0
           then Some (Inr (Some ino))
           else loop b nm (off + unat rec_len))
      else Some (Inr None)) = Some r"
  then have "loop b nm off = Some r"
    using s z by (auto simp: skipped_def Let_def unat_eq_zero split: if_splits)
  from IH [OF this] s z show False by blast
qed

lemma entry_loop_passes: "passes buf name off off' \<Longrightarrow> entry_loop buf name off = entry_loop buf name off'"
  by (induction rule: passes.induct) (simp_all add: entry_loop_skip)

lemma entry_loop_None:
  "entry_loop buf name off = None \<longleftrightarrow>
     (\<exists>off'. passes buf name off off' \<and> skipped buf name off' \<and> get16 buf (off' + 4) = 0)"
proof
  assume "entry_loop buf name off = None"
  then show "\<exists>off'. passes buf name off off' \<and> skipped buf name off' \<and> get16 buf (off' + 4) = 0"
  proof (induction "length buf - off" arbitrary: off rule: less_induct)
    case less
    have s: "skipped buf name off" using entry_loop_stops [of buf name off] less.prems by auto
    show ?case
    proof (cases "get16 buf (off + 4) = 0")
      case True
      then show ?thesis using s passes.here by blast
    next
      case False
      then have "length buf - (off + unat (get16 buf (off + 4))) < length buf - off"
        using s by (simp add: skipped_def unat_gt_0 diff_less_mono2)
      moreover have "entry_loop buf name (off + unat (get16 buf (off + 4))) = None"
        using less.prems entry_loop_skip [OF s] by simp
      ultimately show ?thesis using less.hyps passes.next_record [OF s] by blast
    qed
  qed
next
  assume "\<exists>off'. passes buf name off off' \<and> skipped buf name off' \<and> get16 buf (off' + 4) = 0"
  then obtain off' where "passes buf name off off'" "skipped buf name off'" "get16 buf (off' + 4) = 0" by blast
  then show "entry_loop buf name off = None"
    using entry_loop_progress [of buf name off'] entry_loop_passes by (cases "entry_loop buf name off'") auto
qed

lemma entry_loop_no_error: "entry_loop buf name off = Some r \<Longrightarrow> r \<noteq> Inl (Hang ''find_dir_entry'')"
  by (rule entry_loop.raw_induct [where P = "\<lambda>b nm off r. r \<noteq> Inl (Hang ''find_dir_entry'')"])
    (auto simp: Let_def split: if_splits)

lemma find_in_block_unfold:
  "find_in_block buf name off =
     (if off < length buf then
        (if off + 8 > length buf then Inl (BadAccess ''block_buf'')
         else let ino = get32 buf off; name_len = unat (buf ! (off + 6)) in
           if ino = 0 \<or> name_len = 0 then find_in_block buf name (off + unat (get16 buf (off + 4)))
           else if off + 8 + name_len > length buf then Inl (BadAccess ''block_buf'')
           else if cmp_spec (unat MAX_STR_LEN) (takeWhile (\<lambda>c. c \<noteq> 0) (take name_len (drop (off + 8) buf))) name = 0
           then Inr (Some ino)
           else find_in_block buf name (off + unat (get16 buf (off + 4))))
      else Inr None)"
  unfolding find_in_block_def by (subst entry_loop.simps) (simp add: Let_def)

lemma find_in_block_encode:
  assumes "\<And>e. e \<in> set es \<Longrightarrow> dirent_ok e" and "0 \<notin> set name" and "length name < 256"
  shows "find_in_block (pre @ encode_dir es) name (length pre) = Inr (find_dirent es name)"
  using assms(1)
proof (induction es arbitrary: pre)
  case Nil
  then show ?case by (simp add: find_in_block_unfold encode_dir_def)
next
  case (Cons e es)
  define buf where "buf = pre @ encode_dir (e # es)"
  have buf: "buf = pre @ encode_dirent e @ encode_dir es" by (simp add: buf_def encode_dir_def)
  have ok: "dirent_ok e" using Cons.prems by simp
  note F = entry_fields [OF buf ok refl]
  have "rec_len_of e < 2 ^ LENGTH(16)" using ok by (simp add: dirent_ok_def)
  then have rl: "unat (of_nat (rec_len_of e) :: u16) = rec_len_of e" by (simp only: unat_of_nat mod_less)
  moreover have "rec_len_of e \<noteq> 0" by (simp add: rec_len_of_def)
  ultimately have "(of_nat (rec_len_of e) :: u16) \<noteq> 0" by (metis unat_0)
  moreover have "length buf \<ge> length pre + rec_len_of e"
    using length_encode_dirent [of e] by (simp add: buf)
  moreover have "find_in_block buf name (length pre + rec_len_of e) = Inr (find_dirent es name)"
    using Cons.IH [of "pre @ encode_dirent e"] Cons.prems by (simp add: buf length_encode_dirent)
  moreover have "cmp_spec (unat MAX_STR_LEN) (takeWhile (\<lambda>c. c \<noteq> 0) (d_name e)) name = 0 \<longleftrightarrow> d_name e = name"
    using ok assms(2,3) by (intro name_match) (auto simp: dirent_ok_def)
  moreover have "8 + length (d_name e) \<le> rec_len_of e" by (simp add: rec_len_of_def)
  ultimately have "find_in_block buf name (length pre) = Inr (find_dirent (e # es) name)"
    using rl by (subst find_in_block_unfold) (simp add: F Let_def find_dirent_Cons)
  then show ?case by (simp add: buf_def)
qed

lemma find_in_blocks_encode:
  assumes "\<And>b. b \<in> set bs \<Longrightarrow> b \<noteq> 0 \<Longrightarrow> disk_block d b = encode_dir (es b) \<and> (\<forall>e\<in>set (es b). dirent_ok e)"
    and "0 \<notin> set name" and "length name < 256"
  shows "find_in_blocks d junk 1024 name bs =
    Inr (find_dirent (concat (map es (takeWhile (\<lambda>b. b \<noteq> 0) bs))) name)"
  using assms(1)
proof (induction bs)
  case (Cons b bs)
  have "find_in_block (encode_dir (es b)) name 0 = Inr (find_dirent (es b) name)" if "b \<noteq> 0"
    using find_in_block_encode [of "es b" name "[]", OF _ assms(2,3)] Cons.prems [of b] that by auto
  with Cons show ?case
    by (auto simp: stack_block_def find_dirent_append split: option.splits)
qed simp

section \<open>Paths\<close>

text \<open>The components of a path: the non-empty segments between slashes.\<close>

function components :: "bytes \<Rightarrow> bytes list" where
  "components [] = []"
| "components (c # p) =
     (if c = 47 then components p
      else (c # takeWhile (\<lambda>x. x \<noteq> 47) p) # components (dropWhile (\<lambda>x. x \<noteq> 47) p))"
  by pat_completeness auto

termination components
  by (relation "measure length") (auto simp: le_imp_less_Suc length_dropWhile_le)

lemma components_skip: "components (skip_slashes p) = components p"
  by (induction p rule: skip_slashes.induct) auto

lemma take_component_eq:
  assumes "length (takeWhile (\<lambda>x. x \<noteq> 47) p) + len \<le> 255"
  shows "take_component len p = (takeWhile (\<lambda>x. x \<noteq> 47) p, dropWhile (\<lambda>x. x \<noteq> 47) p)"
  using assms by (induction p arbitrary: len) auto

lemma parse_path_component_eq:
  shows "components p = [] \<Longrightarrow> parse_path_component p = ([], [])"
    and "components p = c # cs \<Longrightarrow> length c \<le> 255 \<Longrightarrow>
      \<exists>rest. parse_path_component p = (c, rest) \<and> components rest = cs \<and> c \<noteq> []"
proof -
  have head: "skip_slashes p = [] \<or> hd (skip_slashes p) \<noteq> 47" by (rule skip_slashes_head)
  then have none: "components p = [] \<longleftrightarrow> skip_slashes p = []"
    using components_skip [of p] by (cases "skip_slashes p") auto
  then show "components p = [] \<Longrightarrow> parse_path_component p = ([], [])"
    by (simp add: parse_path_component_def)
  assume c: "components p = c # cs" "length c \<le> 255"
  with none obtain x q where xq: "skip_slashes p = x # q" by (cases "skip_slashes p") auto
  with head c(1) components_skip [of p]
  have "x \<noteq> 47" "c = x # takeWhile (\<lambda>x. x \<noteq> 47) q" "cs = components (dropWhile (\<lambda>x. x \<noteq> 47) q)"
    by simp_all
  with take_component_eq [of "x # q" 0] c(2) xq
  show "\<exists>rest. parse_path_component p = (c, rest) \<and> components rest = cs \<and> c \<noteq> []"
    by (simp add: parse_path_component_def)
qed

text \<open>
  Resolving a list of names from a directory, with the inodes of the drive and the
  entries that \<open>dir\<close> lists for each directory inode.
\<close>

fun resolve :: "(u32 \<Rightarrow> ext2_inode) \<Rightarrow> (ext2_inode \<Rightarrow> dirent list) \<Rightarrow> ext2_inode \<Rightarrow> bytes list \<Rightarrow>
    i32 \<times> ext2_inode" where
  "resolve ino_at dir current [] = (0, current)"
| "resolve ino_at dir current (c # cs) =
     (if i_mode current AND EXT2_S_IFDIR = 0 then (- 20, current)
      else case find_dirent (dir current) c of
        None \<Rightarrow> (- 1, current)
      | Some n \<Rightarrow> if i_mode (ino_at n) = 0 then (- 5, ino_at n) else resolve ino_at dir (ino_at n) cs)"

text \<open>
  A drive whose directories are the encoding of \<open>dir\<close>: the blocks of each directory
  inode hold its entries, and the entries name valid inodes.
\<close>

definition dir_image :: "disk \<Rightarrow> ext2_fs \<Rightarrow> (ext2_inode \<Rightarrow> dirent list) \<Rightarrow> bool" where
  "dir_image d fs dir \<longleftrightarrow> sane_fs fs \<and> (\<forall>n i. valid_ino fs n \<longrightarrow> i = inode_at d fs n \<longrightarrow>
     i_mode i AND EXT2_S_IFDIR \<noteq> 0 \<longrightarrow>
     (\<exists>es. (\<forall>b\<in>set (take 12 (i_block i)). b \<noteq> 0 \<longrightarrow> disk_block d b = encode_dir (es b) \<and>
              (\<forall>e\<in>set (es b). dirent_ok e \<and> (d_ino e \<noteq> 0 \<longrightarrow> valid_ino fs (d_ino e)))) \<and>
           dir i = concat (map es (takeWhile (\<lambda>b. b \<noteq> 0) (take 12 (i_block i))))))"

lemma find_dirent_Some: "find_dirent es name = Some n \<Longrightarrow> \<exists>e\<in>set es. d_ino e = n \<and> n \<noteq> 0"
  by (induction es) (auto simp: find_dirent_Cons split: if_splits)

lemma find_dir_entry_ok:
  assumes img: "dir_image d fs dir" and n: "valid_ino fs n" and i: "i = inode_at d fs n"
    and "i_mode i AND EXT2_S_IFDIR \<noteq> 0" and "0 \<notin> set name" and "length name < 256"
  shows "find_dir_entry d junk fs i name = Inr (find_dirent (dir i) name)"
    and "find_dirent (dir i) name = Some k \<Longrightarrow> valid_ino fs k"
proof -
  obtain es where es: "\<And>b. b \<in> set (take 12 (i_block i)) \<Longrightarrow> b \<noteq> 0 \<Longrightarrow> disk_block d b = encode_dir (es b) \<and>
      (\<forall>e\<in>set (es b). dirent_ok e \<and> (d_ino e \<noteq> 0 \<longrightarrow> valid_ino fs (d_ino e)))"
    and dir: "dir i = concat (map es (takeWhile (\<lambda>b. b \<noteq> 0) (take 12 (i_block i))))"
    using assms unfolding dir_image_def by meson
  have "block_size fs = 1024" using img by (simp add: dir_image_def sane_fs_def)
  then show "find_dir_entry d junk fs i name = Inr (find_dirent (dir i) name)"
    using es assms(5,6) by (simp add: find_dir_entry_def dir find_in_blocks_encode)
  assume "find_dirent (dir i) name = Some k"
  then obtain e where e: "e \<in> set (dir i)" "d_ino e = k" "k \<noteq> 0" using find_dirent_Some by blast
  then obtain b where b: "b \<in> set (takeWhile (\<lambda>b. b \<noteq> 0) (take 12 (i_block i)))" "e \<in> set (es b)"
    using dir by auto
  then have "b \<in> set (take 12 (i_block i))" "b \<noteq> 0" by (metis set_takeWhileD)+
  then show "valid_ino fs k" using es b(2) e(2,3) by blast
qed

lemma component_nonzero: "0 \<notin> set p \<Longrightarrow> c \<in> set (components p) \<Longrightarrow> 0 \<notin> set c"
proof (induction p rule: components.induct)
  case (2 x p)
  have "0 \<notin> set (dropWhile (\<lambda>x. x \<noteq> 47) p)" "0 \<notin> set (takeWhile (\<lambda>x. x \<noteq> 47) p)"
    using 2(3) by (auto dest: set_dropWhileD set_takeWhileD)
  with 2 show ?case by (auto split: if_splits)
qed simp

lemma parse_rest_subset:
  assumes "parse_path_component p = (c, rest)"
  shows "set rest \<subseteq> set p"
proof -
  have "skip_slashes p = c @ rest"
    using assms by (intro take_component_append) (simp add: parse_path_component_def)
  moreover have "set (skip_slashes q) \<subseteq> set q" for q
    by (induction q rule: skip_slashes.induct) auto
  ultimately show ?thesis by (metis set_append Un_subset_iff)
qed

text \<open>One component: the loop either stops with what \<open>resolve\<close> gives or goes on from the next inode.\<close>

lemma lookup_step:
  assumes img: "dir_image d fs dir" and n: "valid_ino fs n" "current = inode_at d fs n"
    and inv: "mm_inv s (x # xs)" and p: "p \<noteq> []" "parse_path_component p = (c, rest)" "c \<noteq> []"
    and c: "length c \<le> 255" "0 \<notin> set c"
  shows "\<exists>s1. mm_inv s1 (x # xs) \<and> (\<forall>a. \<not> in_page x a \<longrightarrow> mem s1 a = mem s a) \<and>
    ((\<exists>r i. lookup_loop d junk fs p current s = Inr (r, i, s1) \<and>
        (\<forall>cs. resolve (inode_at d fs) dir current (c # cs) = (r, i))) \<or>
     (\<exists>k. valid_ino fs k \<and>
        lookup_loop d junk fs p current s = lookup_loop d junk fs rest (inode_at d fs k) s1 \<and>
        (\<forall>cs. resolve (inode_at d fs) dir current (c # cs) = resolve (inode_at d fs) dir (inode_at d fs k) cs)))"
proof (cases "i_mode current AND EXT2_S_IFDIR = 0")
  case True
  then have "lookup_loop d junk fs p current s = Inr (- 20, current, s)"
    using p by (subst lookup_loop.simps) simp
  with True inv show ?thesis by auto
next
  case False
  note F = find_dir_entry_ok [OF img n False c(2)]
  have sane: "sane_fs fs" using img by (simp add: dir_image_def)
  have fd: "find_dir_entry d junk fs current c = Inr (find_dirent (dir current) c)"
    using F(1) c(1) by simp
  show ?thesis
  proof (cases "find_dirent (dir current) c")
    case None
    then have "lookup_loop d junk fs p current s = Inr (- 1, current, s)"
      using p False fd by (subst lookup_loop.simps) simp
    with None False inv show ?thesis by auto
  next
    case (Some k)
    then have k: "valid_ino fs k" using F(2) c(1) by simp
    obtain s1 where s1: "ext2_get_inode d fs k current s =
        Inr (if i_mode (inode_at d fs k) = 0 then - 5 else 0, inode_at d fs k, s1)"
      "mm_inv s1 (x # xs)" "\<forall>a. \<not> in_page x a \<longrightarrow> mem s1 a = mem s a"
      using ext2_get_inode_ok [OF inv sane k] by blast
    then have "lookup_loop d junk fs p current s =
        (if i_mode (inode_at d fs k) = 0 then Inr (- 5, inode_at d fs k, s1)
         else lookup_loop d junk fs rest (inode_at d fs k) s1)"
      using p False fd Some by (subst lookup_loop.simps) simp
    with Some False s1(2,3) k show ?thesis
      by (intro exI [of _ s1]) (cases "i_mode (inode_at d fs k) = 0"; auto)
  qed
qed

lemma lookup_loop_ok:
  assumes img: "dir_image d fs dir"
  shows "valid_ino fs n \<Longrightarrow> current = inode_at d fs n \<Longrightarrow> mm_inv s (x # xs) \<Longrightarrow> 0 \<notin> set p \<Longrightarrow>
    (\<And>c. c \<in> set (components p) \<Longrightarrow> length c \<le> 255) \<Longrightarrow>
    \<exists>s'. lookup_loop d junk fs p current s =
        Inr (fst (resolve (inode_at d fs) dir current (components p)),
             snd (resolve (inode_at d fs) dir current (components p)), s') \<and>
      mm_inv s' (x # xs) \<and> (\<forall>a. \<not> in_page x a \<longrightarrow> mem s' a = mem s a)"
proof (induction "length p" arbitrary: p n current s rule: less_induct)
  case less
  show ?case
  proof (cases "components p")
    case Nil
    then have parse: "parse_path_component p = ([], [])" by (rule parse_path_component_eq)
    then have "lookup_loop d junk fs p current s = Inr (0, current, s)"
      by (cases "p = []") (simp_all add: lookup_loop.simps)
    then show ?thesis using Nil less.prems(3) by auto
  next
    case (Cons c cs)
    then have c: "length c \<le> 255" "0 \<notin> set c" and p: "p \<noteq> []"
      using less.prems(5) component_nonzero [OF less.prems(4), of c] by auto
    obtain rest where R: "parse_path_component p = (c, rest)" "components rest = cs" "c \<noteq> []"
      using parse_path_component_eq(2) [OF Cons c(1)] by blast
    obtain s1 where s1: "mm_inv s1 (x # xs)" "\<forall>a. \<not> in_page x a \<longrightarrow> mem s1 a = mem s a"
      "(\<exists>r i. lookup_loop d junk fs p current s = Inr (r, i, s1) \<and>
          resolve (inode_at d fs) dir current (c # cs) = (r, i)) \<or>
       (\<exists>k. valid_ino fs k \<and>
          lookup_loop d junk fs p current s = lookup_loop d junk fs rest (inode_at d fs k) s1 \<and>
          resolve (inode_at d fs) dir current (c # cs) = resolve (inode_at d fs) dir (inode_at d fs k) cs)"
      using lookup_step [OF img less.prems(1-3) p R(1,3) c] by blast
    from s1(3) show ?thesis
    proof (elim disjE exE conjE)
      fix k
      assume k: "valid_ino fs k"
        and eq: "lookup_loop d junk fs p current s = lookup_loop d junk fs rest (inode_at d fs k) s1"
          "resolve (inode_at d fs) dir current (c # cs) = resolve (inode_at d fs) dir (inode_at d fs k) cs"
      have "\<exists>s'. lookup_loop d junk fs rest (inode_at d fs k) s1 =
          Inr (fst (resolve (inode_at d fs) dir (inode_at d fs k) (components rest)),
               snd (resolve (inode_at d fs) dir (inode_at d fs k) (components rest)), s') \<and>
          mm_inv s' (x # xs) \<and> (\<forall>a. \<not> in_page x a \<longrightarrow> mem s' a = mem s1 a)"
        using parse_path_component_shorter [OF R(1) p] k s1(1) parse_rest_subset [OF R(1)]
          less.prems(4,5) R(2) Cons by (intro less.hyps) auto
      with eq R(2) s1(2) Cons show ?thesis by fastforce
    qed (use s1(1,2) Cons in auto)
  qed
qed

section \<open>Block numbers\<close>

text \<open>
  The place of a block pointer with 256 pointers per block: the index in \<open>i_block\<close> and
  the indices to follow from there.
\<close>

definition block_slot :: "nat \<Rightarrow> nat \<times> nat list" where
  "block_slot lb =
     (if lb < 12 then (lb, [])
      else if lb < 268 then (12, [lb - 12])
      else if lb < 65804 then (13, [(lb - 268) div 256, (lb - 268) mod 256])
      else (14, [(lb - 65804) div 65536, (lb - 65804) div 256 mod 256, (lb - 65804) mod 256]))"

primrec follow :: "disk \<Rightarrow> u32 \<Rightarrow> nat list \<Rightarrow> u32" where
  "follow d b [] = b"
| "follow d b (i # is) = follow d (get32 (disk_block d b) (4 * i)) is"

lemma word_at_disk_block:
  "word_at (stack_block d junk 1024 b) i =
    (if unat i < 256 then Inr (get32 (disk_block d b) (4 * unat i)) else Inl (BadAccess ''block array''))"
  by (auto simp: word_at_def stack_block_def)

lemma get_physical_block_follow:
  assumes "block_size fs = 1024"
  shows "get_physical_block d junk fs inode lb =
    (if unat lb < 16843020
     then Inr (follow d (i_block inode ! fst (block_slot (unat lb))) (snd (block_slot (unat lb))))
     else Inl (BadAccess ''block array''))"
proof -
  define n where "n = unat lb"
  have sub: "unat (x - y) = unat x - unat y" if "unat y \<le> unat x" for x y :: u32
    using that by (simp add: unat_sub word_le_nat_alt)
  have l0: "unat (lb - 12) = n - 12" if "12 \<le> n" using that by (simp add: sub n_def)
  have l1: "unat (lb - 268) = n - 268" if "268 \<le> n" using that by (simp add: sub n_def)
  have l2: "unat (lb - 65804) = n - 65804" if "65804 \<le> n" using that by (simp add: sub n_def)
  have unfold: "get_physical_block d junk fs inode lb =
     (if n < 12 then Inr (i_block inode ! n)
      else if unat (lb - 12) < 256 then word_at (stack_block d junk 1024 (i_block inode ! 12)) (lb - 12)
      else if unat (lb - 12 - 256) < 65536 then
        kbind (word_at (stack_block d junk 1024 (i_block inode ! 13)) ((lb - 12 - 256) div 256)) (\<lambda>b1.
          word_at (stack_block d junk 1024 b1) ((lb - 12 - 256) mod 256))
      else kbind (word_at (stack_block d junk 1024 (i_block inode ! 14)) ((lb - 12 - 256 - 65536) div 65536)) (\<lambda>b1.
        kbind (word_at (stack_block d junk 1024 b1) ((lb - 12 - 256 - 65536) div 256 mod 256)) (\<lambda>b2.
          word_at (stack_block d junk 1024 b2) ((lb - 12 - 256 - 65536) mod 256))))"
    by (simp add: get_physical_block_def assms word_less_nat_alt n_def Let_def)
  consider "n < 12" | "12 \<le> n" "n < 268" | "268 \<le> n" "n < 65804" | "65804 \<le> n" by linarith
  then show ?thesis
  proof cases
    case 1
    then show ?thesis unfolding unfold n_def [symmetric] by (simp add: block_slot_def)
  next
    case 2
    then have "n - 12 < 256" by linarith
    with 2 show ?thesis unfolding unfold n_def [symmetric]
      by (simp add: block_slot_def l0 word_at_disk_block)
  next
    case 3
    then have "(n - 268) div 256 < 256" "\<not> n - 12 < 256" "n - 268 < 65536" by linarith+
    with 3 show ?thesis unfolding unfold n_def [symmetric]
      by (simp add: block_slot_def l0 l1 word_at_disk_block unat_div unat_mod)
  next
    case 4
    then have "(n - 65804) div 65536 < 256 \<longleftrightarrow> n < 16843020" "\<not> n - 12 < 256" "\<not> n - 268 < 65536"
      by linarith+
    with 4 show ?thesis unfolding unfold n_def [symmetric]
      by (simp add: block_slot_def l0 l1 l2 word_at_disk_block unat_div unat_mod)
  qed
qed

lemma block_slot_inj: "inj block_slot"
proof (rule injI)
  fix a b
  assume eq: "block_slot a = block_slot b"
  have digits: "x = y" if "x div 256 = y div 256" "x mod 256 = y mod 256" for x y :: nat
    using that by (metis div_mult_mod_eq)
  have "x div 65536 = x div 256 div 256" for x :: nat by (simp flip: div_mult2_eq)
  then have digits3: "x = y" if "x div 65536 = y div 65536" "x div 256 mod 256 = y div 256 mod 256"
      "x mod 256 = y mod 256" for x y :: nat
    using that digits by metis
  consider "a < 12" | "12 \<le> a" "a < 268" | "268 \<le> a" "a < 65804" | "65804 \<le> a" by linarith
  then show "a = b"
  proof cases
    case 3
    with eq have "268 \<le> b" "a - 268 = b - 268"
      using digits [of "a - 268" "b - 268"] by (auto simp: block_slot_def split: if_splits)
    with 3 show ?thesis by simp
  next
    case 4
    with eq have "65804 \<le> b" "a - 65804 = b - 65804"
      using digits3 [of "a - 65804" "b - 65804"] by (auto simp: block_slot_def split: if_splits)
    with 4 show ?thesis by simp
  qed (use eq in \<open>auto simp: block_slot_def split: if_splits\<close>)
qed

section \<open>Reading files\<close>

text \<open>The byte at an offset of a file; a block number 0 is a hole.\<close>

definition file_byte :: "disk \<Rightarrow> ext2_inode \<Rightarrow> nat \<Rightarrow> u8" where
  "file_byte d inode i =
     (let slot = block_slot (i div 1024); b = follow d (i_block inode ! fst slot) (snd slot) in
      if b = 0 then 0 else disk_block d b ! (i mod 1024))"

definition file_bytes :: "disk \<Rightarrow> ext2_inode \<Rightarrow> nat \<Rightarrow> bytes" where
  "file_bytes d inode n = map (file_byte d inode) [0..<n]"

lemma block_offset_step:
  fixes a i :: nat
  assumes "a mod 1024 + i < 1024"
  shows "(a + i) div 1024 = a div 1024" and "(a + i) mod 1024 = a mod 1024 + i"
proof -
  define q r where "q = a div 1024" and "r = a mod 1024"
  have "a + i = (r + i) + q * 1024" and "r + i < 1024"
    using assms by (simp_all add: q_def r_def)
  then show "(a + i) div 1024 = a div 1024" and "(a + i) mod 1024 = a mod 1024 + i"
    unfolding q_def [symmetric] r_def [symmetric] by (simp_all only: div_mult_self1 mod_mult_self1) simp_all
qed

text \<open>What one round of the read loop copies.\<close>

lemma file_chunk:
  assumes "o' mod 1024 + n \<le> 1024"
  shows "(if follow d (i_block inode ! fst (block_slot (o' div 1024))) (snd (block_slot (o' div 1024))) = 0
      then replicate n 0
      else take n (drop (o' mod 1024) (disk_block d
        (follow d (i_block inode ! fst (block_slot (o' div 1024))) (snd (block_slot (o' div 1024))))))) =
    map (\<lambda>i. file_byte d inode (o' + i)) [0..<n]" (is "?chunk = _")
proof (rule nth_equalityI)
  show "length ?chunk = length (map (\<lambda>i. file_byte d inode (o' + i)) [0..<n])"
    using assms by simp
  fix i
  assume "i < length ?chunk"
  then have i: "i < n" using assms by (simp split: if_splits)
  then have "(o' + i) div 1024 = o' div 1024" "(o' + i) mod 1024 = o' mod 1024 + i"
    using assms by (simp_all add: block_offset_step)
  with i assms show "?chunk ! i = map (\<lambda>i. file_byte d inode (o' + i)) [0..<n] ! i"
    by (simp add: file_byte_def Let_def)
qed

lemma fread_loop_ok:
  assumes bs: "block_size fs = 1024" and cnt: "unat count \<le> 16843020 * 1024"
  shows "br \<le> count \<Longrightarrow> fread_loop d junk fs inode buf count br (write_bytes m buf (file_bytes d inode (unat br))) =
    Inr (write_bytes m buf (file_bytes d inode (unat count)), count)"
proof (induction "unat count - unat br" arbitrary: br rule: less_induct)
  case less
  show ?case
  proof (cases "br < count")
    case False
    with less.prems have "br = count" by simp
    then show ?thesis by (simp add: fread_loop.simps)
  next
    case True
    let ?n = "bytes_to_copy 1024 count br" and ?cb = "br div 1024"
    define b where "b = follow d (i_block inode ! fst (block_slot (unat br div 1024))) (snd (block_slot (unat br div 1024)))"
    note st = bytes_to_copy_step [of br count 1024, OF True, simplified]
      and nn = bytes_to_copy_unat [of br count 1024, OF True, simplified]
    have cb: "unat ?cb = unat br div 1024" by (simp add: unat_div)
    have "unat br < 16843020 * 1024" using True cnt by (simp add: word_less_nat_alt)
    then have "unat br div 1024 < 16843020" by (simp add: less_mult_imp_div_less)
    then have pb: "get_physical_block d junk fs inode ?cb = Inr b"
      by (simp add: get_physical_block_follow [OF bs] cb b_def)
    let ?chunk = "if b = 0 then replicate (unat ?n) 0
      else take (unat ?n) (drop (unat br mod 1024) (disk_block d b))"
    have chunk: "?chunk = map (\<lambda>i. file_byte d inode (unat br + i)) [0..<unat ?n]"
      unfolding b_def using nn by (intro file_chunk) linarith
    have split: "file_bytes d inode (unat br + k) =
        file_bytes d inode (unat br) @ map (\<lambda>i. file_byte d inode (unat br + i)) [0..<k]" for k
      unfolding file_bytes_def by (rule nth_equalityI) (auto simp: nth_append)
    have "write_bytes (write_bytes m buf (file_bytes d inode (unat br))) (buf + ucast br) ?chunk =
        write_bytes m buf (file_bytes d inode (unat (br + ?n)))"
      unfolding chunk st(1) split
      using write_bytes_append [of "file_bytes d inode (unat br)" "map (\<lambda>i. file_byte d inode (unat br + i)) [0..<unat ?n]" m buf]
        st(3) unat_lt_32 [of count] by (simp add: file_bytes_def)
    then have "fread_loop d junk fs inode buf count br (write_bytes m buf (file_bytes d inode (unat br))) =
        fread_loop d junk fs inode buf count (br + ?n) (write_bytes m buf (file_bytes d inode (unat (br + ?n))))"
      using True by (cases "b = 0"; subst fread_loop.simps)
        (simp_all add: bs Let_def pb stack_block_def unat_mod)
    also have "\<dots> = Inr (write_bytes m buf (file_bytes d inode (unat count)), count)"
      using st by (intro less.hyps) (simp_all add: word_le_nat_alt)
    finally show ?thesis .
  qed
qed

lemma ext2_fread_ok:
  assumes "block_size fs = 1024" and "unat (i_size inode) \<le> (12 + 256 + 256 ^ 2 + 256 ^ 3) * 1024"
  shows "ext2_fread d junk fs inode buf count m =
    Inr (write_bytes m buf (map (file_byte d inode) [0..<unat (min count (i_size inode))]),
         min count (i_size inode))"
proof -
  let ?n = "min count (i_size inode)"
  have "unat ?n \<le> 16843020 * 1024" using assms(2) by (simp add: min_def word_le_nat_alt)
  then show ?thesis
    using fread_loop_ok [OF assms(1), of ?n 0 d junk inode buf m]
    by (simp add: ext2_fread_def file_bytes_def)
qed

lemma ext2_path_lookup_ok:
  assumes "dir_image d fs dir" and "mm_inv s (x # xs)" and "valid_ino fs EXT2_ROOT_INO"
    and "i_mode (inode_at d fs EXT2_ROOT_INO) \<noteq> 0"
    and "0 \<notin> set path" and "\<forall>c\<in>set (components path). length c \<le> 255"
  shows "\<exists>s'. mm_inv s' (x # xs) \<and> (\<forall>a. \<not> in_page x a \<longrightarrow> mem s' a = mem s a) \<and>
    ext2_path_lookup d junk junk_inode fs path result s =
      (case resolve (inode_at d fs) dir (inode_at d fs EXT2_ROOT_INO) (components path) of
         (ret, i) \<Rightarrow> Inr (ret, if ret = 0 then i else result, s'))"
proof -
  let ?root = "inode_at d fs EXT2_ROOT_INO"
  have "sane_fs fs" using assms(1) by (simp add: dir_image_def)
  then obtain s1 where s1: "ext2_get_inode d fs EXT2_ROOT_INO junk_inode s = Inr (0, ?root, s1)"
    "mm_inv s1 (x # xs)" "\<forall>a. \<not> in_page x a \<longrightarrow> mem s1 a = mem s a"
    using ext2_get_inode_ok [OF assms(2) _ assms(3), of d junk_inode] assms(4) by auto
  show ?thesis
  proof (cases "path = []")
    case True
    with s1 show ?thesis by (auto simp: ext2_path_lookup_def)
  next
    case False
    obtain s2 where s2: "lookup_loop d junk fs path ?root s1 =
        Inr (fst (resolve (inode_at d fs) dir ?root (components path)),
             snd (resolve (inode_at d fs) dir ?root (components path)), s2)"
      "mm_inv s2 (x # xs)" "\<forall>a. \<not> in_page x a \<longrightarrow> mem s2 a = mem s1 a"
      using lookup_loop_ok [OF assms(1,3) refl s1(2) assms(5)] assms(6) by blast
    with s1 False show ?thesis
      by (intro exI [of _ s2]) (auto simp: ext2_path_lookup_def split: prod.split)
  qed
qed

section \<open>A sample drive\<close>

text \<open>A drive given block by block.\<close>

definition disk_image :: "(nat \<Rightarrow> bytes) \<Rightarrow> disk" where
  "disk_image f k = f (k div 1024) ! (k mod 1024)"

lemma disk_block_image:
  assumes "length (f (unat b)) = 1024" and "unat b < 2 ^ 31"
  shows "disk_block (disk_image f) b = f (unat b)"
proof (rule nth_equalityI)
  fix i
  assume "i < length (disk_block (disk_image f) b)"
  then have i: "i < 1024" by simp
  have "unat (b * 2) * 512 = unat b * 1024" using assms(2) by (simp add: unat_word_ariths)
  then have "unat (b * 2) * 512 + i = i + unat b * 1024" by simp
  then have "(unat (b * 2) * 512 + i) div 1024 = unat b" "(unat (b * 2) * 512 + i) mod 1024 = i"
    using i by (simp_all only: div_mult_self1 mod_mult_self1) simp_all
  then show "disk_block (disk_image f) b ! i = f (unat b) ! i"
    using i by (simp add: disk_block_def disk_image_def)
qed (use assms in simp)

text \<open>
  Two inodes per group, the descriptor in block 2, the inode table in block 3, the
  root directory in block 4: one entry, named \<open>a\<close>, that leads back to the root.
\<close>

definition sample_fs :: ext2_fs where
  "sample_fs = \<lparr>sb = (decode_superblock [])\<lparr>s_inodes_count := 2, s_first_data_block := 1,
       s_inodes_per_group := 2, s_inode_size := 128\<rparr>,
     gd = decode_group_desc [], block_size = 1024, inode_size = 128, blocks_per_group = 0\<rparr>"

definition sample_entry :: dirent where
  "sample_entry = \<lparr>d_ino = 2, d_type = 2, d_name = [97], d_pad = replicate 1015 0\<rparr>"

definition sample_blocks :: "nat \<Rightarrow> bytes" where
  "sample_blocks b =
     (if b = 2 then replicate 8 0 @ [3] @ replicate 1015 0
      else if b = 3 then replicate 129 0 @ [0x40] @ replicate 2 0 @ [3] @ replicate 35 0 @ [4] @ replicate 855 0
      else if b = 4 then encode_dir [sample_entry] else replicate 1024 0)"

definition sample_disk :: disk where
  "sample_disk = disk_image sample_blocks"

lemma sample_disk_block: "unat b < 2 ^ 31 \<Longrightarrow> disk_block sample_disk b = sample_blocks (unat b)"
  unfolding sample_disk_def
  by (rule disk_block_image) (simp_all add: sample_blocks_def encode_dir_def encode_dirent_def sample_entry_def)

lemma get_fields_drop:
  "get16 (drop k bs) i = get16 bs (k + i)" "get32 (drop k bs) i = get32 bs (k + i)"
  by (simp_all add: get16_def get32_def add.commute)

lemma sample_inode:
  assumes "n = 1 \<or> n = 2"
  shows "inode_table sample_disk sample_fs n = 3"
    and "inode_at sample_disk sample_fs n =
      decode_inode (take 128 (drop (if n = 1 then 0 else 128) (sample_blocks 3)))"
proof -
  have "desc_place sample_fs n = (2, 0)" using assms by (auto simp: desc_place_def sample_fs_def)
  then show t: "inode_table sample_disk sample_fs n = 3"
    by (simp add: inode_table_def sample_disk_block sample_blocks_def get32_def)
  have "inode_place sample_fs n 3 = (3, if n = 1 then 0 else 128)"
    using assms by (auto simp: inode_place_def sample_fs_def)
  then show "inode_at sample_disk sample_fs n =
      decode_inode (take 128 (drop (if n = 1 then 0 else 128) (sample_blocks 3)))"
    by (auto simp: inode_at_def t sample_disk_block)
qed

lemma sample_root:
  "i_mode (inode_at sample_disk sample_fs 1) = 0"
  "i_mode (inode_at sample_disk sample_fs 2) = 0x4000"
  "i_block (inode_at sample_disk sample_fs 2) = 4 # replicate 14 0"
  "i_size (inode_at sample_disk sample_fs 2) = 3"
proof -
  show "i_size (inode_at sample_disk sample_fs 2) = 3"
    by (simp add: sample_inode decode_inode_def sample_blocks_def get32_def)
  show "i_mode (inode_at sample_disk sample_fs 1) = 0" "i_mode (inode_at sample_disk sample_fs 2) = 0x4000"
    by (simp_all add: sample_inode decode_inode_def sample_blocks_def get16_def)
  have "i_block (inode_at sample_disk sample_fs 2) = [4, 0, 0, 0, 0, 0, 0, 0, 0, 0, 0, 0, 0, 0, 0]"
    by (simp add: sample_inode decode_inode_def sample_blocks_def get32_def upt_rec)
  moreover have "replicate 14 (0 :: u32) = [0, 0, 0, 0, 0, 0, 0, 0, 0, 0, 0, 0, 0, 0]"
    by (simp add: numeral_eq_Suc)
  ultimately show "i_block (inode_at sample_disk sample_fs 2) = 4 # replicate 14 0" by simp
qed

lemma sample_image:
  "dir_image sample_disk sample_fs (\<lambda>i. if i_block i = 4 # replicate 14 0 then [sample_entry] else [])"
proof -
  have two: "n = 1 \<or> n = 2" if "valid_ino sample_fs n" for n
  proof -
    have "0 < unat n" "unat n \<le> 2" using that
      by (auto simp: valid_ino_def sample_fs_def word_le_nat_alt unat_gt_0)
    then have "unat n = 1 \<or> unat n = 2" by linarith
    then show ?thesis by (auto simp: word_unat_eq_iff)
  qed
  have blk: "disk_block sample_disk 4 = encode_dir [sample_entry]"
    by (simp add: sample_disk_block sample_blocks_def)
  have ent: "dirent_ok sample_entry" "valid_ino sample_fs (d_ino sample_entry)"
    by (simp_all add: dirent_ok_def rec_len_of_def sample_entry_def valid_ino_def sample_fs_def)
  show ?thesis
    unfolding dir_image_def
  proof (intro conjI allI impI exI [of _ "\<lambda>_. [sample_entry]"] ballI)
    show "sane_fs sample_fs" by (simp add: sane_fs_def sample_fs_def)
    fix n i
    assume n: "valid_ino sample_fs n" "i = inode_at sample_disk sample_fs n" "i_mode i AND EXT2_S_IFDIR \<noteq> 0"
    then have ib: "i_block i = 4 # replicate 14 0"
      using two [OF n(1)] by (auto simp: sample_root)
    then show "(if i_block i = 4 # replicate 14 0 then [sample_entry] else []) =
        concat (map (\<lambda>_. [sample_entry]) (takeWhile (\<lambda>b. b \<noteq> 0) (take 12 (i_block i))))"
      by simp
    fix b
    assume b: "b \<in> set (take 12 (i_block i))" "b \<noteq> 0"
    then have "b = 4" unfolding ib by (auto dest: in_set_takeD)
    then show "disk_block sample_disk b = encode_dir [sample_entry]" using blk by simp
    fix e
    assume "e \<in> set [sample_entry]"
    then have e: "e = sample_entry" by simp
    show "dirent_ok e" using ent(1) unfolding e .
    show "valid_ino sample_fs (d_ino e)" using ent(2) unfolding e .
  qed
qed

lemma sample_mount:
  "valid_ino sample_fs EXT2_ROOT_INO" "i_mode (inode_at sample_disk sample_fs EXT2_ROOT_INO) \<noteq> 0"
  "components [47, 97] = [[97]]"
  by (simp add: valid_ino_def sample_fs_def EXT2_ROOT_INO_def) (simp_all add: EXT2_ROOT_INO_def sample_root)

section \<open>Properties\<close>

text \<open>
  On a file system with 1024-byte blocks and inodes that do not straddle blocks,
  \<open>ext2_get_inode\<close> returns for every valid number the inode that the group descriptor
  and the inode table place there (and -5 when its mode is 0), rejects the other numbers
  with -1, and leaves the page allocator as it was.
\<close>

theorem ext2_get_inode_reads:
  assumes "mm_inv s (x # xs)" and "sane_fs fs"
  shows "\<exists>s'. ext2_get_inode d fs n inode s =
      Inr (if \<not> valid_ino fs n then - 1 else if i_mode (inode_at d fs n) = 0 then - 5 else 0,
           if valid_ino fs n then inode_at d fs n else inode, s') \<and>
    mm_inv s' (x # xs) \<and> (\<forall>a. \<not> in_page x a \<longrightarrow> mem s' a = mem s a)"
proof (cases "valid_ino fs n")
  case True
  then show ?thesis using ext2_get_inode_ok [OF assms, of n d inode] by simp
next
  case False
  then have "ext2_get_inode d fs n inode s = Inr (- 1, inode, s)"
    by (auto simp: ext2_get_inode_def valid_ino_def not_le)
  with False assms(1) show ?thesis by simp
qed

theorem ext2_get_inode_reads_witness:
  "\<exists>s'. ext2_get_inode sample_disk sample_fs 2 (decode_inode [])
      \<lparr>mem = store64 (\<lambda>_. 0) 16384 32768, freelist = 16384\<rparr> =
    Inr (0, inode_at sample_disk sample_fs 2, s')"
  using ext2_get_inode_reads [OF two_page_heap, of sample_fs sample_disk 2] sample_root(2)
  by (auto simp: sane_fs_def sample_fs_def valid_ino_def)

text \<open>
  C3: on a drive whose directories hold the encoding of entries, looking up a path gives
  exactly what resolving its components one after the other gives, from the root inode:
  the inode and 0, or -20 below something that is not a directory, -1 for a missing
  name, -5 for an unused inode. Repeated, leading and trailing slashes make no difference.
\<close>

theorem ext2_path_lookup_resolves:
  assumes "dir_image d fs dir" and "mm_inv s (x # xs)" and "valid_ino fs EXT2_ROOT_INO"
    and "i_mode (inode_at d fs EXT2_ROOT_INO) \<noteq> 0"
    and "0 \<notin> set path" and "\<forall>c\<in>set (components path). length c \<le> 255"
  shows "\<exists>s'. mm_inv s' (x # xs) \<and> (\<forall>a. \<not> in_page x a \<longrightarrow> mem s' a = mem s a) \<and>
    ext2_path_lookup d junk junk_inode fs path result s =
      (case resolve (inode_at d fs) dir (inode_at d fs EXT2_ROOT_INO) (components path) of
         (ret, i) \<Rightarrow> Inr (ret, if ret = 0 then i else result, s'))"
  by (rule ext2_path_lookup_ok [OF assms])

theorem ext2_path_lookup_resolves_witness:
  "\<exists>s'. ext2_path_lookup sample_disk (\<lambda>_. 0) (decode_inode []) sample_fs [47, 47, 97, 47] (decode_inode [])
      \<lparr>mem = store64 (\<lambda>_. 0) 16384 32768, freelist = 16384\<rparr> =
    Inr (0, inode_at sample_disk sample_fs 2, s')"
proof -
  have "valid_ino sample_fs EXT2_ROOT_INO" by (simp add: valid_ino_def sample_fs_def EXT2_ROOT_INO_def)
  moreover have "i_mode (inode_at sample_disk sample_fs EXT2_ROOT_INO) \<noteq> 0"
    by (simp add: EXT2_ROOT_INO_def sample_root)
  moreover have "components [47, 47, 97, 47] = [[97]]" by simp
  ultimately show ?thesis
    using ext2_path_lookup_resolves [OF sample_image two_page_heap, of "[47, 47, 97, 47]"
        "\<lambda>_. 0" "decode_inode []" "decode_inode []"]
    by (auto simp: EXT2_ROOT_INO_def sample_root EXT2_S_IFDIR_def find_dirent_Cons sample_entry_def)
qed

text \<open>
  Searching a directory block reads back what was written: on the encoding of any
  list of well-formed entries the search gives the inode number of the first entry in
  use with that name, and reports a missing name otherwise.
\<close>

theorem find_in_block_decodes:
  assumes "\<forall>e\<in>set es. dirent_ok e" and "0 \<notin> set name" and "length name < 256"
  shows "find_in_block (encode_dir es) name 0 =
    Inr (map_option d_ino (find (\<lambda>e. d_ino e \<noteq> 0 \<and> d_name e \<noteq> [] \<and> d_name e = name) es))"
  using find_in_block_encode [of es name "[]"] assms by (simp add: find_dirent_def)

theorem find_in_block_decodes_witness:
  "find_in_block (encode_dir
      [\<lparr>d_ino = 0, d_type = 1, d_name = [98], d_pad = []\<rparr>,
       \<lparr>d_ino = 12, d_type = 1, d_name = [98], d_pad = [0, 0, 0]\<rparr>]) [98] 0 = Inr (Some 12)"
  using find_in_block_decodes [of "[\<lparr>d_ino = 0, d_type = 1, d_name = [98], d_pad = []\<rparr>,
       \<lparr>d_ino = 12, d_type = 1, d_name = [98], d_pad = [0, 0, 0]\<rparr>]" "[98]"]
  by (simp add: dirent_ok_def rec_len_of_def)

text \<open>
  C26: \<open>get_physical_block\<close> follows the direct, single, double and triple indirect pointers
  of the block without ever indexing outside an indirect block, for every block number
  the format can hold, and different block numbers use different pointer slots; beyond
  that range it runs out of the block array.
\<close>

theorem get_physical_block_slots:
  assumes "block_size fs = 1024"
  shows "(\<forall>lb. unat lb < 12 + 256 + 256 ^ 2 + 256 ^ 3 \<longrightarrow> get_physical_block d junk fs inode lb =
      Inr (follow d (i_block inode ! fst (block_slot (unat lb))) (snd (block_slot (unat lb))))) \<and>
    (\<forall>lb. 12 + 256 + 256 ^ 2 + 256 ^ 3 \<le> unat lb \<longrightarrow>
      get_physical_block d junk fs inode lb = Inl (BadAccess ''block array'')) \<and>
    inj block_slot"
  using get_physical_block_follow [OF assms] block_slot_inj by simp

theorem get_physical_block_slots_witness:
  "get_physical_block sample_disk (\<lambda>_. 0) sample_fs (inode_at sample_disk sample_fs 2) 13 = Inr 0"
proof -
  have "block_size sample_fs = 1024" by (simp add: sample_fs_def)
  then have "get_physical_block sample_disk (\<lambda>_. 0) sample_fs (inode_at sample_disk sample_fs 2) 13 =
      Inr (follow sample_disk (i_block (inode_at sample_disk sample_fs 2) ! fst (block_slot (unat (13 :: u32))))
        (snd (block_slot (unat (13 :: u32)))))"
    using get_physical_block_slots by fastforce
  moreover have "block_slot (unat (13 :: u32)) = (12, [1])" by (simp add: block_slot_def)
  moreover have "i_block (inode_at sample_disk sample_fs 2) ! 12 = 0" by (simp add: sample_root)
  moreover have "follow sample_disk 0 [1] = 0"
    by (simp add: sample_disk_block sample_blocks_def get32_def)
  ultimately show ?thesis by simp
qed

text \<open>
  C5: on a file system with 1024-byte blocks \<open>ext2_fread\<close> ends, reports the smaller of the
  request and the file size, and puts exactly that many bytes of the file, from its
  start, at \<open>buf\<close>; blocks with number 0 read as zeros.
\<close>

theorem ext2_fread_delivers:
  assumes "block_size fs = 1024" and "unat (i_size inode) \<le> (12 + 256 + 256 ^ 2 + 256 ^ 3) * 1024"
  shows "ext2_fread d junk fs inode buf count m =
    Inr (write_bytes m buf (map (file_byte d inode) [0..<unat (min count (i_size inode))]),
         min count (i_size inode))"
  by (rule ext2_fread_ok [OF assms])

theorem ext2_fread_delivers_witness:
  "\<exists>m'. ext2_fread sample_disk (\<lambda>_. 0) sample_fs ((inode_at sample_disk sample_fs 2)\<lparr>i_size := 3\<rparr>) 100 7 (\<lambda>_. 9)
    = Inr (m', 3) \<and> m' 100 = 2 \<and> m' 103 = 9"
proof -
  let ?i = "(inode_at sample_disk sample_fs 2)\<lparr>i_size := 3\<rparr>"
  have "block_size sample_fs = 1024" by (simp add: sample_fs_def)
  moreover have "file_byte sample_disk ?i 0 = 2"
    by (simp add: file_byte_def block_slot_def sample_root sample_disk_block sample_blocks_def
        encode_dir_def encode_dirent_def sample_entry_def le_bytes.simps(2) [of 3, simplified])
  ultimately show ?thesis
    using ext2_fread_delivers [of sample_fs ?i sample_disk "\<lambda>_. 0" 100 7 "\<lambda>_. 9"]
    by (simp add: min_def write_bytes_def upt_rec)
qed

text \<open>
  C36: the search of a path lookup in a directory block fails to end exactly when it comes to a
  record of length 0 that it skips, whatever records lie before it: a record of an unused or
  nameless entry or of one with another name. The scan at mount time ends at a record of
  length 0, which it reports last.
\<close>

theorem zero_rec_len_hangs:
  "(entry_loop buf name off = None \<longleftrightarrow>
      (\<exists>off'. passes buf name off off' \<and> skipped buf name off' \<and> get16 buf (off' + 4) = 0)) \<and>
   (entry_loop buf name off = None \<longleftrightarrow> find_in_block buf name off = Inl (Hang ''find_dir_entry'')) \<and>
   (n < bsize \<and> load16 m (block + of_nat n + 4) = 0 \<longrightarrow> length (scan_dir m block bsize n) = 1)"
proof -
  have "entry_loop buf name off = None \<longleftrightarrow> find_in_block buf name off = Inl (Hang ''find_dir_entry'')"
    using entry_loop_no_error [of buf name off] by (auto simp: find_in_block_def split: option.splits)
  moreover have "n < bsize \<and> load16 m (block + of_nat n + 4) = 0 \<longrightarrow> length (scan_dir m block bsize n) = 1"
    by (subst scan_dir.simps) (simp add: Let_def)
  ultimately show ?thesis using entry_loop_None [of buf name off] by blast
qed

text \<open>A block with an entry \<open>b\<close> of 12 bytes and zeros behind it, searched for \<open>a\<close>.\<close>

theorem zero_rec_len_hangs_witness:
  "entry_loop ([11, 0, 0, 0, 12, 0, 1, 1, 98, 0, 0, 0] @ replicate 1012 0) [97] 0 = None \<and>
   length (scan_dir (\<lambda>_. 0) 0 1024 12) = 1"
proof -
  let ?b = "[11, 0, 0, 0, 12, 0, 1, 1, 98, 0, 0, 0] @ replicate 1012 (0 :: u8)"
  have first: "skipped ?b [97] 0" "get16 ?b (0 + 4) = 12"
    by (simp_all add: skipped_def get32_def get16_def MAX_STR_LEN_def)
  have zero: "skipped ?b [97] 12" "get16 ?b (12 + 4) = 0"
    by (simp_all add: skipped_def get32_def get16_def nth_append)
  have "passes ?b [97] 0 12"
    by (rule passes.next_record [OF first(1)]) (simp only: first(2), simp add: passes.here)
  then have "entry_loop ?b [97] 0 = None"
    using zero_rec_len_hangs [of ?b "[97]" 0] zero by blast
  moreover have "load16 (\<lambda>_. 0) (0 + of_nat 12 + 4) = 0" by (simp add: load16_def read_bytes_def upt_rec)
  ultimately show ?thesis using zero_rec_len_hangs [of ?b "[97]" 0 12 1024 "\<lambda>_. 0" 0] by simp
qed

end
