(* ===== verification/Fs.thy ===== *)
theory Fs
  imports Ext2
begin

text \<open>
  Open files and descriptors: fs/ext2_fs.c with include/fs.h, and the console calls of
  driver/uart.c that \<open>read\<close> and \<open>write\<close> use. The state is the global array of open files,
  the descriptor table of the running process (a page, that is 2048 entries, of which
  the code uses 256), kernel memory and the console. Every access outside an array is
  a value of the error type. The theory shows that descriptors always lead to a slot of
  the array, that an opened file reads back what is on the drive, and what becomes of
  the reference counts.
\<close>

section \<open>Definitions\<close>

subsection \<open>The console\<close>

text \<open>
  Keys that will arrive, and bytes sent. \<open>getch\<close> returns -1 while there is no key; the
  code then waits, so that an exhausted input is an endless wait. \<open>getstr\<close> turns interrupts on in this wait; a timer interrupt there is a step of
  the transition system of theory Kernel (\<open>key_wait\<close>), and here a call of \<open>getstr\<close> is one that no other task reads in between.
\<close>

record console =
  keys :: bytes
  sent :: bytes

definition putch :: "u8 \<Rightarrow> console \<Rightarrow> console" where
  "putch c s = s\<lparr>sent := sent s @ [c]\<rparr>"

fun putstr :: "bytes \<Rightarrow> console \<Rightarrow> console" where
  "putstr [] s = s"
| "putstr (c # cs) s = putstr cs (putch c s)"

fun getch :: "console \<Rightarrow> (u8 option \<times> console)" where
  "getch s = (case keys s of [] \<Rightarrow> (None, s)
     | k # ks \<Rightarrow> (Some (if k = 13 then 10 else k), s\<lparr>keys := ks\<rparr>))"

text \<open>
  The loop of \<open>getstr\<close>: bytes stored so far, what is left of \<open>count\<close>, and whether it
  stopped at a newline.
\<close>

fun getstr_loop :: "nat \<Rightarrow> bytes \<Rightarrow> console \<Rightarrow> (bytes \<times> nat \<times> bool \<times> console) kres" where
  "getstr_loop 0 buf s = Inr (buf, 0, False, s)"
| "getstr_loop (Suc n) buf s =
     (case getch s of
        (None, s1) \<Rightarrow> Inl (Hang ''getstr'')
      | (Some c, s1) \<Rightarrow>
          if c = 10 then Inr (buf, Suc n, True, s1)
          else getstr_loop n (buf @ [c]) (if Suc n > 1 then putch c s1 else s1))"

text \<open>\<open>getstr_buf\<close> has 128 bytes; the terminator goes behind the last byte.\<close>

definition getstr :: "u64 \<Rightarrow> console \<Rightarrow> (bytes \<times> console) kres" where
  "getstr count s =
     kbind (getstr_loop (min (unat count) 128) [] s) (\<lambda>(buf, n, newline, s1).
       let buf1 = (if newline then buf @ [10] else buf);
           s2 = (if newline \<and> n > 1 then putch 10 s1 else s1) in
       if length buf1 \<ge> 128 then Inl (BadAccess ''getstr_buf'') else Inr (buf1, s2))"

subsection \<open>Files and descriptors\<close>

definition MAX_FILES :: nat where "MAX_FILES = 256"
definition MAX_FDTABLE :: nat where "MAX_FDTABLE = 256"
definition FDTABLE_PAGE :: nat where "FDTABLE_PAGE = 2048"

record fdtable =
  fds_index :: int
  busy :: int

text \<open>\<open>f_inode\<close> is a pointer: its address and the object behind it, or \<open>NULL\<close>.\<close>

record ext2_file =
  f_inode :: "(u64 \<times> ext2_inode) option"
  f_pos :: u32
  f_flags :: u32
  refcount :: int
  alloc :: int

record fs_state =
  fds :: "ext2_file list"
  fdt :: "fdtable list"
  fmm :: mm
  cons :: console

text \<open>What the file system is mounted on, with the unwritten stack bytes of the ext2 code.\<close>

record fs_env =
  e_disk :: disk
  e_junk :: "nat \<Rightarrow> u8"
  e_junk_inode :: ext2_inode
  e2fs :: ext2_fs

definition zero_file :: ext2_file where
  "zero_file = \<lparr>f_inode = None, f_pos = 0, f_flags = 0, refcount = 0, alloc = 0\<rparr>"

definition fs_init :: "fs_state \<Rightarrow> fs_state" where
  "fs_init s = s\<lparr>fds := (replicate MAX_FILES zero_file)
     [0 := zero_file\<lparr>alloc := 1\<rparr>, 1 := zero_file\<lparr>alloc := 1\<rparr>, 2 := zero_file\<lparr>alloc := 1\<rparr>]\<rparr>"

definition fd_entry :: "int \<Rightarrow> fs_state \<Rightarrow> fdtable kres" where
  "fd_entry fd s =
     (if 0 \<le> fd \<and> nat fd < length (fdt s) then Inr (fdt s ! nat fd) else Inl (BadAccess ''fdtable''))"

definition set_fd :: "int \<Rightarrow> fdtable \<Rightarrow> fs_state \<Rightarrow> fs_state" where
  "set_fd fd e s = s\<lparr>fdt := (fdt s)[nat fd := e]\<rparr>"

definition set_file :: "nat \<Rightarrow> ext2_file \<Rightarrow> fs_state \<Rightarrow> fs_state" where
  "set_file k f s = s\<lparr>fds := (fds s)[k := f]\<rparr>"

definition fd_to_fds :: "int \<Rightarrow> fs_state \<Rightarrow> nat kres" where
  "fd_to_fds fd s =
     kbind (fd_entry fd s) (\<lambda>e.
       if busy e = 0 then Inl (Panic ''ftf, not busy'')
       else if 0 \<le> fds_index e \<and> nat (fds_index e) < length (fds s) then Inr (nat (fds_index e))
       else Inl (BadAccess ''fds''))"

definition alloc_fds :: "fs_state \<Rightarrow> (nat \<times> fs_state) kres" where
  "alloc_fds s =
     (case find (\<lambda>i. alloc (fds s ! i) = 0) [0..<MAX_FILES] of
        None \<Rightarrow> Inl (Panic ''alloc fds'')
      | Some i \<Rightarrow> Inr (i, set_file i ((fds s ! i)\<lparr>alloc := 1\<rparr>) s))"

definition free_fds :: "nat \<Rightarrow> fs_state \<Rightarrow> fs_state kres" where
  "free_fds index s =
     (if alloc (fds s ! index) \<noteq> 1 then Inl (Panic ''free fds'')
      else Inr (set_file index ((fds s ! index)\<lparr>alloc := 0\<rparr>) s))"

definition first_free_fd :: "fs_state \<Rightarrow> nat option" where
  "first_free_fd s = find (\<lambda>i. busy (fdt s ! i) = 0) [0..<MAX_FDTABLE]"

text \<open>\<open>open\<close>; \<open>sizeof(struct ext2_inode)\<close> is 128.\<close>

definition open_file :: "fs_env \<Rightarrow> bytes \<Rightarrow> u32 \<Rightarrow> fs_state \<Rightarrow> (int \<times> fs_state) kres" where
  "open_file env pathname flags s =
     kbind (ext2_path_lookup (e_disk env) (e_junk env) (e_junk_inode env) (e2fs env) pathname
              (e_junk_inode env) (fmm s)) (\<lambda>(ret, inode, m1).
       let s1 = s\<lparr>fmm := m1\<rparr> in
       if ret \<noteq> 0 then Inr (- 1, s1)
       else case first_free_fd s1 of
         None \<Rightarrow> Inr (- 1, s1)
       | Some i \<Rightarrow>
           let s2 = set_fd (int i) ((fdt s1 ! i)\<lparr>busy := 1\<rparr>) s1 in
           kbind (alloc_fds s2) (\<lambda>(k, s3).
             let s4 = set_fd (int i) ((fdt s3 ! i)\<lparr>fds_index := int k\<rparr>) s3 in
             kbind (kmalloc 128 (fmm s4)) (\<lambda>(a, m2).
               let s5 = s4\<lparr>fmm := m2\<rparr> in
               Inr (int i, set_file k ((fds s5 ! k)\<lparr>f_inode := Some (a, inode), f_pos := 0, f_flags := flags\<rparr>) s5))))"

definition openat :: "fs_env \<Rightarrow> int \<Rightarrow> bytes \<Rightarrow> u32 \<Rightarrow> fs_state \<Rightarrow> (int \<times> fs_state) kres" where
  "openat env dirfd pathname flags s = open_file env pathname flags s"

definition fd_invaild :: "int \<Rightarrow> fs_state \<Rightarrow> bool" where
  "fd_invaild fd s \<longleftrightarrow> fd < 0 \<or> fd \<ge> int MAX_FDTABLE \<or> busy (fdt s ! nat fd) = 0"

text \<open>\<open>close\<close> and \<open>close_fd\<close>; \<open>FILE_PIPE_FLAGS\<close> is 8.\<close>

definition close_gen :: "bool \<Rightarrow> int \<Rightarrow> fs_state \<Rightarrow> (int \<times> fs_state) kres" where
  "close_gen keep_pipes fd s =
     (if fd_invaild fd s then Inr (- 1, s)
      else kbind (fd_to_fds fd s) (\<lambda>k.
        let s1 = set_file k ((fds s ! k)\<lparr>refcount := refcount (fds s ! k) - 1\<rparr>) s in
        kbind (if refcount (fds s1 ! k) = 0 then
                 (if keep_pipes \<and> f_flags (fds s1 ! k) AND 8 \<noteq> 0 then Inr s1
                  else free_fds (nat (fds_index (fdt s1 ! nat fd))) s1)
               else Inr s1)
          (\<lambda>s2. Inr (0, set_fd fd ((fdt s2 ! nat fd)\<lparr>busy := 0\<rparr>) s2))))"

definition close :: "int \<Rightarrow> fs_state \<Rightarrow> (int \<times> fs_state) kres" where
  "close fd s = close_gen True fd s"

definition close_fd :: "int \<Rightarrow> fs_state \<Rightarrow> (int \<times> fs_state) kres" where
  "close_fd fd s = close_gen False fd s"

definition lseek :: "int \<Rightarrow> int \<Rightarrow> int \<Rightarrow> fs_state \<Rightarrow> int" where
  "lseek fd offset whence s = (if fd_invaild fd s then - 1 else - 1)"

text \<open>The result of \<open>read\<close> and \<open>write\<close> is a \<open>size_t\<close>: -1 is the largest value.\<close>

definition read_file :: "fs_env \<Rightarrow> int \<Rightarrow> u64 \<Rightarrow> u64 \<Rightarrow> fs_state \<Rightarrow> (u64 \<times> fs_state) kres" where
  "read_file env fd buf count s =
     (if fd_invaild fd s then Inr (- 1, s)
      else kbind (fd_to_fds fd s) (\<lambda>k.
        if k = 0 then
          kbind (getstr count (cons s)) (\<lambda>(str, c1).
            let n = length (takeWhile (\<lambda>c. c \<noteq> 0) str) in
            Inr (of_nat n, s\<lparr>cons := c1,
              fmm := (fmm s)\<lparr>mem := write_bytes (mem (fmm s)) buf (take n str)\<rparr>\<rparr>))
        else case f_inode (fds s ! k) of
          None \<Rightarrow> Inl (BadAccess ''f_inode'')
        | Some (a, inode) \<Rightarrow>
            kbind (ext2_fread (e_disk env) (e_junk env) (e2fs env) inode buf (ucast count) (mem (fmm s)))
              (\<lambda>(m, sz). Inr (ucast sz, s\<lparr>fmm := (fmm s)\<lparr>mem := m\<rparr>\<rparr>))))"

definition write_file :: "int \<Rightarrow> u64 \<Rightarrow> u64 \<Rightarrow> fs_state \<Rightarrow> (u64 \<times> fs_state) kres" where
  "write_file fd buf count s =
     (if fd_invaild fd s then Inr (- 1, s)
      else kbind (fd_to_fds fd s) (\<lambda>k.
        if k = 1 \<or> k = 2 then
          (if unat count \<ge> 2 ^ 31 then Inl (BadAccess ''int overflow'')
           else Inr (count, s\<lparr>cons := putstr (read_bytes (mem (fmm s)) buf (unat count)) (cons s)\<rparr>))
        else Inr (0, s)))"

text \<open>
  \<open>fcntl\<close>. The search of \<open>F_DUPFD\<close> starts at the argument, whatever it is.
\<close>

function dupfd_from :: "int \<Rightarrow> fs_state \<Rightarrow> int option kres" where
  "dupfd_from i s =
     (if i < int MAX_FILES then
        kbind (fd_entry i s) (\<lambda>e. if busy e = 0 then Inr (Some i) else dupfd_from (i + 1) s)
      else Inr None)"
  by pat_completeness auto

termination dupfd_from
  by (relation "measure (\<lambda>(i, s). nat (int MAX_FILES - i))") auto

declare dupfd_from.simps [simp del]

definition fcntl :: "int \<Rightarrow> int \<Rightarrow> int \<Rightarrow> fs_state \<Rightarrow> (int \<times> fs_state) kres" where
  "fcntl fd cmd arg s =
     (if fd_invaild fd s then Inr (- 1, s)
      else if cmd = 0 then
        kbind (dupfd_from arg s) (\<lambda>r. case r of
          None \<Rightarrow> Inr (- 1, s) | Some i \<Rightarrow> Inr (i, set_fd i (fdt s ! nat fd) s))
      else if cmd = 1 then Inr (busy (fdt s ! nat fd), s)
      else if cmd = 2 then Inr (0, set_fd fd ((fdt s ! nat fd)\<lparr>busy := arg\<rparr>) s)
      else if 3 \<le> cmd \<and> cmd \<le> 7 then Inr (0, s)
      else Inr (- 1, s))"

definition dup :: "int \<Rightarrow> fs_state \<Rightarrow> (int \<times> fs_state) kres" where
  "dup oldfd s =
     (if fd_invaild oldfd s then Inl (Panic ''dup'')
      else case first_free_fd s of
        None \<Rightarrow> Inr (- 1, s)
      | Some i \<Rightarrow>
          let s1 = set_fd (int i) \<lparr>fds_index = fds_index (fdt s ! nat oldfd), busy = 1\<rparr> s in
          kbind (fd_to_fds oldfd s1) (\<lambda>k.
            Inr (int i, set_file k ((fds s1 ! k)\<lparr>refcount := refcount (fds s1 ! k) + 1\<rparr>) s1)))"

text \<open>\<open>dup3\<close>; \<open>O_CLOEXEC\<close> is octal 02000000.\<close>

definition dup3 :: "int \<Rightarrow> int \<Rightarrow> u32 \<Rightarrow> fs_state \<Rightarrow> (int \<times> fs_state) kres" where
  "dup3 oldfd newfd flags s =
     (if oldfd = newfd then Inr (newfd, s)
      else if fd_invaild oldfd s then Inl (Panic ''dup3'')
      else kbind (fd_entry newfd s) (\<lambda>e.
        kbind (if busy e = 1 then close newfd s else Inr (0, s)) (\<lambda>(r, s1).
          let s2 = set_fd newfd \<lparr>fds_index = fds_index (fdt s1 ! nat oldfd), busy = 1\<rparr> s1 in
          kbind (fd_to_fds oldfd s2) (\<lambda>k.
            let s3 = set_file k ((fds s2 ! k)\<lparr>refcount := refcount (fds s2 ! k) + 1\<rparr>) s2 in
            if flags AND 0x80000 = 0 then Inr (newfd, s3)
            else kbind (fcntl newfd 1 0 s3) (\<lambda>(flags_newfd, s4).
              if flags_newfd = - 1 then Inr (- 1, s4)
              else kbind (fcntl newfd 2 (or flags_newfd 1) s4) (\<lambda>(r2, s5).
                if r2 = - 1 then Inr (- 1, s5) else Inr (newfd, s5)))))))"

definition mkdir :: "int \<Rightarrow> bytes \<Rightarrow> int \<Rightarrow> int" where
  "mkdir dirfd pathname mode = 0"

definition unlinkat :: "int \<Rightarrow> bytes \<Rightarrow> int \<Rightarrow> int" where
  "unlinkat dirfd pathname flags = - 1"

text \<open>\<open>fdtable_alloc\<close> and \<open>fdtable_copy\<close> of core/proc.c: a page, and what is written to it.\<close>

definition std_fdtable :: "fdtable list" where
  "std_fdtable = (replicate FDTABLE_PAGE \<lparr>fds_index = 0, busy = 0\<rparr>)
     [0 := \<lparr>fds_index = 0, busy = 1\<rparr>, 1 := \<lparr>fds_index = 1, busy = 1\<rparr>, 2 := \<lparr>fds_index = 2, busy = 1\<rparr>]"

definition fdtable_alloc :: "mm \<Rightarrow> (u64 \<times> fdtable list \<times> mm) kres" where
  "fdtable_alloc m =
     kbind (kmalloc 16384 m) (\<lambda>(a, m1).
       Inr (a, std_fdtable, m1\<lparr>mem := fst (memset (mem m1) a 0 PGSIZE)\<rparr>))"

definition fdtable_copy :: "fs_state \<Rightarrow> (u64 \<times> fdtable list \<times> fs_state) kres" where
  "fdtable_copy s =
     kbind (kmalloc 16384 (fmm s)) (\<lambda>(a, m1).
       kbind (kfold (\<lambda>i s. if busy (fdt s ! i) = 1 then
                 (let k = fds_index (fdt s ! i) in
                  if 0 \<le> k \<and> nat k < length (fds s)
                  then Inr (set_file (nat k) ((fds s ! nat k)\<lparr>refcount := refcount (fds s ! nat k) + 1\<rparr>) s)
                  else Inl (BadAccess ''fds''))
               else Inr s) [0..<MAX_FDTABLE] (s\<lparr>fmm := m1\<rparr>))
         (\<lambda>s1. Inr (a, fdt s1, s1)))"

subsection \<open>Sequences of calls\<close>

datatype fs_op =
    Open bytes u32
  | Close int
  | CloseFd int
  | Dup int
  | Dup3 int int u32
  | Fcntl int int int
  | Read int u64 u64
  | Write int u64 u64

fun fs_step :: "fs_env \<Rightarrow> fs_op \<Rightarrow> fs_state \<Rightarrow> fs_state kres" where
  "fs_step env (Open p flags) s = kbind (open_file env p flags s) (\<lambda>(r, s'). Inr s')"
| "fs_step env (Close fd) s = kbind (close fd s) (\<lambda>(r, s'). Inr s')"
| "fs_step env (CloseFd fd) s = kbind (close_fd fd s) (\<lambda>(r, s'). Inr s')"
| "fs_step env (Dup fd) s = kbind (dup fd s) (\<lambda>(r, s'). Inr s')"
| "fs_step env (Dup3 old new flags) s = kbind (dup3 old new flags s) (\<lambda>(r, s'). Inr s')"
| "fs_step env (Fcntl fd cmd arg) s = kbind (fcntl fd cmd arg s) (\<lambda>(r, s'). Inr s')"
| "fs_step env (Read fd buf n) s = kbind (read_file env fd buf n s) (\<lambda>(r, s'). Inr s')"
| "fs_step env (Write fd buf n) s = kbind (write_file fd buf n s) (\<lambda>(r, s'). Inr s')"

text \<open>
  The two arrays have their sizes, every descriptor in use leads into the array of
  open files, and a slot it leads to that is not one of the console's has an inode.
\<close>

definition fs_wf :: "fs_state \<Rightarrow> bool" where
  "fs_wf s \<longleftrightarrow> length (fds s) = MAX_FILES \<and> length (fdt s) = FDTABLE_PAGE \<and>
     (\<forall>i<MAX_FDTABLE. busy (fdt s ! i) \<noteq> 0 \<longrightarrow>
        0 \<le> fds_index (fdt s ! i) \<and> fds_index (fdt s ! i) < int MAX_FILES \<and>
        (fds_index (fdt s ! i) \<le> 2 \<or> f_inode (fds s ! nat (fds_index (fdt s ! i))) \<noteq> None))"

lemmas fs_sizes = MAX_FILES_def MAX_FDTABLE_def FDTABLE_PAGE_def

section \<open>Descriptors stay in range\<close>

lemma set_fd_simps [simp]:
  "fdt (set_fd fd e s) = (fdt s)[nat fd := e]" "fds (set_fd fd e s) = fds s"
  "fmm (set_fd fd e s) = fmm s" "cons (set_fd fd e s) = cons s"
  by (simp_all add: set_fd_def)

lemma set_file_simps [simp]:
  "fds (set_file k f s) = (fds s)[k := f]" "fdt (set_file k f s) = fdt s"
  "fmm (set_file k f s) = fmm s" "cons (set_file k f s) = cons s"
  by (simp_all add: set_file_def)

lemma nth_update_if: "xs[i := x] ! j = (if i = j \<and> i < length xs then x else xs ! j)"
  by (cases "i < length xs") (auto simp: nth_list_update list_update_beyond)

lemma fs_wf_set_file:
  "fs_wf s \<Longrightarrow> (k < length (fds s) \<Longrightarrow> f_inode (fds s ! k) \<noteq> None \<Longrightarrow> f_inode f \<noteq> None) \<Longrightarrow> fs_wf (set_file k f s)"
  by (auto simp: fs_wf_def nth_update_if)

lemma fs_wf_other [simp]:
  "fs_wf (s\<lparr>fmm := m\<rparr>) = fs_wf s" "fs_wf (s\<lparr>cons := c\<rparr>) = fs_wf s"
  by (simp_all add: fs_wf_def)

lemma fs_wf_set_fd:
  assumes "fs_wf s" and "busy e \<noteq> 0 \<Longrightarrow> 0 \<le> fds_index e \<and> fds_index e < int MAX_FILES \<and>
    (fds_index e \<le> 2 \<or> f_inode (fds s ! nat (fds_index e)) \<noteq> None)"
  shows "fs_wf (set_fd fd e s)"
  using assms by (auto simp: fs_wf_def nth_update_if split: if_splits)

lemma fd_valid:
  assumes "fs_wf s" and "\<not> fd_invaild fd s"
  shows "0 \<le> fd" "nat fd < MAX_FDTABLE" "nat fd < length (fdt s)" "busy (fdt s ! nat fd) \<noteq> 0"
    and "fd_to_fds fd s = Inr (nat (fds_index (fdt s ! nat fd)))"
    and "nat (fds_index (fdt s ! nat fd)) < MAX_FILES"
    and "0 \<le> fds_index (fdt s ! nat fd)" "fds_index (fdt s ! nat fd) < int MAX_FILES"
    and "fds_index (fdt s ! nat fd) \<le> 2 \<or> f_inode (fds s ! nat (fds_index (fdt s ! nat fd))) \<noteq> None"
proof -
  show a: "0 \<le> fd" "nat fd < MAX_FDTABLE" "busy (fdt s ! nat fd) \<noteq> 0"
    using assms(2) by (auto simp: fd_invaild_def fs_sizes)
  then show l: "nat fd < length (fdt s)" using assms(1) by (simp add: fs_wf_def fs_sizes)
  show i: "0 \<le> fds_index (fdt s ! nat fd)" "fds_index (fdt s ! nat fd) < int MAX_FILES"
    "fds_index (fdt s ! nat fd) \<le> 2 \<or> f_inode (fds s ! nat (fds_index (fdt s ! nat fd))) \<noteq> None"
    using assms(1) a by (auto simp: fs_wf_def)
  then show "nat (fds_index (fdt s ! nat fd)) < MAX_FILES" by linarith
  with a l i assms(1) show "fd_to_fds fd s = Inr (nat (fds_index (fdt s ! nat fd)))"
    by (simp add: fd_to_fds_def fd_entry_def fs_wf_def)
qed

lemma find_upt_Some:
  "find P [0..<n] = Some i \<longleftrightarrow> i < n \<and> P i \<and> (\<forall>j<i. \<not> P j)"
  by (auto simp: find_Some_iff)

lemma alloc_fds_ok:
  assumes "alloc_fds s = Inr (k, s')"
  shows "k < MAX_FILES" and "alloc (fds s ! k) = 0" and "s' = set_file k ((fds s ! k)\<lparr>alloc := 1\<rparr>) s"
  using assms by (auto simp: alloc_fds_def find_upt_Some split: option.splits)

lemma open_file_wf:
  assumes wf: "fs_wf s" and "open_file env p flags s = Inr (r, s')"
  shows "fs_wf s'"
proof -
  obtain ret inode m1 where L: "ext2_path_lookup (e_disk env) (e_junk env) (e_junk_inode env) (e2fs env) p
      (e_junk_inode env) (fmm s) = Inr (ret, inode, m1)"
    using assms(2) by (auto simp: open_file_def kres_simps)
  let ?s1 = "s\<lparr>fmm := m1\<rparr>"
  show ?thesis
  proof (cases "ret \<noteq> 0 \<or> first_free_fd ?s1 = None")
    case True
    then have "s' = ?s1" using assms(2) L by (auto simp: open_file_def Let_def split: if_splits option.splits)
    with wf show ?thesis by simp
  next
    case False
    then obtain i where i: "ret = 0" "first_free_fd ?s1 = Some i" by auto
    let ?s2 = "set_fd (int i) ((fdt ?s1 ! i)\<lparr>busy := 1\<rparr>) ?s1"
    obtain k s3 a m2 where A: "alloc_fds ?s2 = Inr (k, s3)"
      "s' = set_file k ((fds s3 ! k)\<lparr>f_inode := Some (a, inode), f_pos := 0, f_flags := flags\<rparr>)
        ((set_fd (int i) ((fdt s3 ! i)\<lparr>fds_index := int k\<rparr>) s3)\<lparr>fmm := m2\<rparr>)"
      using assms(2) L i by (auto simp: open_file_def kres_simps Let_def)
    note K = alloc_fds_ok [OF A(1)]
    show ?thesis
      using wf K by (auto simp: fs_wf_def nth_update_if K(3) A(2) split: if_splits)
  qed
qed

lemma close_gen_valid:
  assumes wf: "fs_wf s" and v: "\<not> fd_invaild fd s"
    and k: "k = nat (fds_index (fdt s ! nat fd))" and f: "f = (fds s ! k)\<lparr>refcount := refcount (fds s ! k) - 1\<rparr>"
    and e: "e = (fdt s ! nat fd)\<lparr>busy := 0\<rparr>"
  shows "close_gen b fd s =
    (if refcount (fds s ! k) = 1 \<and> \<not> (b \<and> f_flags (fds s ! k) AND 8 \<noteq> 0) then
       if alloc (fds s ! k) = 1 then Inr (0, set_fd fd e (set_file k (f\<lparr>alloc := 0\<rparr>) s))
       else Inl (Panic ''free fds'')
     else Inr (0, set_fd fd e (set_file k f s)))"
proof -
  note V = fd_valid [OF wf v, folded k]
  have l: "k < length (fds s)" using V wf by (simp add: fs_wf_def)
  have twice: "set_file k g (set_file k f s) = set_file k g s" for g by (simp add: set_file_def)
  have "close_gen b fd s = kbind (if refcount f = 0 then
                 (if b \<and> f_flags f AND 8 \<noteq> 0 then Inr (set_file k f s)
                  else free_fds k (set_file k f s))
               else Inr (set_file k f s))
          (\<lambda>s2. Inr (0, set_fd fd ((fdt s2 ! nat fd)\<lparr>busy := 0\<rparr>) s2))"
    using v V(5) l by (simp add: close_gen_def k [symmetric] f Let_def)
  then show ?thesis using l by (auto simp: free_fds_def f e twice [unfolded f])
qed

lemma close_gen_wf:
  assumes wf: "fs_wf s" and "close_gen b fd s = Inr (r, s')"
  shows "fs_wf s'"
proof (cases "fd_invaild fd s")
  case True
  with assms show ?thesis by (simp add: close_gen_def)
next
  case False
  show ?thesis
    using assms(2) wf unfolding close_gen_valid [OF wf False refl refl refl]
    by (auto split: if_splits intro!: fs_wf_set_fd fs_wf_set_file)
qed

lemma dupfd_from_Some: "dupfd_from i s = Inr (Some j) \<Longrightarrow> 0 \<le> j \<and> j < int MAX_FILES \<and> i \<le> j"
proof (induction i s rule: dupfd_from.induct)
  case (1 i s)
  from 1(2) show ?case
    by (subst (asm) dupfd_from.simps)
      (auto simp: kres_simps fd_entry_def split: if_splits dest!: 1(1))
qed

lemma fcntl_wf:
  assumes wf: "fs_wf s" and "fcntl fd cmd arg s = Inr (r, s')"
  shows "fs_wf s'"
proof (cases "fd_invaild fd s")
  case True
  with assms show ?thesis by (simp add: fcntl_def)
next
  case False
  note V = fd_valid [OF wf False]
  show ?thesis
    using assms(2) False wf V fs_wf_set_fd [OF wf]
    by (auto simp: fcntl_def kres_simps split: if_splits option.splits)
qed

lemma dup_wf:
  assumes wf: "fs_wf s" and "dup fd s = Inr (r, s')"
  shows "fs_wf s'"
proof (cases "fd_invaild fd s \<or> first_free_fd s = None")
  case True
  with assms show ?thesis by (auto simp: dup_def split: if_splits)
next
  case False
  note V = fd_valid [OF wf, of fd]
  from False show ?thesis
    using assms(2) V fs_wf_set_fd [OF wf]
    by (auto simp: dup_def kres_simps Let_def split: if_splits option.splits intro!: fs_wf_set_file)
qed

lemma fd_entry_ok: "fd_entry fd s = Inr e \<Longrightarrow> 0 \<le> fd \<and> nat fd < length (fdt s) \<and> e = fdt s ! nat fd"
  by (simp add: fd_entry_def split: if_splits)

lemma fd_to_fds_ok:
  "fd_to_fds fd s = Inr k \<Longrightarrow> 0 \<le> fd \<and> nat fd < length (fdt s) \<and> fds_index (fdt s ! nat fd) = int k \<and>
     k < length (fds s) \<and> busy (fdt s ! nat fd) \<noteq> 0"
  by (auto simp: fd_to_fds_def kres_simps split: if_splits dest!: fd_entry_ok)

lemma cloexec_wf:
  assumes "fs_wf s3"
    and "kbind (fcntl new 1 0 s3) (\<lambda>(flags_newfd, s4).
        if flags_newfd = - 1 then Inr (- 1, s4)
        else kbind (fcntl new 2 (or flags_newfd 1) s4) (\<lambda>(r2, s5).
          if r2 = - 1 then Inr (- 1, s5) else Inr (new, s5))) = Inr (r, s')"
  shows "fs_wf s'"
  using assms by (auto simp: kres_simps split: if_splits dest: fcntl_wf)

lemma dup3_wf:
  assumes wf: "fs_wf s" and d: "dup3 old new flags s = Inr (r, s')"
  shows "fs_wf s'"
proof (cases "old = new \<or> fd_invaild old s")
  case True
  with assms show ?thesis by (auto simp: dup3_def split: if_splits)
next
  case False
  then have ne: "old \<noteq> new" by simp
  obtain e r1 s1 k where E: "fd_entry new s = Inr e"
    and S: "(if busy e = 1 then close new s else Inr (0, s)) = Inr (r1, s1)"
    "fd_to_fds old (set_fd new \<lparr>fds_index = fds_index (fdt s1 ! nat old), busy = 1\<rparr> s1) = Inr k"
    and rest: "(let s2 = set_fd new \<lparr>fds_index = fds_index (fdt s1 ! nat old), busy = 1\<rparr> s1;
        s3 = set_file k ((fds s2 ! k)\<lparr>refcount := refcount (fds s2 ! k) + 1\<rparr>) s2 in
      if flags AND 0x80000 = 0 then Inr (new, s3)
      else kbind (fcntl new 1 0 s3) (\<lambda>(flags_newfd, s4).
        if flags_newfd = - 1 then Inr (- 1, s4)
        else kbind (fcntl new 2 (or flags_newfd 1) s4) (\<lambda>(r2, s5).
          if r2 = - 1 then Inr (- 1, s5) else Inr (new, s5)))) = Inr (r, s')"
    using d False unfolding dup3_def by (auto simp: kres_simps Let_def)
  have w1: "fs_wf s1" using S(1) wf close_gen_wf by (auto simp: close_def split: if_splits)
  have "busy (fdt s1 ! nat old) \<noteq> 0"
    using fd_to_fds_ok [OF S(2)] fd_entry_ok [OF E] ne by (auto simp: nth_list_update split: if_splits)
  then have "\<not> fd_invaild old s1" using False by (simp add: fd_invaild_def)
  note V = fd_valid [OF w1 this]
  have "fs_wf (set_fd new \<lparr>fds_index = fds_index (fdt s1 ! nat old), busy = 1\<rparr> s1)"
    using V by (intro fs_wf_set_fd [OF w1]) simp
  then have w3: "fs_wf (set_file k f (set_fd new \<lparr>fds_index = fds_index (fdt s1 ! nat old), busy = 1\<rparr> s1))"
    if "f_inode (fds s1 ! k) \<noteq> None \<Longrightarrow> f_inode f \<noteq> None" for f
    using that by (auto intro!: fs_wf_set_file)
  show ?thesis
  proof (cases "flags AND 0x80000 = 0")
    case True
    with rest w3 show ?thesis by (auto simp: Let_def)
  next
    case False
    show ?thesis
      using cloexec_wf [OF w3 [of "(fds s1 ! k)\<lparr>refcount := refcount (fds s1 ! k) + 1\<rparr>"], of new r s'] rest False
      by (simp add: Let_def)
  qed
qed

lemma read_file_wf: "fs_wf s \<Longrightarrow> read_file env fd buf n s = Inr (r, s') \<Longrightarrow> fs_wf s'"
  by (auto simp: read_file_def kres_simps Let_def split: if_splits option.splits)

lemma write_file_wf: "fs_wf s \<Longrightarrow> write_file fd buf n s = Inr (r, s') \<Longrightarrow> fs_wf s'"
  by (auto simp: write_file_def kres_simps Let_def split: if_splits)

lemmas fs_ops_wf = open_file_wf close_gen_wf dup_wf dup3_wf fcntl_wf read_file_wf write_file_wf

lemma fs_step_wf: "fs_wf s \<Longrightarrow> fs_step env op s = Inr s' \<Longrightarrow> fs_wf s'"
  by (cases op) (auto simp: kres_simps close_def close_fd_def dest: fs_ops_wf)

lemma fs_run_wf: "fs_wf s \<Longrightarrow> kfold (fs_step env) ops s = Inr s' \<Longrightarrow> fs_wf s'"
  by (induction ops arbitrary: s) (auto simp: kres_simps dest: fs_step_wf)

lemma boot_wf: "fs_wf (fs_init (s\<lparr>fdt := std_fdtable\<rparr>))"
  by (auto simp: fs_wf_def fs_init_def std_fdtable_def fs_sizes nth_update_if)

section \<open>Opening and reading\<close>

lemma find_upt_ex: "\<exists>i<n. P i \<Longrightarrow> \<exists>i. find P [0..<n] = Some i \<and> i < n \<and> P i \<and> (\<forall>j<i. \<not> P j)"
  using find_upt_Some [of P n] by (cases "find P [0..<n]") (auto simp: find_None_iff)

text \<open>\<open>open\<close> of a path that resolves, with a descriptor, a slot and a page left.\<close>

lemma open_file_ok:
  assumes L: "ext2_path_lookup (e_disk env) (e_junk env) (e_junk_inode env) (e2fs env) p
      (e_junk_inode env) (fmm s) = Inr (0, inode, m1)"
    and i: "first_free_fd s = Some i" and k: "find (\<lambda>i. alloc (fds s ! i) = 0) [0..<MAX_FILES] = Some k"
    and a: "kmalloc 128 m1 = Inr (a, m2)" and wf: "fs_wf s"
  shows "open_file env p flags s = Inr (int i,
    s\<lparr>fdt := (fdt s)[i := \<lparr>fds_index = int k, busy = 1\<rparr>], fmm := m2,
      fds := (fds s)[k := \<lparr>f_inode = Some (a, inode), f_pos = 0, f_flags = flags,
        refcount = refcount (fds s ! k), alloc = 1\<rparr>]\<rparr>)"
proof -
  have I: "i < length (fdt s)" using i wf by (simp add: first_free_fd_def find_upt_Some fs_wf_def fs_sizes)
  have K: "k < length (fds s)" using k wf by (simp add: find_upt_Some fs_wf_def)
  have f: "first_free_fd (s\<lparr>fmm := m1\<rparr>) = Some i" using i by (simp add: first_free_fd_def)
  have eqs: "(fdt s ! i)\<lparr>busy := 1, fds_index := int k\<rparr> = \<lparr>fds_index = int k, busy = 1\<rparr>"
    "(fds s ! k)\<lparr>alloc := 1, f_inode := Some (a, inode), f_pos := 0, f_flags := flags\<rparr> =
      \<lparr>f_inode = Some (a, inode), f_pos = 0, f_flags = flags, refcount = refcount (fds s ! k), alloc = 1\<rparr>"
    by (cases "fdt s ! i"; simp) (cases "fds s ! k"; simp)
  show ?thesis
    using I K by (simp add: open_file_def L f Let_def alloc_fds_def k a set_fd_def set_file_def eqs)
qed

lemma read_file_ok:
  assumes wf: "fs_wf s" and v: "\<not> fd_invaild fd s" and k: "fds_index (fdt s ! nat fd) = int k" "k \<noteq> 0"
    and f: "f_inode (fds s ! k) = Some (a, inode)"
    and b: "block_size (e2fs env) = 1024" "unat (i_size inode) \<le> (12 + 256 + 256 ^ 2 + 256 ^ 3) * 1024"
  shows "read_file env fd buf count s = Inr (ucast (min (ucast count) (i_size inode)),
    s\<lparr>fmm := (fmm s)\<lparr>mem := write_bytes (mem (fmm s)) buf
      (map (file_byte (e_disk env) inode) [0..<unat (min (ucast count) (i_size inode))])\<rparr>\<rparr>)"
  using v k(2) f ext2_fread_ok [OF b, of "e_disk env" "e_junk env" buf "ucast count" "mem (fmm s)"]
  by (simp add: read_file_def fd_valid(5) [OF wf v] k(1))

lemma boot_facts:
  assumes "s = fs_init (s0\<lparr>fdt := std_fdtable\<rparr>)"
  shows "first_free_fd s = Some 3" "find (\<lambda>i. alloc (fds s ! i) = 0) [0..<MAX_FILES] = Some 3"
    "alloc (fds s ! 0) = 1" "refcount (fds s ! 3) = 0" "fmm s = fmm s0"
    "fdt s = std_fdtable" "fds s ! Suc 0 = zero_file\<lparr>alloc := 1\<rparr>" "std_fdtable ! Suc 0 = \<lparr>fds_index = 1, busy = 1\<rparr>"
    "length std_fdtable = 2048" "length (fds s) = 256"
  using assms
  by (auto simp: first_free_fd_def find_upt_Some std_fdtable_def fs_init_def fs_sizes nth_update_if zero_file_def)

text \<open>The state after booting with two free pages, and the sample drive.\<close>

definition sample_state :: fs_state where
  "sample_state = fs_init \<lparr>fds = [], fdt = std_fdtable,
     fmm = \<lparr>mem = store64 (\<lambda>_. 0) 16384 32768, freelist = 16384\<rparr>, cons = \<lparr>keys = [], sent = []\<rparr>\<rparr>"

definition sample_env :: fs_env where
  "sample_env = \<lparr>e_disk = sample_disk, e_junk = \<lambda>_. 0, e_junk_inode = decode_inode [], e2fs = sample_fs\<rparr>"

lemma sample_state_boot:
  "sample_state = fs_init (\<lparr>fds = [], fdt = std_fdtable,
     fmm = \<lparr>mem = store64 (\<lambda>_. 0) 16384 32768, freelist = 16384\<rparr>, cons = \<lparr>keys = [], sent = []\<rparr>\<rparr>
       \<lparr>fdt := std_fdtable\<rparr>)"
  by (simp add: sample_state_def)

lemmas sample_state_facts = boot_facts [OF sample_state_boot]

lemma sample_state_wf: "fs_wf sample_state"
  by (subst sample_state_boot) (rule boot_wf)

section \<open>Properties\<close>

text \<open>
  C4: from the state that \<open>fs_init\<close> and \<open>fdtable_alloc\<close> set up, after any sequence of calls, a
  descriptor that \<open>fd_invaild\<close> accepts leads to a slot of the array of open files, which is
  one of the first three, those of the console, or has an inode. The three have no inode: a copy of descriptor 1 leads to slot 1.
  So no call goes outside the array, and a call that finds a slot behind the first three finds an inode there.
\<close>

theorem descriptors_lead_to_files:
  assumes "kfold (fs_step env) ops (fs_init (s\<lparr>fdt := std_fdtable\<rparr>)) = Inr s'" and "\<not> fd_invaild fd s'"
  shows "\<exists>k<MAX_FILES. fd_to_fds fd s' = Inr k \<and> k < length (fds s') \<and>
    (k \<le> 2 \<or> f_inode (fds s' ! k) \<noteq> None)"
proof -
  have wf: "fs_wf s'" by (rule fs_run_wf [OF boot_wf assms(1)])
  note V = fd_valid [OF wf assms(2)]
  have "nat (fds_index (fdt s' ! nat fd)) \<le> 2 \<or> f_inode (fds s' ! nat (fds_index (fdt s' ! nat fd))) \<noteq> None"
    using V(9) by linarith
  moreover have "nat (fds_index (fdt s' ! nat fd)) < length (fds s')" using V(6) wf by (simp add: fs_wf_def)
  ultimately show ?thesis using V(5,6) by blast
qed

theorem descriptors_lead_to_files_witness:
  "\<exists>s'. kfold (fs_step sample_env) [Dup 1] sample_state = Inr s' \<and> fd_to_fds 3 s' = Inr 1"
proof -
  obtain s' where s': "kfold (fs_step sample_env) [Dup 1] sample_state = Inr s'"
    "fdt s' ! 3 = \<lparr>fds_index = 1, busy = 1\<rparr>" "length (fdt s') = 2048"
    by (simp add: kres_simps dup_def fd_invaild_def sample_state_facts MAX_FDTABLE_def fd_to_fds_def
        fd_entry_def Let_def)
  then have "\<not> fd_invaild 3 s'" by (simp add: fd_invaild_def MAX_FDTABLE_def)
  then obtain k where "fd_to_fds 3 s' = Inr k"
    using descriptors_lead_to_files [OF s'(1) [unfolded sample_state_boot]] by auto
  with s' show ?thesis by (auto simp: fd_to_fds_def fd_entry_def split: if_splits)
qed

text \<open>
  C25: on a directory image, \<open>open\<close> of a path that resolves to a file gives a descriptor that
  was free, and a \<open>read\<close> of it returns the smaller of the request (cut to 32 bits) and the file
  size and stores that many bytes of the file; a path that does not resolve gives -1
  and leaves the descriptors and the open files as they are.
\<close>

theorem open_read_delivers:
  assumes "dir_image (e_disk env) (e2fs env) dir" and "mm_inv (fmm s) (x # xs)"
    and "valid_ino (e2fs env) EXT2_ROOT_INO" and "i_mode (inode_at (e_disk env) (e2fs env) EXT2_ROOT_INO) \<noteq> 0"
    and "0 \<notin> set path" and "\<forall>c\<in>set (components path). length c \<le> 255"
    and "resolve (inode_at (e_disk env) (e2fs env)) dir (inode_at (e_disk env) (e2fs env) EXT2_ROOT_INO)
      (components path) = (ret, inode)"
    and "fs_wf s" and "\<exists>i<MAX_FDTABLE. busy (fdt s ! i) = 0"
    and "alloc (fds s ! 0) \<noteq> 0" and "\<exists>k<MAX_FILES. alloc (fds s ! k) = 0"
    and "unat (i_size inode) \<le> (12 + 256 + 256 ^ 2 + 256 ^ 3) * 1024"
  shows "\<exists>fd s1. open_file env path flags s = Inr (fd, s1) \<and>
    (if ret = 0 then fd_invaild fd s \<and>
       read_file env fd buf count s1 = Inr (ucast (min (ucast count) (i_size inode)),
         s1\<lparr>fmm := (fmm s1)\<lparr>mem := write_bytes (mem (fmm s1)) buf
           (map (file_byte (e_disk env) inode) [0..<unat (min (ucast count) (i_size inode))])\<rparr>\<rparr>)
     else fd = - 1 \<and> fdt s1 = fdt s \<and> fds s1 = fds s)"
proof -
  obtain m1 where m1: "mm_inv m1 (x # xs)"
    "ext2_path_lookup (e_disk env) (e_junk env) (e_junk_inode env) (e2fs env) path (e_junk_inode env) (fmm s) =
      Inr (ret, if ret = 0 then inode else e_junk_inode env, m1)"
    using ext2_path_lookup_ok [OF assms(1-6), of "e_junk env" "e_junk_inode env" "e_junk_inode env"] assms(7) by auto
  show ?thesis
  proof (cases "ret = 0")
    case False
    then show ?thesis using m1(2) by (simp add: open_file_def Let_def)
  next
    case True
    obtain i where i: "first_free_fd s = Some i" "i < MAX_FDTABLE" "busy (fdt s ! i) = 0"
      using find_upt_ex [OF assms(9)] by (auto simp: first_free_fd_def)
    obtain k where k: "find (\<lambda>i. alloc (fds s ! i) = 0) [0..<MAX_FILES] = Some k" "k < MAX_FILES"
        "alloc (fds s ! k) = 0"
      using find_upt_ex [OF assms(11)] by auto
    have k0: "k \<noteq> 0" using k(3) assms(10) by metis
    obtain m2 where m2: "kmalloc 128 m1 = Inr (x, m2)"
      using kp.scratch_page [OF m1(1)] by (auto simp: kmalloc_def)
    obtain s1 where s1: "s1 = s\<lparr>fdt := (fdt s)[i := \<lparr>fds_index = int k, busy = 1\<rparr>], fmm := m2,
      fds := (fds s)[k := \<lparr>f_inode = Some (x, inode), f_pos = 0, f_flags = flags,
        refcount = refcount (fds s ! k), alloc = 1\<rparr>]\<rparr>" by simp
    have O: "open_file env path flags s = Inr (int i, s1)"
      unfolding s1 by (rule open_file_ok [OF m1(2) [unfolded True, simplified] i(1) k(1) m2 assms(8)])
    have wf: "fs_wf s1" by (rule open_file_wf [OF assms(8) O])
    have l: "i < length (fdt s)" "k < length (fds s)" using assms(8) i k by (auto simp: fs_wf_def fs_sizes)
    have v: "\<not> fd_invaild (int i) s1" using i l by (simp add: s1 fd_invaild_def)
    have "block_size (e2fs env) = 1024" using assms(1) by (simp add: dir_image_def sane_fs_def)
    then have "read_file env (int i) buf count s1 = Inr (ucast (min (ucast count) (i_size inode)),
         s1\<lparr>fmm := (fmm s1)\<lparr>mem := write_bytes (mem (fmm s1)) buf
           (map (file_byte (e_disk env) inode) [0..<unat (min (ucast count) (i_size inode))])\<rparr>\<rparr>)"
      using l by (intro read_file_ok [OF wf v _ k0 _ _ assms(12)]) (simp_all add: s1)
    then show ?thesis using True i by (auto simp: O fd_invaild_def)
  qed
qed

theorem open_read_delivers_witness:
  "\<exists>fd s1 s2. open_file sample_env [47, 97] 0 sample_state = Inr (fd, s1) \<and>
    read_file sample_env fd 65536 100 s1 = Inr (3, s2)"
proof -
  let ?dir = "\<lambda>i. if i_block i = 4 # replicate 14 0 then [sample_entry] else []"
  have r: "resolve (inode_at (e_disk sample_env) (e2fs sample_env)) ?dir
      (inode_at (e_disk sample_env) (e2fs sample_env) EXT2_ROOT_INO) (components [47, 97]) =
      (0, inode_at sample_disk sample_fs 2)"
    by (simp add: sample_env_def EXT2_ROOT_INO_def sample_root EXT2_S_IFDIR_def find_dirent_Cons sample_entry_def)
  have free: "\<exists>i<MAX_FDTABLE. busy (fdt sample_state ! i) = 0" "\<exists>k<MAX_FILES. alloc (fds sample_state ! k) = 0"
    using sample_state_facts(1,2) by (auto simp: first_free_fd_def find_upt_Some)
  have "mm_inv (fmm sample_state) [16384, 32768]"
    using two_page_heap by (simp add: sample_state_facts)
  then show ?thesis
    using open_read_delivers [of sample_env ?dir sample_state 16384 "[32768]" "[47, 97]", OF _ _ _ _ _ _ r
        sample_state_wf free(1) _ free(2), of 0 65536 100] sample_image sample_mount
    by (auto simp: sample_env_def sample_state_facts sample_root min_def)
qed

text \<open>
  \<open>dup\<close> of a descriptor in use gives the lowest free one, leads it to the same open
  file, counts one reference more, and changes no other descriptor and no other file.
\<close>

theorem dup_shares_file:
  assumes "fs_wf s" and "\<not> fd_invaild fd s" and "first_free_fd s = Some i"
  shows "\<exists>k s'. fd_to_fds fd s = Inr k \<and> dup fd s = Inr (int i, s') \<and>
    fd_to_fds fd s' = Inr k \<and> fd_to_fds (int i) s' = Inr k \<and>
    (\<forall>j<i. busy (fdt s ! j) \<noteq> 0) \<and> (\<forall>j. j \<noteq> i \<longrightarrow> fdt s' ! j = fdt s ! j) \<and>
    fds s' = (fds s)[k := (fds s ! k)\<lparr>refcount := refcount (fds s ! k) + 1\<rparr>]"
proof -
  note V = fd_valid [OF assms(1,2)]
  have i: "i < MAX_FDTABLE" "busy (fdt s ! i) = 0" "\<forall>j<i. busy (fdt s ! j) \<noteq> 0"
    using assms(3) by (auto simp: first_free_fd_def find_upt_Some)
  have l: "i < length (fdt s)" "nat fd \<noteq> i" "length (fds s) = MAX_FILES"
    using assms(1) i V by (auto simp: fs_wf_def fs_sizes)
  show ?thesis
    using V i l assms(2,3)
    by (simp add: dup_def Let_def fd_to_fds_def fd_entry_def nth_update_if)
qed

theorem dup_shares_file_witness:
  "\<exists>s'. dup 1 sample_state = Inr (3, s') \<and> fd_to_fds 3 s' = Inr 1 \<and> refcount (fds s' ! 1) = 1"
proof -
  have v: "\<not> fd_invaild 1 sample_state" by (simp add: fd_invaild_def MAX_FDTABLE_def sample_state_facts)
  have "fd_to_fds 1 sample_state = Inr 1" by (simp add: fd_to_fds_def fd_entry_def sample_state_facts)
  then show ?thesis
    using dup_shares_file [OF sample_state_wf v sample_state_facts(1)]
    by (auto simp: sample_state_facts zero_file_def)
qed

text \<open>
  C37: a file freshly opened has no reference counted. When its descriptor is duplicated and
  the copy closed, the slot is given back although the first descriptor still leads to it,
  and the next \<open>open\<close> that finds no lower slot takes it.
\<close>

theorem dup_close_frees_live_slot:
  assumes "fs_wf s" and "\<not> fd_invaild fd s" and "fd_to_fds fd s = Inr k" and "first_free_fd s = Some i"
    and "refcount (fds s ! k) = 0" and "alloc (fds s ! k) = 1" and "f_flags (fds s ! k) AND 8 = 0"
  shows "\<exists>s1 s2. dup fd s = Inr (int i, s1) \<and> close (int i) s1 = Inr (0, s2) \<and>
    \<not> fd_invaild fd s2 \<and> fd_to_fds fd s2 = Inr k \<and> alloc (fds s2 ! k) = 0 \<and>
    ((\<forall>j<k. alloc (fds s ! j) \<noteq> 0) \<longrightarrow> (\<exists>s3. alloc_fds s2 = Inr (k, s3)))"
proof -
  note V = fd_valid [OF assms(1,2)]
  have k: "fds_index (fdt s ! nat fd) = int k" using fd_to_fds_ok [OF assms(3)] by simp
  have i: "i < MAX_FDTABLE" "busy (fdt s ! i) = 0" "\<forall>j<i. busy (fdt s ! j) \<noteq> 0"
    using assms(4) by (auto simp: first_free_fd_def find_upt_Some)
  have l: "i < length (fdt s)" "nat fd \<noteq> i" "length (fds s) = MAX_FILES" "k < MAX_FILES"
    using assms(1) i V k by (auto simp: fs_wf_def fs_sizes)
  obtain s1 where s1: "dup fd s = Inr (int i, s1)"
    "s1 = s\<lparr>fdt := (fdt s)[i := \<lparr>fds_index = int k, busy = 1\<rparr>], fds := (fds s)[k := (fds s ! k)\<lparr>refcount := 1\<rparr>]\<rparr>"
    using V i l assms(2-5) k
    by (simp add: dup_def Let_def fd_to_fds_def fd_entry_def nth_update_if set_fd_def set_file_def)
  have v1: "\<not> fd_invaild (int i) s1" using i l by (simp add: s1(2) fd_invaild_def)
  obtain s2 where s2: "close (int i) s1 = Inr (0, s2)"
    "s2 = s1\<lparr>fdt := (fdt s1)[i := \<lparr>fds_index = int k, busy = 0\<rparr>], fds := (fds s1)[k := (fds s1 ! k)\<lparr>refcount := 0, alloc := 0\<rparr>]\<rparr>"
    using close_gen_valid [OF dup_wf [OF assms(1) s1(1)] v1 refl refl refl, of True] l assms(6,7)
    by (simp add: close_def s1(2) set_fd_def set_file_def)
  have "find (\<lambda>i. alloc (fds s2 ! i) = 0) [0..<MAX_FILES] = Some k" if "\<forall>j<k. alloc (fds s ! j) \<noteq> 0"
    using that l by (auto simp: find_upt_Some s2(2) s1(2) nth_update_if)
  then have al: "(\<forall>j<k. alloc (fds s ! j) \<noteq> 0) \<longrightarrow> (\<exists>s3. alloc_fds s2 = Inr (k, s3))"
    by (simp add: alloc_fds_def)
  have "fdt s2 ! nat fd = fdt s ! nat fd" "length (fdt s2) = length (fdt s)" "length (fds s2) = length (fds s)"
    using l by (simp_all add: s2(2) s1(2))
  then have "\<not> fd_invaild fd s2" "fd_to_fds fd s2 = Inr k"
    using V assms(2) l k by (simp_all add: fd_invaild_def fd_to_fds_def fd_entry_def)
  moreover have "alloc (fds s2 ! k) = 0" using l by (simp add: s2(2) s1(2))
  ultimately show ?thesis using s1(1) s2(1) al by blast
qed

theorem dup_close_frees_live_slot_witness:
  "\<exists>s1 s2. dup 1 sample_state = Inr (3, s1) \<and> close 3 s1 = Inr (0, s2) \<and>
    fd_to_fds 1 s2 = Inr 1 \<and> alloc (fds s2 ! 1) = 0"
proof -
  have v: "\<not> fd_invaild 1 sample_state" by (simp add: fd_invaild_def MAX_FDTABLE_def sample_state_facts)
  have k: "fd_to_fds 1 sample_state = Inr 1" by (simp add: fd_to_fds_def fd_entry_def sample_state_facts)
  show ?thesis
    using dup_close_frees_live_slot [OF sample_state_wf v k sample_state_facts(1)]
    by (auto simp: sample_state_facts zero_file_def)
qed

text \<open>
  An \<open>open\<close> that succeeds followed by a \<open>close\<close> of the descriptor does not give the slot
  back, as no reference was counted for it: the descriptor is free again, and the slot
  stays taken with the count at -1 when it was 0 in the free slot.
\<close>

theorem open_close_leaks_slot:
  assumes "fs_wf s" and "\<forall>k<MAX_FILES. alloc (fds s ! k) = 0 \<longrightarrow> refcount (fds s ! k) = 0"
    and "open_file env path flags s = Inr (fd, s1)" and "0 \<le> fd"
  shows "\<exists>k s2. close fd s1 = Inr (0, s2) \<and> fd_invaild fd s2 \<and> alloc (fds s ! k) = 0 \<and>
    k < MAX_FILES \<and> alloc (fds s2 ! k) = 1 \<and> refcount (fds s2 ! k) = - 1 \<and>
    (\<forall>j. j \<noteq> k \<longrightarrow> fds s2 ! j = fds s ! j)"
proof -
  obtain ret inode m1 where L: "ext2_path_lookup (e_disk env) (e_junk env) (e_junk_inode env) (e2fs env) path
      (e_junk_inode env) (fmm s) = Inr (ret, inode, m1)"
    using assms(3) by (auto simp: open_file_def kres_simps)
  have r: "ret = 0" "first_free_fd s \<noteq> None"
    using assms(3,4) L by (auto simp: open_file_def Let_def first_free_fd_def split: if_splits option.splits)
  then obtain i where i: "first_free_fd s = Some i" by auto
  then have f: "first_free_fd (s\<lparr>fmm := m1\<rparr>) = Some i" by (simp add: first_free_fd_def)
  obtain k where k: "find (\<lambda>i. alloc (fds s ! i) = 0) [0..<MAX_FILES] = Some k"
    using assms(3) L r(1) f by (auto simp: open_file_def Let_def alloc_fds_def split: option.splits)
  obtain a m2 where a: "kmalloc 128 m1 = Inr (a, m2)"
    using assms(3) L r(1) f by (auto simp: open_file_def Let_def alloc_fds_def k kres_simps)
  note O = open_file_ok [OF L [unfolded r(1)] i k a assms(1), of flags]
  have lk: "i < MAX_FDTABLE" "i < length (fdt s)" "k < MAX_FILES" "k < length (fds s)"
    "alloc (fds s ! k) = 0" "refcount (fds s ! k) = 0"
    using assms(1,2) i k by (auto simp: first_free_fd_def find_upt_Some fs_wf_def fs_sizes)
  have s1: "fd = int i" "fdt s1 = (fdt s)[i := \<lparr>fds_index = int k, busy = 1\<rparr>]"
    "fds s1 = (fds s)[k := \<lparr>f_inode = Some (a, inode), f_pos = 0, f_flags = flags, refcount = 0, alloc = 1\<rparr>]"
    using assms(3) O lk by auto
  have v: "\<not> fd_invaild fd s1" using lk by (simp add: fd_invaild_def s1)
  show ?thesis
    using close_gen_valid [OF open_file_wf [OF assms(1,3)] v refl refl refl, of True] lk
    by (auto simp: close_def s1 fd_invaild_def intro!: exI [of _ k])
qed

theorem open_close_leaks_slot_witness:
  "\<exists>fd s1 s2 k. open_file sample_env [47, 97] 0 sample_state = Inr (fd, s1) \<and> close fd s1 = Inr (0, s2) \<and>
    alloc (fds sample_state ! k) = 0 \<and> alloc (fds s2 ! k) = 1"
proof -
  let ?dir = "\<lambda>i. if i_block i = 4 # replicate 14 0 then [sample_entry] else []"
  have "mm_inv (fmm sample_state) [16384, 32768]" using two_page_heap by (simp add: sample_state_facts)
  then obtain m1 where m1: "mm_inv m1 [16384, 32768]" "ext2_path_lookup (e_disk sample_env) (e_junk sample_env)
      (e_junk_inode sample_env) (e2fs sample_env) [47, 97] (e_junk_inode sample_env) (fmm sample_state) =
      Inr (0, inode_at sample_disk sample_fs 2, m1)"
    using ext2_path_lookup_ok [of "e_disk sample_env" "e2fs sample_env" ?dir "fmm sample_state" 16384 "[32768]" "[47, 97]"
        "e_junk sample_env" "e_junk_inode sample_env" "e_junk_inode sample_env"] sample_image sample_mount
    by (auto simp: sample_env_def EXT2_ROOT_INO_def sample_root EXT2_S_IFDIR_def find_dirent_Cons sample_entry_def)
  obtain m2 where m2: "kmalloc 128 m1 = Inr (16384, m2)" using kp.scratch_page [OF m1(1)] by (auto simp: kmalloc_def)
  note O = open_file_ok [OF m1(2) sample_state_facts(1,2) m2 sample_state_wf, of 0]
  have "\<forall>k<MAX_FILES. alloc (fds sample_state ! k) = 0 \<longrightarrow> refcount (fds sample_state ! k) = 0"
    by (auto simp: sample_state_def fs_init_def nth_update_if zero_file_def fs_sizes)
  from open_close_leaks_slot [OF sample_state_wf this O] show ?thesis using O by auto
qed

lemma getstr_loop_reads:
  assumes "ks = map (\<lambda>k. if k = 13 then 10 else k) (keys s)" and "line = takeWhile (\<lambda>k. k \<noteq> 10) ks"
  shows "if n \<le> length line then \<exists>s1. getstr_loop n buf s = Inr (buf @ take n line, 0, False, s1)
    else if length line < length ks then
      \<exists>s1. getstr_loop n buf s = Inr (buf @ line, n - length line, True, s1)
    else getstr_loop n buf s = Inl (Hang ''getstr'')"
  using assms
proof (induction n arbitrary: buf s ks line)
  case 0
  then show ?case by simp
next
  case (Suc n)
  show ?case
  proof (cases "keys s")
    case Nil
    with Suc.prems show ?thesis by simp
  next
    case (Cons k rest)
    define c rest' where d: "c = (if k = 13 then 10 else k)" "rest' = map (\<lambda>k. if k = 13 then 10 else k) rest"
    have ks: "ks = c # rest'" using Suc.prems(1) Cons by (simp add: d)
    show ?thesis
    proof (cases "c = 10")
      case True
      then show ?thesis using Suc.prems(2) ks Cons by (simp add: d)
    next
      case False
      define s1 where s1: "s1 = (if Suc n > 1 then putch c (s\<lparr>keys := rest\<rparr>) else s\<lparr>keys := rest\<rparr>)"
      define line' where l: "line' = takeWhile (\<lambda>k. k \<noteq> 10) rest'"
      have step: "getstr_loop (Suc n) buf s = getstr_loop n (buf @ [c]) s1"
        using False Cons by (simp add: d s1)
      have "rest' = map (\<lambda>k. if k = 13 then 10 else k) (keys s1)" by (simp add: s1 putch_def d)
      from Suc.IH [OF this l, of "buf @ [c]"] show ?thesis
        using False Suc.prems(2) ks l unfolding step by (simp split: if_splits)
    qed
  qed
qed

text \<open>
  C38: \<open>getstr\<close> returns the typed line with its newline when the line is shorter than the request, and otherwise as many of its bytes
  as were asked for, as long as these bytes and a terminator fit into the buffer of 128 bytes: a request of 128 or more that meets a line of 127
  bytes or more makes it write its terminator behind the buffer. It waits for ever only when neither the line nor the request is
  complete. This is a call that no other reader of the console interrupts.
\<close>

theorem getstr_reads_line:
  assumes "ks = map (\<lambda>k. if k = 13 then 10 else k) (keys s)" and "line = takeWhile (\<lambda>k. k \<noteq> 10) ks"
  shows "if min (unat count) 128 \<le> length line then
      (if unat count < 128 then \<exists>s1. getstr count s = Inr (take (unat count) line, s1) else getstr count s = Inl (BadAccess ''getstr_buf''))
    else if length line < length ks then
      (if length line < 127 then \<exists>s1. getstr count s = Inr (line @ [10], s1) else getstr count s = Inl (BadAccess ''getstr_buf''))
    else getstr count s = Inl (Hang ''getstr'')"
  using getstr_loop_reads [OF assms, of "min (unat count) 128" "[]"]
  by (auto simp: getstr_def min_def Let_def split: if_splits)

theorem getstr_reads_line_witness:
  "(\<exists>s1. getstr 100 \<lparr>keys = [104, 105, 13, 33], sent = []\<rparr> = Inr ([104, 105, 10], s1)) \<and>
    getstr 200 \<lparr>keys = replicate 130 65, sent = []\<rparr> = Inl (BadAccess ''getstr_buf'')"
  using getstr_reads_line [OF refl refl, of 100 "\<lparr>keys = [104, 105, 13, 33], sent = []\<rparr>"]
    getstr_reads_line [OF refl refl, of 200 "\<lparr>keys = replicate 130 65, sent = []\<rparr>"]
  by simp

end
