(* ===== verification/Stdio.thy ===== *)
theory Stdio
  imports Fs
begin

text \<open>
  Formatted output: lolibc/stdio.c. Strings are byte lists without their terminator; the
  arguments of a call are a list of words and strings. \<open>buf\<close> of \<open>vsprintf\<close> and of \<open>printf\<close> has 512
  bytes, and a text that does not fit is an access outside it. The theory shows that the
  reversal in \<open>_uitoa\<close> gives the digits in their order, and that \<open>_uatoi\<close> reads back what \<open>_uitoa\<close> writes.
\<close>

section \<open>Definitions\<close>

definition itoa_table :: bytes where
  "itoa_table = [48, 49, 50, 51, 52, 53, 54, 55, 56, 57, 65, 66, 67, 68, 69, 70]"

definition to_upper :: "u8 \<Rightarrow> u8" where
  "to_upper c = (if 97 \<le> c \<and> c \<le> 122 then c - 97 + 65 else c)"

text \<open>\<open>get_itoa_table_index\<close>, with \<open>None\<close> for -1.\<close>

definition get_itoa_table_index :: "u8 \<Rightarrow> nat \<Rightarrow> nat option" where
  "get_itoa_table_index ch len = find (\<lambda>i. ch = itoa_table ! i) [0..<min len 16]"

text \<open>The first loop of \<open>_uitoa\<close> stores the lowest digit first.\<close>

function uitoa_digits :: "nat \<Rightarrow> nat \<Rightarrow> bytes" where
  "uitoa_digits radix value =
     (if value = 0 \<or> radix \<le> 1 then [] else itoa_table ! (value mod radix) # uitoa_digits radix (value div radix))"
  by pat_completeness auto

termination uitoa_digits
  by (relation "measure (\<lambda>(r, v). v)") auto

declare uitoa_digits.simps [simp del]

text \<open>The second loop exchanges the ends, with \<open>pre\<close> and \<open>last\<close> as indices.\<close>

function swap_ends :: "nat \<Rightarrow> nat \<Rightarrow> bytes \<Rightarrow> bytes" where
  "swap_ends pre lst s =
     (if pre < lst then swap_ends (Suc pre) (lst - 1) (s[pre := s ! lst, lst := s ! pre]) else s)"
  by pat_completeness auto

termination swap_ends
  by (relation "measure (\<lambda>(p, l, s). l - p)") auto

declare swap_ends.simps [simp del]

text \<open>The string and the number of bytes written with the terminator.\<close>

definition uitoa :: "u64 \<Rightarrow> nat \<Rightarrow> (bytes \<times> nat) kres" where
  "uitoa value radix =
     (if radix \<noteq> 10 \<and> radix \<noteq> 16 then Inl (Panic ''this radix not support'')
      else if value = 0 then Inr ([48], 2)
      else let ds = uitoa_digits radix (unat value); s = swap_ends 0 (length ds - 1) ds in Inr (s, length s + 1))"

text \<open>Negating the least value has no meaning in C.\<close>

definition itoa :: "u64 \<Rightarrow> nat \<Rightarrow> (bytes \<times> nat) kres" where
  "itoa value radix =
     (if radix \<noteq> 10 then Inl (Panic ''this radix not support'')
      else if sint value < 0 then
        if sint value = - (2 ^ 63) then Inl (BadAccess ''int overflow'')
        else kbind (uitoa (- value) radix) (\<lambda>(s, n). Inr (45 # s, n + 1))
      else uitoa value radix)"

text \<open>The value read, and how many characters were.\<close>

fun uatoi_loop :: "nat \<Rightarrow> bytes \<Rightarrow> u64 \<Rightarrow> nat \<Rightarrow> u64 \<times> nat" where
  "uatoi_loop radix [] value n = (value, n)"
| "uatoi_loop radix (c # cs) value n =
     (case get_itoa_table_index (to_upper c) radix of
        Some b \<Rightarrow> uatoi_loop radix cs (value * of_nat radix + of_nat b) (Suc n)
      | None \<Rightarrow> (value, n))"

definition uatoi :: "bytes \<Rightarrow> nat \<Rightarrow> (u64 \<times> nat) kres" where
  "uatoi s radix =
     (if radix \<noteq> 10 \<and> radix \<noteq> 16 then Inl (Panic ''this radix not support'') else Inr (uatoi_loop radix s 0 0))"

datatype fmt_flag = FLAG_NOP | FLAG_ZERO | FLAG_LEFT

definition get_fmt_flag :: "bytes \<Rightarrow> (nat \<times> fmt_flag) kres" where
  "get_fmt_flag fmt =
     (case fmt of [] \<Rightarrow> Inr (0, FLAG_NOP)
      | c # _ \<Rightarrow>
          if c = 43 \<or> c = 32 \<or> c = 35 then Inl (Panic ''format flag not implemented'')
          else if c = 48 then Inr (1, FLAG_ZERO)
          else if c = 45 then Inr (1, FLAG_LEFT)
          else Inr (0, FLAG_NOP))"

text \<open>The field that \<open>copy_fmt_str\<close> writes; \<open>num\<close> is an \<open>int\<close>.\<close>

definition copy_fmt_str :: "bytes \<Rightarrow> fmt_flag \<Rightarrow> int \<Rightarrow> bytes" where
  "copy_fmt_str buf flag num =
     (let remain = nat (max (int (length buf)) num - int (length buf)) in
      case flag of
        FLAG_NOP \<Rightarrow> replicate remain 32 @ buf
      | FLAG_ZERO \<Rightarrow> replicate remain 48 @ buf
      | FLAG_LEFT \<Rightarrow> buf @ replicate remain 32)"

datatype vararg = Word u64 | Str "bytes option"

definition fits_buf :: "bytes \<Rightarrow> bytes kres" where
  "fits_buf s = (if length s < 512 then Inr s else Inl (BadAccess ''buf''))"

text \<open>
  The conversions: what goes in front of the field, the text in \<open>buf\<close>, and the arguments that are left. \<open>c\<close> is the
  character that \<open>vsprintf\<close> has in its variable of that name, which is the percent sign.
\<close>

definition convert :: "u8 \<Rightarrow> bytes \<Rightarrow> vararg list \<Rightarrow> (bytes \<times> bytes \<times> vararg list) kres" where
  "convert c fmt ap =
     (case fmt of
        [] \<Rightarrow> Inl (Panic ''vsprintf: unknown format character'')
      | f # _ \<Rightarrow>
          if f = 99 then
            (case ap of Word w # ap' \<Rightarrow> Inr ([], if (ucast w :: u8) = 0 then [] else [ucast w], ap')
             | _ \<Rightarrow> Inl (BadAccess ''va_arg''))
          else if f = 115 then
            (case ap of Str (Some s) # ap' \<Rightarrow> kbind (fits_buf s) (\<lambda>s. Inr ([], s, ap'))
             | Str None # ap' \<Rightarrow> Inr ([], [40, 110, 117, 108, 108, 41], ap')
             | _ \<Rightarrow> Inl (BadAccess ''va_arg''))
          else if f = 100 then
            (case ap of Word w # ap' \<Rightarrow> kbind (itoa w 10) (\<lambda>(s, n). Inr ([], s, ap'))
             | _ \<Rightarrow> Inl (BadAccess ''va_arg''))
          else if f = 112 \<or> f = 117 \<or> f = 120 then
            (case ap of Word w # ap' \<Rightarrow>
               kbind (uitoa w (if c = 117 then 10 else 16)) (\<lambda>(s, n). Inr (if f = 112 then [48, 120] else [], s, ap'))
             | _ \<Rightarrow> Inl (BadAccess ''va_arg''))
          else Inl (Panic ''vsprintf: unknown format character''))"

text \<open>The text written; \<open>vsprintf\<close> returns its length with the terminator.\<close>

function vsprintf :: "bytes \<Rightarrow> vararg list \<Rightarrow> bytes kres" where
  "vsprintf [] ap = Inr []"
| "vsprintf (c # fmt) ap =
     (if c = 37 then
        kbind (get_fmt_flag fmt) (\<lambda>(n, flag).
          let fmt1 = drop n fmt; (width, m) = uatoi_loop 10 fmt1 0 0; fmt2 = drop m fmt1 in
          kbind (convert c fmt2 ap) (\<lambda>(pre, buf, ap').
            kbind (vsprintf (drop 1 fmt2) ap') (\<lambda>rest.
              Inr (pre @ copy_fmt_str buf flag (sint (ucast width :: i32)) @ rest))))
      else kbind (vsprintf fmt ap) (\<lambda>rest. Inr (c # rest)))"
  by pat_completeness auto

termination vsprintf
  by (relation "measure (\<lambda>(f, ap). length f)") auto

definition sprintf :: "bytes \<Rightarrow> vararg list \<Rightarrow> (bytes \<times> nat) kres" where
  "sprintf fmt ap = kbind (vsprintf fmt ap) (\<lambda>s. Inr (s, length s + 1))"

text \<open>The text goes to the console.\<close>

definition printf :: "bytes \<Rightarrow> vararg list \<Rightarrow> console \<Rightarrow> (nat \<times> console) kres" where
  "printf fmt ap co =
     kbind (vsprintf fmt ap) (\<lambda>s.
       kbind (fits_buf s) (\<lambda>s. Inr (length s + 1, putstr s co)))"

section \<open>Numbers\<close>

lemma swap_ends_spec:
  "p + l = q \<Longrightarrow> p \<le> Suc l \<Longrightarrow> l < length s \<Longrightarrow>
     length (swap_ends p l s) = length s \<and>
     (\<forall>i<length s. swap_ends p l s ! i = (if p \<le> i \<and> i \<le> l then s ! (q - i) else s ! i))"
proof (induction p l s rule: swap_ends.induct)
  case (1 p l s)
  let ?s = "s[p := s ! l, l := s ! p]"
  show ?case
  proof (cases "p < l")
    case True
    have IH: "length (swap_ends (Suc p) (l - 1) ?s) = length ?s \<and>
        (\<forall>i<length ?s. swap_ends (Suc p) (l - 1) ?s ! i = (if Suc p \<le> i \<and> i \<le> l - 1 then ?s ! (q - i) else ?s ! i))"
      using True "1.prems" by (intro "1.IH") auto
    have e: "swap_ends p l s = swap_ends (Suc p) (l - 1) ?s" using True by (subst swap_ends.simps) simp
    show ?thesis
    proof (intro conjI allI impI)
      show "length (swap_ends p l s) = length s" using IH e by simp
      fix i assume i: "i < length s"
      then have "swap_ends p l s ! i = (if Suc p \<le> i \<and> i \<le> l - 1 then ?s ! (q - i) else ?s ! i)" using IH e by simp
      then show "swap_ends p l s ! i = (if p \<le> i \<and> i \<le> l then s ! (q - i) else s ! i)"
        using True i "1.prems" by (auto simp: nth_list_update)
    qed
  next
    case False
    then have "swap_ends p l s = s" by (subst swap_ends.simps) simp
    moreover have "i = p" "q - i = i" if "p \<le> i" "i \<le> l" for i using that False "1.prems"(1) by simp_all
    ultimately show ?thesis by simp
  qed
qed

lemma swap_ends_rev: "s \<noteq> [] \<Longrightarrow> swap_ends 0 (length s - Suc 0) s = rev s"
  using swap_ends_spec [of 0 "length s - 1" "length s - 1" s] by (intro nth_equalityI) (auto simp: rev_nth)

lemma table_index:
  assumes "d < radix" "radix = 10 \<or> radix = 16"
  shows "get_itoa_table_index (to_upper (itoa_table ! d)) radix = Some d"
proof -
  have "\<forall>i\<in>set [0..<10]. get_itoa_table_index (to_upper (itoa_table ! i)) 10 = Some i"
    "\<forall>i\<in>set [0..<16]. get_itoa_table_index (to_upper (itoa_table ! i)) 16 = Some i"
    by (simp_all add: get_itoa_table_index_def itoa_table_def to_upper_def upt_rec del: set_upt)
  then show ?thesis using assms by (elim disjE) simp_all
qed

lemma uatoi_loop_digits:
  assumes "radix = 10 \<or> radix = 16"
  shows "uatoi_loop radix (rev (uitoa_digits radix v) @ cs) acc n =
    uatoi_loop radix cs (acc * of_nat radix ^ length (uitoa_digits radix v) + of_nat v) (n + length (uitoa_digits radix v))"
proof (induction v arbitrary: cs acc n rule: less_induct)
  case (less v)
  show ?case
  proof (cases "v = 0")
    case True
    then show ?thesis by (simp add: uitoa_digits.simps)
  next
    case False
    let ?ds = "uitoa_digits radix (v div radix)"
    have r: "1 < radix" using assms by auto
    have d: "uitoa_digits radix v = itoa_table ! (v mod radix) # ?ds" using False r by (subst uitoa_digits.simps) simp
    have "v div radix < v" using False r by simp
    note IH = less [OF this, of "itoa_table ! (v mod radix) # cs" acc n]
    have t: "get_itoa_table_index (to_upper (itoa_table ! (v mod radix))) radix = Some (v mod radix)"
      by (rule table_index [OF _ assms]) (use r in simp)
    have "of_nat (v div radix) * of_nat radix + of_nat (v mod radix) = (of_nat v :: u64)"
      by (metis div_mult_mod_eq of_nat_add of_nat_mult)
    then have "(acc * of_nat radix ^ length ?ds + of_nat (v div radix)) * of_nat radix + of_nat (v mod radix) =
        acc * of_nat radix ^ Suc (length ?ds) + of_nat v"
      by (simp add: algebra_simps)
    then show ?thesis using IH t by (simp add: d)
  qed
qed

lemma uitoa_digits_eq:
  assumes "radix = 10 \<or> radix = 16"
  shows "uitoa v radix = Inr (if v = 0 then ([48], 2) else (rev (uitoa_digits radix (unat v)), length (uitoa_digits radix (unat v)) + 1))"
proof (cases "v = 0")
  case True
  then show ?thesis using assms by (auto simp: uitoa_def)
next
  case False
  then have "uitoa_digits radix (unat v) \<noteq> []"
    using assms by (subst uitoa_digits.simps) (auto simp: unat_eq_0)
  then show ?thesis using assms False by (auto simp: uitoa_def Let_def swap_ends_rev)
qed

section \<open>Properties\<close>

text \<open>
  C30: \<open>_uatoi\<close> reads back what \<open>_uitoa\<close> writes, in decimal and in hexadecimal, for every 64-bit value: it gives the value
  and uses up all characters, and \<open>_uitoa\<close> returns the length of its string with the terminator.
\<close>

theorem uitoa_uatoi_roundtrip:
  assumes "radix = 10 \<or> radix = 16"
  shows "\<exists>s. uitoa v radix = Inr (s, length s + 1) \<and> uatoi s radix = Inr (v, length s)"
proof (cases "v = 0")
  case True
  have "get_itoa_table_index (to_upper 48) radix = Some 0"
    using table_index [of 0 radix] assms by (auto simp: itoa_table_def)
  then show ?thesis using True assms by (auto simp: uitoa_def uatoi_def)
next
  case False
  then show ?thesis
    using assms uatoi_loop_digits [OF assms, of "unat v" "[]" 0 0] by (auto simp: uitoa_digits_eq uatoi_def)
qed

theorem uitoa_uatoi_roundtrip_witness:
  "\<exists>s. uitoa 48879 16 = Inr (s, length s + 1) \<and> uatoi s 16 = Inr (48879, length s)"
  using uitoa_uatoi_roundtrip [of 16 48879] by simp

text \<open>
  \<open>%u\<close> does not print decimal: the test for it looks at the percent sign, so that \<open>%u\<close> prints the same as \<open>%x\<close>.
\<close>

theorem percent_u_prints_hex:
  "vsprintf [37, 117] [Word w] = vsprintf [37, 120] [Word w] \<and> vsprintf [37, 117] [Word 255] = Inr [70, 70]"
proof -
  have i: "get_itoa_table_index (to_upper c) 10 = None" if "c = 117 \<or> c = 120" for c
    using that by (auto simp: get_itoa_table_index_def itoa_table_def to_upper_def upt_rec)
  have e: "vsprintf [37, c] [Word w] = kbind (uitoa w 16) (\<lambda>(s, n). Inr (copy_fmt_str s FLAG_NOP 0))" if "c = 117 \<or> c = 120" for c w
  proof -
    have "get_fmt_flag [c] = Inr (0, FLAG_NOP)" using that by (auto simp: get_fmt_flag_def)
    moreover have "convert 37 [c] [Word w] = kbind (uitoa w 16) (\<lambda>(s, n). Inr ([], s, []))" using that by (auto simp: convert_def)
    ultimately show ?thesis using i [OF that] by (cases "uitoa w 16") auto
  qed
  have "uitoa_digits 16 15 = [70]" by (subst uitoa_digits.simps, subst uitoa_digits.simps) (simp add: itoa_table_def)
  then have "uitoa_digits 16 255 = [70, 70]" by (subst uitoa_digits.simps) (simp add: itoa_table_def)
  then have "uitoa 255 16 = Inr ([70, 70], 3)" by (simp add: uitoa_digits_eq)
  then show ?thesis using e [of 117] e [of 120] by (simp add: copy_fmt_str_def)
qed

end
