(* ===== verification/Ahci.thy ===== *)
theory Ahci
  imports CMem
begin

text \<open>
  The disk driver: driver/ahci.c with driver/include/ahci.h, and the bit helpers of lolibc/bits.h. The registers of the
  controller are volatile; the model is given the values that successive reads of them return. The command that the driver
  builds in memory is a record with the fields of the command header, the table of data regions and the
  frame that goes to the drive. What the drive does with a command is not part of the model. The theory shows which
  slot the driver takes and that the command describes the transfer that was asked for.
\<close>

section \<open>Definitions\<close>

definition get_bit :: "u64 \<Rightarrow> nat \<Rightarrow> bool" where
  "get_bit x l \<longleftrightarrow> drop_bit l x AND 1 \<noteq> 0"

text \<open>\<open>1u << l\<close> is a 32-bit word.\<close>

definition set_bit :: "u64 \<Rightarrow> nat \<Rightarrow> bool \<Rightarrow> u64" where
  "set_bit x l status =
     (let b = push_bit l 1 :: u32 in if status then x OR ucast b else x AND ucast (NOT b))"

definition get_bits_range :: "u64 \<Rightarrow> nat \<Rightarrow> nat \<Rightarrow> u64" where
  "get_bits_range x s len = drop_bit s x AND (push_bit len 1 - 1)"

subsection \<open>Ports and slots\<close>

definition HBA_PORT_IPM_ACTIVE :: u32 where "HBA_PORT_IPM_ACTIVE = 1"
definition HBA_PORT_DET_PRESENT :: u32 where "HBA_PORT_DET_PRESENT = 3"

text \<open>\<open>ahic_probe_port\<close> on the register \<open>pi\<close> and the status of the 32 ports: the second drive found, or -1.\<close>

definition drive_at :: "u32 \<Rightarrow> bool" where
  "drive_at ssts \<longleftrightarrow> ssts AND 0x0F = HBA_PORT_DET_PRESENT \<and> drop_bit 8 ssts AND 0x0F = HBA_PORT_IPM_ACTIVE"

fun probe_loop :: "u32 \<Rightarrow> u32 list \<Rightarrow> nat \<Rightarrow> nat \<Rightarrow> int \<Rightarrow> int" where
  "probe_loop pi [] i port_num port_no = port_no"
| "probe_loop pi (ssts # ports) i port_num port_no =
     (if pi AND 1 = 0 \<or> \<not> drive_at ssts then probe_loop pi ports (Suc i) port_num port_no
      else probe_loop pi ports (Suc i) (Suc port_num) (if Suc port_num = 2 then int i else port_no))"

definition ahic_probe_port :: "u32 \<Rightarrow> u32 list \<Rightarrow> int" where
  "ahic_probe_port pi ports = probe_loop pi (take 32 ports) 0 0 (- 1)"

text \<open>What the driver reads from the controller and the port: \<open>tfd\<close>, \<open>ci_after\<close> and \<open>p_is\<close> at each poll.\<close>

record hba =
  cap :: u32
  sact :: u32
  ci :: u32
  tfd :: "nat \<Rightarrow> u32"
  ci_after :: "nat \<Rightarrow> u32"
  p_is :: "nat \<Rightarrow> u32"

primrec cmdslot_loop :: "nat \<Rightarrow> nat \<Rightarrow> u32 \<Rightarrow> nat option" where
  "cmdslot_loop 0 i slots = None"
| "cmdslot_loop (Suc n) i slots = (if slots AND 1 = 0 then Some i else cmdslot_loop n (Suc i) (drop_bit 1 slots))"

definition find_cmdslot :: "hba \<Rightarrow> nat option" where
  "find_cmdslot h = cmdslot_loop (unat (get_bits_range (ucast (cap h)) 8 4)) 0 (sact h OR ci h)"

subsection \<open>Commands\<close>

record prdt_entry =
  dba :: u32
  dbau :: u32
  dbc :: "22 word"
  ioc :: bool

record fis_reg_h2d =
  fis_type :: u8
  f_c :: bool
  command :: u8
  lba0 :: u8
  lba1 :: u8
  lba2 :: u8
  device :: u8
  lba3 :: u8
  lba4 :: u8
  lba5 :: u8
  countl :: u8
  counth :: u8

record hba_cmd =
  cfl :: "5 word"
  w :: bool
  prdtl :: u16
  prdt :: "prdt_entry list"
  cfis :: fis_reg_h2d

definition ATA_CMD_READ_DMA_EXT :: u8 where "ATA_CMD_READ_DMA_EXT = 0x25"
definition ATA_CMD_WRITE_DMA_EXT :: u8 where "ATA_CMD_WRITE_DMA_EXT = 0x35"
definition FIS_TYPE_REG_H2D :: u8 where "FIS_TYPE_REG_H2D = 0x27"

text \<open>The entries of 8K bytes before the last one, and what is left.\<close>

primrec prdt_loop :: "nat \<Rightarrow> u64 \<Rightarrow> u32 \<Rightarrow> prdt_entry list \<times> u64 \<times> u32" where
  "prdt_loop 0 buf count = ([], buf, count)"
| "prdt_loop (Suc n) buf count =
     (case prdt_loop n (buf + 0x1000) (count - 16) of (es, buf', count') \<Rightarrow>
        (\<lparr>dba = ucast buf, dbau = ucast (drop_bit 32 buf), dbc = 8 * 1024 - 1, ioc = True\<rparr> # es, buf', count'))"

definition build_cmd :: "u8 \<Rightarrow> u64 \<Rightarrow> u32 \<Rightarrow> u64 \<Rightarrow> hba_cmd" where
  "build_cmd cmd start count buf =
     (let n = (ucast (drop_bit 4 (count - 1)) :: u16) + 1;
          (es, buf', count') = prdt_loop (unat n - 1) buf count;
          startl = ucast start :: u32; starth = ucast (drop_bit 32 start) :: u32 in
      \<lparr>cfl = 5, w = False, prdtl = n,
       prdt = es @ [\<lparr>dba = ucast buf', dbau = 0, dbc = ucast (push_bit 9 count' - 1), ioc = True\<rparr>],
       cfis = \<lparr>fis_type = FIS_TYPE_REG_H2D, f_c = True, command = cmd,
         lba0 = ucast startl, lba1 = ucast (drop_bit 8 startl), lba2 = ucast (drop_bit 16 startl), device = push_bit 6 1,
         lba3 = ucast (drop_bit 24 startl), lba4 = ucast starth, lba5 = ucast (drop_bit 8 starth),
         countl = ucast (count' AND 0xFF), counth = ucast (drop_bit 8 count' AND 0xFF)\<rparr>\<rparr>)"

subsection \<open>Issuing a command\<close>

definition ATA_DEV_BUSY :: u32 where "ATA_DEV_BUSY = 0x80"
definition ATA_DEV_DRQ :: u32 where "ATA_DEV_DRQ = 0x08"
definition HBA_PxIS_TFES :: u32 where "HBA_PxIS_TFES = push_bit 30 1"

function ready_loop :: "(nat \<Rightarrow> u32) \<Rightarrow> nat \<Rightarrow> nat" where
  "ready_loop status spin =
     (if status spin AND (ATA_DEV_BUSY OR ATA_DEV_DRQ) \<noteq> 0 \<and> spin < 1000000 then ready_loop status (Suc spin) else spin)"
  by pat_completeness auto

termination ready_loop
  by (relation "measure (\<lambda>(t, s). 1000000 - s)") auto

declare ready_loop.simps [simp del]

text \<open>Waiting for completion has no end of its own; the result says whether the slot was released, and at which poll.\<close>

partial_function (option) complete_loop :: "hba \<Rightarrow> nat \<Rightarrow> nat \<Rightarrow> (bool \<times> nat) option" where
  "complete_loop h slot n =
     (if ci_after h n AND push_bit slot 1 = 0 then Some (True, n)
      else if p_is h n AND HBA_PxIS_TFES \<noteq> 0 then Some (False, n)
      else complete_loop h slot (Suc n))"

text \<open>The result of a transfer with the slot and the command that were issued, if any.\<close>

definition do_ahci :: "u8 \<Rightarrow> hba \<Rightarrow> u64 \<Rightarrow> u32 \<Rightarrow> u64 \<Rightarrow> (int \<times> (nat \<times> hba_cmd) option) option" where
  "do_ahci cmd h start count buf =
     (case find_cmdslot h of
        None \<Rightarrow> Some (- 1, None)
      | Some slot \<Rightarrow>
          let c = build_cmd cmd start count buf in
          if ready_loop (tfd h) 0 = 1000000 then Some (- 1, None)
          else case complete_loop h slot 0 of
            None \<Rightarrow> None
          | Some (released, n) \<Rightarrow>
              Some (if \<not> released \<or> p_is h (Suc n) AND HBA_PxIS_TFES \<noteq> 0 then - 1 else 0, Some (slot, c)))"

definition do_ahci_read :: "hba \<Rightarrow> u64 \<Rightarrow> u32 \<Rightarrow> u64 \<Rightarrow> (int \<times> (nat \<times> hba_cmd) option) option" where
  "do_ahci_read = do_ahci ATA_CMD_READ_DMA_EXT"

definition do_ahci_write :: "hba \<Rightarrow> u64 \<Rightarrow> u32 \<Rightarrow> u64 \<Rightarrow> (int \<times> (nat \<times> hba_cmd) option) option" where
  "do_ahci_write = do_ahci ATA_CMD_WRITE_DMA_EXT"

text \<open>
  \<open>ahci_read\<close> and \<open>ahci_write\<close> go through \<open>ahci_buf\<close>, which has 8192 bytes. \<open>drive\<close> is what the controller does to
  memory when it carries out a command.
\<close>

definition ahci_read :: "u64 \<Rightarrow> hba \<Rightarrow> (hba_cmd \<Rightarrow> mem \<Rightarrow> mem) \<Rightarrow> u64 \<Rightarrow> u32 \<Rightarrow> u64 \<Rightarrow> mem \<Rightarrow> (int \<times> mem) kres option" where
  "ahci_read ahci_buf h drive start count buf m =
     map_option (\<lambda>(ret, c).
       if unat (count * 512) > 8192 then Inl (BadAccess ''ahci_buf'')
       else let m1 = (case c of None \<Rightarrow> m | Some (slot, cmd) \<Rightarrow> drive cmd m) in
         Inr (ret, write_bytes m1 buf (read_bytes m1 ahci_buf (unat (count * 512)))))
       (do_ahci_read h start count ahci_buf)"

definition ahci_write :: "u64 \<Rightarrow> hba \<Rightarrow> (hba_cmd \<Rightarrow> mem \<Rightarrow> mem) \<Rightarrow> u64 \<Rightarrow> u32 \<Rightarrow> u64 \<Rightarrow> mem \<Rightarrow> (int \<times> mem) kres option" where
  "ahci_write ahci_buf h drive start count buf m =
     (if unat (count * 512) > 8192 then Some (Inl (BadAccess ''ahci_buf''))
      else let m1 = write_bytes m ahci_buf (read_bytes m buf (unat (count * 512))) in
        map_option (\<lambda>(ret, c). Inr (ret, case c of None \<Rightarrow> m1 | Some (slot, cmd) \<Rightarrow> drive cmd m1))
          (do_ahci_write h start count ahci_buf))"

section \<open>Slots and commands\<close>

lemma find_Suc: "find P (map Suc xs) = map_option Suc (find (\<lambda>j. P (Suc j)) xs)"
  by (induction xs) auto

lemma map_plus_0: "map_option ((+) 0) x = (x :: nat option)"
  by (cases x) simp_all

lemma cmdslot_loop_eq: "cmdslot_loop n i slots = map_option ((+) i) (find (\<lambda>j. \<not> bit slots j) [0..<n])"
proof (induction n arbitrary: i slots)
  case (Suc n)
  have b: "bit (drop_bit (Suc 0) slots) j = bit slots (Suc j)" for j by (simp add: bit_simps)
  have "[0..<Suc n] = 0 # map Suc [0..<n]" by (rule upt_Suc_conv)
  then have f: "find (\<lambda>j. \<not> bit slots j) [0..<Suc n] =
      (if bit slots 0 then map_option Suc (find (\<lambda>j. \<not> bit slots (Suc j)) [0..<n]) else Some 0)"
    by (simp add: find_Suc del: upt_Suc)
  have z: "slots AND 1 = 0 \<longleftrightarrow> \<not> bit slots 0"
    by (simp add: and_one_eq bit_0 mod_2_eq_odd)
  show ?case
    using Suc.IH [of "Suc i" "drop_bit 1 slots"] by (simp add: f z b option.map_comp o_def del: upt_Suc)
qed simp

lemma unat_drop: "unat (drop_bit k x) = unat x div 2 ^ k" for x :: u64
proof -
  have "take_bit 64 (unat x) = unat x" by (simp add: take_bit_nat_eq_self)
  then show ?thesis using drop_bit_eq_div [of k "unat x"] by (simp add: unsigned_drop_bit_eq del: drop_bit_eq_div)
qed

lemma byte_of_drop: "ucast (drop_bit k x) = (of_nat (unat x div 2 ^ k) :: u8)" for x :: u64
  by (metis of_nat_unat unat_drop)

lemma startl_byte:
  fixes x :: u64
  assumes "k \<le> 24"
  shows "(ucast (drop_bit k (ucast x :: u32)) :: u8) = of_nat (unat x div 2 ^ k)"
proof -
  have "(ucast (drop_bit k (ucast x :: u32)) :: u8) = ucast (drop_bit k x)"
    using assms by (intro bit_word_eqI) (auto simp: bit_simps)
  then show ?thesis by (simp add: byte_of_drop)
qed

lemma starth_byte:
  fixes x :: u64
  assumes "k \<le> 24"
  shows "(ucast (drop_bit k (ucast (drop_bit 32 x) :: u32)) :: u8) = of_nat (unat x div 2 ^ (32 + k))"
  using startl_byte [OF assms, of "drop_bit 32 x"] unfolding unat_drop by (simp only: power_add div_mult2_eq)

lemma lba_bytes:
  "le_nat [ucast (ucast x :: u32), ucast (drop_bit 8 (ucast x :: u32)), ucast (drop_bit 16 (ucast x :: u32)),
     ucast (drop_bit 24 (ucast x :: u32)), ucast (ucast (drop_bit 32 x) :: u32), ucast (drop_bit 8 (ucast (drop_bit 32 x) :: u32))] =
   unat x mod 2 ^ 48" for x :: u64
proof -
  have "[ucast (ucast x :: u32), ucast (drop_bit 8 (ucast x :: u32)), ucast (drop_bit 16 (ucast x :: u32)),
     ucast (drop_bit 24 (ucast x :: u32)), ucast (ucast (drop_bit 32 x) :: u32), ucast (drop_bit 8 (ucast (drop_bit 32 x) :: u32))] =
     le_bytes 6 (unat x)"
    using startl_byte [of 0 x] startl_byte [of 8 x] startl_byte [of 16 x] startl_byte [of 24 x] starth_byte [of 0 x] starth_byte [of 8 x]
    by (simp add: le_bytes_numeral div_mult2_eq [symmetric])
  then show ?thesis by (simp only: le_nat_le_bytes) simp
qed

text \<open>Up to 16 sectors make a command with one data region.\<close>

lemma build_cmd_describes:
  assumes "1 \<le> unat count" and "unat count \<le> 16"
  shows "\<exists>e. prdt (build_cmd cmd start count buf) = [e] \<and> prdtl (build_cmd cmd start count buf) = 1 \<and>
    dba e = ucast buf \<and> dbau e = 0 \<and> unat (dbc e) + 1 = unat count * 512 \<and>
    (let f = cfis (build_cmd cmd start count buf) in
      le_nat [lba0 f, lba1 f, lba2 f, lba3 f, lba4 f, lba5 f] = unat start mod 2 ^ 48 \<and>
      le_nat [countl f, counth f] = unat count \<and> command f = cmd)"
proof -
  define n where "n = unat count"
  have c: "count = of_nat n" by (simp add: n_def)
  have n: "n \<in> set [1..<17]" using assms by (simp add: n_def)
  have "\<forall>i\<in>set [1..<17]. drop_bit 4 (of_nat i - 1 :: u32) = 0 \<and>
      unat (ucast (push_bit 9 (of_nat i :: u32) - 1) :: 22 word) + 1 = i * 512 \<and>
      unat (ucast ((of_nat i :: u32) AND 0xFF) :: u8) + 256 * unat (ucast (drop_bit 8 (of_nat i :: u32) AND 0xFF) :: u8) = i"
    by (simp add: upt_rec del: set_upt)
  then have d: "drop_bit 4 (count - 1) = 0" "unat (ucast (push_bit 9 count - 1) :: 22 word) + 1 = n * 512"
    "unat (ucast (count AND 0xFF) :: u8) + 256 * unat (ucast (drop_bit 8 count AND 0xFF) :: u8) = n"
    using n unfolding c by blast+
  show ?thesis
    using d lba_bytes [of start] by (simp add: build_cmd_def Let_def n_def)
qed

lemma find_cmdslot_eq: "find_cmdslot h = find (\<lambda>j. \<not> bit (sact h OR ci h) j) [0..<unat (get_bits_range (ucast (cap h)) 8 4)]"
  by (simp add: find_cmdslot_def cmdslot_loop_eq map_plus_0)

section \<open>Properties\<close>

text \<open>
  C32: for up to 16 sectors the command that the driver builds describes the transfer: one data region that starts at the buffer (its lower 32 bits) and is
  512 bytes per sector long, the first sector as a number of 48 bits, and the number of sectors. The slot for it is the
  lowest one that is neither active nor issued.
\<close>

theorem ahci_command_describes_transfer:
  assumes "1 \<le> unat count" and "unat count \<le> 16"
  shows "\<exists>e. prdt (build_cmd cmd start count buf) = [e] \<and> prdtl (build_cmd cmd start count buf) = 1 \<and>
    dba e = ucast buf \<and> dbau e = 0 \<and> unat (dbc e) + 1 = unat count * 512 \<and>
    (let f = cfis (build_cmd cmd start count buf) in
      le_nat [lba0 f, lba1 f, lba2 f, lba3 f, lba4 f, lba5 f] = unat start mod 2 ^ 48 \<and>
      le_nat [countl f, counth f] = unat count \<and> command f = cmd) \<and>
    find_cmdslot h = find (\<lambda>j. \<not> bit (sact h OR ci h) j) [0..<unat (get_bits_range (ucast (cap h)) 8 4)]"
  using build_cmd_describes [OF assms] find_cmdslot_eq by blast

theorem ahci_command_describes_transfer_witness:
  "le_nat [countl (cfis (build_cmd 37 12345 8 0)), counth (cfis (build_cmd 37 12345 8 0))] = 8"
  using ahci_command_describes_transfer [of 8 37 12345 0] by (auto simp: Let_def)

end
