(* ===== verification/Structs.thy ===== *)
theory Structs
  imports Ahci
begin

text \<open>
  The containers of lolibc/struct: the bitmap of bitmap.c and the small table of map.c. A bitmap is the list of its bytes;
  its functions are modelled for a build with assertions and for one without. The
  theory shows that a bit that is set reads back and leaves the others alone, that an allocation takes the first run of free entries that is long
  enough and freeing it restores the bitmap, when the scan runs over the end instead, and that the table finds the first value added under a key.
\<close>

section \<open>Definitions\<close>

text \<open>
  An entry is named by an \<open>int\<close>. The callers pass numbers of type \<open>size_t\<close>, which \<open>c_int\<close> cuts to 32 bits; in
  \<open>index < map_max\<close> a negative \<open>int\<close> counts as a large unsigned number. \<open>debug\<close> tells whether \<open>CONFIG_ENABLE_DEBUG\<close> is set
  and a failed assertion halts; otherwise assertions are not there. A negative index leaves the array or shifts by a negative
  count.
\<close>

definition c_int :: "nat \<Rightarrow> int" where
  "c_int n = sint (of_nat n :: 32 word)"

definition assert_index :: "bool \<Rightarrow> nat \<Rightarrow> int \<Rightarrow> unit kres" where
  "assert_index debug map_max index =
     (if debug then kassert (uint (word_of_int index :: u64) < int map_max) ''index < map_max'' else Inr ())"

definition bitmap_is_in_use :: "bool \<Rightarrow> bytes \<Rightarrow> nat \<Rightarrow> int \<Rightarrow> bool kres" where
  "bitmap_is_in_use debug page_map map_max index =
     kbind (assert_index debug map_max index) (\<lambda>_.
       if 0 \<le> index \<and> nat index div 8 < length page_map
       then Inr (get_bit (ucast (page_map ! (nat index div 8))) (nat index mod 8))
       else Inl (BadAccess ''page_map''))"

definition bitmap_set_status :: "bool \<Rightarrow> bytes \<Rightarrow> nat \<Rightarrow> int \<Rightarrow> bool \<Rightarrow> bytes kres" where
  "bitmap_set_status debug page_map map_max index status =
     kbind (assert_index debug map_max index) (\<lambda>_.
       if 0 \<le> index \<and> nat index div 8 < length page_map
       then Inr (page_map[nat index div 8 := ucast (set_bit (ucast (page_map ! (nat index div 8))) (nat index mod 8) status)])
       else Inl (BadAccess ''page_map''))"

text \<open>How many of the lowest bits of a byte other than 255 are set.\<close>

primrec low_ones :: "nat \<Rightarrow> u8 \<Rightarrow> nat" where
  "low_ones 0 data = 0"
| "low_ones (Suc n) data = (if data AND 1 \<noteq> 0 then Suc (low_ones n (drop_bit 1 data)) else 0)"

text \<open>\<open>None\<close> is -1; the loop goes over \<open>map_max\<close> bytes.\<close>

fun alloc_one_loop :: "bool \<Rightarrow> nat list \<Rightarrow> bytes \<Rightarrow> nat \<Rightarrow> (nat option \<times> bytes) kres" where
  "alloc_one_loop debug [] page_map map_max = Inr (None, page_map)"
| "alloc_one_loop debug (i # is) page_map map_max =
     (if i \<ge> length page_map then Inl (BadAccess ''page_map'')
      else if page_map ! i \<noteq> 0xFF then
        let n = 8 * i + low_ones 8 (page_map ! i) in
        kbind (bitmap_set_status debug page_map map_max (c_int n) True) (\<lambda>m. Inr (Some n, m))
      else alloc_one_loop debug is page_map map_max)"

definition bitmap_alloc_one :: "bool \<Rightarrow> bytes \<Rightarrow> nat \<Rightarrow> (nat option \<times> bytes) kres" where
  "bitmap_alloc_one debug page_map map_max = alloc_one_loop debug [0..<map_max] page_map map_max"

text \<open>How many entries from \<open>i\<close> on are free, up to \<open>cnt\<close>.\<close>

primrec free_run :: "bool \<Rightarrow> nat \<Rightarrow> bytes \<Rightarrow> nat \<Rightarrow> nat \<Rightarrow> nat kres" where
  "free_run debug 0 page_map map_max i = Inr 0"
| "free_run debug (Suc n) page_map map_max i =
     kbind (bitmap_is_in_use debug page_map map_max (c_int i)) (\<lambda>used.
       if used then Inr 0 else kbind (free_run debug n page_map map_max (Suc i)) (\<lambda>j. Inr (Suc j)))"

function alloc_loop :: "bool \<Rightarrow> nat \<Rightarrow> bytes \<Rightarrow> nat \<Rightarrow> nat \<Rightarrow> (nat option \<times> bytes) kres" where
  "alloc_loop debug i page_map map_max cnt =
     (if i < map_max then
        kbind (bitmap_is_in_use debug page_map map_max (c_int i)) (\<lambda>used.
          if used then alloc_loop debug (Suc i) page_map map_max cnt
          else kbind (free_run debug cnt page_map map_max i) (\<lambda>j.
            if j \<ge> cnt then
              kbind (kfold (\<lambda>k m. bitmap_set_status debug m map_max (c_int (i + k)) True) [0..<j] page_map) (\<lambda>m. Inr (Some i, m))
            else alloc_loop debug (Suc (i + j)) page_map map_max cnt))
      else Inr (None, page_map))"
  by pat_completeness auto

termination alloc_loop
  by (relation "measure (\<lambda>(d, i, p, m, c). m - i)") auto

declare alloc_loop.simps [simp del]

definition bitmap_alloc :: "bool \<Rightarrow> bytes \<Rightarrow> nat \<Rightarrow> nat \<Rightarrow> (nat option \<times> bytes) kres" where
  "bitmap_alloc debug page_map map_max cnt = alloc_loop debug 0 page_map map_max cnt"

definition bitmap_free :: "bool \<Rightarrow> bytes \<Rightarrow> nat \<Rightarrow> nat \<Rightarrow> nat \<Rightarrow> bytes kres" where
  "bitmap_free debug page_map map_max index cnt =
     kfold (\<lambda>i m.
       kbind (if debug then kbind (bitmap_is_in_use debug m map_max (c_int (index + i))) (\<lambda>used. kassert used ''bitmap_is_in_use'')
              else Inr ())
         (\<lambda>_. bitmap_set_status debug m map_max (c_int (index + i)) False))
       [0..<cnt] page_map"

record kmap =
  len :: u8
  item :: "(u64 \<times> u64) list"

definition map_add :: "kmap \<Rightarrow> u64 \<Rightarrow> u64 \<Rightarrow> kmap kres" where
  "map_add m key val =
     (if unat (len m) < length (item m) then Inr (m\<lparr>item := (item m)[unat (len m) := (key, val)], len := len m + 1\<rparr>)
      else Inl (BadAccess ''item''))"

definition map_find :: "kmap \<Rightarrow> u64 \<Rightarrow> u64" where
  "map_find m key =
     (case find (\<lambda>i. fst (item m ! i) = key) [0..<unat (len m)] of Some i \<Rightarrow> snd (item m ! i) | None \<Rightarrow> - 1)"

definition map_delete :: "kmap \<Rightarrow> u64 \<Rightarrow> kmap kres" where
  "map_delete m key = Inl (AssertFail ''0'')"

definition map_pop :: "kmap \<Rightarrow> (u64 \<times> u64) option \<times> kmap" where
  "map_pop m = (if len m \<noteq> 0 then (Some (item m ! unat (len m - 1)), m\<lparr>len := len m - 1\<rparr>) else (None, m))"

section \<open>Bits\<close>

definition in_use :: "bytes \<Rightarrow> nat \<Rightarrow> bool" where
  "in_use page_map i \<longleftrightarrow> bit (page_map ! (i div 8)) (i mod 8)"

text \<open>
  The first number the accesses refuse: with assertions the end of the map, without them the end of the array.
\<close>

definition limit :: "bool \<Rightarrow> bytes \<Rightarrow> nat \<Rightarrow> nat" where
  "limit debug page_map map_max = (if debug then map_max else 8 * length page_map)"

definition past_limit :: "bool \<Rightarrow> kerr" where
  "past_limit debug = (if debug then AssertFail ''index < map_max'' else BadAccess ''page_map'')"

definition map_ok :: "bytes \<Rightarrow> nat \<Rightarrow> bool" where
  "map_ok page_map map_max \<longleftrightarrow> map_max \<le> 8 * length page_map \<and> 8 * length page_map \<le> 2 ^ 31"

lemma c_int_small: "n < 2 ^ 31 \<Longrightarrow> c_int n = int n"
  by (simp add: c_int_def signed_of_nat signed_take_bit_int_eq_self)

lemma c_int_edge: "c_int 2147483648 = - 2147483648"
  by (simp add: c_int_def)

lemma limit_le: "map_ok page_map map_max \<Longrightarrow> limit debug page_map map_max \<le> 8 * length page_map"
  by (simp add: limit_def map_ok_def)

lemma index_inside:
  assumes "map_ok page_map map_max" "i < limit debug page_map map_max"
  shows "assert_index debug map_max (c_int i) = Inr ()" "c_int i = int i" "i div 8 < length page_map"
proof -
  have i: "i < 8 * length page_map" using assms limit_le [OF assms(1), of debug] by linarith
  then show c: "c_int i = int i" using assms(1) by (intro c_int_small) (auto simp: map_ok_def)
  show "i div 8 < length page_map" using i by simp
  have "i < 2 ^ 31" using i assms(1) by (auto simp: map_ok_def)
  then have "uint (word_of_int (int i) :: u64) = int i" by (simp add: unsigned_of_nat take_bit_nat_eq_self)
  then show "assert_index debug map_max (c_int i) = Inr ()" using assms(2) c by (auto simp: assert_index_def limit_def)
qed

lemma is_in_use_eq:
  assumes "map_ok page_map map_max" "i < limit debug page_map map_max"
  shows "bitmap_is_in_use debug page_map map_max (c_int i) = Inr (in_use page_map i)"
proof -
  have "drop_bit n x AND 1 \<noteq> 0 \<longleftrightarrow> bit x n" for n and x :: u64
    by (simp add: bit_iff_and_drop_bit_eq_1 and_one_eq mod_2_eq_odd)
  moreover have "i mod 8 < 8" by simp
  ultimately show ?thesis using index_inside [OF assms] by (auto simp: bitmap_is_in_use_def get_bit_def in_use_def bit_simps)
qed

lemma is_in_use_limit:
  assumes "map_ok page_map map_max" "i = limit debug page_map map_max"
  shows "bitmap_is_in_use debug page_map map_max (c_int i) = Inl (past_limit debug)"
proof (cases "i = 2 ^ 31")
  case True
  have "map_max \<le> 2 ^ 31" using assms(1) by (simp add: map_ok_def)
  then show ?thesis
    by (cases debug) (simp_all add: True c_int_edge bitmap_is_in_use_def assert_index_def past_limit_def)
next
  case False
  then have i: "i < 2 ^ 31" using assms limit_le [OF assms(1), of debug] by (auto simp: map_ok_def)
  then have "uint (word_of_int (int i) :: u64) = int i" by (simp add: unsigned_of_nat take_bit_nat_eq_self)
  then show ?thesis using assms(2) c_int_small [OF i]
    by (cases debug) (simp_all add: bitmap_is_in_use_def assert_index_def past_limit_def limit_def)
qed

lemma set_bit_byte:
  fixes x :: u8
  assumes "n < 8"
  shows "bit (ucast (set_bit (ucast x) n b) :: u8) j = (if j = n then b else bit x j)"
proof -
  have "j < 8" if "bit x j" using bit_imp_le_length [OF that] by simp
  then show ?thesis using assms by (cases b) (auto simp: set_bit_def bit_simps Let_def)
qed

text \<open>Setting an entry changes that entry and no other.\<close>

lemma set_status_spec:
  assumes "map_ok page_map map_max" "i < limit debug page_map map_max"
  shows "\<exists>m. bitmap_set_status debug page_map map_max (c_int i) b = Inr m \<and> length m = length page_map \<and>
    (\<forall>j < 8 * length page_map. in_use m j = (if j = i then b else in_use page_map j))"
proof -
  let ?v = "ucast (set_bit (ucast (page_map ! (i div 8))) (i mod 8) b) :: u8"
  note I = index_inside [OF assms]
  have "in_use (page_map[i div 8 := ?v]) j = (if j = i then b else in_use page_map j)" for j
  proof (cases "j div 8 = i div 8")
    case True
    then have "j mod 8 = i mod 8 \<longleftrightarrow> j = i" by (metis div_mult_mod_eq)
    then show ?thesis using True I(3) set_bit_byte [of "i mod 8" "page_map ! (i div 8)" b "j mod 8"] by (simp add: in_use_def)
  next
    case False
    then show ?thesis by (auto simp: in_use_def)
  qed
  then show ?thesis using I by (simp add: bitmap_set_status_def)
qed

text \<open>The table gives the first value added under a key, as long as its 16 entries last.\<close>

lemma map_find_add:
  assumes "unat (len m) < length (item m)" "length (item m) = 16"
  shows "\<exists>m'. map_add m key val = Inr m' \<and>
    map_find m' k = (if map_find m k = - 1 \<and> find (\<lambda>i. fst (item m ! i) = k) [0..<unat (len m)] = None \<and> k = key then val else map_find m k)"
proof -
  let ?n = "unat (len m)"
  let ?m = "m\<lparr>item := (item m)[?n := (key, val)], len := len m + 1\<rparr>"
  have l: "unat (len m + 1) = Suc ?n" using assms by (simp add: unat_word_ariths)
  have f: "find (\<lambda>i. fst (item ?m ! i) = k) [0..<Suc ?n] =
      (case find (\<lambda>i. fst (item m ! i) = k) [0..<?n] of Some i \<Rightarrow> Some i | None \<Rightarrow> if k = key then Some ?n else None)"
  proof -
    have "find (\<lambda>i. fst ((item m)[?n := (key, val)] ! i) = k) [0..<?n] = find (\<lambda>i. fst (item m ! i) = k) [0..<?n]"
      by (rule find_cong) auto
    moreover have "find P (xs @ [x]) = (case find P xs of Some i \<Rightarrow> Some i | None \<Rightarrow> if P x then Some x else None)" for P xs and x :: nat
      by (induction xs) auto
    ultimately show ?thesis using assms(1) by (auto split: option.split)
  qed
  have "map_find ?m k = (case find (\<lambda>i. fst (item m ! i) = k) [0..<?n] of Some i \<Rightarrow> snd (item m ! i) | None \<Rightarrow> if k = key then val else - 1)"
  proof (cases "find (\<lambda>i. fst (item m ! i) = k) [0..<?n]")
    case None
    then show ?thesis using f l assms(1) by (simp add: map_find_def del: upt_Suc)
  next
    case (Some i)
    then have "i < ?n" by (auto simp: find_Some_iff)
    then show ?thesis using f l Some by (simp add: map_find_def del: upt_Suc)
  qed
  then show ?thesis using assms(1) by (auto simp: map_add_def map_find_def split: option.splits)
qed

section \<open>Runs of entries\<close>

text \<open>\<open>cnt\<close> free entries from \<open>i\<close> on, all below \<open>stop\<close>.\<close>

definition fit :: "bytes \<Rightarrow> nat \<Rightarrow> nat \<Rightarrow> nat \<Rightarrow> bool" where
  "fit page_map stop cnt i \<longleftrightarrow> i + cnt \<le> stop \<and> (\<forall>k<cnt. \<not> in_use page_map (i + k))"

text \<open>How the scan of a run ends: at its length, at a used entry, or at the first number the accesses refuse.\<close>

lemma free_run_cases:
  assumes ok: "map_ok page_map map_max" and i: "i < limit debug page_map map_max"
  obtains (fits) "free_run debug n page_map map_max i = Inr n" "fit page_map (limit debug page_map map_max) n i"
  | (used) j where "free_run debug n page_map map_max i = Inr j" "j < n" "i + j < limit debug page_map map_max" "in_use page_map (i + j)"
  | (over) "free_run debug n page_map map_max i = Inl (past_limit debug)" "limit debug page_map map_max < i + n"
      "\<forall>k. i \<le> k \<and> k < limit debug page_map map_max \<longrightarrow> \<not> in_use page_map k"
proof -
  define L where "L = limit debug page_map map_max"
  have "free_run debug n page_map map_max i = Inr n \<and> fit page_map L n i \<or>
      (\<exists>j. free_run debug n page_map map_max i = Inr j \<and> j < n \<and> i + j < L \<and> in_use page_map (i + j)) \<or>
      free_run debug n page_map map_max i = Inl (past_limit debug) \<and> L < i + n \<and> (\<forall>k. i \<le> k \<and> k < L \<longrightarrow> \<not> in_use page_map k)"
    if "i \<le> L" for i
    using that
  proof (induction n arbitrary: i)
    case 0
    then show ?case by (simp add: fit_def)
  next
    case (Suc n)
    consider "i = L" | "i < L" "in_use page_map i" | "i < L" "\<not> in_use page_map i" using Suc.prems by linarith
    then show ?case
    proof cases
      case 1
      then show ?thesis using is_in_use_limit [OF ok, of i debug] by (auto simp: L_def)
    next
      case 2
      then show ?thesis using is_in_use_eq [OF ok, of i debug] by (auto simp: L_def)
    next
      case 3
      have u: "bitmap_is_in_use debug page_map map_max (c_int i) = Inr False"
        using is_in_use_eq [OF ok, of i debug] 3 by (simp add: L_def)
      have f: "fit page_map L (Suc n) i" if "fit page_map L n (Suc i)"
        using that 3(2) by (auto simp: fit_def less_Suc_eq_0_disj)
      have o: "\<not> in_use page_map k" if "i \<le> k" "k < L" "\<forall>k. Suc i \<le> k \<and> k < L \<longrightarrow> \<not> in_use page_map k" for k
        using that 3(2) by (cases "k = i") auto
      have "Suc i \<le> L" using 3(1) by simp
      from Suc.IH [OF this] show ?thesis
      proof (elim disjE conjE exE)
        assume "free_run debug n page_map map_max (Suc i) = Inr n" "fit page_map L n (Suc i)"
        then show ?thesis using f by (simp add: u)
      next
        fix j assume "free_run debug n page_map map_max (Suc i) = Inr j" "j < n" "Suc i + j < L" "in_use page_map (Suc i + j)"
        then show ?thesis by (intro disjI2 disjI1 exI [of _ "Suc j"]) (simp add: u)
      next
        assume "free_run debug n page_map map_max (Suc i) = Inl (past_limit debug)" "L < Suc i + n"
          "\<forall>k. Suc i \<le> k \<and> k < L \<longrightarrow> \<not> in_use page_map k"
        then show ?thesis using o by (intro disjI2) (simp add: u)
      qed
    qed
  qed
  then show thesis using i that unfolding L_def by (metis less_imp_le)
qed

lemma find_skip:
  assumes "\<And>k. i \<le> k \<Longrightarrow> k < j \<Longrightarrow> \<not> P k" "i \<le> j"
  shows "find P [i..<n] = find P [j..<n]"
proof (cases "j \<le> n")
  case True
  have "[i..<n] = [i..<j] @ [j..<n]" using assms(2) True by (metis le_add_diff_inverse upt_add_eq_append)
  moreover have "find P [i..<j] = None" using assms(1) by (simp add: find_None_iff)
  moreover have "find P (xs @ ys) = (case find P xs of None \<Rightarrow> find P ys | r \<Rightarrow> r)" for xs ys by (induction xs) auto
  ultimately show ?thesis by simp
next
  case False
  then show ?thesis using assms(1) by (auto simp: find_None_iff)
qed

text \<open>Marking a run, and clearing it.\<close>

definition marked :: "bytes \<Rightarrow> bytes \<Rightarrow> nat \<Rightarrow> nat \<Rightarrow> bool \<Rightarrow> bool" where
  "marked m page_map i n b \<longleftrightarrow> length m = length page_map \<and>
     (\<forall>j < 8 * length page_map. in_use m j = (if i \<le> j \<and> j < i + n then b else in_use page_map j))"

lemma map_ok_marked: "marked m page_map i n b \<Longrightarrow> map_ok m map_max = map_ok page_map map_max"
  "marked m page_map i n b \<Longrightarrow> limit debug m map_max = limit debug page_map map_max"
  by (simp_all add: map_ok_def marked_def limit_def)

lemma mark_run:
  assumes "map_ok page_map map_max" "i + n \<le> limit debug page_map map_max"
  shows "\<exists>m. kfold (\<lambda>k m. bitmap_set_status debug m map_max (c_int (i + k)) True) [0..<n] page_map = Inr m \<and> marked m page_map i n True"
  using assms(2)
proof (induction n)
  case (Suc n)
  then obtain m where m: "kfold (\<lambda>k m. bitmap_set_status debug m map_max (c_int (i + k)) True) [0..<n] page_map = Inr m"
    "marked m page_map i n True" by auto
  have "map_ok m map_max" "i + n < limit debug m map_max"
    using Suc.prems assms(1) map_ok_marked [OF m(2)] by simp_all
  from set_status_spec [OF this, of True] obtain m' where "bitmap_set_status debug m map_max (c_int (i + n)) True = Inr m'"
    "length m' = length m" "\<forall>j < 8 * length m. in_use m' j = (if j = i + n then True else in_use m j)" by blast
  then show ?case using m by (auto simp: kfold_append marked_def less_Suc_eq)
qed (auto simp: marked_def)

lemma clear_run:
  assumes "map_ok page_map map_max" "i + n \<le> limit debug page_map map_max" "\<forall>k<n. in_use page_map (i + k)"
  shows "\<exists>m. bitmap_free debug page_map map_max i n = Inr m \<and> marked m page_map i n False"
  using assms(2,3)
proof (induction n)
  case (Suc n)
  then obtain m where m: "bitmap_free debug page_map map_max i n = Inr m" "marked m page_map i n False" by auto
  have l: "map_ok m map_max" "i + n < limit debug m map_max"
    using Suc.prems assms(1) map_ok_marked [OF m(2)] by simp_all
  have "i + n < 8 * length page_map" using l(2) limit_le [OF l(1), of debug] m(2) by (simp add: marked_def)
  then have "in_use m (i + n)" using m(2) Suc.prems by (simp add: marked_def)
  moreover from set_status_spec [OF l, of False] obtain m' where "bitmap_set_status debug m map_max (c_int (i + n)) False = Inr m'"
    "length m' = length m" "\<forall>j < 8 * length m. in_use m' j = (if j = i + n then False else in_use m j)" by blast
  ultimately show ?case using m is_in_use_eq [OF l] by (auto simp: bitmap_free_def kfold_append marked_def less_Suc_eq)
qed (auto simp: bitmap_free_def marked_def)

lemma same_bits:
  assumes "length m = length m'" "\<forall>j < 8 * length m'. in_use m j = in_use m' j"
  shows "m = m'"
proof (rule nth_equalityI [OF assms(1)])
  fix i assume i: "i < length m"
  show "m ! i = m' ! i"
  proof (rule bit_word_eqI)
    fix n assume "n < LENGTH(8)"
    then have "8 * i + n < 8 * length m'" "(8 * i + n) div 8 = i" "(8 * i + n) mod 8 = n" using i assms(1) by simp_all
    then show "bit (m ! i) n = bit (m' ! i) n" using assms(2) unfolding in_use_def by metis
  qed
qed

text \<open>A free run from some entry of the map up to the limit leads the scan past it.\<close>

definition open_end :: "bool \<Rightarrow> bytes \<Rightarrow> nat \<Rightarrow> bool" where
  "open_end debug page_map map_max \<longleftrightarrow>
     (\<forall>k. map_max - 1 \<le> k \<and> k < limit debug page_map map_max \<longrightarrow> \<not> in_use page_map k)"

lemma alloc_loop_first_fit:
  assumes ok: "map_ok page_map map_max" and "1 \<le> cnt"
  shows "case find (fit page_map (limit debug page_map map_max) cnt) [i..<map_max] of
      Some k \<Rightarrow> \<exists>m. alloc_loop debug i page_map map_max cnt = Inr (Some k, m) \<and> marked m page_map k cnt True
    | None \<Rightarrow> alloc_loop debug i page_map map_max cnt =
        (if i < map_max \<and> open_end debug page_map map_max then Inl (past_limit debug) else Inr (None, page_map))"
proof (induction "map_max - i" arbitrary: i rule: less_induct)
  case less
  define L where "L = limit debug page_map map_max"
  let ?f = "fit page_map L cnt"
  have mL: "map_max \<le> L" using ok by (simp add: L_def limit_def map_ok_def)
  have "case find ?f [i..<map_max] of
      Some k \<Rightarrow> \<exists>m. alloc_loop debug i page_map map_max cnt = Inr (Some k, m) \<and> marked m page_map k cnt True
    | None \<Rightarrow> alloc_loop debug i page_map map_max cnt =
        (if i < map_max \<and> open_end debug page_map map_max then Inl (past_limit debug) else Inr (None, page_map))"
  proof (cases "i < map_max")
    case False
    then show ?thesis by (simp add: alloc_loop.simps)
  next
    case i: True
    then have iL: "i < limit debug page_map map_max" using mL by (simp add: L_def)
    note use = is_in_use_eq [OF ok iL]
    have skip: ?thesis if j: "i \<le> j" "j < L" "in_use page_map j" and no: "\<And>k. i \<le> k \<Longrightarrow> k < Suc j \<Longrightarrow> \<not> ?f k"
      and eq: "alloc_loop debug i page_map map_max cnt = alloc_loop debug (Suc j) page_map map_max cnt" for j
    proof -
      have "map_max - Suc j < map_max - i" using j i by linarith
      note IH = less.hyps [OF this, folded L_def]
      have "find ?f [i..<map_max] = find ?f [Suc j..<map_max]" by (rule find_skip) (use no j in auto)
      moreover have "\<not> open_end debug page_map map_max" if "map_max \<le> Suc j"
        using that j by (auto simp: open_end_def L_def intro!: exI [of _ j])
      then have "Suc j < map_max \<and> open_end debug page_map map_max \<longleftrightarrow> i < map_max \<and> open_end debug page_map map_max"
        using i by (cases "Suc j < map_max") auto
      ultimately show ?thesis using IH unfolding eq by (simp only:)
    qed
    show ?thesis
    proof (cases "in_use page_map i")
      case True
      have "\<not> ?f k" if "i \<le> k" "k < Suc i" for k
      proof -
        have "k = i" using that by simp
        then show ?thesis using True assms(2) by (auto simp: fit_def intro!: exI [of _ 0])
      qed
      then show ?thesis using True i iL use by (intro skip [of i]) (simp_all add: alloc_loop.simps [of debug i] L_def)
    next
      case False
      have step: "alloc_loop debug i page_map map_max cnt = kbind (free_run debug cnt page_map map_max i) (\<lambda>j. if j \<ge> cnt then
          kbind (kfold (\<lambda>k m. bitmap_set_status debug m map_max (c_int (i + k)) True) [0..<j] page_map) (\<lambda>m. Inr (Some i, m))
          else alloc_loop debug (Suc (i + j)) page_map map_max cnt)"
        using i False use by (simp add: alloc_loop.simps [of debug i])
      from ok iL show ?thesis
      proof (cases rule: free_run_cases [where n = cnt])
        case fits
        have "find ?f [i..<map_max] = Some i" using fits(2) i by (simp add: upt_conv_Cons L_def)
        moreover have "i + cnt \<le> limit debug page_map map_max" using fits(2) by (simp add: fit_def)
        from mark_run [OF ok this] obtain m
          where "kfold (\<lambda>k m. bitmap_set_status debug m map_max (c_int (i + k)) True) [0..<cnt] page_map = Inr m"
          "marked m page_map i cnt True" by blast
        ultimately show ?thesis using fits(1) by (simp add: step)
      next
        case (used j)
        have "\<not> ?f k" if "i \<le> k" "k < Suc (i + j)" for k
          using that used by (auto simp: fit_def intro!: exI [of _ "i + j - k"])
        then show ?thesis using used by (intro skip [of "i + j"]) (simp_all add: step L_def)
      next
        case over
        have "\<not> ?f k" if "i \<le> k" for k using that over(2) by (simp add: fit_def L_def)
        then have "find ?f [i..<map_max] = None" by (auto simp: find_None_iff)
        moreover have "open_end debug page_map map_max" using over(3) i by (auto simp: open_end_def)
        ultimately show ?thesis using over(1) i by (simp add: step)
      qed
    qed
  qed
  then show ?case by (simp only: L_def)
qed

section \<open>Properties\<close>

text \<open>
  C33: on a bitmap of at most \<open>2 ^ 31\<close> bits \<open>bitmap_alloc\<close> takes the first run of free entries that starts inside the map, is
  long enough and ends before the limit of the accesses; it marks exactly the entries of the run, and \<open>bitmap_free\<close> restores
  the bitmap. With assertions on, the limit is the end of the map; without them it is the end of the array, so that a run may
  reach over the end of the map. Without such a run it reports -1, unless all entries from the last one of the map to the limit
  are free: then the scan trips an assertion or, without assertions, leaves the array.
\<close>

theorem bitmap_alloc_first_fit:
  assumes "map_max \<le> 8 * length page_map" and "8 * length page_map \<le> 2 ^ 31" and "1 \<le> cnt"
  shows "case find (fit page_map (if debug then map_max else 8 * length page_map) cnt) [0..<map_max] of
      Some i \<Rightarrow> \<exists>m. bitmap_alloc debug page_map map_max cnt = Inr (Some i, m) \<and> length m = length page_map \<and>
        (\<forall>j < 8 * length page_map. in_use m j = (in_use page_map j \<or> i \<le> j \<and> j < i + cnt)) \<and>
        bitmap_free debug m map_max i cnt = Inr page_map
    | None \<Rightarrow> bitmap_alloc debug page_map map_max cnt =
        (if 0 < map_max \<and> (\<forall>k. map_max - 1 \<le> k \<and> k < (if debug then map_max else 8 * length page_map) \<longrightarrow> \<not> in_use page_map k)
         then Inl (if debug then AssertFail ''index < map_max'' else BadAccess ''page_map'')
         else Inr (None, page_map))"
proof -
  have ok: "map_ok page_map map_max" using assms by (simp add: map_ok_def)
  define L where "L = limit debug page_map map_max"
  note F = alloc_loop_first_fit [OF ok assms(3), of debug 0, folded L_def bitmap_alloc_def]
  have "case find (fit page_map L cnt) [0..<map_max] of
      Some i \<Rightarrow> \<exists>m. bitmap_alloc debug page_map map_max cnt = Inr (Some i, m) \<and> length m = length page_map \<and>
        (\<forall>j < 8 * length page_map. in_use m j = (in_use page_map j \<or> i \<le> j \<and> j < i + cnt)) \<and>
        bitmap_free debug m map_max i cnt = Inr page_map
    | None \<Rightarrow> bitmap_alloc debug page_map map_max cnt =
        (if 0 < map_max \<and> open_end debug page_map map_max then Inl (past_limit debug) else Inr (None, page_map))"
  proof (cases "find (fit page_map L cnt) [0..<map_max]")
    case None
    then show ?thesis using F by simp
  next
    case (Some i)
    then have i: "fit page_map L cnt i" by (auto simp: find_Some_iff)
    obtain m where m: "bitmap_alloc debug page_map map_max cnt = Inr (Some i, m)" "marked m page_map i cnt True"
      using F Some by auto
    have le: "i + cnt \<le> limit debug m map_max" "map_ok m map_max"
      using i ok map_ok_marked [OF m(2)] by (simp_all add: fit_def L_def)
    have "i + cnt \<le> 8 * length page_map" using le(1) limit_le [OF le(2), of debug] m(2) by (simp add: marked_def)
    then have "\<forall>k<cnt. in_use m (i + k)" using m(2) by (auto simp: marked_def)
    then obtain m' where m': "bitmap_free debug m map_max i cnt = Inr m'" "marked m' m i cnt False"
      using clear_run [OF le(2,1)] by blast
    have free: "\<not> in_use page_map j" if "i \<le> j" "j < i + cnt" for j
      using i that unfolding fit_def by (metis le_add_diff_inverse nat_add_left_cancel_less)
    have "m' = page_map" using m(2) m'(2) free by (intro same_bits) (auto simp: marked_def)
    moreover have "\<forall>j < 8 * length page_map. in_use m j = (in_use page_map j \<or> i \<le> j \<and> j < i + cnt)" using m(2) by (auto simp: marked_def)
    ultimately show ?thesis using Some m m' by (simp add: marked_def)
  qed
  then show ?thesis by (simp only: L_def limit_def open_end_def past_limit_def)
qed

theorem bitmap_alloc_first_fit_witness:
  "\<forall>debug. \<exists>m. bitmap_alloc debug [0x17, 0x80] 16 3 = Inr (Some 5, m) \<and> bitmap_free debug m 16 5 3 = Inr [0x17, 0x80]"
proof
  fix debug
  have "(\<forall>k<3. P k) \<longleftrightarrow> P 0 \<and> P 1 \<and> P (2 :: nat)" for P by (auto simp: numeral_eq_Suc less_Suc_eq)
  then have f: "fit p 16 3 i \<longleftrightarrow> i \<le> 13 \<and> \<not> in_use p i \<and> \<not> in_use p (i + 1) \<and> \<not> in_use p (i + 2)" for p i
    by (auto simp: fit_def)
  have "[0..<16] = [0, 1, 2, 3, 4, 5] @ [6..<16]" by (simp add: upt_rec)
  then have "find (fit [0x17, 0x80] 16 3) [0..<16] = Some 5"
    by (simp add: f in_use_def bit_iff_odd del: upt_rec_numeral)
  moreover have "(if debug then 16 else 8 * length [0x17 :: u8, 0x80]) = 16" by simp
  ultimately show "\<exists>m. bitmap_alloc debug [0x17, 0x80] 16 3 = Inr (Some 5, m) \<and> bitmap_free debug m 16 5 3 = Inr [0x17, 0x80]"
    using bitmap_alloc_first_fit [of 16 "[0x17, 0x80]" 3 debug] by (auto split: option.splits)
qed

text \<open>Without assertions a run may start at the last entry of the map and end behind it.\<close>

theorem run_over_the_end: "\<exists>m. bitmap_alloc False [0x7f, 0] 8 3 = Inr (Some 7, m)"
proof -
  have "(\<forall>k<3. P k) \<longleftrightarrow> P 0 \<and> P 1 \<and> P (2 :: nat)" for P by (auto simp: numeral_eq_Suc less_Suc_eq)
  then have f: "fit p 16 3 i \<longleftrightarrow> i \<le> 13 \<and> \<not> in_use p i \<and> \<not> in_use p (i + 1) \<and> \<not> in_use p (i + 2)" for p i
    by (auto simp: fit_def)
  have "[0..<8] = [0, 1, 2, 3, 4, 5, 6, 7]" by (simp add: upt_rec)
  then have "find (fit [0x7f, 0] 16 3) [0..<8] = Some 7"
    by (simp add: f in_use_def bit_iff_odd del: upt_rec_numeral)
  then show ?thesis using alloc_loop_first_fit [of "[0x7f, 0]" 8 3 False 0]
    by (auto simp: bitmap_alloc_def map_ok_def limit_def)
qed

end
