(* ===== verification/KList.thy ===== *)
theory KList
  imports Prelude
begin

text \<open>
  The intrusive circular doubly linked list of lolibc/kstruct/list.h that holds the
  children of a task. The heap of list nodes is two maps, \<open>nxt\<close> and \<open>prv\<close>; every
  operation writes them in the order of the source, so that aliasing between the
  nodes is accounted for. \<open>clist s h xs\<close> says that the ring through the head \<open>h\<close>
  visits exactly \<open>xs\<close>; each operation refines the operation on lists it stands for.
  The locale \<open>deque\<close> is the resulting contract.
\<close>

section \<open>Definitions\<close>

record 'a links =
  nxt :: "'a \<Rightarrow> 'a"
  prv :: "'a \<Rightarrow> 'a"

definition set_next :: "'a \<Rightarrow> 'a \<Rightarrow> 'a links \<Rightarrow> 'a links" where
  "set_next x y s = s\<lparr>nxt := (nxt s)(x := y)\<rparr>"

definition set_prev :: "'a \<Rightarrow> 'a \<Rightarrow> 'a links \<Rightarrow> 'a links" where
  "set_prev x y s = s\<lparr>prv := (prv s)(x := y)\<rparr>"

definition init_list_head :: "'a \<Rightarrow> 'a links \<Rightarrow> 'a links" where
  "init_list_head l s = set_prev l l (set_next l l s)"

text \<open>\<open>_list_add\<close>: the four stores, in their order.\<close>

definition list_add_between :: "'a \<Rightarrow> 'a \<Rightarrow> 'a \<Rightarrow> 'a links \<Rightarrow> 'a links" where
  "list_add_between next prev new s =
     set_next prev new (set_prev new prev (set_next new next (set_prev next new s)))"

definition list_add :: "'a \<Rightarrow> 'a \<Rightarrow> 'a links \<Rightarrow> 'a links" where
  "list_add head new s = list_add_between (nxt s head) head new s"

definition list_add_tail :: "'a \<Rightarrow> 'a \<Rightarrow> 'a links \<Rightarrow> 'a links" where
  "list_add_tail head new s = list_add_between head (prv s head) new s"

text \<open>\<open>_list_del\<close>\<close>

definition list_unlink :: "'a \<Rightarrow> 'a \<Rightarrow> 'a links \<Rightarrow> 'a links" where
  "list_unlink prev next s = set_next prev next (set_prev next prev s)"

definition list_del :: "'a \<Rightarrow> 'a links \<Rightarrow> 'a links" where
  "list_del entry s =
     (let s1 = list_unlink (prv s entry) (nxt s entry) s in
      set_prev entry entry (set_next entry entry s1))"

definition list_replace :: "'a \<Rightarrow> 'a \<Rightarrow> 'a links \<Rightarrow> 'a links" where
  "list_replace old new s =
     (let s1 = set_next new (nxt s old) s;
          s2 = set_prev (nxt s1 new) new s1;
          s3 = set_prev new (prv s2 old) s2
      in set_next (prv s3 new) new s3)"

definition list_replace_init :: "'a \<Rightarrow> 'a \<Rightarrow> 'a links \<Rightarrow> 'a links" where
  "list_replace_init old new s = init_list_head old (list_replace old new s)"

definition list_move :: "'a \<Rightarrow> 'a \<Rightarrow> 'a links \<Rightarrow> 'a links" where
  "list_move l head s = list_add head l (list_unlink (prv s l) (nxt s l) s)"

definition list_move_tail :: "'a \<Rightarrow> 'a \<Rightarrow> 'a links \<Rightarrow> 'a links" where
  "list_move_tail l head s = list_add_tail head l (list_unlink (prv s l) (nxt s l) s)"

definition list_is_empty :: "'a \<Rightarrow> 'a links \<Rightarrow> bool" where
  "list_is_empty head s \<longleftrightarrow> nxt s head = head"

definition list_is_last :: "'a \<Rightarrow> 'a \<Rightarrow> 'a links \<Rightarrow> bool" where
  "list_is_last l head s \<longleftrightarrow> nxt s l = head"

definition list_splice :: "'a \<Rightarrow> 'a \<Rightarrow> 'a links \<Rightarrow> 'a links" where
  "list_splice l head s =
     (let s1 = set_next (prv s head) (nxt s l) s;
          s2 = set_prev (nxt s1 l) (prv s1 head) s1;
          s3 = set_next (prv s2 l) head s2
      in set_prev head (prv s3 l) s3)"

definition list_splice_init :: "'a \<Rightarrow> 'a \<Rightarrow> 'a links \<Rightarrow> 'a links" where
  "list_splice_init l head s = init_list_head l (list_splice l head s)"

definition list_pop :: "'a \<Rightarrow> 'a links \<Rightarrow> 'a option \<times> 'a links" where
  "list_pop head s =
     (if list_is_empty head s then (None, s)
      else let result = nxt s head in (Some result, list_del result s))"

definition list_pop_tail :: "'a \<Rightarrow> 'a links \<Rightarrow> 'a option \<times> 'a links" where
  "list_pop_tail head s =
     (if list_is_empty head s then (None, s)
      else let result = prv s head in (Some result, list_del result s))"

text \<open>The nodes that \<open>list_for_each_entry\<close> and its reverse visit, from \<open>pos\<close> on.\<close>

partial_function (option) for_each_from :: "'a \<Rightarrow> 'a links \<Rightarrow> 'a \<Rightarrow> 'a list option" where
  "for_each_from head s pos =
     (if pos \<noteq> head
      then Option.bind (for_each_from head s (nxt s pos)) (\<lambda>xs. Some (pos # xs))
      else Some [])"

definition list_for_each_entry :: "'a \<Rightarrow> 'a links \<Rightarrow> 'a list option" where
  "list_for_each_entry head s = for_each_from head s (nxt s head)"

partial_function (option) for_each_back :: "'a \<Rightarrow> 'a links \<Rightarrow> 'a \<Rightarrow> 'a list option" where
  "for_each_back head s pos =
     (if pos \<noteq> head
      then Option.bind (for_each_back head s (prv s pos)) (\<lambda>xs. Some (pos # xs))
      else Some [])"

definition list_for_each_entry_reverse :: "'a \<Rightarrow> 'a links \<Rightarrow> 'a list option" where
  "list_for_each_entry_reverse head s = for_each_back head s (prv s head)"

text \<open>
  The traversals that allow their body to take the visited node out of the list, with the nodes they visit and the state they
  leave; \<open>n\<close> is read before the body runs.
\<close>

partial_function (option) for_each_safe :: "('a \<Rightarrow> 'a links \<Rightarrow> 'a links) \<Rightarrow> 'a \<Rightarrow> 'a \<Rightarrow> 'a \<Rightarrow> 'a links \<Rightarrow> ('a list \<times> 'a links) option" where
  "for_each_safe body head pos n s =
     (if pos \<noteq> head
      then (let s1 = body pos s in Option.bind (for_each_safe body head n (nxt s1 n) s1) (\<lambda>(xs, s2). Some (pos # xs, s2)))
      else Some ([], s))"

definition list_for_each_entry_safe :: "('a \<Rightarrow> 'a links \<Rightarrow> 'a links) \<Rightarrow> 'a \<Rightarrow> 'a links \<Rightarrow> ('a list \<times> 'a links) option" where
  "list_for_each_entry_safe body head s = for_each_safe body head (nxt s head) (nxt s (nxt s head)) s"

partial_function (option) for_each_safe_back :: "('a \<Rightarrow> 'a links \<Rightarrow> 'a links) \<Rightarrow> 'a \<Rightarrow> 'a \<Rightarrow> 'a \<Rightarrow> 'a links \<Rightarrow> ('a list \<times> 'a links) option" where
  "for_each_safe_back body head pos n s =
     (if pos \<noteq> head
      then (let s1 = body pos s in Option.bind (for_each_safe_back body head n (prv s1 n) s1) (\<lambda>(xs, s2). Some (pos # xs, s2)))
      else Some ([], s))"

definition list_for_each_entry_safe_reverse :: "('a \<Rightarrow> 'a links \<Rightarrow> 'a links) \<Rightarrow> 'a \<Rightarrow> 'a links \<Rightarrow> ('a list \<times> 'a links) option" where
  "list_for_each_entry_safe_reverse body head s = for_each_safe_back body head (prv s head) (prv s (prv s head)) s"

text \<open>The neighbours in a list, and the ring.\<close>

definition pairs :: "'a list \<Rightarrow> ('a \<times> 'a) list" where
  "pairs l = zip l (tl l)"

definition linked :: "'a links \<Rightarrow> 'a list \<Rightarrow> bool" where
  "linked s l \<longleftrightarrow> (\<forall>(u, v) \<in> set (pairs l). nxt s u = v \<and> prv s v = u)"

definition clist :: "'a links \<Rightarrow> 'a \<Rightarrow> 'a list \<Rightarrow> bool" where
  "clist s h xs \<longleftrightarrow> distinct (h # xs) \<and> linked s (h # xs @ [h])"

section \<open>Chains\<close>

lemma set_links_simps [simp]:
  "nxt (set_next x y s) = (nxt s)(x := y)" "prv (set_next x y s) = prv s"
  "prv (set_prev x y s) = (prv s)(x := y)" "nxt (set_prev x y s) = nxt s"
  by (simp_all add: set_next_def set_prev_def)

lemma linked_Nil [simp]: "linked s []" and linked_single [simp]: "linked s [x]"
  by (simp_all add: linked_def pairs_def)

lemma linked_Cons2 [simp]:
  "linked s (x # y # l) \<longleftrightarrow> nxt s x = y \<and> prv s y = x \<and> linked s (y # l)"
  by (auto simp: linked_def pairs_def)

lemma linked_append:
  "l1 \<noteq> [] \<Longrightarrow> l2 \<noteq> [] \<Longrightarrow> linked s (l1 @ l2) \<longleftrightarrow>
    linked s l1 \<and> nxt s (last l1) = hd l2 \<and> prv s (hd l2) = last l1 \<and> linked s l2"
proof (induction l1 rule: induct_list012)
  case (2 x)
  then show ?case by (cases l2) auto
qed auto

lemma linked_cong:
  assumes "\<And>x. x \<in> set (butlast l) \<Longrightarrow> nxt s' x = nxt s x"
    and "\<And>x. x \<in> set (tl l) \<Longrightarrow> prv s' x = prv s x"
  shows "linked s' l \<longleftrightarrow> linked s l"
  using assms by (induction l rule: induct_list012) auto

lemma clist_split:
  "clist s h (xs @ ys) \<longleftrightarrow> distinct (h # xs @ ys) \<and> linked s (h # xs) \<and>
    nxt s (last (h # xs)) = hd (ys @ [h]) \<and> prv s (hd (ys @ [h])) = last (h # xs) \<and> linked s (ys @ [h])"
  using linked_append [of "h # xs" "ys @ [h]" s] by (auto simp: clist_def)

lemma last_notin_butlast: "distinct l \<Longrightarrow> l \<noteq> [] \<Longrightarrow> last l \<notin> set (butlast l)"
  by (metis append_butlast_last_id distinct_butlast not_distinct_conv_prefix butlast_snoc distinct_append
      disjoint_insert(1) list.simps(15))

lemma hd_notin_tl: "distinct l \<Longrightarrow> l \<noteq> [] \<Longrightarrow> hd l \<notin> set (tl l)"
  by (cases l) auto

section \<open>Insertion and removal\<close>

lemma list_add_between_clist:
  assumes ring: "clist s h (xs @ ys)" and new: "new \<notin> set (h # xs @ ys)"
    and p: "p = last (h # xs)" and n: "n = hd (ys @ [h])"
  shows "clist (list_add_between n p new s) h (xs @ new # ys)"
proof -
  let ?s = "list_add_between n p new s"
  have R: "distinct (h # xs @ ys)" "linked s (h # xs)" "linked s (ys @ [h])"
    using ring by (auto simp: clist_split)
  have dl: "distinct (h # xs)" "distinct (ys @ [h])" using R(1) by auto
  have pm: "p \<in> set (h # xs)" and nm: "n \<in> set (ys @ [h])"
    unfolding p n by (rule last_in_set, simp, rule hd_in_set, simp)
  have "linked ?s (h # xs) \<longleftrightarrow> linked s (h # xs)"
  proof (rule linked_cong)
    fix x
    assume "x \<in> set (butlast (h # xs))"
    then have "x \<noteq> p" "x \<noteq> new"
      using last_notin_butlast [OF dl(1)] new p in_set_butlastD by fastforce+
    then show "nxt ?s x = nxt s x" by (simp add: list_add_between_def)
  next
    fix x
    assume "x \<in> set (tl (h # xs))"
    then have "x \<noteq> n" "x \<noteq> new" using R(1) nm new by auto
    then show "prv ?s x = prv s x" by (simp add: list_add_between_def)
  qed
  moreover have "linked ?s (ys @ [h]) \<longleftrightarrow> linked s (ys @ [h])"
  proof (rule linked_cong)
    fix x
    assume "x \<in> set (butlast (ys @ [h]))"
    then have "x \<noteq> p" "x \<noteq> new" using R(1) pm new by auto
    then show "nxt ?s x = nxt s x" by (simp add: list_add_between_def)
  next
    fix x
    assume x: "x \<in> set (tl (ys @ [h]))"
    then have "x \<noteq> n" using hd_notin_tl [OF dl(2)] n by auto
    moreover have "x \<noteq> new" using x new list.set_sel(2) [of "ys @ [h]" x] by auto
    ultimately show "prv ?s x = prv s x" by (simp add: list_add_between_def)
  qed
  moreover have "p \<noteq> new" "n \<noteq> new" using pm nm new by auto
  then have "nxt ?s p = new" "prv ?s new = p" "nxt ?s new = n" "prv ?s n = new"
    by (simp_all add: list_add_between_def)
  moreover have "linked ?s (new # ys @ [h]) \<longleftrightarrow> nxt ?s new = n \<and> prv ?s n = new \<and> linked ?s (ys @ [h])"
    using linked_append [of "[new]" "ys @ [h]" ?s] by (simp add: n)
  ultimately show ?thesis
    using R new p by (auto simp: clist_split)
qed

lemma clist_frame:
  assumes "clist s h xs" and "\<And>x. x \<in> set (h # xs) \<Longrightarrow> nxt s' x = nxt s x \<and> prv s' x = prv s x"
  shows "clist s' h xs"
proof -
  have "linked s' (h # xs @ [h]) \<longleftrightarrow> linked s (h # xs @ [h])"
    using assms(2) by (intro linked_cong) (auto dest!: in_set_butlastD)
  with assms(1) show ?thesis by (simp add: clist_def)
qed

lemma clist_neighbours:
  assumes "clist s h (xs @ e # ys)"
  shows "prv s e = last (h # xs)" and "nxt s e = hd (ys @ [h])"
    and "e \<notin> set (h # xs @ ys)" and "e \<noteq> h"
  using assms linked_append [of "[e]" "ys @ [h]" s] by (auto simp: clist_split)

lemma list_unlink_clist:
  assumes ring: "clist s h (xs @ e # ys)"
  shows "clist (list_unlink (prv s e) (nxt s e) s) h (xs @ ys)"
proof -
  let ?p = "last (h # xs)" and ?n = "hd (ys @ [h])"
  let ?s = "list_unlink ?p ?n s"
  note N = clist_neighbours [OF ring]
  have R: "distinct (h # xs @ ys)" "linked s (h # xs)" "linked s (ys @ [h])"
    using ring linked_append [of "[e]" "ys @ [h]" s] by (auto simp: clist_split)
  have dl: "distinct (h # xs)" "distinct (ys @ [h])" using R(1) by auto
  have pm: "?p \<in> set (h # xs)" and nm: "?n \<in> set (ys @ [h])"
    by (rule last_in_set, simp, rule hd_in_set, simp)
  have "linked ?s (h # xs) \<longleftrightarrow> linked s (h # xs)"
  proof (rule linked_cong)
    fix x
    assume "x \<in> set (butlast (h # xs))"
    then have "x \<noteq> ?p" using last_notin_butlast [OF dl(1)] by auto
    then show "nxt ?s x = nxt s x" by (simp add: list_unlink_def)
  next
    fix x
    assume "x \<in> set (tl (h # xs))"
    then have "x \<noteq> ?n" using R(1) nm by auto
    then show "prv ?s x = prv s x" by (simp add: list_unlink_def)
  qed
  moreover have "linked ?s (ys @ [h]) \<longleftrightarrow> linked s (ys @ [h])"
  proof (rule linked_cong)
    fix x
    assume "x \<in> set (butlast (ys @ [h]))"
    then have "x \<noteq> ?p" using R(1) pm by auto
    then show "nxt ?s x = nxt s x" by (simp add: list_unlink_def)
  next
    fix x
    assume "x \<in> set (tl (ys @ [h]))"
    then have "x \<noteq> ?n" using hd_notin_tl [OF dl(2)] by auto
    then show "prv ?s x = prv s x" by (simp add: list_unlink_def)
  qed
  ultimately show ?thesis
    using R N by (auto simp: clist_split list_unlink_def)
qed

lemma list_add_clist:
  "clist s h xs \<Longrightarrow> new \<notin> set (h # xs) \<Longrightarrow> clist (list_add h new s) h (new # xs)"
  using list_add_between_clist [of s h "[]" xs new h "hd (xs @ [h])"]
  by (auto simp: list_add_def clist_def linked_append [of "[h]" "xs @ [h]" s, simplified])

lemma list_add_tail_clist:
  "clist s h xs \<Longrightarrow> new \<notin> set (h # xs) \<Longrightarrow> clist (list_add_tail h new s) h (xs @ [new])"
  using list_add_between_clist [of s h xs "[]" new "last (h # xs)" h] clist_split [of s h xs "[]"]
  by (auto simp: list_add_tail_def)

lemma list_del_clist:
  assumes "clist s h (xs @ e # ys)"
  shows "clist (list_del e s) h (xs @ ys)" and "clist (list_del e s) e []"
proof -
  have "e \<notin> set (h # xs @ ys)" using clist_neighbours(3) [OF assms] .
  with list_unlink_clist [OF assms] show "clist (list_del e s) h (xs @ ys)"
    by (rule_tac clist_frame [of "list_unlink (prv s e) (nxt s e) s"]) (auto simp: list_del_def Let_def)
  show "clist (list_del e s) e []" by (simp add: list_del_def clist_def Let_def)
qed

lemma list_is_empty_clist: "clist s h xs \<Longrightarrow> list_is_empty h s \<longleftrightarrow> xs = []"
  by (cases xs) (auto simp: list_is_empty_def clist_def)

lemma list_pop_clist:
  assumes "clist s h xs"
  shows "list_pop h s = (case xs of [] \<Rightarrow> (None, s) | x # _ \<Rightarrow> (Some x, list_del x s))"
  using assms list_is_empty_clist [OF assms]
  by (cases xs) (auto simp: list_pop_def clist_def Let_def)

lemma list_pop_tail_clist:
  assumes "clist s h xs"
  shows "list_pop_tail h s = (if xs = [] then (None, s) else (Some (last xs), list_del (last xs) s))"
proof (cases "xs = []")
  case False
  moreover have "prv s h = last (h # xs)" using assms clist_split [of s h xs "[]"] by simp
  ultimately show ?thesis
    using list_is_empty_clist [OF assms] by (simp add: list_pop_tail_def Let_def)
qed (use list_is_empty_clist [OF assms] in \<open>simp add: list_pop_tail_def\<close>)

lemma list_move_clist:
  assumes "clist s h (xs @ e # ys)"
  shows "clist (list_move e h s) h (e # xs @ ys)" and "clist (list_move_tail e h s) h (xs @ ys @ [e])"
  using list_add_clist [OF list_unlink_clist [OF assms], of e]
    list_add_tail_clist [OF list_unlink_clist [OF assms], of e] clist_neighbours(3) [OF assms]
  by (simp_all add: list_move_def list_move_tail_def)

lemma list_replace_clist:
  assumes ring: "clist s h (xs @ old # ys)" and new: "new \<notin> set (h # xs @ old # ys)"
  shows "clist (list_replace old new s) h (xs @ new # ys)"
proof -
  note N = clist_neighbours [OF ring]
  have nb: "hd (ys @ [h]) \<in> set (ys @ [h])" "last (h # xs) \<in> set (h # xs)"
    by (rule hd_in_set, simp, rule last_in_set, simp)
  then have "hd (ys @ [h]) \<noteq> new" "last (h # xs) \<noteq> new" "hd (ys @ [h]) \<noteq> old" "last (h # xs) \<noteq> old" "new \<noteq> old"
    using new N(3) by auto
  then have eq: "nxt (list_replace old new s) x = nxt (list_add_between (hd (ys @ [h])) (last (h # xs)) new
        (list_unlink (prv s old) (nxt s old) s)) x \<and>
      prv (list_replace old new s) x = prv (list_add_between (hd (ys @ [h])) (last (h # xs)) new
        (list_unlink (prv s old) (nxt s old) s)) x" if "x \<noteq> old" for x
    using that N(1,2) by (simp add: list_replace_def list_add_between_def list_unlink_def Let_def)
  have "clist (list_add_between (hd (ys @ [h])) (last (h # xs)) new
      (list_unlink (prv s old) (nxt s old) s)) h (xs @ new # ys)"
    using list_unlink_clist [OF ring] new by (intro list_add_between_clist) auto
  then show ?thesis
  proof (rule clist_frame)
    fix x
    assume "x \<in> set (h # xs @ new # ys)"
    then have "x \<noteq> old" using N(3) \<open>new \<noteq> old\<close> by auto
    then show "nxt (list_replace old new s) x = nxt (list_add_between (hd (ys @ [h])) (last (h # xs)) new
        (list_unlink (prv s old) (nxt s old) s)) x \<and>
      prv (list_replace old new s) x = prv (list_add_between (hd (ys @ [h])) (last (h # xs)) new
        (list_unlink (prv s old) (nxt s old) s)) x" by (rule eq)
  qed
qed

lemma for_each_from_linked:
  "linked s (l @ [h]) \<Longrightarrow> h \<notin> set l \<Longrightarrow> l \<noteq> [] \<Longrightarrow> for_each_from h s (hd l) = Some l"
proof (induction l rule: induct_list012)
  case (2 x)
  then show ?case by (simp add: for_each_from.simps)
next
  case (3 x y l)
  then show ?case by (subst for_each_from.simps) auto
qed simp

lemma for_each_back_linked:
  "linked s (h # l) \<Longrightarrow> h \<notin> set l \<Longrightarrow> for_each_back h s (last (h # l)) = Some (rev l)"
proof (induction l rule: rev_induct)
  case Nil
  then show ?case by (simp add: for_each_back.simps)
next
  case (snoc x l)
  then have "linked s (h # l)" "prv s x = last (h # l)"
    using linked_append [of "h # l" "[x]" s] by auto
  with snoc show ?case by (subst for_each_back.simps) auto
qed

lemma list_for_each_clist:
  assumes "clist s h xs"
  shows "list_for_each_entry h s = Some xs" and "list_for_each_entry_reverse h s = Some (rev xs)"
proof -
  have R: "linked s (h # xs)" "linked s (xs @ [h])" "nxt s h = hd (xs @ [h])" "prv s h = last (h # xs)" "h \<notin> set xs"
    using assms clist_split [of s h "[]" xs] clist_split [of s h xs "[]"] by auto
  show "list_for_each_entry h s = Some xs"
  proof (cases "xs = []")
    case True
    with R(3) show ?thesis by (simp add: list_for_each_entry_def for_each_from.simps)
  next
    case False
    with R for_each_from_linked [of s xs h] show ?thesis by (simp add: list_for_each_entry_def)
  qed
  show "list_for_each_entry_reverse h s = Some (rev xs)"
    using for_each_back_linked [OF R(1,5)] R(4) by (simp add: list_for_each_entry_reverse_def)
qed

text \<open>A body that takes the nodes with a property out of the list.\<close>

definition del_if :: "('a \<Rightarrow> bool) \<Rightarrow> 'a \<Rightarrow> 'a links \<Rightarrow> 'a links" where
  "del_if P x s = (if P x then list_del x s else s)"

lemma del_if_clist:
  assumes "clist s h (xs @ e # ys)"
  shows "clist (del_if P e s) h (xs @ filter (\<lambda>x. \<not> P x) [e] @ ys)"
  using assms list_del_clist(1) [OF assms] by (simp add: del_if_def)

lemma for_each_safe_del:
  assumes "clist s h (ds @ xs)"
  shows "\<exists>s'. for_each_safe (del_if P) h (hd (xs @ [h])) (nxt s (hd (xs @ [h]))) s = Some (xs, s') \<and> clist s' h (ds @ filter (\<lambda>x. \<not> P x) xs)"
  using assms
proof (induction xs arbitrary: s ds)
  case Nil
  then show ?case by (subst for_each_safe.simps) simp
next
  case (Cons x xs)
  note N = clist_neighbours [OF Cons.prems]
  have "clist (del_if P x s) h ((ds @ filter (\<lambda>x. \<not> P x) [x]) @ xs)" using del_if_clist [OF Cons.prems, of P] by simp
  from Cons.IH [OF this] show ?case using N(2,4) by (subst for_each_safe.simps) (auto simp: Let_def)
qed

lemma for_each_safe_back_del:
  assumes "clist s h (rev xs @ ds)"
  shows "\<exists>s'. for_each_safe_back (del_if P) h (hd (xs @ [h])) (prv s (hd (xs @ [h]))) s = Some (xs, s') \<and>
    clist s' h (rev (filter (\<lambda>x. \<not> P x) xs) @ ds)"
  using assms
proof (induction xs arbitrary: s ds)
  case Nil
  then show ?case by (subst for_each_safe_back.simps) simp
next
  case (Cons x xs)
  have ring: "clist s h (rev xs @ x # ds)" using Cons.prems by simp
  have "clist (del_if P x s) h (rev xs @ filter (\<lambda>x. \<not> P x) [x] @ ds)" by (rule del_if_clist [OF ring])
  from Cons.IH [OF this] have "\<exists>s'. for_each_safe_back (del_if P) h (hd (xs @ [h])) (prv (del_if P x s) (hd (xs @ [h]))) (del_if P x s) = Some (xs, s') \<and>
    clist s' h (rev (filter (\<lambda>x. \<not> P x) (x # xs)) @ ds)" by (auto split: if_splits)
  moreover have "last (h # rev xs) = hd (xs @ [h])" by (cases xs) simp_all
  ultimately show ?case using clist_neighbours(1,4) [OF ring] by (subst for_each_safe_back.simps) (auto simp: Let_def)
qed

lemma list_for_each_safe_clist:
  assumes "clist s h xs"
  shows "\<exists>s'. list_for_each_entry_safe (del_if P) h s = Some (xs, s') \<and> clist s' h (filter (\<lambda>x. \<not> P x) xs)"
    and "\<exists>s'. list_for_each_entry_safe_reverse (del_if P) h s = Some (rev xs, s') \<and> clist s' h (filter (\<lambda>x. \<not> P x) xs)"
proof -
  have "nxt s h = hd (xs @ [h])" "prv s h = hd (rev xs @ [h])"
    using assms clist_split [of s h "[]" xs] clist_split [of s h xs "[]"] by (auto simp: hd_append hd_rev)
  then show "\<exists>s'. list_for_each_entry_safe (del_if P) h s = Some (xs, s') \<and> clist s' h (filter (\<lambda>x. \<not> P x) xs)"
    and "\<exists>s'. list_for_each_entry_safe_reverse (del_if P) h s = Some (rev xs, s') \<and> clist s' h (filter (\<lambda>x. \<not> P x) xs)"
    using for_each_safe_del [of s h "[]" xs P] for_each_safe_back_del [of s h "rev xs" "[]" P] assms
    by (simp_all add: list_for_each_entry_safe_def list_for_each_entry_safe_reverse_def rev_filter)
qed

lemma list_splice_clist:
  assumes A: "clist s l ys" and B: "clist s h xs" and dis: "set (l # ys) \<inter> set (h # xs) = {}" and "ys \<noteq> []"
  shows "clist (list_splice l h s) h (xs @ ys)"
proof -
  let ?s = "list_splice l h s"
  have RA: "linked s ys" "nxt s l = hd ys" "prv s l = last ys" "distinct ys"
    using A \<open>ys \<noteq> []\<close> clist_split [of s l "[]" ys] clist_split [of s l ys "[]"]
      linked_append [of ys "[l]" s] by (auto simp: clist_def)
  have RB: "linked s (h # xs)" "prv s h = last (h # xs)" "distinct (h # xs)"
    using B clist_split [of s h xs "[]"] by auto
  have m: "hd ys \<in> set ys" "last ys \<in> set ys" "last (h # xs) \<in> set (h # xs)"
    using \<open>ys \<noteq> []\<close> last_in_set [of "h # xs"] by (simp_all del: last.simps)
  then have ne: "hd ys \<noteq> h" "hd ys \<noteq> l" "last (h # xs) \<noteq> l" "last (h # xs) \<noteq> last ys"
    using dis A by (auto simp: clist_def simp del: last.simps)
  have S: "nxt ?s = (nxt s)(last (h # xs) := hd ys, last ys := h)"
    "prv ?s = (prv s)(hd ys := last (h # xs), h := last ys)"
    using RA RB ne by (simp_all add: list_splice_def Let_def del: last.simps)
  have "linked ?s (h # xs) \<longleftrightarrow> linked s (h # xs)"
  proof (rule linked_cong)
    fix x
    assume "x \<in> set (butlast (h # xs))"
    then have "x \<noteq> last (h # xs)" "x \<in> set (h # xs)"
      using last_notin_butlast [OF RB(3)] in_set_butlastD [of x "h # xs"] by blast+
    then show "nxt ?s x = nxt s x" using m(2) dis by (auto simp: S simp del: last.simps)
  next
    fix x
    assume "x \<in> set (tl (h # xs))"
    then show "prv ?s x = prv s x" using RB(3) m(1) dis by (auto simp: S simp del: last.simps)
  qed
  moreover have "linked ?s ys \<longleftrightarrow> linked s ys"
  proof (rule linked_cong)
    fix x
    assume "x \<in> set (butlast ys)"
    then have "x \<noteq> last ys" "x \<in> set ys"
      using last_notin_butlast [OF RA(4) \<open>ys \<noteq> []\<close>] by (auto dest: in_set_butlastD)
    then show "nxt ?s x = nxt s x" using m(3) dis by (auto simp: S simp del: last.simps)
  next
    fix x
    assume "x \<in> set (tl ys)"
    then have "x \<noteq> hd ys" "x \<in> set ys"
      using hd_notin_tl [OF RA(4) \<open>ys \<noteq> []\<close>] list.set_sel(2) [OF \<open>ys \<noteq> []\<close>] by auto
    then show "prv ?s x = prv s x" using dis by (auto simp: S simp del: last.simps)
  qed
  moreover have "linked ?s (ys @ [h]) \<longleftrightarrow> linked ?s ys"
    using linked_append [of ys "[h]" ?s] \<open>ys \<noteq> []\<close> by (simp add: S del: last.simps)
  ultimately show ?thesis
    using RA RB dis A B ne \<open>ys \<noteq> []\<close> by (auto simp: clist_split S simp del: last.simps)
qed

section \<open>The contract\<close>

text \<open>Take \<open>n\<close> elements off one end.\<close>

primrec drain :: "('h \<Rightarrow> 's \<Rightarrow> 'a option \<times> 's) \<Rightarrow> nat \<Rightarrow> 'h \<Rightarrow> 's \<Rightarrow> 'a list \<times> 's" where
  "drain pop 0 h s = ([], s)"
| "drain pop (Suc n) h s =
     (case pop h s of (None, s') \<Rightarrow> ([], s')
      | (Some x, s') \<Rightarrow> (case drain pop n h s' of (xs, s'') \<Rightarrow> (x # xs, s'')))"

locale deque =
  fixes rep :: "'s \<Rightarrow> 'h \<Rightarrow> 'a list \<Rightarrow> bool"
    and push_front :: "'h \<Rightarrow> 'a \<Rightarrow> 's \<Rightarrow> 's"
    and push_back :: "'h \<Rightarrow> 'a \<Rightarrow> 's \<Rightarrow> 's"
    and pop_front :: "'h \<Rightarrow> 's \<Rightarrow> 'a option \<times> 's"
    and pop_back :: "'h \<Rightarrow> 's \<Rightarrow> 'a option \<times> 's"
    and fresh :: "'h \<Rightarrow> 'a \<Rightarrow> bool"
  assumes rep_push_front: "rep s h xs \<Longrightarrow> fresh h x \<Longrightarrow> x \<notin> set xs \<Longrightarrow> rep (push_front h x s) h (x # xs)"
    and rep_push_back: "rep s h xs \<Longrightarrow> fresh h x \<Longrightarrow> x \<notin> set xs \<Longrightarrow> rep (push_back h x s) h (xs @ [x])"
    and pop_front_Nil: "rep s h [] \<Longrightarrow> pop_front h s = (None, s)"
    and pop_front_Cons: "rep s h (x # xs) \<Longrightarrow> \<exists>s'. pop_front h s = (Some x, s') \<and> rep s' h xs"
    and pop_back_Nil: "rep s h [] \<Longrightarrow> pop_back h s = (None, s)"
    and pop_back_snoc: "rep s h (xs @ [x]) \<Longrightarrow> \<exists>s'. pop_back h s = (Some x, s') \<and> rep s' h xs"
begin

lemma drain_front: "rep s h xs \<Longrightarrow> \<exists>s'. drain pop_front (length xs) h s = (xs, s') \<and> rep s' h []"
proof (induction xs arbitrary: s)
  case (Cons x xs)
  then obtain s1 where "pop_front h s = (Some x, s1)" "rep s1 h xs" using pop_front_Cons by blast
  with Cons.IH [of s1] show ?case by auto
qed simp

lemma drain_back: "rep s h xs \<Longrightarrow> \<exists>s'. drain pop_back (length xs) h s = (rev xs, s') \<and> rep s' h []"
proof (induction xs arbitrary: s rule: rev_induct)
  case (snoc x xs)
  then obtain s1 where "pop_back h s = (Some x, s1)" "rep s1 h xs" using pop_back_snoc by blast
  with snoc.IH [of s1] show ?case by auto
qed simp

lemma push_backs:
  "rep s h xs \<Longrightarrow> distinct (xs @ ys) \<Longrightarrow> (\<And>y. y \<in> set ys \<Longrightarrow> fresh h y) \<Longrightarrow>
    rep (fold (push_back h) ys s) h (xs @ ys)"
proof (induction ys arbitrary: s xs)
  case (Cons y ys)
  then have "rep (push_back h y s) h (xs @ [y])" by (intro rep_push_back) auto
  with Cons.IH [of "push_back h y s" "xs @ [y]"] Cons.prems show ?case by auto
qed simp

lemma push_fronts:
  "rep s h xs \<Longrightarrow> distinct (ys @ xs) \<Longrightarrow> (\<And>y. y \<in> set ys \<Longrightarrow> fresh h y) \<Longrightarrow>
    rep (fold (push_front h) ys s) h (rev ys @ xs)"
proof (induction ys arbitrary: s xs)
  case (Cons y ys)
  then have "rep (push_front h y s) h (y # xs)" by (intro rep_push_front) auto
  with Cons.IH [of "push_front h y s" "y # xs"] Cons.prems show ?case by auto
qed simp

end

interpretation kl: deque clist list_add list_add_tail list_pop list_pop_tail "\<lambda>h x. x \<noteq> h"
proof unfold_locales
  fix s and h x :: 'a and xs
  assume "clist s h (x # xs)"
  then show "\<exists>s'. list_pop h s = (Some x, s') \<and> clist s' h xs"
    using list_pop_clist [of s h "x # xs"] list_del_clist(1) [of s h "[]" x xs] by simp
next
  fix s and h x :: 'a and xs
  assume "clist s h (xs @ [x])"
  then show "\<exists>s'. list_pop_tail h s = (Some x, s') \<and> clist s' h xs"
    using list_pop_tail_clist [of s h "xs @ [x]"] list_del_clist(1) [of s h xs x "[]"] by simp
qed (simp_all add: list_add_clist list_add_tail_clist list_pop_clist list_pop_tail_clist)

section \<open>Properties\<close>

text \<open>
  The kernel list is a queue and a stack: nodes added at the tail of a fresh list come
  back from the front in the order they went in, nodes added at the head in the opposite
  order, and in both cases the list is empty afterwards.
\<close>

theorem list_add_pop_order:
  assumes "distinct (h # xs)"
  shows "(\<exists>s'. drain list_pop (length xs) h (fold (list_add_tail h) xs (init_list_head h s)) = (xs, s') \<and>
      clist s' h []) \<and>
    (\<exists>s'. drain list_pop (length xs) h (fold (list_add h) xs (init_list_head h s)) = (rev xs, s') \<and>
      clist s' h [])"
proof -
  have empty: "clist (init_list_head h s) h []" by (simp add: clist_def init_list_head_def)
  have "clist (fold (list_add_tail h) xs (init_list_head h s)) h xs"
    using kl.push_backs [OF empty, of xs] assms by auto
  moreover have "clist (fold (list_add h) xs (init_list_head h s)) h (rev xs)"
    using kl.push_fronts [OF empty, of xs] assms by auto
  ultimately show ?thesis using kl.drain_front by fastforce
qed

theorem list_add_pop_order_witness:
  "\<exists>s'. drain list_pop 3 (0 :: nat) (fold (list_add_tail 0) [5, 7, 6]
    (init_list_head 0 \<lparr>nxt = (\<lambda>_. 1), prv = (\<lambda>_. 2)\<rparr>)) = ([5, 7, 6], s')"
  using list_add_pop_order [of "0 :: nat" "[5, 7, 6]"] by (auto simp: numeral_3_eq_3)

text \<open>
  C22: on a well-formed ring every list operation does to the sequence of nodes what its
  name says, deletion leaves the node a list of its own, both iteration macros visit
  the nodes in order and end, and their safe variants do so too while the body deletes the nodes with some property, which are then
  exactly the ones missing.
\<close>

theorem list_ops_refine:
  assumes "clist s h (xs @ e # ys)" and "new \<notin> set (h # xs @ e # ys)"
  shows "clist (list_add h new s) h (new # xs @ e # ys) \<and>
    clist (list_add_tail h new s) h (xs @ e # ys @ [new]) \<and>
    clist (list_del e s) h (xs @ ys) \<and> clist (list_del e s) e [] \<and>
    clist (list_replace e new s) h (xs @ new # ys) \<and>
    clist (list_move e h s) h (e # xs @ ys) \<and> clist (list_move_tail e h s) h (xs @ ys @ [e]) \<and>
    \<not> list_is_empty h s \<and> (list_is_last e h s \<longleftrightarrow> ys = []) \<and>
    list_for_each_entry h s = Some (xs @ e # ys) \<and>
    list_for_each_entry_reverse h s = Some (rev (xs @ e # ys)) \<and>
    (\<exists>s'. list_for_each_entry_safe (del_if P) h s = Some (xs @ e # ys, s') \<and> clist s' h (filter (\<lambda>x. \<not> P x) (xs @ e # ys))) \<and>
    (\<exists>s'. list_for_each_entry_safe_reverse (del_if P) h s = Some (rev (xs @ e # ys), s') \<and> clist s' h (filter (\<lambda>x. \<not> P x) (xs @ e # ys)))"
proof -
  have "nxt s e = h \<longleftrightarrow> ys = []"
    using clist_neighbours(2) [OF assms(1)] assms(1) by (cases ys) (auto simp: clist_def)
  then show ?thesis
    using list_for_each_safe_clist [OF assms(1), of P] list_add_clist [OF assms(1), of new] list_add_tail_clist [OF assms(1), of new] assms(2)
      list_del_clist [OF assms(1)] list_replace_clist [OF assms] list_move_clist [OF assms(1)]
      list_is_empty_clist [OF assms(1)] list_for_each_clist [OF assms(1)]
    by (simp add: list_is_last_def)
qed

theorem list_ops_refine_witness:
  "clist (list_del 2 (list_add_tail 0 2 (init_list_head (0 :: nat) \<lparr>nxt = id, prv = id\<rparr>))) 0 []"
proof -
  have "clist (init_list_head (0 :: nat) \<lparr>nxt = id, prv = id\<rparr>) 0 []"
    by (simp add: clist_def init_list_head_def)
  then have "clist (list_add_tail 0 2 (init_list_head (0 :: nat) \<lparr>nxt = id, prv = id\<rparr>)) 0 ([] @ 2 # [])"
    using list_add_tail_clist [of _ "0 :: nat" "[]" 2] by simp
  from list_ops_refine [OF this, of 1] show ?thesis by simp
qed

end
