(* ===== verification/PageTable.thy ===== *)
theory PageTable
  imports Memblock
begin

text \<open>
  The page-table code of mm/n_vm.c with the macros of include/asm/mmu.h and
  include/memlayout.h: walking and extending the three-level table, translating a
  virtual address, mapping ranges, creating and freeing a table. A table is a page
  of 2048 eight-byte entries in byte memory; the ghost tree \<open>T\<close> maps the path of
  indices from the root to the page that holds that table. The theory shows that
  \<open>map_single_page\<close> changes the translation of one page and of no other, that a
  mapped range translates page by page, and that freeing a tree gives every one of
  its pages back to the allocator.
\<close>

section \<open>Definitions\<close>

definition PXSHIFT :: "nat \<Rightarrow> nat" where
  "PXSHIFT level = 14 + 11 * level"

definition PX :: "nat \<Rightarrow> u64 \<Rightarrow> u64" where
  "PX level va = drop_bit (PXSHIFT level) va AND 0x7ff"

definition PAMASK :: u64 where
  "PAMASK = push_bit 14 0xFFFFFFFFF"

definition PTE2PA :: "u64 \<Rightarrow> u64" where
  "PTE2PA pte = pte AND PAMASK"

definition PA2PTE :: "u64 \<Rightarrow> u64" where
  "PA2PTE pa = pa AND PAMASK"

definition PTE_FLAGS :: "u64 \<Rightarrow> u64" where
  "PTE_FLAGS pte = pte AND 0xE0000000000001FF"

definition PTE_V :: u64 where
  "PTE_V = push_bit 0 1"

definition MAIN_KERNEL_DMW :: u64 where
  "MAIN_KERNEL_DMW = 0x9000000000000000"

definition PA2VA :: "u64 \<Rightarrow> u64" where
  "PA2VA pa = pa OR MAIN_KERNEL_DMW"

definition MAXVA :: u64 where
  "MAXVA = push_bit 47 1"

text \<open>
  The walk of \<open>__map_single_page\<close>: the loop counts \<open>level\<close> down to 1. An empty entry
  gets a new zeroed page; the entries of the upper levels are used as pointers as
  they are. The result of the walk is the last-level table.
\<close>

fun map_walk :: "nat \<Rightarrow> u64 \<Rightarrow> u64 \<Rightarrow> mm \<Rightarrow> (u64 \<times> mm) kres" where
  "map_walk 0 va iter_pagetable s = Inr (iter_pagetable, s)"
| "map_walk (Suc l) va iter_pagetable s =
     (let a = iter_pagetable + 8 * PX (Suc l) va in
      kbind (if load64 (mem s) a = 0 then
               kbind (kmalloc 16384 s) (\<lambda>(new_pagetable, s1).
                 let m = fst (memset (mem s1) new_pagetable 0 PGSIZE) in
                 Inr (s1\<lparr>mem := store64 m a new_pagetable\<rparr>))
             else Inr s)
        (\<lambda>s1. map_walk l va (load64 (mem s1) a) s1))"

definition map_single_page :: "u64 \<Rightarrow> u64 \<Rightarrow> u64 \<Rightarrow> u64 \<Rightarrow> mm \<Rightarrow> (i32 \<times> mm) kres" where
  "map_single_page pagetable va pa perm s =
     kbind (map_walk 2 va pagetable s) (\<lambda>(iter_pagetable, s1).
       let a = iter_pagetable + 8 * PX 0 va in
       Inr (0, s1\<lparr>mem := store64 (mem s1) a
                 (PA2PTE pa OR PTE_FLAGS (load64 (mem s1) a) OR perm)\<rparr>))"

text \<open>\<open>va_to_pte_pointer\<close>: the loop of the walk, with \<open>None\<close> for the early return of 0.\<close>

fun pte_walk :: "nat \<Rightarrow> u64 \<Rightarrow> bool \<Rightarrow> u64 \<Rightarrow> mm \<Rightarrow> (u64 option \<times> mm) kres" where
  "pte_walk 0 va alloc pagetable s = Inr (Some pagetable, s)"
| "pte_walk (Suc l) va alloc pagetable s =
     (let pte = pagetable + 8 * PX (Suc l) va in
      if load64 (mem s) pte \<noteq> 0
      then pte_walk l va alloc (PA2VA (PTE2PA (load64 (mem s) pte))) s
      else if \<not> alloc then Inr (None, s)
      else kbind (kmalloc 16384 s) (\<lambda>(new, s1).
        if new = 0 then Inr (None, s1)
        else let m = fst (memset (mem s1) new 0 PGSIZE) in
             pte_walk l va alloc new (s1\<lparr>mem := store64 m pte (PA2PTE new OR PTE_V)\<rparr>)))"

definition va_to_pte_pointer :: "u64 \<Rightarrow> u64 \<Rightarrow> bool \<Rightarrow> mm \<Rightarrow> (u64 \<times> mm) kres" where
  "va_to_pte_pointer pagetable va alloc s =
     (if va \<ge> MAXVA then Inl (Panic ''walk'')
      else kbind (pte_walk 2 va alloc (PA2VA pagetable) s) (\<lambda>(r, s1).
        case r of None \<Rightarrow> Inr (0, s1) | Some t \<Rightarrow> Inr (t + 8 * PX 0 va, s1)))"

definition va_to_pa :: "u64 \<Rightarrow> u64 \<Rightarrow> mm \<Rightarrow> u64 kres" where
  "va_to_pa pagetable va s =
     (let offset = va mod PGSIZE; va = va - offset in
      if va \<ge> MAXVA then Inr 0
      else kbind (va_to_pte_pointer pagetable va False s) (\<lambda>(pte, s1).
        if pte = 0 then Inr 0
        else if load64 (mem s1) pte AND PTE_V = 0 then Inr 0
        else Inr (PTE2PA (load64 (mem s1) pte) + offset)))"

text \<open>
  The loop \<open>for (vac = va_start; vac <= va_end; vac += PGSIZE)\<close>. It does not end when
  \<open>va_end\<close> is the last page of the address space.
\<close>

partial_function (option) map_pages_loop ::
    "u64 \<Rightarrow> u64 \<Rightarrow> u64 \<Rightarrow> u64 \<Rightarrow> u64 \<Rightarrow> mm \<Rightarrow> mm kres option" where
  "map_pages_loop pagetable vac va_end pa_map perm s =
     (if vac \<le> va_end then
        (case map_single_page pagetable vac pa_map perm s of
           Inl e \<Rightarrow> Some (Inl e)
         | Inr (r, s1) \<Rightarrow>
             map_pages_loop pagetable (vac + PGSIZE) va_end (pa_map + PGSIZE) perm s1)
      else Some (Inr s))"

definition map_pages :: "u64 \<Rightarrow> u64 \<Rightarrow> u64 \<Rightarrow> u64 \<Rightarrow> u64 \<Rightarrow> mm \<Rightarrow> (i32 \<times> mm) kres option" where
  "map_pages pagetable va sz pa perm s =
     map_option (\<lambda>r. kbind r (\<lambda>s1. Inr (0, s1)))
       (map_pages_loop pagetable (PGROUNDDOWN va) (PGROUNDDOWN (va + sz - 1)) (PGROUNDDOWN pa) perm s)"

definition pgtbl_create :: "mm \<Rightarrow> (u64 \<times> mm) kres" where
  "pgtbl_create s =
     kbind (kmalloc 16384 s) (\<lambda>(pgtbl, s1).
       if pgtbl \<noteq> 0 then Inr (pgtbl, s1\<lparr>mem := fst (memset (mem s1) pgtbl 0 PGSIZE)\<rparr>)
       else Inr (0, s1))"

text \<open>\<open>free_pagetable\<close>: children first, then the table itself.\<close>

primrec free_pagetable :: "nat \<Rightarrow> u64 \<Rightarrow> mm \<Rightarrow> mm kres" where
  "free_pagetable 0 pgtbl s = kfree pgtbl s"
| "free_pagetable (Suc level) pgtbl s =
     kbind (kfold (\<lambda>i s. let it_pgtb = load64 (mem s) (pgtbl + 8 * of_nat i) in
                      if it_pgtb \<noteq> 0 then free_pagetable level it_pgtb s else Inr s)
              [0..<2048] s)
       (kfree pgtbl)"

text \<open>
  The ghost view of a table tree. \<open>idx\<close> is an index as a number, \<open>vpath\<close> the indices
  from level \<open>l\<close> down to level 1, \<open>vpn\<close> the 33-bit virtual page number. \<open>pt_wf\<close> says
  that the tree \<open>T\<close> rooted at \<open>r\<close> is what memory holds above the last level;
  \<open>pte_of\<close> reads the last-level entry of an address.
\<close>

definition dmw_page :: "u64 \<Rightarrow> bool" where
  "dmw_page p \<longleftrightarrow> page_aligned p \<and> PA2VA (PTE2PA p) = p"

definition idx :: "nat \<Rightarrow> u64 \<Rightarrow> nat" where
  "idx level va = unat (PX level va)"

primrec vpath :: "nat \<Rightarrow> u64 \<Rightarrow> nat list" where
  "vpath 0 va = []"
| "vpath (Suc l) va = idx (Suc l) va # vpath l va"

definition vpn :: "u64 \<Rightarrow> nat" where
  "vpn va = unat va div 16384 mod 8589934592"

type_synonym pt_tree = "nat list \<Rightarrow> u64 option"

definition ent :: "u64 \<Rightarrow> nat \<Rightarrow> u64" where
  "ent t i = t + of_nat (8 * i)"

definition pt_wf :: "mem \<Rightarrow> u64 \<Rightarrow> pt_tree \<Rightarrow> bool" where
  "pt_wf m r T \<longleftrightarrow> T [] = Some r \<and>
     (\<forall>p i. p @ [i] \<in> dom T \<longrightarrow> p \<in> dom T \<and> i < 2048 \<and> length p < 2) \<and>
     inj_on T (dom T) \<and> (\<forall>t\<in>ran T. dmw_page t) \<and>
     (\<forall>p t i. T p = Some t \<longrightarrow> length p < 2 \<longrightarrow> i < 2048 \<longrightarrow>
        load64 m (ent t i) = (case T (p @ [i]) of None \<Rightarrow> 0 | Some b \<Rightarrow> b))"

definition pte_of :: "mem \<Rightarrow> pt_tree \<Rightarrow> u64 \<Rightarrow> u64" where
  "pte_of m T va = (case T (vpath 2 va) of None \<Rightarrow> 0
     | Some t \<Rightarrow> load64 m (ent t (idx 0 va)))"

definition as_inv :: "mm \<Rightarrow> u64 \<Rightarrow> pt_tree \<Rightarrow> u64 list \<Rightarrow> bool" where
  "as_inv s r T xs \<longleftrightarrow> mm_inv s xs \<and> pt_wf (mem s) r T \<and> ran T \<inter> set xs = {} \<and>
     (\<forall>x\<in>set xs. dmw_page x)"

section \<open>Indices and entries\<close>

lemma PX_unat: "unat (PX level va) = unat va div 2 ^ PXSHIFT level mod 2048"
proof -
  have "PX level va = drop_bit (PXSHIFT level) va AND mask 11"
    by (simp add: PX_def mask_eq_exp_minus_1)
  then have "unat (PX level va) = unat (drop_bit (PXSHIFT level) va) mod 2048"
    by (simp add: unat_and_mask)
  moreover have "unat (drop_bit n va) = unat va div 2 ^ n" for n
    by (simp only: unsigned_drop_bit_eq drop_bit_nat_def) (simp add: take_bit_nat_eq_self)
  ultimately show ?thesis by simp
qed

lemma idx_eq: "idx level va = unat va div 2 ^ PXSHIFT level mod 2048"
  by (simp add: idx_def PX_unat)

lemma idx_lt [simp]: "idx level va < 2048"
  by (simp add: idx_eq)

lemma entry_addr: "t + 8 * PX level va = ent t (idx level va)"
  by (simp add: idx_def ent_def)

lemma base_unique:
  fixes x x' y y' n :: nat
  assumes "x < n" and "x' < n"
  shows "x + n * y = x' + n * y' \<longleftrightarrow> x = x' \<and> y = y'"
proof
  assume eq: "x + n * y = x' + n * y'"
  then have "(x + n * y) mod n = (x' + n * y') mod n" "(x + n * y) div n = (x' + n * y') div n"
    by simp_all
  with assms show "x = x' \<and> y = y'" by simp
qed simp

lemma digits_eq_iff:
  fixes a b :: nat
  shows "a mod 2048 = b mod 2048 \<and> a div 2048 mod 2048 = b div 2048 mod 2048 \<and>
      a div 4194304 mod 2048 = b div 4194304 mod 2048 \<longleftrightarrow> a mod 8589934592 = b mod 8589934592"
proof -
  have dig: "c mod 8589934592 =
      c mod 2048 + 2048 * (c div 2048 mod 2048 + 2048 * (c div 4194304 mod 2048))" for c :: nat
    using mod_mult2_eq [of c 2048 4194304] mod_mult2_eq [of "c div 2048" 2048 2048]
    by (simp add: div_mult2_eq [of c 2048 2048, simplified])
  have mod_lt: "c mod 2048 < 2048" for c :: nat by simp
  show ?thesis
    unfolding dig base_unique [of "a mod 2048" 2048 "b mod 2048", OF mod_lt mod_lt]
      base_unique [of "a div 2048 mod 2048" 2048 "b div 2048 mod 2048", OF mod_lt mod_lt]
    by (rule refl)
qed

lemma vpath_2: "vpath 2 va = [idx 2 va, idx 1 va]"
  by (simp add: numeral_2_eq_2)

lemma vpn_eq_iff:
  "vpn va = vpn va' \<longleftrightarrow> vpath 2 va = vpath 2 va' \<and> idx 0 va = idx 0 va'"
proof -
  have "unat v div 33554432 = unat v div 16384 div 2048"
    "unat v div 68719476736 = unat v div 16384 div 4194304" for v :: u64
    by (simp_all flip: div_mult2_eq)
  then show ?thesis
    by (auto simp: vpn_def idx_eq PXSHIFT_def vpath_2 digits_eq_iff [symmetric])
qed

lemma dmw_pageD:
  assumes "dmw_page p"
  shows "page_aligned p" and "PA2VA (PTE2PA p) = p" and "PA2VA p = p" and "p \<noteq> 0"
proof -
  show "page_aligned p" and eq: "PA2VA (PTE2PA p) = p"
    using assms by (simp_all add: dmw_page_def)
  have "PA2VA (PA2VA (PTE2PA p)) = PA2VA (PTE2PA p)" by (simp add: PA2VA_def or.assoc)
  with eq show "PA2VA p = p" by simp
  from eq have "(PTE2PA p OR MAIN_KERNEL_DMW) AND MAIN_KERNEL_DMW = p AND MAIN_KERNEL_DMW"
    by (simp add: PA2VA_def)
  moreover have "(x OR y) AND y = y" for x y :: u64
    by (rule bit_word_eqI) (auto simp: bit_simps)
  ultimately show "p \<noteq> 0" by (auto simp: MAIN_KERNEL_DMW_def)
qed

lemma entry_in_page:
  "i < 2048 \<Longrightarrow> in_region (ent t i) 8 a \<Longrightarrow> in_page t a"
  unfolding ent_def by (erule in_page_word) simp

lemma entry_offset:
  assumes "in_region (ent t i) 8 a" and "i < 2048"
  shows "unat (a - t) div 8 = i"
proof -
  define d where "d = a - ent t i"
  have u: "unat (of_nat (8 * i) :: u64) = 8 * i" and d: "unat d < 8"
    using assms by (simp_all only: unat_of_nat_64 d_def in_region_def)
  have "a - t = d + of_nat (8 * i)" by (simp add: d_def ent_def)
  then have "unat (a - t) = unat (d + of_nat (8 * i))" by (simp only:)
  also have "\<dots> = unat d + 8 * i"
    using assms(2) u d by (subst unat_plus_64) (simp_all del: of_nat_mult)
  finally show ?thesis using d by simp
qed

lemma entry_load_store:
  assumes "page_aligned t" and "page_aligned u" and "i < 2048" and "j < 2048" and "t \<noteq> u \<or> i \<noteq> j"
  shows "load64 (store64 m (ent t i) v) (ent u j) =
    load64 m (ent u j)"
proof (rule load64_store64_disjoint)
  fix x
  assume x: "in_region (ent u j) 8 x"
  show "\<not> in_region (ent t i) 8 x"
  proof
    assume y: "in_region (ent t i) 8 x"
    then have "t = u"
      using x assms entry_in_page by (blast intro: in_page_unique)
    with x y assms show False
      using entry_offset by metis
  qed
qed

lemma entry_load_cong:
  assumes "\<And>a. in_page t a \<Longrightarrow> m a = m' a" and "i < 2048"
  shows "load64 m (ent t i) = load64 m' (ent t i)"
  using assms entry_in_page by (intro load64_cong) blast

lemma entry_store_out:
  assumes "\<not> in_page t a" and "i < 2048"
  shows "store64 m (ent t i) v a = m a"
  using assms entry_in_page by (intro store64_out) blast

lemma load64_zero:
  assumes "\<And>a. in_region p 8 a \<Longrightarrow> m a = 0"
  shows "load64 m p = 0"
proof -
  have "load64 m p = load64 (\<lambda>_. 0) p" using assms by (rule load64_cong)
  also have "\<dots> = 0" by (simp add: load64_def read_bytes_def upt_rec)
  finally show ?thesis .
qed

lemma PTE2PA_unat: "unat (PTE2PA x) mod 16384 = 0" "unat (PTE2PA x) < 1125899906842624"
proof -
  have bits: "bit (PTE2PA x) n \<longleftrightarrow> bit x n \<and> 14 \<le> n \<and> n < 50" for n
  proof -
    have mask: "PAMASK = push_bit 14 (mask 36)" by (simp add: PAMASK_def mask_eq_exp_minus_1)
    show ?thesis unfolding PTE2PA_def mask by (auto simp: bit_simps)
  qed
  have "PTE2PA x AND mask 14 = 0"
    by (rule bit_word_eqI) (auto simp: bits bit_simps)
  then have "unat (PTE2PA x AND mask 14) = 0" by simp
  then show "unat (PTE2PA x) mod 16384 = 0" by (simp add: unat_and_mask)
  have "PTE2PA x AND mask 50 = PTE2PA x"
    by (rule bit_word_eqI) (auto simp: bits bit_simps)
  then have "unat (PTE2PA x) = unat (PTE2PA x) mod 2 ^ 50" using unat_and_mask [of "PTE2PA x" 50] by simp
  also have "\<dots> < 2 ^ 50" by (rule mod_less_divisor) simp
  finally show "unat (PTE2PA x) < 1125899906842624" by simp
qed

lemma PA2VA_add:
  assumes "unat x < 1152921504606846976"
  shows "PA2VA x = x + MAIN_KERNEL_DMW" and "unat (PA2VA x) = unat x + 10376293541461622784"
proof -
  have eq: "x = x AND mask 60"
  proof (rule unsigned_word_eqI)
    show "unat x = unat (x AND mask 60)" using assms by (simp add: unat_and_mask)
  qed
  have D: "MAIN_KERNEL_DMW = push_bit 60 9" by (simp add: MAIN_KERNEL_DMW_def)
  have "x AND MAIN_KERNEL_DMW = 0"
    unfolding D by (subst eq, rule bit_word_eqI)
      (simp only: bit_and_iff bit_push_bit_iff bit_mask_iff bit_0_eq, auto)
  then show sum: "PA2VA x = x + MAIN_KERNEL_DMW"
    by (simp add: PA2VA_def disjunctive_add_eq_or)
  show "unat (PA2VA x) = unat x + 10376293541461622784"
    using assms unfolding sum by (subst unat_plus_64) (simp_all add: MAIN_KERNEL_DMW_def)
qed

lemma PTE2PA_PA2VA:
  assumes "unat x mod 16384 = 0" and "unat x < 1125899906842624"
  shows "PTE2PA (PA2VA x) = x"
proof -
  have "unat (x AND mask 14) = 0" using assms(1) by (simp add: unat_and_mask)
  then have "x AND mask 14 = 0" by (simp add: unat_eq_0)
  then have lo: "x = x AND NOT (mask 14)" using and_not_mask_plus [of x 14] by simp
  have hi: "x = x AND mask 50"
    using assms(2) by (simp add: word_unat_eq_iff unat_and_mask)
  have "x = (x AND NOT (mask 14)) AND mask 50" using hi unfolding lo [symmetric] .
  then have "x = x AND NOT (mask 14) AND mask 50" by (simp only: and.assoc)
  moreover have "MAIN_KERNEL_DMW = push_bit 60 9" "PAMASK = push_bit 14 (mask 36)"
    by (simp_all add: MAIN_KERNEL_DMW_def PAMASK_def mask_eq_exp_minus_1)
  moreover have "(y AND NOT (mask 14) AND mask 50 OR push_bit 60 9) AND push_bit 14 (mask 36) =
     (y AND NOT (mask 14) AND mask 50 :: u64)" for y
    by (rule bit_word_eqI)
      (simp only: bit_and_iff bit_or_iff bit_not_iff bit_push_bit_iff bit_mask_iff, auto)
  ultimately show ?thesis unfolding PTE2PA_def PA2VA_def by metis
qed

section \<open>Extending a table tree\<close>

lemma pt_wfD:
  assumes "pt_wf m r T"
  shows "T [] = Some r"
    and "\<And>p i t. T (p @ [i]) = Some t \<Longrightarrow> p \<in> dom T \<and> i < 2048 \<and> length p < 2"
    and "\<And>p q t. T p = Some t \<Longrightarrow> T q = Some t \<Longrightarrow> p = q"
    and "\<And>p t. T p = Some t \<Longrightarrow> dmw_page t \<and> page_aligned t \<and> t \<noteq> 0"
    and "\<And>p t i. T p = Some t \<Longrightarrow> length p < 2 \<Longrightarrow> i < 2048 \<Longrightarrow>
      load64 m (ent t i) = (case T (p @ [i]) of None \<Rightarrow> 0 | Some b \<Rightarrow> b)"
proof -
  show "T [] = Some r" using assms by (simp add: pt_wf_def)
  show "p \<in> dom T \<and> i < 2048 \<and> length p < 2" if "T (p @ [i]) = Some t" for p i t
    using assms that unfolding pt_wf_def by blast
  have "inj_on T (dom T)" using assms by (simp add: pt_wf_def)
  then show "p = q" if "T p = Some t" "T q = Some t" for p q t
    using that by (metis domI inj_onD)
  show "dmw_page t \<and> page_aligned t \<and> t \<noteq> 0" if "T p = Some t" for p t
  proof -
    have "t \<in> ran T" using that by (rule ranI)
    with assms have "dmw_page t" by (simp add: pt_wf_def)
    then show ?thesis by (simp add: dmw_pageD)
  qed
  show "load64 m (ent t i) = (case T (p @ [i]) of None \<Rightarrow> 0 | Some b \<Rightarrow> b)"
    if "T p = Some t" "length p < 2" "i < 2048" for p t i
    using assms that by (simp add: pt_wf_def)
qed

lemma pt_wf_extend:
  assumes wf: "pt_wf m r T" and t: "T p = Some t" and p: "length p < 2" and i: "i < 2048"
    and none: "T (p @ [i]) = None" and n: "dmw_page n" "n \<notin> ran T"
    and m': "\<And>a. m' a = (if in_page n a then 0 else m a)"
  shows "pt_wf (store64 m' (ent t i) n) r (T(p @ [i] \<mapsto> n))"
    and "pte_of (store64 m' (ent t i) n) (T(p @ [i] \<mapsto> n)) va = pte_of m T va"
proof -
  let ?T = "T(p @ [i] \<mapsto> n)" and ?m = "store64 m' (ent t i) n"
  note D = pt_wfD [OF wf]
  have fresh: "u \<noteq> n" if "T q = Some u" for q u
    using that n(2) by (auto intro: ranI)
  have old: "load64 ?m (ent u j) = load64 m (ent u j)"
    if "T q = Some u" "j < 2048" "q \<noteq> p \<or> j \<noteq> i" for q u j
  proof -
    have "u \<noteq> t \<or> j \<noteq> i" using D(3) t that by blast
    then have "load64 ?m (ent u j) = load64 m' (ent u j)"
      using D(4) t that i by (intro entry_load_store) auto
    also have "\<dots> = load64 m (ent u j)"
    proof (rule entry_load_cong [OF _ that(2)])
      fix a assume "in_page u a"
      then have "\<not> in_page n a"
        using fresh D(4) that(1) n(1) by (metis dmw_pageD(1) in_page_unique)
      then show "m' a = m a" by (simp add: m')
    qed
    finally show ?thesis .
  qed
  have new: "load64 ?m (ent n j) = 0" if "j < 2048" for j
  proof -
    have "load64 ?m (ent n j) = load64 m' (ent n j)"
      using D(4) t that i fresh n(1) dmw_pageD(1) by (intro entry_load_store) blast+
    also have "\<dots> = 0"
      using entry_in_page [OF that] by (intro load64_zero) (simp add: m')
    finally show ?thesis .
  qed
  have leaf: "T (p @ i # js) = None" for js
  proof (cases js rule: rev_cases)
    case Nil
    with none show ?thesis by simp
  next
    case (snoc ks k)
    show ?thesis
    proof (rule ccontr)
      assume "T (p @ i # js) \<noteq> None"
      then obtain u where "T ((p @ i # ks) @ [k]) = Some u" using snoc by auto
      then have "length (p @ i # ks) < 2" and "p @ i # ks \<in> dom T" using D(2) by blast+
      then have "p = []" "ks = []" using p by auto
      with \<open>p @ i # ks \<in> dom T\<close> none show False by auto
    qed
  qed
  have fresh_path: "q \<noteq> p @ [i]" if "T q = Some u" for q u
    using that none by auto
  show "pt_wf ?m r ?T"
    unfolding pt_wf_def
  proof (intro conjI allI impI ballI)
    show "?T [] = Some r" using D(1) by simp
    fix q j
    assume "q @ [j] \<in> dom ?T"
    then show "q \<in> dom ?T" and "j < 2048" and "length q < 2"
      using D(2) t p i by (auto split: if_splits)
  next
    show "inj_on ?T (dom ?T)"
    proof (rule inj_onI)
      fix q q'
      assume q: "q \<in> dom ?T" "q' \<in> dom ?T" "?T q = ?T q'"
      show "q = q'"
      proof (cases "q = p @ [i] \<or> q' = p @ [i]")
        case True
        with q fresh [of q n] fresh [of q' n] show ?thesis by (auto split: if_splits)
      next
        case False
        with q obtain u where "T q = Some u" "T q' = Some u" by auto
        then show ?thesis by (rule D(3))
      qed
    qed
  next
    fix u
    assume "u \<in> ran ?T"
    then show "dmw_page u" using D(4) n none by (auto simp: ran_def split: if_splits)
  next
    fix q u and j :: nat
    assume q: "?T q = Some u" "length q < 2" "j < 2048"
    show "load64 ?m (ent u j) = (case ?T (q @ [j]) of None \<Rightarrow> 0 | Some b \<Rightarrow> b)"
    proof (cases "q = p @ [i]")
      case True
      with q have "u = n" by simp
      with True q(3) leaf [of "[j]"] show ?thesis by (simp add: new)
    next
      case False
      with q have "T q = Some u" by simp
      with old [of q u j] D(5) [of q u j] q t show ?thesis
        by (cases "q = p \<and> j = i") auto
    qed
  qed
  show "pte_of ?m ?T va = pte_of m T va"
  proof (cases "vpath 2 va = p @ [i]")
    case True
    with none show ?thesis by (simp add: pte_of_def new)
  next
    case False
    have "vpath 2 va \<noteq> p" using p by (auto simp: vpath_2)
    with False old [of "vpath 2 va"] show ?thesis
      by (auto simp: pte_of_def split: option.splits)
  qed
qed

section \<open>The walks\<close>

lemma as_invD:
  assumes "as_inv s r T xs"
  shows "mm_inv s xs" and "pt_wf (mem s) r T" and "ran T \<inter> set xs = {}"
    and "\<And>x. x \<in> set xs \<Longrightarrow> dmw_page x"
  using assms by (auto simp: as_inv_def)

text \<open>One allocation of the walk: the new table is zeroed and linked in.\<close>

lemma link_new_table:
  assumes inv: "as_inv s r T (x # xs)" and t: "T p = Some t" and p: "length p < 2"
    and i: "i < 2048" and none: "T (p @ [i]) = None"
  shows "\<exists>s1. kmalloc 16384 s = Inr (x, s1) \<and>
    (let s2 = s1\<lparr>mem := store64 (fst (memset (mem s1) x 0 PGSIZE)) (ent t i) x\<rparr>;
         T' = T(p @ [i] \<mapsto> x)
     in as_inv s2 r T' xs \<and> (\<forall>va. pte_of (mem s2) T' va = pte_of (mem s) T va) \<and>
        (\<forall>a. (\<forall>u\<in>ran T'. \<not> in_page u a) \<longrightarrow> mem s2 a = mem s a))"
proof -
  note I = as_invD [OF inv]
  obtain s1 where s1: "kalloc_page_memblock s = Inr (x, s1)" "mm_inv s1 xs"
    "\<And>a. mem s1 a = (if in_page x a then 5 else mem s a)"
    using kalloc_Cons [OF I(1)] by blast
  let ?m = "fst (memset (mem s1) x 0 PGSIZE)"
  let ?s2 = "s1\<lparr>mem := store64 ?m (ent t i) x\<rparr>" and ?T = "T(p @ [i] \<mapsto> x)"
  have m: "?m a = (if in_page x a then 0 else mem s a)" for a
    by (simp add: memset_page s1(3))
  have x: "dmw_page x" "x \<notin> ran T" "x \<notin> set xs"
    using I kp.pages_ok [OF I(1)] by auto
  have ranT: "ran ?T = insert x (ran T)" using none by (simp add: ran_map_upd)
  note ext = pt_wf_extend [OF I(2) t p i none x(1,2), of ?m, OF m]
  have tal: "page_aligned t" "t \<in> ran T" using pt_wfD(4) [OF I(2) t] ranI [of T, OF t] by auto
  have "mm_inv (s1\<lparr>mem := store64 ?m (ent t i) x\<rparr>) xs"
  proof (rule mm_inv_frame [OF s1(2)])
    fix y a
    assume y: "y \<in> set xs" "in_page y a"
    have "page_aligned y" and "y \<noteq> t" and "y \<noteq> x" and "page_aligned x"
      using I(3) I(4) y(1) x tal(2) by (auto simp: dmw_pageD)
    then have "\<not> in_page t a" "\<not> in_page x a" using y(2) tal(1) in_page_unique by blast+
    with i show "store64 ?m (ent t i) x a = mem s1 a"
      by (simp add: entry_store_out m s1(3))
  qed
  then have "as_inv ?s2 r ?T xs"
    using ext(1) ranT I(3) I(4) x(3) by (auto simp: as_inv_def)
  moreover have "mem ?s2 a = mem s a" if "\<forall>u\<in>ran ?T. \<not> in_page u a" for a
    using that ranT tal(2) i by (simp add: entry_store_out m)
  ultimately show ?thesis
    using s1(1) ext(2) by (auto simp: kmalloc_page Let_def)
qed

text \<open>What a successful walk leaves behind: \<open>zs\<close> are the pages it took from the free list.\<close>

definition walk_post :: "mm \<Rightarrow> u64 \<Rightarrow> pt_tree \<Rightarrow> u64 list \<Rightarrow> mm \<Rightarrow> pt_tree \<Rightarrow> u64 list \<Rightarrow> bool" where
  "walk_post s r T xs s' T' zs \<longleftrightarrow>
     as_inv s' r T' (drop (length zs) xs) \<and> zs = take (length zs) xs \<and> length zs \<le> length xs \<and>
     T \<subseteq>\<^sub>m T' \<and> ran T' = ran T \<union> set zs \<and>
     (\<forall>va. pte_of (mem s') T' va = pte_of (mem s) T va) \<and>
     (\<forall>a. (\<forall>u\<in>ran T'. \<not> in_page u a) \<longrightarrow> mem s' a = mem s a)"

lemma walk_post_refl: "as_inv s r T xs \<Longrightarrow> walk_post s r T xs s T []"
  by (simp add: walk_post_def)

lemma walk_post_Cons:
  assumes "walk_post s1 r T1 xs s' T' zs" and "T \<subseteq>\<^sub>m T1" and "ran T1 = insert x (ran T)"
    and "\<And>va. pte_of (mem s1) T1 va = pte_of (mem s) T va"
    and "\<And>a. (\<forall>u\<in>ran T1. \<not> in_page u a) \<Longrightarrow> mem s1 a = mem s a"
  shows "walk_post s r T (x # xs) s' T' (x # zs)"
  using assms unfolding walk_post_def by (auto intro: map_le_trans)

lemma map_walk_ok:
  assumes "as_inv s r T xs" and "T p = Some t" and "length p + l = 2" and "l \<le> length xs"
  shows "\<exists>t0 s' T' zs. map_walk l va t s = Inr (t0, s') \<and> walk_post s r T xs s' T' zs \<and>
    T' (p @ vpath l va) = Some t0 \<and> length zs \<le> l"
  using assms
proof (induction l arbitrary: s T xs p t)
  case 0
  then show ?case using walk_post_refl by fastforce
next
  case (Suc l)
  note I = as_invD [OF Suc.prems(1)]
  let ?i = "idx (Suc l) va"
  have p: "length p < 2" using Suc.prems(3) by simp
  note load = pt_wfD(5) [OF I(2) Suc.prems(2) p, of ?i]
  show ?case
  proof (cases "T (p @ [?i])")
    case None
    obtain x ys where xs: "xs = x # ys" using Suc.prems(4) by (cases xs) auto
    obtain s1 where s1: "kmalloc 16384 s = Inr (x, s1)"
      and s2: "let s2 = s1\<lparr>mem := store64 (fst (memset (mem s1) x 0 PGSIZE)) (ent t ?i) x\<rparr>;
         T' = T(p @ [?i] \<mapsto> x)
       in as_inv s2 r T' ys \<and> (\<forall>va. pte_of (mem s2) T' va = pte_of (mem s) T va) \<and>
        (\<forall>a. (\<forall>u\<in>ran T'. \<not> in_page u a) \<longrightarrow> mem s2 a = mem s a)"
      using link_new_table [of s r T x ys p t ?i] Suc.prems p xs None by auto
    let ?s2 = "s1\<lparr>mem := store64 (fst (memset (mem s1) x 0 PGSIZE)) (ent t ?i) x\<rparr>"
    let ?T = "T(p @ [?i] \<mapsto> x)"
    have "as_inv ?s2 r ?T ys" using s2 by (simp add: Let_def)
    moreover have "?T (p @ [?i]) = Some x" by simp
    moreover have "length (p @ [?i]) + l = 2" "l \<le> length ys" using Suc.prems(3,4) xs by simp_all
    ultimately obtain t0 s' T' zs where IH: "map_walk l va x ?s2 = Inr (t0, s')"
      "walk_post ?s2 r ?T ys s' T' zs" "T' ((p @ [?i]) @ vpath l va) = Some t0" "length zs \<le> l"
      using Suc.IH by blast
    have "walk_post s r T (x # ys) s' T' (x # zs)"
      using s2 None by (intro walk_post_Cons [OF IH(2)])
        (simp_all add: Let_def map_le_def dom_def ran_map_upd)
    moreover have "map_walk (Suc l) va t s = Inr (t0, s')"
      using load None s1 IH(1) by (simp add: entry_addr Let_def)
    ultimately show ?thesis using IH(3,4) xs by fastforce
  next
    case (Some u)
    then obtain t0 s' T' zs where IH: "map_walk l va u s = Inr (t0, s')" "walk_post s r T xs s' T' zs"
      "T' ((p @ [?i]) @ vpath l va) = Some t0" "length zs \<le> l"
      using Suc.IH [of s T xs "p @ [?i]" u] Suc.prems by auto
    moreover have "map_walk (Suc l) va t s = map_walk l va u s"
      using load Some pt_wfD(4) [OF I(2) Some] by (simp add: entry_addr Let_def)
    ultimately show ?thesis by fastforce
  qed
qed

lemma pte_walk_lookup:
  assumes "pt_wf (mem s) r T" and "T p = Some t" and "length p + l = 2"
  shows "pte_walk l va False t s = Inr (T (p @ vpath l va), s)"
  using assms(2,3)
proof (induction l arbitrary: p t)
  case (Suc l)
  let ?i = "idx (Suc l) va"
  have "length p < 2" using Suc.prems(2) by simp
  note load = pt_wfD(5) [OF assms(1) Suc.prems(1) this, of ?i]
  show ?case
  proof (cases "T (p @ [?i])")
    case None
    have "T (p @ ?i # vpath l va) = None"
    proof (cases l)
      case (Suc k)
      with Suc.prems have "p = []" "k = 0" by auto
      with None Suc pt_wfD(2) [OF assms(1), of "[?i]" "idx 1 va"] show ?thesis
        by (cases "T [?i, idx 1 va]") auto
    qed (use None in simp)
    with load None show ?thesis by (simp add: entry_addr Let_def)
  next
    case (Some u)
    then have "PA2VA (PTE2PA u) = u" "u \<noteq> 0" using pt_wfD(4) [OF assms(1)] dmw_pageD by blast+
    with load Some Suc.IH [OF Some] Suc.prems show ?thesis by (simp add: entry_addr Let_def)
  qed
qed simp

lemma va_to_pte_pointer_lookup:
  assumes "pt_wf (mem s) r T" and "va < MAXVA"
  shows "va_to_pte_pointer r va False s =
    Inr (case T (vpath 2 va) of None \<Rightarrow> 0 | Some t \<Rightarrow> ent t (idx 0 va), s)"
proof -
  have "PA2VA r = r" using pt_wfD(1,4) [OF assms(1)] dmw_pageD(3) by blast
  moreover have "pte_walk 2 va False r s = Inr (T (vpath 2 va), s)"
    using pte_walk_lookup [OF assms(1) pt_wfD(1) [OF assms(1)], of 2 va] by simp
  ultimately show ?thesis
    using assms(2) by (simp add: va_to_pte_pointer_def entry_addr not_le split: option.split)
qed

lemma ent_nonzero:
  assumes "page_aligned t" and "t \<noteq> 0" and "i < 2048"
  shows "ent t i \<noteq> 0"
proof
  assume "ent t i = 0"
  then have "in_page t 0"
    using entry_in_page [OF assms(3), of t 0] by (simp add: in_region_def)
  then show False
    using assms(1,2) in_page_unique [of t 0 0] by (auto simp: in_page_def in_region_def page_aligned_def)
qed

lemma page_base:
  "va - va mod PGSIZE = PGROUNDDOWN va" "vpn (PGROUNDDOWN va) = vpn va"
proof -
  have u: "unat (va mod PGSIZE) = unat va mod 16384" by (simp add: unat_mod PGSIZE_def)
  have "unat (va - va mod PGSIZE) = unat (PGROUNDDOWN va)"
    by (simp add: word_sub_unat u PGROUNDDOWN_unat)
  then show "va - va mod PGSIZE = PGROUNDDOWN va" by (rule unsigned_word_eqI)
  show "vpn (PGROUNDDOWN va) = vpn va"
    by (simp add: vpn_def PGROUNDDOWN_unat minus_mod_eq_mult_div)
qed

lemma pte_of_vpn: "vpn va = vpn va' \<Longrightarrow> pte_of m T va = pte_of m T va'"
  by (simp add: vpn_eq_iff pte_of_def split: option.split)

lemma va_to_pa_eq:
  assumes "pt_wf (mem s) r T"
  shows "va_to_pa r va s = Inr
    (if PGROUNDDOWN va \<ge> MAXVA \<or> pte_of (mem s) T va AND PTE_V = 0 then 0
     else PTE2PA (pte_of (mem s) T va) + va mod PGSIZE)"
proof (cases "PGROUNDDOWN va \<ge> MAXVA")
  case True
  then show ?thesis by (simp add: va_to_pa_def page_base)
next
  case False
  then have ptr: "va_to_pte_pointer r (PGROUNDDOWN va) False s =
      Inr (case T (vpath 2 (PGROUNDDOWN va)) of None \<Rightarrow> 0 | Some t \<Rightarrow> ent t (idx 0 (PGROUNDDOWN va)), s)"
    using assms by (intro va_to_pte_pointer_lookup) auto
  have pte: "pte_of (mem s) T va = pte_of (mem s) T (PGROUNDDOWN va)"
    by (rule pte_of_vpn) (simp add: page_base)
  show ?thesis
  proof (cases "T (vpath 2 (PGROUNDDOWN va))")
    case None
    with False ptr pte show ?thesis
      by (simp add: va_to_pa_def page_base pte_of_def Let_def)
  next
    case (Some t)
    then have "ent t (idx 0 (PGROUNDDOWN va)) \<noteq> 0"
      using pt_wfD(4) [OF assms Some] by (simp add: ent_nonzero)
    with False ptr pte Some show ?thesis
      by (simp add: va_to_pa_def page_base pte_of_def Let_def)
  qed
qed

lemma pt_wf_frame:
  assumes "pt_wf m r T" and "\<And>u a. u \<in> ran T \<Longrightarrow> in_page u a \<Longrightarrow> m' a = m a"
  shows "pt_wf m' r T" and "pte_of m' T va = pte_of m T va"
proof -
  have eq: "load64 m' (ent t i) = load64 m (ent t i)" if "T p = Some t" "i < 2048" for p t i
    using assms(2) ranI [of T, OF that(1)] that(2) by (intro entry_load_cong) auto
  then show "pt_wf m' r T" using assms(1) by (simp add: pt_wf_def)
  show "pte_of m' T va = pte_of m T va"
    by (auto simp: pte_of_def eq split: option.splits)
qed

text \<open>Writing a last-level entry.\<close>

lemma pt_wf_set_pte:
  assumes wf: "pt_wf m r T" and t: "T (vpath 2 va) = Some t"
  shows "pt_wf (store64 m (ent t (idx 0 va)) v) r T"
    and "pte_of (store64 m (ent t (idx 0 va)) v) T va' = (if vpn va' = vpn va then v else pte_of m T va')"
proof -
  note D = pt_wfD [OF wf]
  let ?m = "store64 m (ent t (idx 0 va)) v"
  have other: "load64 ?m (ent u j) = load64 m (ent u j)"
    if "T q = Some u" "j < 2048" "q \<noteq> vpath 2 va \<or> j \<noteq> idx 0 va" for q u j
  proof (rule entry_load_store)
    show "t \<noteq> u \<or> idx 0 va \<noteq> j" using that t D(3) by metis
  qed (use D(4) t that in auto)
  have "load64 ?m (ent u j) = load64 m (ent u j)" if "T q = Some u" "length q < 2" "j < 2048" for q u j
    using that by (intro other [of q]) (auto simp: vpath_2)
  then show "pt_wf ?m r T" using wf by (simp add: pt_wf_def)
  show "pte_of ?m T va' = (if vpn va' = vpn va then v else pte_of m T va')"
  proof (cases "vpn va' = vpn va")
    case True
    with t show ?thesis by (simp add: pte_of_def vpn_eq_iff)
  next
    case False
    then show ?thesis
      using other [of "vpath 2 va'"] by (auto simp: pte_of_def vpn_eq_iff split: option.splits)
  qed
qed

lemma map_single_page_ok:
  assumes inv: "as_inv s r T xs" and "2 \<le> length xs"
  shows "\<exists>s' T' zs. map_single_page r va pa perm s = Inr (0, s') \<and>
    as_inv s' r T' (drop (length zs) xs) \<and> zs = take (length zs) xs \<and> length zs \<le> 2 \<and>
    T \<subseteq>\<^sub>m T' \<and> ran T' = ran T \<union> set zs \<and>
    (\<forall>va'. pte_of (mem s') T' va' =
       (if vpn va' = vpn va then PA2PTE pa OR PTE_FLAGS (pte_of (mem s) T va) OR perm
        else pte_of (mem s) T va')) \<and>
    (\<forall>a. (\<forall>u\<in>ran T'. \<not> in_page u a) \<longrightarrow> mem s' a = mem s a)"
proof -
  obtain t0 s1 T' zs where W: "map_walk 2 va r s = Inr (t0, s1)" "walk_post s r T xs s1 T' zs"
    "T' (vpath 2 va) = Some t0" "length zs \<le> 2"
    using map_walk_ok [OF inv pt_wfD(1) [OF as_invD(2) [OF inv]], of 2 va] assms(2) by auto
  have inv1: "as_inv s1 r T' (drop (length zs) xs)" using W(2) by (simp add: walk_post_def)
  note I = as_invD [OF inv1]
  let ?a = "ent t0 (idx 0 va)"
  let ?v = "PA2PTE pa OR PTE_FLAGS (load64 (mem s1) ?a) OR perm"
  let ?s = "s1\<lparr>mem := store64 (mem s1) ?a ?v\<rparr>"
  have t0: "t0 \<in> ran T'" "page_aligned t0"
    using W(3) pt_wfD(4) [OF I(2) W(3)] by (auto intro: ranI)
  have pte: "load64 (mem s1) ?a = pte_of (mem s) T va"
    using W(2,3) unfolding walk_post_def by (metis option.simps(5) pte_of_def)
  have "mm_inv ?s (drop (length zs) xs)"
  proof (rule mm_inv_frame [OF I(1)])
    fix y a
    assume "y \<in> set (drop (length zs) xs)" "in_page y a"
    then have "\<not> in_page t0 a" using I(3,4) t0 dmw_pageD(1) in_page_unique by blast
    then show "store64 (mem s1) ?a ?v a = mem s1 a" by (simp add: entry_store_out)
  qed
  then have "as_inv ?s r T' (drop (length zs) xs)"
    using I pt_wf_set_pte(1) [OF I(2) W(3)] by (simp add: as_inv_def)
  moreover have "pte_of (mem ?s) T' va' =
      (if vpn va' = vpn va then ?v else pte_of (mem s) T va')" for va'
    using pt_wf_set_pte(2) [OF I(2) W(3)] W(2) by (simp add: walk_post_def)
  moreover have "mem ?s a = mem s a" if "\<forall>u\<in>ran T'. \<not> in_page u a" for a
    using that t0(1) W(2) by (simp add: entry_store_out walk_post_def)
  moreover have "map_single_page r va pa perm s = Inr (0, ?s)"
    using W(1) by (simp add: map_single_page_def entry_addr Let_def)
  ultimately show ?thesis
    using W(2,4) unfolding pte walk_post_def by blast
qed

section \<open>Mapping ranges\<close>

definition pg :: "u64 \<Rightarrow> nat" where
  "pg va = unat va div 16384"

lemma MAXVA_unat: "unat MAXVA = 140737488355328"
  by (simp add: MAXVA_def)

lemma vpn_pg: "va < MAXVA \<Longrightarrow> vpn va = pg va"
proof -
  assume "va < MAXVA"
  then have "unat va < 140737488355328" by (simp add: word_less_nat_alt MAXVA_unat)
  then have "unat va div 16384 < 8589934592" by linarith
  then show ?thesis by (simp add: vpn_def pg_def)
qed

lemma map_pages_loop_ok:
  assumes "as_inv s r T xs" and "page_aligned vac" and "unat va_end = unat vac + k * 16384"
    and "va_end < MAXVA" and "2 * Suc k \<le> length xs"
  shows "\<exists>s' T' ys zs. map_pages_loop r vac va_end pa perm s = Some (Inr s') \<and>
    as_inv s' r T' ys \<and> xs = zs @ ys \<and> T \<subseteq>\<^sub>m T' \<and> ran T' = ran T \<union> set zs \<and>
    (\<forall>va<MAXVA. pte_of (mem s') T' va =
       (if pg vac \<le> pg va \<and> pg va \<le> pg vac + k
        then PA2PTE (pa + of_nat ((pg va - pg vac) * 16384)) OR PTE_FLAGS (pte_of (mem s) T va) OR perm
        else pte_of (mem s) T va)) \<and>
    (\<forall>a. (\<forall>u\<in>ran T'. \<not> in_page u a) \<longrightarrow> mem s' a = mem s a)"
  using assms
proof (induction k arbitrary: s T xs vac pa)
  case 0
  then have eq: "vac = va_end" by (simp add: word_unat_eq_iff)
  obtain s1 T1 zs where M: "map_single_page r vac pa perm s = Inr (0, s1)"
    "as_inv s1 r T1 (drop (length zs) xs)" "zs = take (length zs) xs"
    "T \<subseteq>\<^sub>m T1" "ran T1 = ran T \<union> set zs"
    "\<And>va'. pte_of (mem s1) T1 va' = (if vpn va' = vpn vac
       then PA2PTE pa OR PTE_FLAGS (pte_of (mem s) T vac) OR perm else pte_of (mem s) T va')"
    "\<And>a. (\<forall>u\<in>ran T1. \<not> in_page u a) \<Longrightarrow> mem s1 a = mem s a"
    using map_single_page_ok [OF 0(1), of vac pa perm] 0(5) by auto
  have "\<not> vac + PGSIZE \<le> va_end"
    using page_aligned_plus(2) [OF 0(2)] eq 0(4)
    by (simp add: word_le_nat_alt word_less_nat_alt MAXVA_unat)
  then have "map_pages_loop r vac va_end pa perm s = Some (Inr s1)"
    using eq M(1) by (simp add: map_pages_loop.simps)
  moreover have "pte_of (mem s1) T1 va = (if pg vac \<le> pg va \<and> pg va \<le> pg vac + 0
        then PA2PTE (pa + of_nat ((pg va - pg vac) * 16384)) OR PTE_FLAGS (pte_of (mem s) T va) OR perm
        else pte_of (mem s) T va)" if "va < MAXVA" for va
    using M(6) that 0(4) eq pte_of_vpn [of va vac "mem s" T] by (auto simp: vpn_pg)
  moreover have "xs = zs @ drop (length zs) xs" using M(3) by (metis append_take_drop_id)
  ultimately show ?case using M(2,4,5,7) by blast
next
  case (Suc k)
  obtain s1 T1 zs where M: "map_single_page r vac pa perm s = Inr (0, s1)"
    "as_inv s1 r T1 (drop (length zs) xs)" "zs = take (length zs) xs" "length zs \<le> 2"
    "T \<subseteq>\<^sub>m T1" "ran T1 = ran T \<union> set zs"
    "\<And>va'. pte_of (mem s1) T1 va' = (if vpn va' = vpn vac
       then PA2PTE pa OR PTE_FLAGS (pte_of (mem s) T vac) OR perm else pte_of (mem s) T va')"
    "\<And>a. (\<forall>u\<in>ran T1. \<not> in_page u a) \<Longrightarrow> mem s1 a = mem s a"
    using map_single_page_ok [OF Suc.prems(1), of vac pa perm] Suc.prems(5) by auto
  have top: "unat va_end < 140737488355328"
    using Suc.prems(4) by (simp add: word_less_nat_alt MAXVA_unat)
  note nxt = page_aligned_plus [OF Suc.prems(2)]
  have un: "unat (vac + PGSIZE) = unat vac + 16384" and al: "page_aligned (vac + PGSIZE)"
    using nxt top Suc.prems(3) by simp_all
  have pgn: "pg (vac + PGSIZE) = Suc (pg vac)" by (simp add: pg_def un)
  have "vac < MAXVA" using top Suc.prems(3) by (simp add: word_less_nat_alt MAXVA_unat)
  have rest: "unat va_end = unat (vac + PGSIZE) + k * 16384" using Suc.prems(3) un by simp
  have sub: "2 * Suc k \<le> length (drop (length zs) xs)" using Suc.prems(5) M(4) by simp
  obtain s' T' ys zs' where R: "map_pages_loop r (vac + PGSIZE) va_end (pa + PGSIZE) perm s1 = Some (Inr s')"
    "as_inv s' r T' ys" "drop (length zs) xs = zs' @ ys" "T1 \<subseteq>\<^sub>m T'" "ran T' = ran T1 \<union> set zs'"
    "\<And>va. va < MAXVA \<Longrightarrow> pte_of (mem s') T' va =
       (if Suc (pg vac) \<le> pg va \<and> pg va \<le> Suc (pg vac) + k
        then PA2PTE (pa + PGSIZE + of_nat ((pg va - Suc (pg vac)) * 16384)) OR
             PTE_FLAGS (pte_of (mem s1) T1 va) OR perm
        else pte_of (mem s1) T1 va)"
    "\<And>a. (\<forall>u\<in>ran T'. \<not> in_page u a) \<Longrightarrow> mem s' a = mem s1 a"
    using Suc.IH [OF M(2) al rest Suc.prems(4) sub, of "pa + PGSIZE", unfolded pgn] by blast
  have "vac \<le> va_end" using Suc.prems(3) by (simp add: word_le_nat_alt)
  then have "map_pages_loop r vac va_end pa perm s = Some (Inr s')"
    using M(1) R(1) by (simp add: map_pages_loop.simps [of r vac])
  moreover have "pte_of (mem s') T' va = (if pg vac \<le> pg va \<and> pg va \<le> pg vac + Suc k
        then PA2PTE (pa + of_nat ((pg va - pg vac) * 16384)) OR PTE_FLAGS (pte_of (mem s) T va) OR perm
        else pte_of (mem s) T va)" if va: "va < MAXVA" for va
  proof (cases "pg va = pg vac")
    case True
    then have "vpn va = vpn vac" using va \<open>vac < MAXVA\<close> by (simp add: vpn_pg)
    with True M(7) R(6) [OF va] pte_of_vpn [of va vac "mem s" T] show ?thesis by simp
  next
    case False
    then have "vpn va \<noteq> vpn vac" using va \<open>vac < MAXVA\<close> by (simp add: vpn_pg)
    then have s1: "pte_of (mem s1) T1 va = pte_of (mem s) T va" by (simp add: M(7))
    have step: "pa + PGSIZE + of_nat ((pg va - Suc (pg vac)) * 16384) =
        pa + of_nat ((pg va - pg vac) * 16384)" if "Suc (pg vac) \<le> pg va"
    proof -
      from that obtain d where "pg va = Suc (pg vac) + d" using le_Suc_ex by blast
      then show ?thesis by (simp add: PGSIZE_def algebra_simps)
    qed
    show ?thesis
    proof (cases "Suc (pg vac) \<le> pg va")
      case True
      then show ?thesis unfolding R(6) [OF va] s1 step [OF True] by simp
    next
      case not_above: False
      with False show ?thesis unfolding R(6) [OF va] s1 by simp
    qed
  qed
  moreover have "xs = (zs @ zs') @ ys" using M(3) R(3) by (metis append.assoc append_take_drop_id)
  moreover have "T \<subseteq>\<^sub>m T'" using M(5) R(4) by (rule map_le_trans)
  moreover have "ran T' = ran T \<union> set (zs @ zs')" using M(6) R(5) by auto
  moreover have "\<forall>a. (\<forall>u\<in>ran T'. \<not> in_page u a) \<longrightarrow> mem s' a = mem s a"
    using M(8) R(5,7) by auto
  ultimately show ?case using R(2) by blast
qed

lemma pt_wf_root:
  assumes "dmw_page x" and "\<And>i. i < 2048 \<Longrightarrow> load64 m (ent x i) = 0"
  shows "pt_wf m x [[] \<mapsto> x]"
  unfolding pt_wf_def
proof (intro conjI allI impI)
  fix p :: "nat list" and t and i :: nat
  assume "[[] \<mapsto> x] p = Some t" "length p < 2" "i < 2048"
  then show "load64 m (ent t i) = (case [[] \<mapsto> x] (p @ [i]) of None \<Rightarrow> 0 | Some b \<Rightarrow> b)"
    using assms(2) by (simp split: if_splits)
qed (use assms(1) in simp_all)

lemma pgtbl_create_ok:
  assumes "mm_inv s (x # xs)" and "\<And>y. y \<in> set (x # xs) \<Longrightarrow> dmw_page y"
  shows "\<exists>s'. pgtbl_create s = Inr (x, s') \<and> as_inv s' x [[] \<mapsto> x] xs \<and>
    (\<forall>va. pte_of (mem s') [[] \<mapsto> x] va = 0) \<and> (\<forall>a. \<not> in_page x a \<longrightarrow> mem s' a = mem s a)"
proof -
  obtain s1 where s1: "kalloc_page_memblock s = Inr (x, s1)" "mm_inv s1 xs"
    "\<And>a. mem s1 a = (if in_page x a then 5 else mem s a)"
    using kalloc_Cons [OF assms(1)] by blast
  let ?m = "fst (memset (mem s1) x 0 PGSIZE)"
  have x: "dmw_page x" "x \<noteq> 0" "page_aligned x" "x \<notin> set xs"
    using assms(2) [of x] kp.pages_ok [OF assms(1)] by (simp_all add: dmw_pageD)
  have m: "?m a = (if in_page x a then 0 else mem s a)" for a by (simp add: memset_page s1(3))
  have "mm_inv (s1\<lparr>mem := ?m\<rparr>) xs"
  proof (rule mm_inv_frame [OF s1(2)])
    fix y a
    assume "y \<in> set xs" "in_page y a"
    then have "page_aligned y" "y \<noteq> x" using x(4) assms(2) [of y] by (auto simp: dmw_pageD)
    then have "\<not> in_page x a" using x(3) \<open>in_page y a\<close> in_page_unique by blast
    then show "?m a = mem s1 a" by (simp add: m s1(3))
  qed
  moreover have "load64 ?m (ent x i) = 0" if "i < 2048" for i
    using entry_in_page [OF that] by (intro load64_zero) (simp add: m)
  ultimately have "as_inv (s1\<lparr>mem := ?m\<rparr>) x [[] \<mapsto> x] xs"
    using x assms(2) pt_wf_root [of x ?m] by (simp add: as_inv_def)
  moreover have "pgtbl_create s = Inr (x, s1\<lparr>mem := ?m\<rparr>)"
    using s1(1) x(2) by (simp add: pgtbl_create_def kmalloc_page)
  ultimately show ?thesis by (auto simp: m pte_of_def vpath_2)
qed

section \<open>Freeing a table tree\<close>

text \<open>The pages of the subtree at a path.\<close>

definition subtree :: "pt_tree \<Rightarrow> nat list \<Rightarrow> u64 set" where
  "subtree T p = {t. \<exists>q. T (p @ q) = Some t}"

lemma subtree_children:
  assumes "pt_wf m r T" and "T p = Some t"
  shows "subtree T p = insert t (\<Union>i<2048. subtree T (p @ [i]))"
proof (intro equalityI subsetI)
  fix u
  assume "u \<in> subtree T p"
  then obtain q where q: "T (p @ q) = Some u" by (auto simp: subtree_def)
  have *: "i < 2048" if "T (p @ i # q') = Some u" for i q'
  proof -
    have "p @ [i] \<in> dom T" using that
    proof (induction q' arbitrary: u rule: rev_induct)
      case (snoc k ks)
      then have "T ((p @ i # ks) @ [k]) = Some u" by simp
      then have "p @ i # ks \<in> dom T" using pt_wfD(2) [OF assms(1)] by blast
      then show ?case using snoc.IH by blast
    qed auto
    then show ?thesis using pt_wfD(2) [OF assms(1)] by blast
  qed
  show "u \<in> insert t (\<Union>i<2048. subtree T (p @ [i]))"
  proof (cases q)
    case Nil
    with q assms(2) show ?thesis by simp
  next
    case (Cons i q')
    with q * [of i q'] show ?thesis by (auto simp: subtree_def)
  qed
next
  fix u
  assume "u \<in> insert t (\<Union>i<2048. subtree T (p @ [i]))"
  with assms(2) show "u \<in> subtree T p" unfolding subtree_def
    by (auto intro: exI [of _ "[]"])
qed

lemma subtree_None:
  assumes "pt_wf m r T" and "T p = None"
  shows "subtree T p = {}"
proof -
  have "T (p @ q) = None" for q
  proof (induction q rule: rev_induct)
    case (snoc k ks)
    then show ?case
      using pt_wfD(2) [OF assms(1), of "p @ ks" k] by (cases "T (p @ ks @ [k])") auto
  qed (use assms(2) in simp)
  then show ?thesis by (simp add: subtree_def)
qed

lemma subtree_disjoint:
  assumes "pt_wf m r T" and "T p = Some t" and "i \<noteq> j"
  shows "t \<notin> subtree T (p @ [i])" and "subtree T (p @ [i]) \<inter> subtree T (p @ [j]) = {}"
proof -
  show "t \<notin> subtree T (p @ [i])"
    using pt_wfD(3) [OF assms(1,2)] by (force simp: subtree_def)
  show "subtree T (p @ [i]) \<inter> subtree T (p @ [j]) = {}"
  proof (rule ccontr)
    assume "subtree T (p @ [i]) \<inter> subtree T (p @ [j]) \<noteq> {}"
    then obtain u q q' where "T (p @ i # q) = Some u" "T (p @ j # q') = Some u"
      by (auto simp: subtree_def)
    then have "p @ i # q = p @ j # q'" by (rule pt_wfD(3) [OF assms(1)])
    with assms(3) show False by simp
  qed
qed

lemma subtree_pages: "pt_wf m r T \<Longrightarrow> u \<in> subtree T p \<Longrightarrow> page_aligned u \<and> u \<noteq> 0"
  using pt_wfD(4) by (fastforce simp: subtree_def)

text \<open>A call has given back the pages \<open>P\<close> and touched nothing else.\<close>

definition freed :: "u64 set \<Rightarrow> mm \<Rightarrow> u64 list \<Rightarrow> mm kres \<Rightarrow> bool" where
  "freed P s xs res \<longleftrightarrow> (\<exists>s' fs. res = Inr s' \<and> mm_inv s' (fs @ xs) \<and> set fs = P \<and>
     (\<forall>a. (\<forall>u\<in>P. \<not> in_page u a) \<longrightarrow> mem s' a = mem s a))"

lemma freed_kbind:
  assumes "freed P s xs res" and "\<And>s' fs. mm_inv s' (fs @ xs) \<Longrightarrow> set fs = P \<Longrightarrow>
      (\<And>a. (\<forall>u\<in>P. \<not> in_page u a) \<Longrightarrow> mem s' a = mem s a) \<Longrightarrow> freed Q s' (fs @ xs) (f s')"
  shows "freed (P \<union> Q) s xs (kbind res f)"
proof -
  obtain s1 fs where s1: "res = Inr s1" "mm_inv s1 (fs @ xs)" "set fs = P"
    "\<And>a. (\<forall>u\<in>P. \<not> in_page u a) \<Longrightarrow> mem s1 a = mem s a"
    using assms(1) unfolding freed_def by blast
  then obtain s2 gs where s2: "f s1 = Inr s2" "mm_inv s2 (gs @ fs @ xs)" "set gs = Q"
    "\<And>a. (\<forall>u\<in>Q. \<not> in_page u a) \<Longrightarrow> mem s2 a = mem s1 a"
    using assms(2) [of s1 fs] unfolding freed_def by blast
  have "mem s2 a = mem s a" if "\<forall>u\<in>P \<union> Q. \<not> in_page u a" for a
    using that s1(4) s2(4) by auto
  then show ?thesis
    using s1 s2 unfolding freed_def by (intro exI [of _ s2] exI [of _ "gs @ fs"]) auto
qed

lemma freed_kfree:
  assumes "mm_inv s xs" and "page_aligned p" and "p \<noteq> 0" and "p \<notin> set xs"
  shows "freed {p} s xs (kfree p s)"
  using kfree_inv [OF assms] unfolding freed_def by (metis append_Cons append_Nil list.simps(15) set_empty singletonI)

lemma subtree_root: "pt_wf m r T \<Longrightarrow> T p = Some t \<Longrightarrow> t \<notin> subtree T (p @ [i])"
  using subtree_disjoint(1) [of m r T p t i "Suc i"] by simp

text \<open>The loop over the entries of one table, for any call that frees one subtree.\<close>

lemma free_children:
  assumes wf: "pt_wf m r T" and t: "T p = Some t" and p: "length p < 2"
    and free: "\<And>i u s1 ys. T (p @ [i]) = Some u \<Longrightarrow> mm_inv s1 ys \<Longrightarrow>
      subtree T (p @ [i]) \<inter> set ys = {} \<Longrightarrow>
      (\<And>v a. v \<in> subtree T (p @ [i]) \<Longrightarrow> in_page v a \<Longrightarrow> mem s1 a = m a) \<Longrightarrow>
      freed (subtree T (p @ [i])) s1 ys (g u s1)"
    and inv: "mm_inv s xs" "subtree T p \<inter> set xs = {}"
    and agree: "\<And>u a. u \<in> subtree T p \<Longrightarrow> in_page u a \<Longrightarrow> mem s a = m a"
  shows "n \<le> 2048 \<Longrightarrow> freed (\<Union>i<n. subtree T (p @ [i])) s xs
    (kfold (\<lambda>i s. let it = load64 (mem s) (t + 8 * of_nat i) in if it \<noteq> 0 then g it s else Inr s)
       [0..<n] s)" (is "_ \<Longrightarrow> freed (?P n) s xs (kfold ?f _ s)")
proof (induction n)
  case 0
  with inv(1) show ?case by (auto simp: freed_def intro: exI [of _ "[]"])
next
  case (Suc n)
  note kids = subtree_children [OF wf t]
  have "freed (?P n \<union> subtree T (p @ [n])) s xs (kbind (kfold ?f [0..<n] s) (kfold ?f [n]))"
  proof (rule freed_kbind)
    show "freed (?P n) s xs (kfold ?f [0..<n] s)" using Suc by simp
    fix s1 fs
    assume s1: "mm_inv s1 (fs @ xs)" "set fs = ?P n"
      "\<And>a. (\<forall>u\<in>?P n. \<not> in_page u a) \<Longrightarrow> mem s1 a = mem s a"
    have n: "n < 2048" and below: "?P n \<subseteq> subtree T p" "subtree T (p @ [n]) \<subseteq> subtree T p"
      using Suc.prems kids by auto
    have keep: "mem s1 a = m a" if u: "u \<in> subtree T p" "u \<notin> ?P n" "in_page u a" for u a
    proof -
      have "\<not> in_page v a" if "v \<in> ?P n" for v
      proof -
        have "page_aligned u" "page_aligned v" "u \<noteq> v"
          using u(1,2) that below(1) subtree_pages [OF wf] by blast+
        with u(3) show ?thesis using in_page_unique by blast
      qed
      then have "mem s1 a = mem s a" by (intro s1(3)) blast
      with agree u show ?thesis by metis
    qed
    have "load64 (mem s1) (ent t n) = load64 m (ent t n)"
      using keep [of t] kids subtree_root [OF wf t] by (intro entry_load_cong [OF _ n]) simp
    then have load: "load64 (mem s1) (t + 8 * of_nat n) = (case T (p @ [n]) of None \<Rightarrow> 0 | Some b \<Rightarrow> b)"
      using pt_wfD(5) [OF wf t p n] by (simp add: ent_def)
    have disj: "subtree T (p @ [n]) \<inter> ?P n = {}"
      using subtree_disjoint(2) [OF wf t, of n] by (metis (no_types, lifting) Int_UN_distrib
        SUP_bot_conv(2) lessThan_iff less_irrefl)
    show "freed (subtree T (p @ [n])) s1 (fs @ xs) (kfold ?f [n] s1)"
    proof (cases "T (p @ [n])")
      case None
      then have "subtree T (p @ [n]) = {}" by (rule subtree_None [OF wf])
      with load None s1(1) show ?thesis by (auto simp: freed_def intro: exI [of _ "[]"])
    next
      case (Some u)
      have "freed (subtree T (p @ [n])) s1 (fs @ xs) (g u s1)"
      proof (rule free [OF Some s1(1)])
        show "subtree T (p @ [n]) \<inter> set (fs @ xs) = {}"
          using s1(2) disj below(2) inv(2) by auto
        show "mem s1 a = m a" if "v \<in> subtree T (p @ [n])" "in_page v a" for v a
          using keep [of v a] that disj below(2) by blast
      qed
      moreover have "kfold ?f [n] s1 = g u s1"
        using load Some pt_wfD(4) [OF wf Some] by (cases "g u s1") simp_all
      ultimately show ?thesis by simp
    qed
  qed
  then show ?case by (simp add: kfold_append lessThan_Suc Un_commute)
qed

lemma free_pagetable_ok:
  assumes wf: "pt_wf m r T"
  shows "T p = Some t \<Longrightarrow> length p + l = 2 \<Longrightarrow> mm_inv s xs \<Longrightarrow> subtree T p \<inter> set xs = {} \<Longrightarrow>
    (\<And>u a. u \<in> subtree T p \<Longrightarrow> in_page u a \<Longrightarrow> mem s a = m a) \<Longrightarrow>
    freed (subtree T p) s xs (free_pagetable l t s)"
proof (induction l arbitrary: p t s xs)
  case 0
  have "subtree T (p @ [i]) = {}" for i
  proof (rule ccontr)
    assume "subtree T (p @ [i]) \<noteq> {}"
    then obtain q u where q: "T (p @ i # q) = Some u" by (auto simp: subtree_def)
    obtain k ks where ks: "i # q = ks @ [k]" by (metis append_butlast_last_id list.distinct(1))
    have "T ((p @ ks) @ [k]) = Some u" using q unfolding ks by simp
    then have "length (p @ ks) < 2" using pt_wfD(2) [OF wf] by blast
    with 0 show False by simp
  qed
  then have "subtree T p = {t}" using subtree_children [OF wf 0(1)] by simp
  with 0 pt_wfD(4) [OF wf 0(1)] show ?case by (simp add: freed_kfree)
next
  case (Suc l)
  let ?f = "\<lambda>i s. let it_pgtb = load64 (mem s) (t + 8 * of_nat i) in
                    if it_pgtb \<noteq> 0 then free_pagetable l it_pgtb s else Inr s"
  have "freed (\<Union>i<2048. subtree T (p @ [i])) s xs (kfold ?f [0..<2048] s)"
  proof (rule free_children [OF wf Suc.prems(1) _ _ Suc.prems(3-5) order_refl])
    show "length p < 2" using Suc.prems(2) by simp
    fix i u s1 ys
    assume "T (p @ [i]) = Some u" "mm_inv s1 ys" "subtree T (p @ [i]) \<inter> set ys = {}"
      "\<And>v a. v \<in> subtree T (p @ [i]) \<Longrightarrow> in_page v a \<Longrightarrow> mem s1 a = m a"
    then show "freed (subtree T (p @ [i])) s1 ys (free_pagetable l u s1)"
      using Suc.prems(2) by (intro Suc.IH) auto
  qed
  then have "freed ((\<Union>i<2048. subtree T (p @ [i])) \<union> {t}) s xs (kbind (kfold ?f [0..<2048] s) (kfree t))"
  proof (rule freed_kbind)
    fix s1 fs
    assume "mm_inv s1 (fs @ xs)" "set fs = (\<Union>i<2048. subtree T (p @ [i]))"
    moreover have "t \<in> subtree T p" using subtree_children [OF wf Suc.prems(1)] by blast
    ultimately show "freed {t} s1 (fs @ xs) (kfree t s1)"
      using Suc.prems(4) pt_wfD(4) [OF wf Suc.prems(1)] subtree_root [OF wf Suc.prems(1)]
      by (intro freed_kfree) auto
  qed
  then show ?case by (simp add: subtree_children [OF wf Suc.prems(1)])
qed

section \<open>The translation of new entries\<close>

lemma user_va: "va < MAXVA \<Longrightarrow> \<not> PGROUNDDOWN va \<ge> MAXVA"
  by (simp add: word_less_nat_alt word_le_nat_alt PGROUNDDOWN_unat MAXVA_unat)

text \<open>The pages of a non-empty range of user addresses.\<close>

lemma page_range:
  fixes va sz :: u64
  assumes "0 < unat sz" and "unat va + unat sz \<le> 2 ^ 47"
  shows "pg va \<le> pg (va + sz - 1)" and "page_aligned (PGROUNDDOWN va)"
    and "unat (PGROUNDDOWN (va + sz - 1)) =
      unat (PGROUNDDOWN va) + (pg (va + sz - 1) - pg va) * 16384"
    and "PGROUNDDOWN (va + sz - 1) < MAXVA" and "pg (PGROUNDDOWN va) = pg va"
proof -
  have base: "unat (PGROUNDDOWN a) = pg a * 16384" for a
    by (simp add: PGROUNDDOWN_unat pg_def minus_mod_eq_div_mult)
  have "unat (va + sz) = unat va + unat sz" using assms(2) by (simp add: unat_plus_64)
  then have e: "unat (va + sz - 1) = unat va + unat sz - 1"
    using assms(1) by (simp add: word_sub_unat)
  then show le: "pg va \<le> pg (va + sz - 1)"
    using assms(1) unfolding pg_def by (intro div_le_mono) simp
  show "page_aligned (PGROUNDDOWN va)" by (simp add: page_aligned_def base)
  show "unat (PGROUNDDOWN (va + sz - 1)) =
      unat (PGROUNDDOWN va) + (pg (va + sz - 1) - pg va) * 16384"
    using le by (simp add: base diff_mult_distrib)
  show "PGROUNDDOWN (va + sz - 1) < MAXVA"
    using assms e by (simp add: word_less_nat_alt MAXVA_unat PGROUNDDOWN_unat)
  show "pg (PGROUNDDOWN va) = pg va" using base [of va] unfolding pg_def by simp
qed

lemma new_pte:
  assumes "perm AND PAMASK = 0" and "perm AND PTE_V \<noteq> 0"
  shows "PTE2PA (PA2PTE pa OR PTE_FLAGS old OR perm) = PTE2PA pa"
    and "(PA2PTE pa OR PTE_FLAGS old OR perm) AND PTE_V \<noteq> 0"
proof -
  have "PTE_FLAGS old AND PAMASK = 0"
    by (simp add: PTE_FLAGS_def PAMASK_def and.assoc)
  then show "PTE2PA (PA2PTE pa OR PTE_FLAGS old OR perm) = PTE2PA pa"
    using assms(1) by (simp add: PTE2PA_def PA2PTE_def and.assoc bit.conj_disj_distrib2)
  have "bit perm 0" using assms(2) by (auto simp: PTE_V_def and_one_eq bit_0 even_iff_mod_2_eq_zero)
  then have "bit ((PA2PTE pa OR PTE_FLAGS old OR perm) AND PTE_V) 0"
    by (simp add: bit_and_iff bit_or_iff PTE_V_def)
  then show "(PA2PTE pa OR PTE_FLAGS old OR perm) AND PTE_V \<noteq> 0" by auto
qed

section \<open>Sample heap\<close>

text \<open>\<open>n\<close> pages of kernel memory freed one after the other.\<close>

primrec sample_heap :: "nat \<Rightarrow> mm" where
  "sample_heap 0 = \<lparr>mem = (\<lambda>_. 0), freelist = 0\<rparr>"
| "sample_heap (Suc n) = kfree_page_memblock (KERNBASE + of_nat (n * 16384)) (sample_heap n)"

lemma sample_page:
  assumes "n < 8192"
  shows "dmw_page (KERNBASE + of_nat (n * 16384))"
    and "unat (KERNBASE + of_nat (n * 16384)) = 10376293543877541888 + n * 16384"
proof -
  let ?x = "0x90000000 + of_nat (n * 16384) :: u64"
  have "unat (of_nat (n * 16384) :: u64) = n * 16384"
    using assms by (simp only: unat_of_nat_64)
  then have x: "unat ?x = 2415919104 + n * 16384"
    using assms by (subst unat_plus_64) (simp_all del: of_nat_mult)
  then have p: "KERNBASE + of_nat (n * 16384) = PA2VA ?x"
    using assms by (subst PA2VA_add) (simp_all add: KERNBASE_def MAIN_KERNEL_DMW_def)
  then show u: "unat (KERNBASE + of_nat (n * 16384)) = 10376293543877541888 + n * 16384"
    using assms x PA2VA_add(2) [of ?x] by (simp add: p)
  have "unat ?x mod 16384 = 0" by (simp only: x) presburger
  then have "PTE2PA (PA2VA ?x) = ?x" using x assms by (intro PTE2PA_PA2VA) simp_all
  moreover have "(10376293543877541888 + n * 16384) mod 16384 = 0" by presburger
  ultimately show "dmw_page (KERNBASE + of_nat (n * 16384))"
    using u unfolding dmw_page_def page_aligned_def by (simp only: p)
qed

lemma sample_heap_inv:
  "n \<le> 8192 \<Longrightarrow> mm_inv (sample_heap n) (rev (page_run KERNBASE n))"
proof (induction n)
  case 0
  then show ?case by (simp add: mm_inv_def)
next
  case (Suc n)
  let ?p = "\<lambda>i. KERNBASE + of_nat (i * 16384)"
  have "?p n \<notin> set (rev (page_run KERNBASE n))"
  proof
    assume "?p n \<in> set (rev (page_run KERNBASE n))"
    then obtain i where "i < n" "?p n = ?p i" by (auto simp: page_run_def)
    then have "unat (?p n) = unat (?p i)" by (simp only:)
    then show False using sample_page(2) [of n] sample_page(2) [of i] Suc.prems \<open>i < n\<close> by simp
  qed
  then have "mm_inv (kfree_page_memblock (?p n) (sample_heap n)) (?p n # rev (page_run KERNBASE n))"
    using Suc sample_page(1) [of n] by (intro kfree_page_inv(1)) (simp_all add: dmw_pageD del: of_nat_mult)
  then show ?case by (simp add: page_run_def)
qed

lemma sample_table:
  assumes "n < 8192"
  shows "\<exists>s. pgtbl_create (sample_heap (Suc n)) = Inr (KERNBASE + of_nat (n * 16384), s) \<and>
    as_inv s (KERNBASE + of_nat (n * 16384)) [[] \<mapsto> KERNBASE + of_nat (n * 16384)]
      (rev (page_run KERNBASE n)) \<and>
    (\<forall>va. pte_of (mem s) [[] \<mapsto> KERNBASE + of_nat (n * 16384)] va = 0)"
proof -
  have inv: "mm_inv (sample_heap (Suc n)) ((KERNBASE + of_nat (n * 16384)) # rev (page_run KERNBASE n))"
    using sample_heap_inv [of "Suc n"] assms by (simp add: page_run_def)
  have "dmw_page y" if "y \<in> set ((KERNBASE + of_nat (n * 16384)) # rev (page_run KERNBASE n))" for y
  proof -
    have "y = KERNBASE + of_nat (n * 16384) \<or> (\<exists>i<n. y = KERNBASE + of_nat (i * 16384))"
      using that unfolding page_run_def by (auto simp del: of_nat_mult)
    then obtain i where "i \<le> n" "y = KERNBASE + of_nat (i * 16384)"
      by (metis less_imp_le order_refl)
    then show ?thesis using sample_page(1) [of i] assms by (simp del: of_nat_mult)
  qed
  with pgtbl_create_ok [OF inv] show ?thesis by blast
qed

section \<open>Properties\<close>

text \<open>
  C2: mapping one page succeeds with two free pages at hand, and afterwards \<open>va_to_pa\<close>
  sends that page to the given frame and every other page where it went before; memory
  outside the tables of the tree is not touched.
\<close>

theorem map_single_page_translates:
  assumes "as_inv s r T xs" and "2 \<le> length xs" and "va < MAXVA"
    and "perm AND PAMASK = 0" and "perm AND PTE_V \<noteq> 0"
  shows "\<exists>s' T' ys. map_single_page r va pa perm s = Inr (0, s') \<and> as_inv s' r T' ys \<and>
    ran T' \<subseteq> ran T \<union> set xs \<and>
    (\<forall>va'. va' < MAXVA \<longrightarrow> va_to_pa r va' s' =
       (if pg va' = pg va then Inr (PTE2PA pa + va' mod PGSIZE) else va_to_pa r va' s)) \<and>
    (\<forall>a. (\<forall>u\<in>ran T'. \<not> in_page u a) \<longrightarrow> mem s' a = mem s a)"
proof -
  obtain s' T' zs where M: "map_single_page r va pa perm s = Inr (0, s')"
    "as_inv s' r T' (drop (length zs) xs)" "zs = take (length zs) xs" "ran T' = ran T \<union> set zs"
    "\<And>va'. pte_of (mem s') T' va' = (if vpn va' = vpn va
       then PA2PTE pa OR PTE_FLAGS (pte_of (mem s) T va) OR perm else pte_of (mem s) T va')"
    "\<And>a. (\<forall>u\<in>ran T'. \<not> in_page u a) \<Longrightarrow> mem s' a = mem s a"
    using map_single_page_ok [OF assms(1,2), of va pa perm] by blast
  note wf = as_invD(2) [OF assms(1)] and wf' = as_invD(2) [OF M(2)]
  have "va_to_pa r va' s' =
       (if pg va' = pg va then Inr (PTE2PA pa + va' mod PGSIZE) else va_to_pa r va' s)"
    if "va' < MAXVA" for va'
    using that assms(3) new_pte [OF assms(4,5)] user_va [OF that]
    by (simp add: va_to_pa_eq [OF wf] va_to_pa_eq [OF wf'] M(5) vpn_pg)
  moreover have "ran T' \<subseteq> ran T \<union> set xs"
    using M(3,4) by (metis Un_mono order_refl set_take_subset)
  ultimately show ?thesis using M(1,2,6) by blast
qed

theorem map_single_page_translates_witness:
  "\<exists>s s'. pgtbl_create (sample_heap 4) = Inr (KERNBASE + 49152, s) \<and>
    map_single_page (KERNBASE + 49152) 0x10000 0x80000 1 s = Inr (0, s') \<and>
    va_to_pa (KERNBASE + 49152) 0x10010 s' = Inr 0x80010 \<and>
    va_to_pa (KERNBASE + 49152) 0x20000 s' = Inr 0"
proof -
  obtain s where s: "pgtbl_create (sample_heap 4) = Inr (KERNBASE + 49152, s)"
    "as_inv s (KERNBASE + 49152) [[] \<mapsto> KERNBASE + 49152] (rev (page_run KERNBASE 3))"
    "\<And>va. pte_of (mem s) [[] \<mapsto> KERNBASE + 49152] va = 0"
    using sample_table [of 3] by (auto simp del: sample_heap.simps)
  have "2 \<le> length (rev (page_run KERNBASE 3))" by (simp add: page_run_def)
  from map_single_page_translates [OF s(2) this, of "0x10000" 1 "0x80000"]
  obtain s' where s': "map_single_page (KERNBASE + 49152) 0x10000 0x80000 1 s = Inr (0, s')"
    "\<And>va'. va' < MAXVA \<Longrightarrow> va_to_pa (KERNBASE + 49152) va' s' =
       (if pg va' = pg 0x10000 then Inr (PTE2PA 0x80000 + va' mod PGSIZE)
        else va_to_pa (KERNBASE + 49152) va' s)"
    by (auto simp: MAXVA_def PAMASK_def PTE_V_def)
  have "va_to_pa (KERNBASE + 49152) 0x20000 s = Inr 0"
    using s(3) by (simp add: va_to_pa_eq [OF as_invD(2) [OF s(2)]])
  with s(1) s' show ?thesis by (auto simp: MAXVA_def pg_def PTE2PA_def PAMASK_def PGSIZE_def)
qed

text \<open>
  Mapping a range ends, succeeds when two free pages per page of the range are at
  hand, sends the pages from the one that holds \<open>va\<close> to the one that holds the last
  byte to consecutive frames, and leaves the translation of every other page alone.
\<close>

theorem map_pages_translates:
  assumes "as_inv s r T xs" and "0 < unat sz" and "unat va + unat sz \<le> 2 ^ 47"
    and "2 * Suc (pg (va + sz - 1) - pg va) \<le> length xs"
    and "perm AND PAMASK = 0" and "perm AND PTE_V \<noteq> 0"
  shows "\<exists>s' T' ys. map_pages r va sz pa perm s = Some (Inr (0, s')) \<and> as_inv s' r T' ys \<and>
    (\<forall>va'. va' < MAXVA \<longrightarrow> va_to_pa r va' s' =
       (if pg va \<le> pg va' \<and> pg va' \<le> pg (va + sz - 1)
        then Inr (PTE2PA (PGROUNDDOWN pa + of_nat ((pg va' - pg va) * 16384)) + va' mod PGSIZE)
        else va_to_pa r va' s))"
proof -
  let ?fin = "va + sz - 1" and ?k = "pg (va + sz - 1) - pg va"
  note rng = page_range [OF assms(2,3)]
  obtain s' T' ys where M:
    "map_pages_loop r (PGROUNDDOWN va) (PGROUNDDOWN ?fin) (PGROUNDDOWN pa) perm s = Some (Inr s')"
    "as_inv s' r T' ys"
    "\<And>va'. va' < MAXVA \<Longrightarrow> pte_of (mem s') T' va' =
       (if pg va \<le> pg va' \<and> pg va' \<le> pg va + ?k
        then PA2PTE (PGROUNDDOWN pa + of_nat ((pg va' - pg va) * 16384)) OR
          PTE_FLAGS (pte_of (mem s) T va') OR perm
        else pte_of (mem s) T va')"
    using map_pages_loop_ok [OF assms(1) rng(2,3,4) assms(4), of "PGROUNDDOWN pa" perm, unfolded rng(5)]
    by blast
  note wf = as_invD(2) [OF assms(1)] and wf' = as_invD(2) [OF M(2)]
  have le: "pg va + ?k = pg ?fin" using rng(1) by simp
  have "va_to_pa r va' s' = (if pg va \<le> pg va' \<and> pg va' \<le> pg ?fin
        then Inr (PTE2PA (PGROUNDDOWN pa + of_nat ((pg va' - pg va) * 16384)) + va' mod PGSIZE)
        else va_to_pa r va' s)" if "va' < MAXVA" for va'
    unfolding va_to_pa_eq [OF wf] va_to_pa_eq [OF wf'] M(3) [OF that] le
    using new_pte [OF assms(5,6)] user_va [OF that] by simp
  with M(1,2) show ?thesis by (auto simp: map_pages_def)
qed

theorem map_pages_translates_witness:
  "\<exists>s s'. pgtbl_create (sample_heap 6) = Inr (KERNBASE + 81920, s) \<and>
    map_pages (KERNBASE + 81920) 0x10000 0x4001 0x80000 1 s = Some (Inr (0, s')) \<and>
    va_to_pa (KERNBASE + 81920) 0x14010 s' = Inr 0x84010"
proof -
  obtain s where s: "pgtbl_create (sample_heap 6) = Inr (KERNBASE + 81920, s)"
    "as_inv s (KERNBASE + 81920) [[] \<mapsto> KERNBASE + 81920] (rev (page_run KERNBASE 5))"
    using sample_table [of 5] by (auto simp del: sample_heap.simps)
  have "2 * Suc (pg (0x10000 + 0x4001 - 1) - pg 0x10000) \<le> length (rev (page_run KERNBASE 5))"
    by (simp add: page_run_def pg_def)
  from map_pages_translates [OF s(2) _ _ this, of 1 "0x80000"]
  obtain s' where s': "map_pages (KERNBASE + 81920) 0x10000 0x4001 0x80000 1 s = Some (Inr (0, s'))"
    "va_to_pa (KERNBASE + 81920) 0x14010 s' = Inr (PTE2PA (PGROUNDDOWN 0x80000 + of_nat 16384) + 0x10)"
    by (force simp: MAXVA_def PAMASK_def PTE_V_def pg_def PGSIZE_def)
  with s(1) show ?thesis by (auto simp: PTE2PA_def PAMASK_def PGROUNDDOWN_def PGSIZE_def)
qed

text \<open>
  Freeing a page table of three levels gives every page of its tree back to the free
  list, each once, and changes no byte outside those pages.
\<close>

theorem free_pagetable_returns_all:
  assumes "as_inv s r T xs"
  shows "\<exists>s' fs. free_pagetable 2 r s = Inr s' \<and> mm_inv s' (fs @ xs) \<and>
    set fs = ran T \<and> distinct (fs @ xs) \<and>
    (\<forall>a. (\<forall>u\<in>ran T. \<not> in_page u a) \<longrightarrow> mem s' a = mem s a)"
proof -
  note I = as_invD [OF assms]
  have root: "subtree T [] = ran T" by (auto simp: subtree_def ran_def)
  then have "freed (subtree T []) s xs (free_pagetable 2 r s)"
    using I(1,3) by (intro free_pagetable_ok [OF I(2) pt_wfD(1) [OF I(2)]]) simp_all
  then obtain s' fs where "free_pagetable 2 r s = Inr s'" "mm_inv s' (fs @ xs)" "set fs = ran T"
    "\<forall>a. (\<forall>u\<in>ran T. \<not> in_page u a) \<longrightarrow> mem s' a = mem s a"
    unfolding freed_def root by blast
  then show ?thesis using kp.pages_ok by blast
qed

theorem free_pagetable_returns_all_witness:
  "\<exists>s s'. pgtbl_create (sample_heap 1) = Inr (KERNBASE, s) \<and>
    free_pagetable 2 KERNBASE s = Inr s' \<and> mm_inv s' [KERNBASE]"
proof -
  obtain s where s: "pgtbl_create (sample_heap 1) = Inr (KERNBASE, s)"
    "as_inv s KERNBASE [[] \<mapsto> KERNBASE] []"
    using sample_table [of 0] by (auto simp del: sample_heap.simps)
  obtain s' fs where s': "free_pagetable 2 KERNBASE s = Inr s'" "mm_inv s' (fs @ [])"
    "set fs = ran [([] :: nat list) \<mapsto> KERNBASE]" "distinct (fs @ [])"
    using free_pagetable_returns_all [OF s(2)] by blast
  have "set fs = {KERNBASE}" using s'(3) by (simp add: ran_map_upd)
  moreover have "fs = [KERNBASE]"
    using s'(4) calculation by (cases fs; cases "tl fs") (auto simp: insert_eq_iff)
  ultimately show ?thesis using s(1) s'(1,2) by auto
qed

end
