(* ===== verification/UserMem.thy ===== *)
theory UserMem
  imports PageTable
begin

text \<open>
  Copying between kernel and user memory: \<open>copy_to_va\<close>, \<open>copy_from_va\<close> and
  \<open>copy_from_va_str\<close> of mm/n_vm.c. The loops cut the range at page boundaries and
  translate each page; the theory shows that together they move exactly the bytes
  that the translation selects.
\<close>

section \<open>Definitions\<close>

text \<open>How much of the rest of the copy lies in the current page: \<open>n\<close> in the copy loops.\<close>

definition copy_chunk :: "u64 \<Rightarrow> u64 \<Rightarrow> u64" where
  "copy_chunk va len =
     (let n = PGSIZE - (va - PGROUNDDOWN va) in if n > len then len else n)"

lemma copy_chunk_unat:
  "unat (copy_chunk va len) = min (16384 - unat va mod 16384) (unat len)"
proof -
  have "unat va mod 16384 \<le> unat va" by simp
  then have "unat (va - PGROUNDDOWN va) = unat va mod 16384"
    by (simp add: word_sub_unat PGROUNDDOWN_unat)
  moreover have "unat va mod 16384 < 16384" by simp
  ultimately have "unat (PGSIZE - (va - PGROUNDDOWN va)) = 16384 - unat va mod 16384"
    by (simp add: word_sub_unat PGSIZE_def)
  then show ?thesis
    by (simp add: copy_chunk_def Let_def word_less_nat_alt min_def)
qed

lemma copy_chunk_le: "unat (copy_chunk va len) \<le> unat len"
  by (simp add: copy_chunk_unat)

lemma copy_chunk_decreases:
  "len \<noteq> 0 \<Longrightarrow> unat (len - copy_chunk va len) < unat len"
proof -
  assume "len \<noteq> 0"
  then have "0 < unat len" by (simp add: unat_gt_0)
  moreover have "0 < 16384 - unat va mod 16384" by simp
  ultimately have "0 < unat (copy_chunk va len)" by (simp add: copy_chunk_unat)
  with copy_chunk_le [of va len] show ?thesis by (simp add: word_sub_unat)
qed

function copy_to_va :: "u64 \<Rightarrow> u64 \<Rightarrow> u64 \<Rightarrow> u64 \<Rightarrow> mm \<Rightarrow> (i32 \<times> mm) kres" where
  "copy_to_va pagetable dstva src len s =
     (if len = 0 then Inr (0, s)
      else let va0 = PGROUNDDOWN dstva; n = copy_chunk dstva len in
        kbind (va_to_pa pagetable va0 s) (\<lambda>pa0.
          if pa0 = 0 then Inr (- 1, s)
          else copy_to_va pagetable (va0 + PGSIZE) (src + n) (len - n)
            (s\<lparr>mem := fst (memmove (mem s) (PA2VA (pa0 + (dstva - va0))) src n)\<rparr>)))"
  by pat_completeness auto

termination copy_to_va
  by (relation "measure (\<lambda>(pt, va, src, len, s). unat len)") (auto simp: copy_chunk_decreases)

function copy_from_va :: "u64 \<Rightarrow> u64 \<Rightarrow> u64 \<Rightarrow> u64 \<Rightarrow> mm \<Rightarrow> (i32 \<times> mm) kres" where
  "copy_from_va pagetable dst srcva len s =
     (if len = 0 then Inr (0, s)
      else let va0 = PGROUNDDOWN srcva; n = copy_chunk srcva len in
        kbind (va_to_pa pagetable va0 s) (\<lambda>pa0.
          if pa0 = 0 then Inr (- 1, s)
          else copy_from_va pagetable (dst + n) (va0 + PGSIZE) (len - n)
            (s\<lparr>mem := fst (memmove (mem s) dst (PA2VA (pa0 + (srcva - va0))) n)\<rparr>)))"
  by pat_completeness auto

termination copy_from_va
  by (relation "measure (\<lambda>(pt, dst, va, len, s). unat len)") (auto simp: copy_chunk_decreases)

text \<open>
  \<open>copy_from_va_str\<close>: the inner loop copies up to \<open>n\<close> bytes and reports whether it met
  the terminator, with the advanced \<open>dst\<close> and what is left of \<open>max\<close>.
\<close>

fun str_chunk :: "nat \<Rightarrow> u64 \<Rightarrow> u64 \<Rightarrow> u64 \<Rightarrow> mem \<Rightarrow> bool \<times> u64 \<times> u64 \<times> mem" where
  "str_chunk 0 p dst mx m = (False, dst, mx, m)"
| "str_chunk (Suc n) p dst mx m =
     (if m p = 0 then (True, dst, mx, m(dst := 0))
      else str_chunk n (p + 1) (dst + 1) (mx - 1) (m(dst := m p)))"

lemma str_chunk_mx:
  "str_chunk n p dst mx m = (False, dst', mx', m') \<Longrightarrow> mx' = mx - of_nat n"
proof (induction n arbitrary: p dst mx m)
  case (Suc n)
  then have "mx' = mx - 1 - of_nat n" by (simp split: if_splits)
  then show ?case by simp
qed simp

function copy_from_va_str :: "u64 \<Rightarrow> u64 \<Rightarrow> u64 \<Rightarrow> u64 \<Rightarrow> mm \<Rightarrow> (i32 \<times> mm) kres" where
  "copy_from_va_str pagetable dst srcva mx s =
     (if mx = 0 then Inr (- 1, s)
      else let va0 = PGROUNDDOWN srcva; n = copy_chunk srcva mx in
        kbind (va_to_pa pagetable va0 s) (\<lambda>pa0.
          if pa0 = 0 then Inr (- 1, s)
          else case str_chunk (unat n) (PA2VA (pa0 + (srcva - va0))) dst mx (mem s) of
            (got_null, dst1, mx1, m1) \<Rightarrow>
              if got_null then Inr (0, s\<lparr>mem := m1\<rparr>)
              else copy_from_va_str pagetable dst1 (va0 + PGSIZE) mx1 (s\<lparr>mem := m1\<rparr>)))"
  by pat_completeness auto

termination copy_from_va_str
  by (relation "measure (\<lambda>(pt, dst, va, mx, s). unat mx)")
    (auto dest!: str_chunk_mx [OF sym] simp: copy_chunk_decreases)

declare copy_to_va.simps [simp del] copy_from_va.simps [simp del] copy_from_va_str.simps [simp del]

section \<open>User memory\<close>

text \<open>
  \<open>frame\<close> is the kernel address of the page frame behind a virtual address, \<open>loc\<close> the
  kernel address of its byte. In a \<open>user_range\<close> every page is valid, has a frame other
  than 0, and its frame is none of the tables; no two pages share a frame in an
  \<open>alias_free\<close> range.
\<close>

definition frame :: "mem \<Rightarrow> pt_tree \<Rightarrow> u64 \<Rightarrow> u64" where
  "frame m T va = PA2VA (PTE2PA (pte_of m T va))"

definition loc :: "mem \<Rightarrow> pt_tree \<Rightarrow> u64 \<Rightarrow> u64" where
  "loc m T va = frame m T va + va mod PGSIZE"

definition user_page :: "mem \<Rightarrow> pt_tree \<Rightarrow> u64 \<Rightarrow> bool" where
  "user_page m T va \<longleftrightarrow> pte_of m T va AND PTE_V \<noteq> 0 \<and> PTE2PA (pte_of m T va) \<noteq> 0 \<and>
     frame m T va \<notin> ran T"

definition user_range :: "mem \<Rightarrow> pt_tree \<Rightarrow> u64 \<Rightarrow> nat \<Rightarrow> bool" where
  "user_range m T va len \<longleftrightarrow> unat va + len \<le> 140737488355328 \<and>
     (\<forall>i<len. user_page m T (va + of_nat i))"

definition alias_free :: "mem \<Rightarrow> pt_tree \<Rightarrow> u64 \<Rightarrow> nat \<Rightarrow> bool" where
  "alias_free m T va len \<longleftrightarrow> (\<forall>i<len. \<forall>j<len.
     frame m T (va + of_nat i) = frame m T (va + of_nat j) \<longrightarrow> pg (va + of_nat i) = pg (va + of_nat j))"

text \<open>A kernel buffer that does not meet the frames of a user range.\<close>

definition outside_frames :: "mem \<Rightarrow> pt_tree \<Rightarrow> u64 \<Rightarrow> nat \<Rightarrow> u64 \<Rightarrow> bool" where
  "outside_frames m T va len a \<longleftrightarrow> (\<forall>i<len. \<not> in_page (frame m T (va + of_nat i)) a)"

lemma frame_unat:
  shows "page_aligned (frame m T va)" and "unat (frame m T va) < 11502193448304451584"
proof -
  let ?x = "PTE2PA (pte_of m T va)"
  have u: "unat (frame m T va) = unat ?x + 10376293541461622784"
    using PTE2PA_unat(2) [of "pte_of m T va"] PA2VA_add(2) [of ?x] by (simp add: frame_def)
  show "unat (frame m T va) < 11502193448304451584"
    using PTE2PA_unat(2) [of "pte_of m T va"] by (simp add: u)
  have "(unat ?x + 16384 * 633318697598976) mod 16384 = 0"
    using PTE2PA_unat(1) [of "pte_of m T va"] by (simp only: mod_mult_self2)
  then show "page_aligned (frame m T va)" by (simp add: page_aligned_def u)
qed

lemma loc_code:
  "PA2VA (PTE2PA (pte_of m T va) + (va - PGROUNDDOWN va)) = loc m T va"
proof -
  let ?x = "PTE2PA (pte_of m T va)"
  have off: "va - PGROUNDDOWN va = va mod PGSIZE" using page_base(1) [of va] by (metis diff_diff_eq2 diff_add_cancel add_diff_cancel_left')
  have "unat (va mod PGSIZE) < 16384" by (simp add: unat_mod PGSIZE_def)
  then have "unat (?x + va mod PGSIZE) < 1152921504606846976"
    using PTE2PA_unat(2) [of "pte_of m T va"] by (subst unat_plus_64) simp_all
  then show ?thesis
    using PTE2PA_unat(2) [of "pte_of m T va"] by (simp add: off loc_def frame_def PA2VA_add)
qed

lemma loc_in_frame: "in_page (frame m T va) (loc m T va)"
  by (simp add: in_page_def in_region_def loc_def unat_mod PGSIZE_def)

text \<open>The bytes of one chunk lie in one page, at consecutive places of its frame.\<close>

lemma chunk_page:
  assumes "unat va mod 16384 + i < 16384" and "unat va + i < 18446744073709551616"
  shows "pg (va + of_nat i) = pg va" and "vpn (va + of_nat i) = vpn va"
    and "loc m T (va + of_nat i) = loc m T va + of_nat i"
proof -
  have u: "unat (va + of_nat i) = unat va + i" using assms by (simp add: unat_plus_64)
  define q o' where "q = unat va div 16384" and "o' = unat va mod 16384"
  have va: "unat va = q * 16384 + o'" and o': "o' + i < 16384" using assms(1) by (simp_all add: q_def o'_def)
  have dm: "unat (va + of_nat i) div 16384 = q" "unat (va + of_nat i) mod 16384 = o' + i"
    unfolding u va using o' by (simp_all add: add.assoc)
  then show "pg (va + of_nat i) = pg va" and v: "vpn (va + of_nat i) = vpn va"
    by (simp_all add: pg_def vpn_def q_def)
  have "unat ((va + of_nat i) mod PGSIZE) = o' + i"
    using dm(2) by (simp add: unat_mod PGSIZE_def)
  moreover have "unat (va mod PGSIZE + of_nat i) = o' + i"
    using o' by (subst unat_plus_64) (simp_all add: unat_mod PGSIZE_def o'_def)
  ultimately have "(va + of_nat i) mod PGSIZE = va mod PGSIZE + of_nat i"
    by (metis word_unat_eq_iff)
  moreover have "frame m T (va + of_nat i) = frame m T va"
    unfolding frame_def using pte_of_vpn [OF v] by metis
  ultimately show "loc m T (va + of_nat i) = loc m T va + of_nat i" by (simp add: loc_def)
qed

lemma user_range_drop:
  assumes "user_range m T va n" and "k \<le> n"
  shows "user_range m T (va + of_nat k) (n - k)"
  unfolding user_range_def
proof (intro conjI allI impI)
  have "unat va + k \<le> 140737488355328" using assms by (simp add: user_range_def)
  then have "unat (va + of_nat k) = unat va + k" by (simp add: unat_plus_64)
  with assms show "unat (va + of_nat k) + (n - k) \<le> 140737488355328" by (simp add: user_range_def)
  fix i
  assume "i < n - k"
  then have "k + i < n" by simp
  then have "user_page m T (va + of_nat (k + i))" using assms(1) unfolding user_range_def by blast
  then show "user_page m T (va + of_nat k + of_nat i)" by (simp add: add.assoc)
qed

lemma alias_free_drop:
  "alias_free m T va n \<Longrightarrow> k \<le> n \<Longrightarrow> alias_free m T (va + of_nat k) (n - k)"
  unfolding alias_free_def by (force simp: add.assoc simp flip: of_nat_add)

lemma outside_frames_drop:
  "outside_frames m T va n a \<Longrightarrow> k \<le> n \<Longrightarrow> outside_frames m T (va + of_nat k) (n - k) a"
  unfolding outside_frames_def by (force simp: add.assoc simp flip: of_nat_add)

lemma translation_cong:
  assumes "\<And>va. pte_of m' T va = pte_of m T va"
  shows "frame m' T = frame m T" "loc m' T = loc m T" "user_range m' T = user_range m T"
    "alias_free m' T = alias_free m T" "outside_frames m' T = outside_frames m T"
proof -
  show f: "frame m' T = frame m T" using assms by (auto simp: frame_def)
  then show "loc m' T = loc m T" by (auto simp: loc_def)
  show "user_range m' T = user_range m T" using assms f by (auto simp: fun_eq_iff user_range_def user_page_def)
  show "alias_free m' T = alias_free m T" using f by (auto simp: fun_eq_iff alias_free_def)
  show "outside_frames m' T = outside_frames m T" using f by (auto simp: fun_eq_iff outside_frames_def)
qed

text \<open>One round of a copy loop: where the translation leads and where the loop goes on.\<close>

lemma copy_round:
  assumes wf: "pt_wf (mem s) r T" and ur: "user_range (mem s) T va (unat len)" and "len \<noteq> 0"
    and k: "k = unat (copy_chunk va len)"
  shows "\<exists>pa0. va_to_pa r (PGROUNDDOWN va) s = Inr pa0 \<and> pa0 \<noteq> 0 \<and>
      PA2VA (pa0 + (va - PGROUNDDOWN va)) = loc (mem s) T va"
    and "0 < k" "k \<le> unat len" "unat va mod 16384 + k \<le> 16384"
    and "k < unat len \<Longrightarrow> PGROUNDDOWN va + PGSIZE = va + of_nat k"
    and "i < k \<Longrightarrow> loc (mem s) T (va + of_nat i) = loc (mem s) T va + of_nat i \<and> pg (va + of_nat i) = pg va"
    and "k \<le> j \<Longrightarrow> j < unat len \<Longrightarrow> pg (va + of_nat j) \<noteq> pg va"
    and "unat (loc (mem s) T va) + k \<le> 2 ^ 63 + 2 ^ 62"
proof -
  have pos: "0 < unat len" using \<open>len \<noteq> 0\<close> by (simp add: unat_gt_0)
  then have "user_page (mem s) T (va + of_nat 0)" using ur unfolding user_range_def by blast
  then have up: "user_page (mem s) T va" by simp
  have top: "unat va + unat len \<le> 140737488355328" using ur by (simp add: user_range_def)
  have "unat (PGROUNDDOWN va) < 140737488355328" using top pos by (simp add: PGROUNDDOWN_unat)
  then have "\<not> PGROUNDDOWN va \<ge> MAXVA" by (simp add: word_le_nat_alt MAXVA_unat)
  moreover have "PGROUNDDOWN (PGROUNDDOWN va) = PGROUNDDOWN va" "PGROUNDDOWN va mod PGSIZE = 0"
    by (simp_all add: PGROUNDDOWN_def and.assoc kfree_aligned page_aligned_def)
      (simp add: PGROUNDDOWN_unat flip: PGROUNDDOWN_def minus_mod_eq_mult_div)
  moreover have "pte_of (mem s) T (PGROUNDDOWN va) = pte_of (mem s) T va"
    by (rule pte_of_vpn) (rule page_base)
  ultimately have "va_to_pa r (PGROUNDDOWN va) s = Inr (PTE2PA (pte_of (mem s) T va))"
    using up by (simp add: va_to_pa_eq [OF wf] user_page_def)
  then show "\<exists>pa0. va_to_pa r (PGROUNDDOWN va) s = Inr pa0 \<and> pa0 \<noteq> 0 \<and>
      PA2VA (pa0 + (va - PGROUNDDOWN va)) = loc (mem s) T va"
    using up loc_code by (auto simp: user_page_def)
  have r: "unat va mod 16384 < 16384" by simp
  have kk: "k = min (16384 - unat va mod 16384) (unat len)" by (simp add: k copy_chunk_unat)
  show "0 < k" "k \<le> unat len" "unat va mod 16384 + k \<le> 16384"
    using pos r unfolding kk by linarith+
  show "PGROUNDDOWN va + PGSIZE = va + of_nat k" if "k < unat len"
  proof (rule unsigned_word_eqI)
    have kv: "k + unat va mod 16384 = 16384" using that kk r by linarith
    have "unat (va + of_nat k) = unat va + k" using that top by (simp add: unat_plus_64)
    moreover have "unat (PGROUNDDOWN va + PGSIZE) = unat (PGROUNDDOWN va) + 16384"
      using \<open>unat (PGROUNDDOWN va) < 140737488355328\<close> by (simp add: PGSIZE_def unat_plus_64)
    moreover have "unat va mod 16384 \<le> unat va" by simp
    ultimately show "unat (PGROUNDDOWN va + PGSIZE) = unat (va + of_nat k)"
      using kv by (simp only: PGROUNDDOWN_unat)
  qed
  show "loc (mem s) T (va + of_nat i) = loc (mem s) T va + of_nat i \<and> pg (va + of_nat i) = pg va" if "i < k"
    using chunk_page [of va i] that kk top by auto
  show "pg (va + of_nat j) \<noteq> pg va" if "k \<le> j" "j < unat len"
  proof -
    have "unat (va + of_nat j) = unat va + j" using that top by (simp add: unat_plus_64)
    moreover have "16384 \<le> unat va mod 16384 + j" using that kk r by linarith
    then have "Suc (pg va) * 16384 \<le> unat va + j"
      using div_mult_mod_eq [of "unat va" 16384] unfolding pg_def mult_Suc by linarith
    then have "Suc (pg va) \<le> (unat va + j) div 16384" by (simp add: less_eq_div_iff_mult_less_eq)
    ultimately show ?thesis by (simp add: pg_def)
  qed
  have "unat (va mod PGSIZE) < 16384" by (simp add: unat_mod PGSIZE_def)
  then have "unat (loc (mem s) T va) \<le> unat (frame (mem s) T va) + 16384"
    unfolding loc_def using frame_unat(2) [of "mem s" T va] by (subst unat_plus_64) simp_all
  moreover have "k \<le> 16384" by (simp add: kk)
  ultimately show "unat (loc (mem s) T va) + k \<le> 2 ^ 63 + 2 ^ 62"
    using frame_unat(2) [of "mem s" T va] by simp
qed

text \<open>What the round writes, and that it leaves the translation alone.\<close>

lemma chunk_written:
  assumes wf: "pt_wf m r T" and ur: "user_range m T va n" and "length bs \<le> n"
    and "\<And>i. i < length bs \<Longrightarrow> loc m T (va + of_nat i) = loc m T va + of_nat i"
    and m1: "m1 = write_bytes m (loc m T va) bs"
  shows "i < length bs \<Longrightarrow> m1 (loc m T (va + of_nat i)) = bs ! i"
    and "(\<And>i. i < length bs \<Longrightarrow> a \<noteq> loc m T (va + of_nat i)) \<Longrightarrow> m1 a = m a"
    and "pt_wf m1 r T" and "pte_of m1 T v = pte_of m T v"
proof -
  have small: "n < 18446744073709551616" using ur by (simp add: user_range_def)
  then show "i < length bs \<Longrightarrow> m1 (loc m T (va + of_nat i)) = bs ! i"
    using assms(3,4) by (simp add: m1 write_bytes_def)
  have out: "m1 a = m a" if "\<And>i. i < length bs \<Longrightarrow> a \<noteq> loc m T (va + of_nat i)" for a
  proof -
    have "\<not> unat (a - loc m T va) < length bs"
    proof
      assume *: "unat (a - loc m T va) < length bs"
      have "a = loc m T va + of_nat (unat (a - loc m T va))" by simp
      with that [OF *] assms(4) [OF *] show False by metis
    qed
    then show ?thesis by (simp add: m1 write_bytes_def)
  qed
  then show "(\<And>i. i < length bs \<Longrightarrow> a \<noteq> loc m T (va + of_nat i)) \<Longrightarrow> m1 a = m a" by blast
  have same: "m1 a = m a" if "u \<in> ran T" "in_page u a" for u a
  proof (rule out)
    fix i assume "i < length bs"
    then have "frame m T (va + of_nat i) \<noteq> u"
      using ur assms(3) that(1) unfolding user_range_def user_page_def by force
    moreover have "page_aligned u" using wf that(1) by (simp add: pt_wf_def dmw_page_def)
    ultimately show "a \<noteq> loc m T (va + of_nat i)"
      using loc_in_frame frame_unat(1) that(2) in_page_unique by blast
  qed
  show "pt_wf m1 r T" "pte_of m1 T v = pte_of m T v"
    using pt_wf_frame [OF wf, of m1] same by blast+
qed

lemma loc_distinct:
  assumes "alias_free m T va n" and "i < n" and "j < n" and "pg (va + of_nat i) \<noteq> pg (va + of_nat j)"
  shows "loc m T (va + of_nat i) \<noteq> loc m T (va + of_nat j)"
proof
  assume "loc m T (va + of_nat i) = loc m T (va + of_nat j)"
  then have "frame m T (va + of_nat i) = frame m T (va + of_nat j)"
    using loc_in_frame frame_unat(1) in_page_unique by metis
  with assms show False unfolding alias_free_def by blast
qed

lemma outside_frames_loc:
  "outside_frames m T va n a \<Longrightarrow> i < n \<Longrightarrow> a \<noteq> loc m T (va + of_nat i)"
  using loc_in_frame unfolding outside_frames_def by metis

definition copied :: "mem \<Rightarrow> pt_tree \<Rightarrow> u64 \<Rightarrow> u64 \<Rightarrow> nat \<Rightarrow> mem \<Rightarrow> bool" where
  "copied m T va src n m' \<longleftrightarrow>
     (\<forall>i<n. m' (loc m T (va + of_nat i)) = m (src + of_nat i)) \<and>
     (\<forall>a. (\<forall>i<n. a \<noteq> loc m T (va + of_nat i)) \<longrightarrow> m' a = m a)"

text \<open>Two consecutive copies make one.\<close>

lemma copied_append:
  assumes af: "alias_free m T va n" and "k \<le> n"
    and far: "\<And>i j. i < k \<Longrightarrow> k \<le> j \<Longrightarrow> j < n \<Longrightarrow> pg (va + of_nat i) \<noteq> pg (va + of_nat j)"
    and src: "\<And>i. i < n \<Longrightarrow> outside_frames m T va n (src + of_nat i)"
    and c1: "copied m T va src k m1" and tr: "loc m1 T = loc m T"
    and c2: "copied m1 T (va + of_nat k) (src + of_nat k) (n - k) m2"
  shows "copied m T va src n m2"
proof -
  let ?L = "loc m T"
  have later: "m2 (?L (va + of_nat (k + j))) = m1 (src + of_nat (k + j))" if "j < n - k" for j
    using c2 that tr by (simp add: copied_def add.assoc)
  have keep: "m2 a = m1 a" if "\<And>j. j < n - k \<Longrightarrow> a \<noteq> ?L (va + of_nat (k + j))" for a
    using c2 that tr by (simp add: copied_def add.assoc)
  have src1: "m1 (src + of_nat i) = m (src + of_nat i)" if "i < n" for i
    using c1 outside_frames_loc [OF src [OF that]] \<open>k \<le> n\<close> unfolding copied_def by auto
  have "m2 (?L (va + of_nat i)) = m (src + of_nat i)" if "i < n" for i
  proof (cases "i < k")
    case True
    then have "m2 (?L (va + of_nat i)) = m1 (?L (va + of_nat i))"
      using loc_distinct [OF af that] far [OF True] by (intro keep) (metis le_add1 add.commute less_diff_conv)
    with c1 True show ?thesis by (simp add: copied_def)
  next
    case False
    then obtain j where "i = k + j" using le_Suc_ex not_less by blast
    then show ?thesis using later [of j] src1 [OF that] that by simp
  qed
  moreover have "m2 a = m a" if "\<forall>i<n. a \<noteq> ?L (va + of_nat i)" for a
  proof -
    have "m2 a = m1 a" using that by (intro keep) (metis add.commute less_diff_conv)
    also have "\<dots> = m a" using c1 that \<open>k \<le> n\<close> by (simp add: copied_def)
    finally show ?thesis .
  qed
  ultimately show ?thesis by (simp add: copied_def)
qed

lemma copy_to_va_ok:
  assumes "pt_wf (mem s) r T" and "user_range (mem s) T va (unat len)"
    and "alias_free (mem s) T va (unat len)" and "unat src + unat len < 2 ^ 64"
    and "\<And>i. i < unat len \<Longrightarrow> outside_frames (mem s) T va (unat len) (src + of_nat i)"
  shows "\<exists>m'. copy_to_va r va src len s = Inr (0, s\<lparr>mem := m'\<rparr>) \<and> copied (mem s) T va src (unat len) m'"
  using assms
proof (induction "unat len" arbitrary: len va src s rule: less_induct)
  case less
  show ?case
  proof (cases "len = 0")
    case True
    then show ?thesis by (auto intro!: exI [of _ "mem s"] simp: copied_def copy_to_va.simps)
  next
    case False
    define k where "k = unat (copy_chunk va len)"
    note R = copy_round [OF less.prems(1,2) False k_def]
    define m1 where "m1 = write_bytes (mem s) (loc (mem s) T va) (read_bytes (mem s) src k)"
    let ?s1 = "s\<lparr>mem := m1\<rparr>" and ?l = "len - copy_chunk va len"
    have "fst (memmove (mem s) (loc (mem s) T va) src (copy_chunk va len)) = m1"
      using less.prems(4) R(3,8) by (simp add: memmove_eq m1_def k_def)
    moreover have "copy_chunk va len = of_nat k" by (simp add: k_def)
    ultimately have step: "copy_to_va r va src len s =
        copy_to_va r (PGROUNDDOWN va + PGSIZE) (src + of_nat k) ?l ?s1"
      using False R(1) by (subst copy_to_va.simps) (auto simp: Let_def)
    note W = chunk_written [OF less.prems(1,2) _ _ m1_def, simplified, OF R(3) conjunct1 [OF R(6)]]
    have c1: "copied (mem s) T va src k m1"
      using W(1,2) R(6) unfolding copied_def by simp
    note tr = translation_cong [OF W(4)]
    have l: "unat ?l = unat len - k" using R(3) by (simp add: word_sub_unat k_def)
    show ?thesis
    proof (cases "k < unat len")
      case False
      then have "k = unat len" "?l = 0" using R(3) l by (simp_all add: unat_eq_0 flip: unat_eq_0)
      then show ?thesis using step c1 by (auto simp: copy_to_va.simps)
    next
      case True
      have "\<exists>m'. copy_to_va r (va + of_nat k) (src + of_nat k) ?l ?s1 = Inr (0, ?s1\<lparr>mem := m'\<rparr>) \<and>
          copied (mem ?s1) T (va + of_nat k) (src + of_nat k) (unat ?l) m'"
      proof (rule less.hyps)
        show "unat ?l < unat len" using l R(2) True by simp
        show "unat (src + of_nat k) + unat ?l < 2 ^ 64"
          using less.prems(4) l R(3) by (subst unat_plus_64) simp_all
        fix i assume "i < unat ?l"
        then have "outside_frames (mem s) T va (unat len) (src + of_nat (k + i))"
          using l by (intro less.prems(5)) simp
        from outside_frames_drop [OF this R(3)]
        show "outside_frames (mem ?s1) T (va + of_nat k) (unat ?l) (src + of_nat k + of_nat i)"
          using tr l by (simp add: add.assoc)
      qed (use W(3) tr l user_range_drop [OF less.prems(2) R(3)] alias_free_drop [OF less.prems(3) R(3)] in simp_all)
      then obtain m' where m': "copy_to_va r (va + of_nat k) (src + of_nat k) ?l ?s1 = Inr (0, s\<lparr>mem := m'\<rparr>)"
        "copied m1 T (va + of_nat k) (src + of_nat k) (unat len - k) m'"
        using l by auto
      have "copied (mem s) T va src (unat len) m'"
        using R(6,7) less.prems(5) by (intro copied_append [OF less.prems(3) R(3) _ _ c1 tr(2) m'(2)]) metis+
      with step m'(1) R(5) [OF True] show ?thesis by auto
    qed
  qed
qed

lemma copied_keeps:
  assumes wf: "pt_wf m r T" and ur: "user_range m T va n" and c: "copied m T va src n m'"
  shows "pt_wf m' r T" and "pte_of m' T v = pte_of m T v"
proof -
  have same: "m' a = m a" if u: "u \<in> ran T" "in_page u a" for u a
  proof -
    have "a \<noteq> loc m T (va + of_nat i)" if "i < n" for i
    proof -
      have "frame m T (va + of_nat i) \<noteq> u"
        using ur that u(1) unfolding user_range_def user_page_def by blast
      moreover have "page_aligned u" using wf u(1) by (simp add: pt_wf_def dmw_page_def)
      ultimately show ?thesis using loc_in_frame frame_unat(1) u(2) in_page_unique by blast
    qed
    with c show ?thesis by (simp add: copied_def)
  qed
  show "pt_wf m' r T" "pte_of m' T v = pte_of m T v"
    using pt_wf_frame [OF wf, of m'] same by blast+
qed

text \<open>The user bytes of a range, in order.\<close>

definition user_bytes :: "mem \<Rightarrow> pt_tree \<Rightarrow> u64 \<Rightarrow> nat \<Rightarrow> bytes" where
  "user_bytes m T va n = map (\<lambda>i. m (loc m T (va + of_nat i))) [0..<n]"

lemma user_bytes_append:
  "user_bytes m T va (i + j) = user_bytes m T va i @ user_bytes m T (va + of_nat i) j"
  by (rule nth_equalityI) (auto simp: user_bytes_def nth_append of_nat_diff)

text \<open>A kernel buffer that meets neither the tables nor the frames of a range.\<close>

definition kernel_buffer :: "mem \<Rightarrow> pt_tree \<Rightarrow> u64 \<Rightarrow> nat \<Rightarrow> u64 \<Rightarrow> nat \<Rightarrow> bool" where
  "kernel_buffer m T va n dst l \<longleftrightarrow> (\<forall>i<l. outside_frames m T va n (dst + of_nat i) \<and>
     (\<forall>u\<in>ran T. \<not> in_page u (dst + of_nat i)))"

lemma kernel_buffer_write:
  assumes wf: "pt_wf m r T" and kb: "kernel_buffer m T va n dst l" and "length bs \<le> l"
    and m1: "m1 = write_bytes m dst bs"
  shows "pt_wf m1 r T" and "pte_of m1 T v = pte_of m T v" and "user_bytes m1 T va n = user_bytes m T va n"
proof -
  have out: "m1 a = m a" if "\<And>i. i < length bs \<Longrightarrow> a \<noteq> dst + of_nat i" for a
  proof -
    have "\<not> unat (a - dst) < length bs"
      using that [of "unat (a - dst)"] by auto
    then show ?thesis by (simp add: m1 write_bytes_def)
  qed
  have same: "m1 a = m a" if "u \<in> ran T" "in_page u a" for u a
    using kb assms(3) that unfolding kernel_buffer_def by (intro out) (metis order_less_le_trans)
  show "pt_wf m1 r T" and pte: "pte_of m1 T v = pte_of m T v" for v
    using pt_wf_frame [OF wf, of m1] same by blast+
  have "m1 (loc m T (va + of_nat i)) = m (loc m T (va + of_nat i))" if "i < n" for i
    using kb assms(3) that outside_frames_loc unfolding kernel_buffer_def
    by (intro out) (metis order_less_le_trans)
  then show "user_bytes m1 T va n = user_bytes m T va n"
    using translation_cong(2) [OF pte] by (simp add: user_bytes_def)
qed

lemma kernel_buffer_drop:
  assumes "kernel_buffer m T va n dst n" and "k \<le> n"
  shows "kernel_buffer m T (va + of_nat k) (n - k) (dst + of_nat k) (n - k)"
  unfolding kernel_buffer_def
proof (intro allI impI)
  fix i
  assume "i < n - k"
  then have "k + i < n" by simp
  then have "outside_frames m T va n (dst + of_nat (k + i)) \<and>
      (\<forall>u\<in>ran T. \<not> in_page u (dst + of_nat (k + i)))"
    using assms(1) unfolding kernel_buffer_def by blast
  then show "outside_frames m T (va + of_nat k) (n - k) (dst + of_nat k + of_nat i) \<and>
      (\<forall>u\<in>ran T. \<not> in_page u (dst + of_nat k + of_nat i))"
    using outside_frames_drop [OF _ assms(2)] by (simp add: add.assoc)
qed

lemma copy_from_va_ok:
  assumes "pt_wf (mem s) r T" and "user_range (mem s) T va (unat len)"
    and "kernel_buffer (mem s) T va (unat len) dst (unat len)" and "unat dst + unat len \<le> 2 ^ 64"
  shows "copy_from_va r dst va len s =
    Inr (0, s\<lparr>mem := write_bytes (mem s) dst (user_bytes (mem s) T va (unat len))\<rparr>)"
  using assms
proof (induction "unat len" arbitrary: len va dst s rule: less_induct)
  case less
  show ?case
  proof (cases "len = 0")
    case True
    then show ?thesis by (simp add: user_bytes_def copy_from_va.simps)
  next
    case False
    define k where "k = unat (copy_chunk va len)"
    note R = copy_round [OF less.prems(1,2) False k_def]
    have bytes: "read_bytes (mem s) (loc (mem s) T va) k = user_bytes (mem s) T va k"
      by (rule nth_equalityI) (simp_all add: user_bytes_def R(6))
    define m1 where "m1 = write_bytes (mem s) dst (user_bytes (mem s) T va k)"
    let ?s1 = "s\<lparr>mem := m1\<rparr>" and ?l = "len - copy_chunk va len"
    have "fst (memmove (mem s) dst (loc (mem s) T va) (copy_chunk va len)) = m1"
      using less.prems(4) R(3,8) bytes by (simp add: memmove_eq m1_def k_def)
    moreover have "copy_chunk va len = of_nat k" by (simp add: k_def)
    ultimately have step: "copy_from_va r dst va len s =
        copy_from_va r (dst + of_nat k) (PGROUNDDOWN va + PGSIZE) ?l ?s1"
      using False R(1) by (subst copy_from_va.simps) (auto simp: Let_def)
    have lb: "length (user_bytes (mem s) T va k) = k" by (simp add: user_bytes_def)
    note W = kernel_buffer_write [OF less.prems(1,3) _ m1_def, unfolded lb, OF R(3)]
    note tr = translation_cong [OF W(2)]
    have l: "unat ?l = unat len - k" using R(3) by (simp add: word_sub_unat k_def)
    show ?thesis
    proof (cases "k < unat len")
      case False
      then have "k = unat len" "?l = 0" using R(3) l by (simp_all add: unat_eq_0 flip: unat_eq_0)
      then show ?thesis using step by (simp add: copy_from_va.simps m1_def)
    next
      case True
      let ?va = "va + of_nat k" and ?n = "unat len - k"
      have split: "user_bytes m T va (unat len) = user_bytes m T va k @ user_bytes m T ?va ?n" for m
        using user_bytes_append [of m T va k ?n] R(3) by simp
      have ub: "user_bytes m1 T ?va ?n = user_bytes (mem s) T ?va ?n"
        using W(3) by (simp add: split) (simp add: user_bytes_def)
      have "kernel_buffer (mem ?s1) T ?va (unat ?l) (dst + of_nat k) (unat ?l)"
        using kernel_buffer_drop [OF less.prems(3) R(3)] tr l by (simp add: kernel_buffer_def)
      moreover have "unat (dst + of_nat k) + unat ?l \<le> 2 ^ 64"
        using less.prems(4) l True by (subst unat_plus_64) simp_all
      ultimately have "copy_from_va r (dst + of_nat k) ?va ?l ?s1 = Inr (0, ?s1\<lparr>mem :=
          write_bytes (mem ?s1) (dst + of_nat k) (user_bytes (mem ?s1) T ?va (unat ?l))\<rparr>)"
        using W(1) tr l user_range_drop [OF less.prems(2) R(3)] R(2) True
        by (intro less.hyps) simp_all
      also have "\<dots> = Inr (0, s\<lparr>mem := write_bytes (mem s) dst (user_bytes (mem s) T va (unat len))\<rparr>)"
        using write_bytes_append [of "user_bytes (mem s) T va k" "user_bytes (mem s) T ?va ?n" "mem s" dst]
          l ub lb R(3) by (simp add: m1_def split) (simp add: user_bytes_def less_imp_le)
      finally show ?thesis using step R(5) [OF True] by simp
    qed
  qed
qed

text \<open>A table with one mapped page, and three bytes in kernel memory.\<close>

lemma sample_mapping:
  "\<exists>(s :: mm) T. pt_wf (mem s) (KERNBASE + 49152) T \<and> (\<forall>u\<in>ran T. unat KERNBASE \<le> unat u) \<and>
    (\<forall>va. pg va = 4 \<longrightarrow> pte_of (mem s) T va = 0x80001) \<and> read_bytes (mem s) 0x1000 3 = [7, 8, 9]"
proof -
  let ?r = "KERNBASE + 49152"
  obtain s where s: "as_inv s ?r [[] \<mapsto> ?r] (rev (page_run KERNBASE 3))"
    "\<And>va. pte_of (mem s) [[] \<mapsto> ?r] va = 0"
    using sample_table [of 3] by (auto simp del: sample_heap.simps)
  have "2 \<le> length (rev (page_run KERNBASE 3))" by (simp add: page_run_def)
  from map_single_page_ok [OF s(1) this, of "0x10000" "0x80000" 1]
  obtain s' T' zs where M: "as_inv s' ?r T' (drop (length zs) (rev (page_run KERNBASE 3)))"
    "zs = take (length zs) (rev (page_run KERNBASE 3))" "ran T' = {?r} \<union> set zs"
    "\<And>va'. pte_of (mem s') T' va' = (if vpn va' = vpn 0x10000
       then PA2PTE 0x80000 OR PTE_FLAGS 0 OR 1 else 0)"
    using s(2) by (auto simp: ran_map_upd)
  have "\<exists>i<4. u = KERNBASE + of_nat (i * 16384)" if "u \<in> ran T'" for u
  proof (cases "u = ?r")
    case True
    then show ?thesis by (intro exI [of _ 3]) simp
  next
    case False
    then have "u \<in> set (rev (page_run KERNBASE 3))" using that M(2,3) by (metis Un_iff insertE empty_iff in_set_takeD)
    then obtain i where "i < 3" "u = KERNBASE + of_nat (i * 16384)" by (auto simp: page_run_def)
    then show ?thesis by (intro exI [of _ i]) simp
  qed
  then have T': "unat KERNBASE \<le> unat u" if "u \<in> ran T'" for u
    using that sample_page(2) by (fastforce simp: KERNBASE_def simp del: of_nat_mult)
  let ?m = "write_bytes (mem s') 0x1000 [7, 8, 9]"
  have "\<not> in_region 0x1000 3 a" if "u \<in> ran T'" "in_page u a" for u a
  proof
    assume "in_region 0x1000 3 a"
    then have "a - 0x1000 \<in> {0, 1, 2}" 
      by (auto simp: in_region_def numeral_3_eq_3 less_Suc_eq word_unat_eq_iff)
    then have "a \<in> {0x1000, 0x1001, 0x1002}" by (auto simp: diff_eq_eq)
    then have "unat a div 16384 = 0" by auto
    moreover have "page_aligned u" using as_invD(2) [OF M(1)] that(1) by (simp add: pt_wf_def dmw_page_def)
    ultimately have "unat u div 16384 = 0" using that(2) by (simp add: in_page_iff)
    then show False using T' [OF that(1)] by (simp add: KERNBASE_def)
  qed
  then have same: "?m a = mem s' a" if "u \<in> ran T'" "in_page u a" for u a
    using that by (intro write_bytes_out) (simp add: eval_nat_numeral)
  have "pt_wf ?m ?r T'" using as_invD(2) [OF M(1)] same by (rule pt_wf_frame)
  moreover have "pte_of ?m T' va = 0x80001" if "pg va = 4" for va
  proof -
    have "pte_of ?m T' va = pte_of (mem s') T' va" using as_invD(2) [OF M(1)] same by (rule pt_wf_frame)
    moreover have "vpn va = vpn 0x10000" using that by (simp add: vpn_def pg_def)
    ultimately show ?thesis using M(4) by (simp add: PA2PTE_def PAMASK_def PTE_FLAGS_def)
  qed
  moreover have "read_bytes ?m 0x1000 3 = [7, 8, 9]" 
    using read_write_same [of "[7, 8, 9]"] by (simp add: numeral_3_eq_3)
  ultimately show ?thesis using T' by (intro exI [of _ "s'\<lparr>mem := ?m\<rparr>"] exI [of _ T']) simp
qed

section \<open>Properties\<close>

text \<open>
  C6: data copied into a mapped user range and copied back arrives unchanged: both calls
  return 0 and the buffer at \<open>dst\<close> holds the bytes that were at \<open>src\<close>. The range may
  cross any number of pages.
\<close>

theorem copy_to_from_va_roundtrip:
  assumes "pt_wf (mem s) r T" and "user_range (mem s) T va (unat len)"
    and "alias_free (mem s) T va (unat len)"
    and "unat src + unat len < 2 ^ 64" and "unat dst + unat len \<le> 2 ^ 64"
    and "\<forall>i<unat len. outside_frames (mem s) T va (unat len) (src + of_nat i)"
    and "kernel_buffer (mem s) T va (unat len) dst (unat len)"
  shows "\<exists>s1 s2. copy_to_va r va src len s = Inr (0, s1) \<and>
    copy_from_va r dst va len s1 = Inr (0, s2) \<and>
    read_bytes (mem s2) dst (unat len) = read_bytes (mem s) src (unat len)"
proof -
  let ?n = "unat len"
  obtain m1 where m1: "copy_to_va r va src len s = Inr (0, s\<lparr>mem := m1\<rparr>)"
    "copied (mem s) T va src ?n m1"
    using copy_to_va_ok [OF assms(1-4)] assms(6) by blast
  note K = copied_keeps [OF assms(1,2) m1(2)]
  note tr = translation_cong [OF K(2)]
  have "copy_from_va r dst va len (s\<lparr>mem := m1\<rparr>) =
      Inr (0, s\<lparr>mem := write_bytes m1 dst (user_bytes m1 T va ?n)\<rparr>)"
    using copy_from_va_ok [of "s\<lparr>mem := m1\<rparr>" r T va len dst] K(1) tr assms(2,5,7)
    by (simp add: kernel_buffer_def)
  moreover have ub: "user_bytes m1 T va ?n = read_bytes (mem s) src ?n"
    using m1(2) tr(2) by (intro nth_equalityI) (simp_all add: user_bytes_def copied_def)
  moreover have "read_bytes (write_bytes m1 dst (user_bytes m1 T va ?n)) dst ?n = read_bytes (mem s) src ?n"
    using read_write_same [of "user_bytes m1 T va ?n" m1 dst] ub by (simp add: less_imp_le)
  ultimately show ?thesis using m1(1) by auto
qed

theorem copy_to_from_va_roundtrip_witness:
  "\<exists>s s1 s2. read_bytes (mem s) 0x1000 3 = [7, 8, 9] \<and>
    copy_to_va (KERNBASE + 49152) 0x10010 0x1000 3 s = Inr (0, s1) \<and>
    copy_from_va (KERNBASE + 49152) 0x2000 0x10010 3 s1 = Inr (0, s2) \<and>
    read_bytes (mem s2) 0x2000 3 = [7, 8, 9]"
proof -
  obtain s :: mm and T where s: "pt_wf (mem s) (KERNBASE + 49152) T" "\<And>u. u \<in> ran T \<Longrightarrow> unat KERNBASE \<le> unat u"
    "\<And>va. pg va = 4 \<Longrightarrow> pte_of (mem s) T va = 0x80001" "read_bytes (mem s) 0x1000 3 = [7, 8, 9]"
    using sample_mapping by blast
  have va: "pg (0x10010 + of_nat i) = 4" if "i < 3" for i
    using that by (auto simp: pg_def numeral_3_eq_3 less_Suc_eq)
  have fr: "frame (mem s) T (0x10010 + of_nat i) = 0x9000000000080000" if "i < 3" for i
    using s(3) [OF va [OF that]] by (simp add: frame_def PTE2PA_def PAMASK_def PA2VA_def MAIN_KERNEL_DMW_def)
  have tab: "\<not> in_page u a" if "u \<in> ran T" "unat a < 0x9000000000000000" for u a
  proof -
    have "page_aligned u" using s(1) that(1) by (simp add: pt_wf_def dmw_page_def)
    moreover have "unat a div 16384 < unat u div 16384"
    proof -
      have "unat a div 16384 \<le> 0x8FFFFFFFFFFFFFFF div 16384" using that(2) by (intro div_le_mono) simp
      moreover have "unat KERNBASE div 16384 \<le> unat u div 16384" using s(2) [OF that(1)] by (rule div_le_mono)
      ultimately show ?thesis by (simp add: KERNBASE_def)
    qed
    ultimately show ?thesis by (simp add: in_page_iff)
  qed
  have "user_page (mem s) T (0x10010 + of_nat i)" if "i < 3" for i
    using that s(2,3) va fr by (fastforce simp: user_page_def PTE_V_def PTE2PA_def PAMASK_def KERNBASE_def)
  then have "user_range (mem s) T 0x10010 (unat (3 :: u64))" by (simp add: user_range_def)
  moreover have "alias_free (mem s) T 0x10010 (unat (3 :: u64))" using va by (simp add: alias_free_def)
  moreover have small: "\<not> in_page 0x9000000000080000 (c + of_nat i)" if "i < 3" "c = 0x1000 \<or> c = 0x2000" for c i
    using that by (auto simp: in_page_def in_region_def numeral_3_eq_3 less_Suc_eq)
  then have out: "outside_frames (mem s) T 0x10010 3 (c + of_nat i)" if "i < 3" "c = 0x1000 \<or> c = 0x2000" for c i
    using that fr by (simp add: outside_frames_def)
  moreover have "kernel_buffer (mem s) T 0x10010 (unat (3 :: u64)) 0x2000 (unat (3 :: u64))"
  proof -
    have "unat (0x2000 + of_nat i :: u64) < 0x9000000000000000" if "i < 3" for i
      using that by (subst unat_plus_64) simp_all
    then show ?thesis using out tab by (simp add: kernel_buffer_def)
  qed
  ultimately have "\<exists>s1 s2. copy_to_va (KERNBASE + 49152) 0x10010 0x1000 3 s = Inr (0, s1) \<and>
    copy_from_va (KERNBASE + 49152) 0x2000 0x10010 3 s1 = Inr (0, s2) \<and>
    read_bytes (mem s2) 0x2000 (unat (3 :: u64)) = read_bytes (mem s) 0x1000 (unat (3 :: u64))"
    by (intro copy_to_from_va_roundtrip [OF s(1)]) simp_all
  then show ?thesis using s(4) by auto
qed

end
