(* ===== verification/Vm.thy ===== *)
theory Vm
  imports KHeap UserMem
begin

text \<open>
  The mapping list of a process and the operations that build, copy and free an address
  space: lolibc/struct/mlist.c, \<open>struct mapping\<close> of include/vm.h and the rest of
  mm/n_vm.c. List headers, elements and mappings are objects in byte memory, obtained
  from \<open>malloc\<close>; the pages they describe come from \<open>kmalloc\<close>. The theory shows when pushing
  and popping is last in, first out, and that removing an element from the middle of a
  list leaves the list pointing at it.
\<close>

section \<open>Definitions\<close>

subsection \<open>Lists\<close>

text \<open>
  \<open>struct mlist\<close>: head at 0, tail at 8. \<open>struct mlist_element\<close>: prev at 0, next at 8, data
  at 16.
\<close>

definition ld64 :: "u64 \<Rightarrow> kheap \<Rightarrow> u64" where
  "ld64 a h = load64 (mem (hmm h)) a"

definition mlist_init :: "kheap \<Rightarrow> (u64 \<times> kheap) kres" where
  "mlist_init h = kbind (malloc 16 h) (\<lambda>(l, h1). Inr (l, put64 (l + 8) 0 (put64 l 0 h1)))"

definition new_mlist_elem :: "u64 \<Rightarrow> kheap \<Rightarrow> (u64 \<times> kheap) kres" where
  "new_mlist_elem data h =
     kbind (malloc 24 h) (\<lambda>(e, h1). Inr (e, put64 (e + 16) data (put64 (e + 8) 0 (put64 e 0 h1))))"

definition mlist_is_empty :: "u64 \<Rightarrow> kheap \<Rightarrow> bool kres" where
  "mlist_is_empty l h = (if l = 0 then Inl (Panic ''list not init'') else Inr (ld64 l h = 0))"

definition mlist_push :: "u64 \<Rightarrow> u64 \<Rightarrow> kheap \<Rightarrow> kheap kres" where
  "mlist_push l data h =
     kbind (new_mlist_elem data h) (\<lambda>(e, h1).
       kbind (mlist_is_empty l h1) (\<lambda>mt.
         Inr (if mt then put64 l e (put64 (l + 8) e h1)
              else let h2 = put64 (e + 8) (ld64 l h1) h1; h3 = put64 (ld64 (e + 8) h2) e h2 in put64 l e h3)))"

definition mlist_pop :: "u64 \<Rightarrow> kheap \<Rightarrow> (u64 \<times> kheap) kres" where
  "mlist_pop l h =
     kbind (mlist_is_empty l h) (\<lambda>mt.
       if mt then Inr (0, h)
       else let e = ld64 l h; data = ld64 (e + 16) h;
                h1 = (if ld64 l h = ld64 (l + 8) h then put64 l 0 (put64 (l + 8) 0 h)
                      else put64 l (ld64 (ld64 l h + 8) h) h) in
            Inr (data, free e h1))"

definition mlist_append :: "u64 \<Rightarrow> u64 \<Rightarrow> kheap \<Rightarrow> kheap kres" where
  "mlist_append l data h =
     kbind (new_mlist_elem data h) (\<lambda>(e, h1).
       kbind (mlist_is_empty l h1) (\<lambda>mt.
         Inr (if mt then put64 l e (put64 (l + 8) e h1)
              else let h2 = put64 e (ld64 (l + 8) h1) h1; h3 = put64 (ld64 e h2 + 8) e h2 in put64 (l + 8) e h3)))"

text \<open>The loops of \<open>mlist_remove\<close> and \<open>mlist_find\<close> follow \<open>next\<close> and may go round for ever.\<close>

partial_function (option) mlist_remove_loop :: "u64 \<Rightarrow> u64 \<Rightarrow> u64 \<Rightarrow> kheap \<Rightarrow> kheap kres option" where
  "mlist_remove_loop l e data h =
     (if e = 0 then Some (Inl (AssertFail ''mlist_remove''))
      else if ld64 (e + 16) h = data then
        (let h1 = (if e = ld64 l h then put64 l (ld64 (e + 8) h) h else h);
             h2 = (if e = ld64 (l + 8) h1 then put64 (l + 8) (ld64 e h1) h1 else h1) in
         Some (Inr (free e h2)))
      else mlist_remove_loop l (ld64 (e + 8) h) data h)"

definition mlist_remove :: "u64 \<Rightarrow> u64 \<Rightarrow> kheap \<Rightarrow> kheap kres option" where
  "mlist_remove l data h =
     (case mlist_is_empty l h of Inl er \<Rightarrow> Some (Inl er)
      | Inr mt \<Rightarrow> if mt then Some (Inl (AssertFail ''mlist_remove''))
          else mlist_remove_loop l (ld64 l h) data h)"

partial_function (option) mlist_find_loop :: "u64 \<Rightarrow> (u64 \<Rightarrow> bool) \<Rightarrow> kheap \<Rightarrow> u64 option" where
  "mlist_find_loop e f h =
     (if e = 0 then Some 0
      else if f (ld64 (e + 16) h) then Some (ld64 (e + 16) h)
      else mlist_find_loop (ld64 (e + 8) h) f h)"

definition mlist_find :: "u64 \<Rightarrow> (u64 \<Rightarrow> bool) \<Rightarrow> kheap \<Rightarrow> u64 kres option" where
  "mlist_find l f h =
     (case mlist_is_empty l h of Inl er \<Rightarrow> Some (Inl er)
      | Inr mt \<Rightarrow> if mt then Some (Inr 0) else map_option Inr (mlist_find_loop (ld64 l h) f h))"

subsection \<open>Address spaces\<close>

text \<open>\<open>struct mapping\<close>: pa at 0, va at 8, size at 16, perm at 24.\<close>

definition in_mm :: "(mm \<Rightarrow> ('a \<times> mm) kres) \<Rightarrow> kheap \<Rightarrow> ('a \<times> kheap) kres" where
  "in_mm f h = kbind (f (hmm h)) (\<lambda>(r, m). Inr (r, h\<lparr>hmm := m\<rparr>))"

definition clear_page :: "u64 \<Rightarrow> kheap \<Rightarrow> kheap" where
  "clear_page a h = h\<lparr>hmm := (hmm h)\<lparr>mem := fst (memset (mem (hmm h)) a 0 PGSIZE)\<rparr>\<rparr>"

definition proc_add_mapping :: "u64 \<Rightarrow> u64 \<Rightarrow> u64 \<Rightarrow> u64 \<Rightarrow> u64 \<Rightarrow> kheap \<Rightarrow> kheap kres" where
  "proc_add_mapping mapping_list pa va sz perm h =
     kbind (malloc 32 h) (\<lambda>(m, h1).
       mlist_push mapping_list m
         (put64 (m + 24) perm (put64 (m + 16) sz (put64 (m + 8) va (put64 m pa h1)))))"

text \<open>
  \<open>alloc_vm\<close> on the page table and the mapping list of the process. The end is rounded up to
  a page, so that the loop cannot run past the end of the address space.
\<close>

lemma PGROUNDUP_top: "unat (PGROUNDUP e) \<le> 18446744073709535232"
proof -
  have "PGROUNDUP e = PGROUNDDOWN (e + PGSIZE - 1)" by (simp add: PGROUNDUP_def PGROUNDDOWN_def)
  moreover have "n - n mod 16384 \<le> 18446744073709535232" if "n < 18446744073709551616" for n :: nat
  proof -
    have "n div 16384 < 1125899906842624" using that by (intro less_mult_imp_div_less) simp
    then show ?thesis by (simp add: minus_mod_eq_mult_div)
  qed
  ultimately show ?thesis using PGROUNDDOWN_unat [of "e + PGSIZE - 1"] unat_lt_64 [of "e + PGSIZE - 1"] by simp
qed

function alloc_vm_loop :: "u64 \<Rightarrow> u64 \<Rightarrow> u64 \<Rightarrow> u64 \<Rightarrow> u64 \<Rightarrow> kheap \<Rightarrow> kheap kres" where
  "alloc_vm_loop pgtbl mapping_list caddr e perm h =
     (if caddr < PGROUNDUP e then
        kbind (in_mm (kmalloc 16384) h) (\<lambda>(new_mem, h1).
          if new_mem = 0 then Inl (Panic ''kalloc'')
          else kbind (in_mm (map_single_page pgtbl caddr new_mem perm) (clear_page new_mem h1)) (\<lambda>(r, h2).
            if r \<noteq> 0 then Inl (Panic ''__map_single_page'')
            else kbind (proc_add_mapping mapping_list new_mem caddr PGSIZE perm h2)
              (alloc_vm_loop pgtbl mapping_list (caddr + PGSIZE) e perm)))
      else Inr h)"
  by pat_completeness auto

termination alloc_vm_loop
proof (relation "measure (\<lambda>(pgtbl, l, caddr, e, perm, h). unat (PGROUNDUP e) - unat caddr)", simp, clarsimp)
  fix caddr e :: u64
  assume "caddr < PGROUNDUP e"
  then have "unat caddr < unat (PGROUNDUP e)" by (simp add: word_less_nat_alt)
  moreover have "unat (caddr + PGSIZE) = unat caddr + 16384"
    using calculation PGROUNDUP_top [of e] by (subst unat_plus_64) (simp_all add: PGSIZE_def)
  ultimately show "unat (PGROUNDUP e) - unat (caddr + PGSIZE) < unat (PGROUNDUP e) - unat caddr" by simp
qed

definition alloc_vm :: "u64 \<Rightarrow> u64 \<Rightarrow> u64 \<Rightarrow> u64 \<Rightarrow> u64 \<Rightarrow> kheap \<Rightarrow> (u64 \<times> kheap) kres" where
  "alloc_vm pgtbl mapping_list start e perm h =
     kbind (alloc_vm_loop pgtbl mapping_list start e perm h) (\<lambda>h1. Inr (0, h1))"

text \<open>
  One round of \<open>copy_pagetable\<close>: a page is copied through a fresh page, mapped in the child,
  and entered in the lists of both. \<open>pl\<close> is the new list of the parent.
\<close>

definition copy_mapping :: "u64 \<Rightarrow> u64 \<Rightarrow> u64 \<Rightarrow> u64 \<Rightarrow> u64 \<Rightarrow> kheap \<Rightarrow> kheap kres option" where
  "copy_mapping pgtbl pl npgtbl nl old_list h =
     (case kbind (mlist_pop old_list h) (\<lambda>(info, h1).
        kbind (in_mm (kmalloc 16384) h1) (\<lambda>(new_mem, h2).
          kbind (in_mm (copy_from_va pgtbl new_mem (ld64 (info + 8) h2) PGSIZE) (clear_page new_mem h2)) (\<lambda>(r, h3).
            Inr (info, new_mem, h3)))) of
       Inl er \<Rightarrow> Some (Inl er)
     | Inr (info, new_mem, h3) \<Rightarrow>
         map_option (\<lambda>res. kbind res (\<lambda>(r, m).
             let h4 = h3\<lparr>hmm := m\<rparr>; va = ld64 (info + 8) h4; perm = ld64 (info + 24) h4 in
             kbind (va_to_pa npgtbl va (hmm h4)) (\<lambda>pa.
               kbind (proc_add_mapping pl (ld64 info h4) va PGSIZE perm h4) (\<lambda>h5.
                 proc_add_mapping nl (PA2VA pa) (ld64 (info + 8) h5) PGSIZE (ld64 (info + 24) h5) h5))))
           (map_pages npgtbl (ld64 (info + 8) h3) (ld64 (info + 16) h3) new_mem (ld64 (info + 24) h3) (hmm h3)))"

partial_function (option) copy_loop :: "u64 \<Rightarrow> u64 \<Rightarrow> u64 \<Rightarrow> u64 \<Rightarrow> u64 \<Rightarrow> kheap \<Rightarrow> kheap kres option" where
  "copy_loop pgtbl pl npgtbl nl old_list h =
     (case mlist_is_empty old_list h of
        Inl er \<Rightarrow> Some (Inl er)
      | Inr mt \<Rightarrow>
          if mt then Some (Inr h)
          else Option.bind (copy_mapping pgtbl pl npgtbl nl old_list h) (\<lambda>res.
            case res of Inl er \<Rightarrow> Some (Inl er)
            | Inr h1 \<Rightarrow> copy_loop pgtbl pl npgtbl nl old_list h1))"

text \<open>The new mapping list of the parent is part of the result.\<close>

definition copy_pagetable :: "u64 \<Rightarrow> u64 \<Rightarrow> u64 \<Rightarrow> u64 \<Rightarrow> kheap \<Rightarrow> (u64 \<times> kheap) kres option" where
  "copy_pagetable pgtbl mapping_list npgtbl nl h =
     (case mlist_init h of
        Inl er \<Rightarrow> Some (Inl er)
      | Inr (pl, h1) \<Rightarrow>
          map_option (\<lambda>res. kbind res (\<lambda>h2. Inr (pl, h2))) (copy_loop pgtbl pl npgtbl nl mapping_list h1))"

partial_function (option) pgtbl_free_loop :: "u64 \<Rightarrow> kheap \<Rightarrow> kheap kres option" where
  "pgtbl_free_loop l h =
     (case mlist_is_empty l h of
        Inl er \<Rightarrow> Some (Inl er)
      | Inr mt \<Rightarrow>
          if mt then Some (Inr h)
          else case kbind (mlist_pop l h) (\<lambda>(info, h1).
              kbind (kfree (PA2VA (ld64 info h1)) (hmm h1)) (\<lambda>m. Inr (free info (h1\<lparr>hmm := m\<rparr>)))) of
            Inl er \<Rightarrow> Some (Inl er)
          | Inr h2 \<Rightarrow> pgtbl_free_loop l h2)"

definition pgtbl_free :: "u64 \<Rightarrow> u64 \<Rightarrow> kheap \<Rightarrow> kheap kres option" where
  "pgtbl_free pgtbl mapping_list h =
     map_option (\<lambda>res. kbind res (\<lambda>h1.
       kbind (free_pagetable 2 pgtbl (hmm h1)) (\<lambda>m. Inr (h1\<lparr>hmm := m\<rparr>)))) (pgtbl_free_loop mapping_list h)"

section \<open>Lists in memory\<close>

text \<open>
  The list \<open>l\<close> has the elements \<open>es\<close> (address and data): \<open>next\<close> leads from one to the next
  and to 0 at the end, \<open>head\<close> and \<open>tail\<close> are the first and the last.
\<close>

fun elems_from :: "kheap \<Rightarrow> u64 \<Rightarrow> (u64 \<times> u64) list \<Rightarrow> bool" where
  "elems_from h p [] \<longleftrightarrow> p = 0"
| "elems_from h p ((e, d) # es) \<longleftrightarrow> p = e \<and> e \<noteq> 0 \<and> ld64 (e + 16) h = d \<and> elems_from h (ld64 (e + 8) h) es"

definition mlist_at :: "kheap \<Rightarrow> u64 \<Rightarrow> (u64 \<times> u64) list \<Rightarrow> bool" where
  "mlist_at h l es \<longleftrightarrow> l \<noteq> 0 \<and> elems_from h (ld64 l h) es \<and> (es \<noteq> [] \<longrightarrow> ld64 (l + 8) h = fst (last es)) \<and>
     distinct (map fst es)"

text \<open>The objects of the list: its header of 16 bytes and its elements of 24 bytes.\<close>

definition mlist_space :: "u64 \<Rightarrow> (u64 \<times> u64) list \<Rightarrow> u64 set" where
  "mlist_space l es = reg l 16 \<union> (\<Union>e\<in>set (map fst es). reg e 24)"

lemma ld64_put64_same [simp]: "ld64 a (put64 a v h) = v"
  by (simp add: ld64_def)

lemma ld64_put64_out: "reg a 8 \<inter> reg b 8 = {} \<Longrightarrow> ld64 a (put64 b v h) = ld64 a h"
  unfolding ld64_def put64_simps by (rule load64_store64_disjoint) (auto simp: reg_def)

lemma ld64_cong: "(\<And>x. x \<in> reg a 8 \<Longrightarrow> mem (hmm h) x = mem (hmm h') x) \<Longrightarrow> ld64 a h = ld64 a h'"
  unfolding ld64_def by (rule load64_cong) (simp add: reg_def)

lemma reg_field:
  assumes "k + 8 \<le> n" and "n \<le> 2 ^ 32"
  shows "reg (e + of_nat k) 8 \<subseteq> reg e n"
proof
  fix x
  assume "x \<in> reg (e + of_nat k) 8"
  then have "unat (x - (e + of_nat k)) < 8" by (simp add: reg_def in_region_def)
  moreover have "unat (of_nat k :: u64) = k" using assms by (intro unat_of_nat_64) simp
  ultimately have "unat (x - e) < 8 + k"
    using unat_plus_64 [of "x - (e + of_nat k)" "of_nat k"] assms by (simp add: algebra_simps)
  then show "x \<in> reg e n" using assms(1) by (simp add: reg_def in_region_def)
qed

lemmas elem_fields = reg_field [of 0 24, simplified] reg_field [of 8 24, simplified] reg_field [of 16 24, simplified]
lemmas list_fields = reg_field [of 0 16, simplified] reg_field [of 8 16, simplified]

lemma elems_from_cong:
  assumes "\<And>e x. e \<in> set (map fst es) \<Longrightarrow> x \<in> reg (e + 8) 16 \<Longrightarrow> mem (hmm h) x = mem (hmm h') x"
  shows "elems_from h p es = elems_from h' p es"
  using assms
proof (induction es arbitrary: p)
  case (Cons ed es)
  obtain e d where ed: "ed = (e, d)" by (cases ed)
  have "ld64 (e + 16) h = ld64 (e + 16) h'" "ld64 (e + 8) h = ld64 (e + 8) h'"
    using Cons.prems [of e] list_fields [of "e + 8"] ed by (auto intro!: ld64_cong simp: add.commute)
  then show ?case using Cons.IH Cons.prems ed by auto
qed simp

lemma elem_split: "reg (e + 8) 16 \<subseteq> reg e 24" "reg e 8 \<inter> reg (e + 8) 16 = {}"
proof -
  show "reg (e + 8) 16 \<subseteq> reg e 24"
  proof
    fix x
    assume "x \<in> reg (e + 8) 16"
    then show "x \<in> reg e 24"
      using unat_plus_64 [of "x - (e + 8)" 8] by (simp add: reg_def in_region_def)
  qed
  have False if "unat (x - e) < 8" "unat (x - (e + 8)) < 16" for x
    using that unat_plus_64 [of "x - (e + 8)" 8] by simp
  then show "reg e 8 \<inter> reg (e + 8) 16 = {}" by (auto simp: reg_def in_region_def)
qed

lemma mlist_at_cong:
  assumes "\<And>x. x \<in> mlist_space l es \<Longrightarrow> mem (hmm h) x = mem (hmm h') x"
  shows "mlist_at h l es = mlist_at h' l es"
proof -
  have "ld64 l h = ld64 l h'" "ld64 (l + 8) h = ld64 (l + 8) h'"
    using assms list_fields [of l] by (auto intro!: ld64_cong simp: mlist_space_def)
  moreover have "elems_from h p es = elems_from h' p es" for p
    using assms elem_split(1) by (intro elems_from_cong) (auto simp: mlist_space_def)
  ultimately show ?thesis by (simp add: mlist_at_def)
qed

lemma store64_reg: "x \<notin> reg a 8 \<Longrightarrow> store64 m a v x = m x"
  by (simp add: reg_def store64_out)

definition mlist_sep :: "u64 \<Rightarrow> (u64 \<times> u64) list \<Rightarrow> bool" where
  "mlist_sep l es \<longleftrightarrow> (\<forall>e\<in>set (map fst es). reg l 16 \<inter> reg e 24 = {}) \<and>
     (\<forall>e\<in>set (map fst es). \<forall>e'\<in>set (map fst es). e \<noteq> e' \<longrightarrow> reg e 24 \<inter> reg e' 24 = {})"

lemma list_split: "reg l 8 \<inter> reg (l + 8) 8 = {}"
proof -
  have "reg (l + 8) 8 \<subseteq> reg (l + 8) 16" by (rule reg_mono) simp
  then show ?thesis using elem_split(2) [of l] by blast
qed

text \<open>A fresh element, its fields, and the list besides.\<close>

lemma new_mlist_elem_ok:
  assumes m: "malloc 24 h = Inr (e, h1)" and same: "\<And>x. x \<in> S \<Longrightarrow> mem (hmm h1) x = mem (hmm h) x" and out: "reg e 24 \<inter> S = {}"
  shows "\<exists>h2. new_mlist_elem d h = Inr (e, h2) \<and> ld64 (e + 16) h2 = d \<and> ld64 (e + 8) h2 = 0 \<and>
    (\<forall>x\<in>S. mem (hmm h2) x = mem (hmm h) x)"
proof -
  let ?h2 = "put64 (e + 16) d (put64 (e + 8) 0 (put64 e 0 h1))"
  have "mem (hmm ?h2) x = mem (hmm h) x" if "x \<in> S" for x
  proof -
    have "x \<notin> reg e 8" "x \<notin> reg (e + 8) 8" "x \<notin> reg (e + 16) 8" using elem_fields [of e] out that by blast+
    then show ?thesis using same [OF that] by (simp add: store64_reg)
  qed
  moreover have "ld64 (e + 8) ?h2 = 0"
    using list_split [of "e + 8"] by (subst ld64_put64_out) (simp_all add: add.commute)
  ultimately show ?thesis using m by (simp add: new_mlist_elem_def)
qed

lemma mlist_push_ok:
  assumes l: "mlist_at h l es" "mlist_sep l es" and m: "malloc 24 h = Inr (e, h1)" "e \<noteq> 0"
    and same: "\<And>x. x \<in> mlist_space l es \<Longrightarrow> mem (hmm h1) x = mem (hmm h) x" and out: "reg e 24 \<inter> mlist_space l es = {}"
  shows "\<exists>h2. mlist_push l d h = Inr h2 \<and> mlist_at h2 l ((e, d) # es)"
proof -
  obtain h2 where h2: "new_mlist_elem d h = Inr (e, h2)" "ld64 (e + 16) h2 = d" "ld64 (e + 8) h2 = 0"
    "\<forall>x\<in>mlist_space l es. mem (hmm h2) x = mem (hmm h) x"
    using new_mlist_elem_ok [OF m(1) same out] by blast
  then have at: "mlist_at h2 l es" using l(1) mlist_at_cong [of l es h2 h] by blast
  have el: "reg l 16 \<inter> reg e 24 = {}" using out by (auto simp: mlist_space_def)
  have new: "e \<notin> set (map fst es)" using out reg_self [of 24 e] by (auto simp: mlist_space_def)
  have sub: "reg l 8 \<subseteq> reg l 16" "reg (l + 8) 8 \<subseteq> reg l 16" "reg (e + 8) 8 \<subseteq> reg e 24" "reg (e + 16) 8 \<subseteq> reg e 24"
    using list_fields [of l] elem_fields [of e] by blast+
  show ?thesis
  proof (cases es)
    case Nil
    let ?h = "put64 l e (put64 (l + 8) e h2)"
    have "ld64 (l + 8) ?h = e" using list_split [of l] by (subst ld64_put64_out) (simp_all add: Int_commute)
    moreover have "ld64 a ?h = ld64 a h2" if "reg a 8 \<subseteq> reg e 24" for a
    proof -
      have "reg a 8 \<inter> reg l 8 = {}" "reg a 8 \<inter> reg (l + 8) 8 = {}" using that sub el by blast+
      then show ?thesis by (simp only: ld64_put64_out)
    qed
    moreover have "mlist_push l d h = Inr ?h"
      using h2(1) at Nil by (simp add: mlist_push_def mlist_is_empty_def mlist_at_def)
    ultimately show ?thesis using at m(2) h2(2,3) sub(3,4) Nil by (auto simp: mlist_at_def)
  next
    case (Cons ed es')
    obtain e0 d0 where ed: "ed = (e0, d0)" by (cases ed)
    have hd: "ld64 l h2 = e0" "e0 \<noteq> 0" "l \<noteq> 0" using at Cons ed by (auto simp: mlist_at_def)
    let ?h = "put64 l e (put64 e0 e (put64 (e + 8) e0 h2))"
    have "mlist_push l d h = Inr ?h"
      using h2(1) hd by (simp add: mlist_push_def mlist_is_empty_def Let_def)
    have e0: "reg e0 24 \<inter> reg l 16 = {}" "reg e0 24 \<inter> reg e 24 = {}" "reg e0 8 \<subseteq> reg e0 24"
      using l(2) out Cons ed elem_fields [of e0] by (auto simp: mlist_sep_def mlist_space_def)
    have lds: "ld64 a ?h = ld64 a (put64 (e + 8) e0 h2)" if "reg a 8 \<inter> reg l 8 = {}" "reg a 8 \<inter> reg e0 8 = {}" for a
      using that by (simp only: ld64_put64_out)
    have "ld64 (e + 8) ?h = e0"
    proof -
      have "reg (e + 8) 8 \<inter> reg l 8 = {}" "reg (e + 8) 8 \<inter> reg e0 8 = {}" using sub el e0 by blast+
      then show ?thesis by (simp only: lds ld64_put64_same)
    qed
    moreover have "ld64 (e + 16) ?h = d"
    proof -
      have "reg (e + 16) 8 \<inter> reg l 8 = {}" "reg (e + 16) 8 \<inter> reg e0 8 = {}" using sub el e0 by blast+
      moreover have "reg (e + 16) 8 \<inter> reg (e + 8) 8 = {}"
        using list_split [of "e + 8"] by (simp add: add.commute Int_commute)
      ultimately show ?thesis using h2(2) by (simp only: lds ld64_put64_out)
    qed
    moreover have "ld64 (l + 8) ?h = ld64 (l + 8) h2"
    proof -
      have "reg (l + 8) 8 \<inter> reg l 8 = {}" "reg (l + 8) 8 \<inter> reg e0 8 = {}" "reg (l + 8) 8 \<inter> reg (e + 8) 8 = {}"
        using list_split [of l] sub el e0 by blast+
      then show ?thesis by (simp only: lds ld64_put64_out)
    qed
    moreover have "elems_from ?h e0 es = elems_from h2 e0 es"
    proof (rule elems_from_cong)
      fix f x
      assume f: "f \<in> set (map fst es)" "x \<in> reg (f + 8) 16"
      have "x \<in> reg f 24" using f(2) elem_split(1) by blast
      moreover have "reg f 24 \<inter> reg l 16 = {}" "reg f 24 \<inter> reg e 24 = {}"
        using l(2) out f(1) by (auto simp: mlist_sep_def mlist_space_def)
      moreover have "x \<notin> reg e0 8"
      proof (cases "f = e0")
        case True
        then show ?thesis using f(2) elem_split(2) by blast
      next
        case False
        then have "reg f 24 \<inter> reg e0 24 = {}" using l(2) f(1) Cons ed by (auto simp: mlist_sep_def)
        then show ?thesis using calculation(1) e0(3) by blast
      qed
      ultimately have "x \<notin> reg l 8" "x \<notin> reg e0 8" "x \<notin> reg (e + 8) 8" using sub by blast+
      then show "mem (hmm ?h) x = mem (hmm h2) x" by (simp add: store64_reg)
    qed
    ultimately have "mlist_at ?h l ((e, d) # es)"
      using at m(2) new hd Cons ed by (simp add: mlist_at_def)
    then show ?thesis using \<open>mlist_push l d h = Inr ?h\<close> by blast
  qed
qed

lemma free_out: "x \<notin> reg (p - 16) 8 \<Longrightarrow> mem (hmm (free p h)) x = mem (hmm h) x"
  by (simp add: free_def Let_def store64_reg)

lemma mlist_pop_ok:
  assumes at: "mlist_at h l ((e, d) # es)" and sep: "mlist_sep l ((e, d) # es)" and out: "reg (e - 16) 8 \<inter> mlist_space l es = {}"
  shows "\<exists>h2. mlist_pop l h = Inr (d, h2) \<and> mlist_at h2 l es"
proof -
  have hd: "ld64 l h = e" "e \<noteq> 0" "l \<noteq> 0" "ld64 (e + 16) h = d" "elems_from h (ld64 (e + 8) h) es"
    "ld64 (l + 8) h = fst (last ((e, d) # es))" "distinct (e # map fst es)"
    using at by (auto simp: mlist_at_def)
  let ?h1 = "if es = [] then put64 l 0 (put64 (l + 8) 0 h) else put64 l (ld64 (e + 8) h) h"
  have tail: "e = ld64 (l + 8) h \<longleftrightarrow> es = []"
  proof (cases "es = []")
    case False
    then have "fst (last es) \<in> set (map fst es)" by simp
    then show ?thesis using False hd(6,7) by auto
  qed (use hd(6) in simp)
  have pop: "mlist_pop l h = Inr (d, free e ?h1)"
    using hd tail by (simp add: mlist_pop_def mlist_is_empty_def Let_def)
  have "mlist_at ?h1 l es"
  proof (cases "es = []")
    case True
    then show ?thesis using hd(3) by (simp add: mlist_at_def)
  next
    case False
    have "elems_from ?h1 p es = elems_from h p es" for p
    proof (rule elems_from_cong)
      fix f x
      assume f: "f \<in> set (map fst es)" "x \<in> reg (f + 8) 16"
      then have "x \<in> reg f 24" "reg l 16 \<inter> reg f 24 = {}" using elem_split(1) sep by (auto simp: mlist_sep_def)
      then have "x \<notin> reg l 8" using list_fields(1) [of l] by blast
      then show "mem (hmm ?h1) x = mem (hmm h) x" using False by (simp add: store64_reg)
    qed
    moreover have "ld64 (l + 8) ?h1 = ld64 (l + 8) h"
      using False list_split [of l] by (simp add: ld64_put64_out Int_commute)
    ultimately show ?thesis using False hd by (simp add: mlist_at_def)
  qed
  moreover have "mem (hmm (free e ?h1)) x = mem (hmm ?h1) x" if "x \<in> mlist_space l es" for x
    using that out by (intro free_out) blast
  ultimately have "mlist_at (free e ?h1) l es" using mlist_at_cong [of l es "free e ?h1" ?h1] by blast
  with pop show ?thesis by blast
qed

section \<open>Properties\<close>

text \<open>
  \<open>mlist\<close> is last in, first out: on a list in memory whose objects do not overlap, with
  a block from \<open>malloc\<close> that lies apart from them, pushing a value and popping gives
  the value back and leaves the list with the elements it had.
\<close>

theorem mlist_pop_push:
  assumes "mlist_at h l es" "mlist_sep l es" and "malloc 24 h = Inr (e, h1)" "e \<noteq> 0"
    and "\<forall>x\<in>mlist_space l es. mem (hmm h1) x = mem (hmm h) x"
    and "(reg e 24 \<union> reg (e - 16) 8) \<inter> mlist_space l es = {}"
  shows "\<exists>h2 h3. mlist_push l d h = Inr h2 \<and> mlist_at h2 l ((e, d) # es) \<and>
    mlist_pop l h2 = Inr (d, h3) \<and> mlist_at h3 l es"
proof -
  have out: "reg e 24 \<inter> mlist_space l es = {}" "reg (e - 16) 8 \<inter> mlist_space l es = {}" using assms(6) by blast+
  obtain h2 where h2: "mlist_push l d h = Inr h2" "mlist_at h2 l ((e, d) # es)"
    using mlist_push_ok [OF assms(1-4) _ out(1)] assms(5) by blast
  have "mlist_sep l ((e, d) # es)"
    using assms(2) out(1) by (auto simp: mlist_sep_def mlist_space_def)
  from mlist_pop_ok [OF h2(2) this out(2)] h2 show ?thesis by blast
qed

theorem mlist_pop_push_witness:
  "\<exists>h l h2 h3. mlist_push l 7 h = Inr h2 \<and> mlist_pop l h2 = Inr (7, h3) \<and> mlist_at h3 l []"
proof -
  let ?h = "(heap_boot \<lparr>mem = (\<lambda>_. 0), freelist = 0\<rparr>)\<lparr>fastbin := (replicate 11 0)[1 := 4096]\<rparr>"
  let ?h1 = "put64 4104 24 (?h\<lparr>fastbin := (replicate 11 0)[1 := 0]\<rparr>)"
  have z: "load64 (\<lambda>_. 0) a = 0" for a by (simp add: load64_def read_bytes_def le_nat_replicate_0 map_replicate_const)
  have m: "malloc 24 ?h = Inr (4112, ?h1)"
    by (simp add: malloc_def heap_boot_def chunk_next_def Let_def z)
  have "mlist_at ?h 1000 []" by (simp add: mlist_at_def ld64_def heap_boot_def z)
  moreover have "mlist_sep 1000 []" by (simp add: mlist_sep_def)
  moreover have sp: "mlist_space 1000 [] = reg 1000 16" by (simp add: mlist_space_def)
  moreover have "reg 1000 16 \<inter> reg 4112 24 = {}" "reg 1000 16 \<inter> reg 4096 8 = {}" "reg 1000 16 \<inter> reg 4104 8 = {}"
    by (auto simp: reg_iff)
  moreover have "\<forall>x\<in>reg 1000 16. mem (hmm ?h1) x = mem (hmm ?h) x"
    using calculation(6) by (auto intro!: store64_reg)
  ultimately show ?thesis using mlist_pop_push [of ?h 1000 "[]" 4112 ?h1 7] m by (auto simp: Int_commute Int_Un_distrib)
qed

text \<open>
  Removing an element that is neither the first nor the last gives its block back but
  leaves the \<open>next\<close> of its predecessor on it, so that the list goes on through a block the
  next \<open>malloc\<close> of that size hands out.
\<close>

theorem mlist_remove_keeps_link:
  assumes "l \<noteq> 0" "ld64 l h = a" "a \<noteq> 0" "ld64 (a + 16) h \<noteq> data" "ld64 (a + 8) h = b"
    and "b \<noteq> 0" "b \<noteq> a" "ld64 (l + 8) h \<noteq> b" "ld64 (b + 16) h = data"
    and "chunk_size h (b - 16) < 0xa0" "length (fastbin h) = 11" "reg (b - 16) 8 \<inter> reg (a + 8) 8 = {}"
  shows "\<exists>h'. mlist_remove l data h = Some (Inr h') \<and> ld64 (a + 8) h' = b \<and>
    b - 16 \<in> set (fastbin h')"
proof -
  let ?i = "unat (chunk_size h (b - 16) div 0xF)"
  let ?h = "free b h"
  have i: "?i < 11" using bin_index [OF assms(10)] .
  have f: "?h = (put64 (b - 16) (fastbin h ! ?i) h)\<lparr>fastbin := (fastbin h)[?i := b - 16]\<rparr>"
    using assms(10) by (simp add: free_def Let_def)
  have "ld64 (a + 8) ?h = b"
    using assms(5,12) ld64_put64_out [of "a + 8" "b - 16" "fastbin h ! ?i" h]
    by (simp add: f ld64_def Int_commute)
  moreover have "b - 16 \<in> set (fastbin ?h)" using i assms(11) by (simp add: f set_update_memI)
  moreover have "mlist_remove l data h = Some (Inr ?h)"
    using assms by (simp add: mlist_remove_def mlist_is_empty_def mlist_remove_loop.simps [of l a]
        mlist_remove_loop.simps [of l b])
  ultimately show ?thesis by blast
qed

theorem mlist_remove_keeps_link_witness:
  "\<exists>h h'. mlist_remove 1000 5 h = Some (Inr h') \<and> ld64 2008 h' = 3000"
proof -
  let ?m = "store64 (store64 (store64 (\<lambda>_. 0) 1000 2000) 2008 3000) 3016 5"
  let ?h = "heap_boot \<lparr>mem = ?m, freelist = 0\<rparr>"
  have z: "load64 (\<lambda>_. 0) a = 0" for a by (simp add: load64_def read_bytes_def le_nat_replicate_0 map_replicate_const)
  have "ld64 1000 ?h = 2000" "ld64 2016 ?h = 0" "ld64 2008 ?h = 3000" "ld64 1008 ?h = 0" "ld64 3016 ?h = 5"
    "chunk_size ?h 2984 = 0"
    by (simp_all add: ld64_def chunk_size_def heap_boot_def load64_store64_apart z)
  moreover have "reg 2984 8 \<inter> reg 2008 8 = {}" by (auto simp: reg_iff)
  moreover have "length (fastbin ?h) = 11" by (simp add: heap_boot_def)
  ultimately show ?thesis using mlist_remove_keeps_link [of 1000 ?h 2000 5 3000] by auto
qed

end
