(* ===== verification/Proc.thy ===== *)
theory Proc
  imports Fs KList Vm
begin

text \<open>
  Processes: core/proc.c with include/proc.h, the scheduler of core/sche.c, and the timer of
  core/time.c. The state of the kernel is one record: the table of 64 tasks, the running
  task, the lists that link a task to its children, the heap, the descriptor tables, the
  open files, the console and the counters. \<open>swtch\<close> (assembly) saves one register context
  and loads another; in the model a call that ends in it returns the state in which the
  other context goes on. The theory shows what the scheduler picks, that no runnable
  task waits for more than a round, and that a new task gets a slot and a number of its own.
\<close>

section \<open>Definitions\<close>

definition PROC_MAX :: nat where "PROC_MAX = 64"

datatype alloc_state = UNUSED | USED

datatype proc_state = TASK_RUNNING | TASK_RUNABLE | TASK_ZOMBIE | TASK_KILLED

text \<open>
  \<open>parent\<close> is the index of a slot of the table; the list nodes \<open>children\<close> and \<open>tasks\<close> of slot \<open>i\<close>
  are \<open>Children i\<close> and \<open>Tasks i\<close>; \<open>context\<close>, \<open>trapframe\<close>, \<open>fdtable\<close>, \<open>pgtbl\<close>, \<open>mapping_list\<close>
  and \<open>callback\<close> are addresses; strings are without their terminator.
\<close>

datatype pnode = Children nat | Tasks nat

record task_struct =
  pid :: int
  parent :: "nat option"
  state :: proc_state
  allocs :: alloc_state
  p_context :: u64
  p_trapframe :: u64
  p_fdtable :: u64
  bss :: u64
  name :: bytes
  cwd :: bytes
  pgtbl :: u64
  mapping_list :: u64
  callback :: u64
  timer_call_time :: u64
  exit_code :: int

record kernel =
  proc :: "task_struct list"
  cur_proc :: "nat option"
  last_pid :: int
  lists :: "pnode links"
  heap :: kheap
  tables :: "u64 \<Rightarrow> fdtable list"
  files :: "ext2_file list"
  tty :: console
  ticks :: u64
  tick :: u64
  seed :: u64
  cur_sp :: u64

definition zero_task :: task_struct where
  "zero_task = \<lparr>pid = 0, parent = None, state = TASK_RUNNING, allocs = UNUSED, p_context = 0, p_trapframe = 0,
     p_fdtable = 0, bss = 0, name = [], cwd = [], pgtbl = 0, mapping_list = 0, callback = 0,
     timer_call_time = 0, exit_code = 0\<rparr>"

definition task :: "kernel \<Rightarrow> nat \<Rightarrow> task_struct" where
  "task k i = proc k ! i"

definition set_task :: "nat \<Rightarrow> task_struct \<Rightarrow> kernel \<Rightarrow> kernel" where
  "set_task i t k = k\<lparr>proc := (proc k)[i := t]\<rparr>"

definition my_proc :: "kernel \<Rightarrow> nat kres" where
  "my_proc k = (case cur_proc k of None \<Rightarrow> Inl (Panic ''my proc'') | Some i \<Rightarrow> Inr i)"

text \<open>Writing to memory as \<open>strncpy\<close> does: the string, cut or filled up with zeros.\<close>

definition poke :: "u64 \<Rightarrow> bytes \<Rightarrow> kernel \<Rightarrow> kernel" where
  "poke a bs k = k\<lparr>heap := (heap k)\<lparr>hmm := (hmm (heap k))\<lparr>mem := write_bytes (mem (hmm (heap k))) a bs\<rparr>\<rparr>\<rparr>"

definition getcwd :: "u64 \<Rightarrow> u64 \<Rightarrow> kernel \<Rightarrow> (u64 \<times> kernel) kres" where
  "getcwd buf sz k =
     kbind (my_proc k) (\<lambda>i.
       Inr (buf, poke buf (take (unat sz) (cwd (task k i)) @ replicate (unat sz - length (cwd (task k i))) 0) k))"

definition get_proc_id :: "kernel \<Rightarrow> int kres" where
  "get_proc_id k = kbind (my_proc k) (\<lambda>i. Inr (pid (task k i)))"

definition set_proc_id :: "int \<Rightarrow> kernel \<Rightarrow> (int \<times> kernel) kres" where
  "set_proc_id p k = kbind (my_proc k) (\<lambda>i. Inr (0, set_task i ((task k i)\<lparr>pid := p\<rparr>) k))"

definition chdir :: "bytes \<Rightarrow> int" where
  "chdir path = 0"

definition proc_find :: "int \<Rightarrow> kernel \<Rightarrow> nat option" where
  "proc_find p k = find (\<lambda>i. allocs (task k i) = USED \<and> pid (task k i) = p) [0..<PROC_MAX]"

subsection \<open>Creating and freeing tasks\<close>

text \<open>\<open>fdtable_alloc\<close> with the table kept under its address.\<close>

definition new_fdtable :: "kernel \<Rightarrow> (u64 \<times> kernel) kres" where
  "new_fdtable k =
     kbind (fdtable_alloc (hmm (heap k))) (\<lambda>(a, t, m).
       Inr (a, k\<lparr>heap := (heap k)\<lparr>hmm := m\<rparr>, tables := (tables k)(a := t)\<rparr>))"

definition in_heap :: "(kheap \<Rightarrow> ('a \<times> kheap) kres) \<Rightarrow> kernel \<Rightarrow> ('a \<times> kernel) kres" where
  "in_heap f k = kbind (f (heap k)) (\<lambda>(r, h). Inr (r, k\<lparr>heap := h\<rparr>))"

definition proc_alloc :: "kernel \<Rightarrow> (nat \<times> kernel) kres" where
  "proc_alloc k =
     (case find (\<lambda>i. allocs (task k i) = UNUSED) [0..<PROC_MAX] of
        None \<Rightarrow> Inl (Panic ''proc'')
      | Some i \<Rightarrow>
          let k1 = set_task i ((task k i)\<lparr>p_context := 0, p_trapframe := 0\<rparr>) k in
          kbind (new_fdtable k1) (\<lambda>(fdt, k2).
            let k3 = (set_task i ((task k2 i)\<lparr>p_fdtable := fdt, pid := last_pid k2, allocs := USED, bss := 0\<rparr>) k2)
                       \<lparr>last_pid := last_pid k2 + 1\<rparr> in
            kbind (in_heap (in_mm pgtbl_create) k3) (\<lambda>(pt, k4).
              let k5 = set_task i ((task k4 i)\<lparr>pgtbl := pt\<rparr>) k4 in
              kbind (in_heap mlist_init k5) (\<lambda>(l, k6).
                let k7 = set_task i ((task k6 i)\<lparr>mapping_list := l, callback := 0, timer_call_time := - 1\<rparr>) k6 in
                Inr (i, k7\<lparr>lists := init_list_head (Tasks i) (init_list_head (Children i) (lists k7))\<rparr>)))))"

text \<open>\<open>sizeof(struct context)\<close> is 31 registers.\<close>

definition kernel_proc_init :: "kernel \<Rightarrow> kernel kres" where
  "kernel_proc_init k =
     kbind (proc_alloc k) (\<lambda>(i, k1).
       let k2 = set_task i ((task k1 i)\<lparr>name := [107], pid := 0, state := TASK_RUNNING\<rparr>)
                  (k1\<lparr>lists := init_list_head (Tasks i) (init_list_head (Children i) (lists k1))\<rparr>) in
       kbind (in_heap (in_mm (kmalloc 248)) k2) (\<lambda>(c, k3).
         let k4 = set_task i ((task k3 i)\<lparr>p_context := c\<rparr>) k3 in
         kbind (new_fdtable k4) (\<lambda>(fdt, k5). Inr (set_task i ((task k5 i)\<lparr>p_fdtable := fdt\<rparr>) k5))))"

definition proc_init :: "kernel \<Rightarrow> kernel kres" where
  "proc_init k =
     kbind (kernel_proc_init (k\<lparr>proc := replicate PROC_MAX (zero_task\<lparr>cwd := [47]\<rparr>)\<rparr>)) (\<lambda>k1.
       let k2 = k1\<lparr>cur_proc := Some 0\<rparr> in
       kbind (kassert (last_pid k2 = 1) ''last_pid == 1'') (\<lambda>_. Inr k2))"

text \<open>\<open>free\<close> reads the header in front of the address; in front of \<open>NULL\<close> there is no memory.\<close>

definition free_object :: "u64 \<Rightarrow> kernel \<Rightarrow> kernel kres" where
  "free_object p k = (if p = 0 then Inl (BadAccess ''free'') else Inr (k\<lparr>heap := free p (heap k)\<rparr>))"

definition proc_free :: "nat \<Rightarrow> kernel \<Rightarrow> kernel kres option" where
  "proc_free i k =
     map_option (\<lambda>r. kbind r (\<lambda>h.
       let k1 = k\<lparr>heap := h\<rparr> in
       kbind (free_object (mapping_list (task k1 i)) k1) (\<lambda>k2.
         kbind (free_object (p_context (task k2 i)) k2) (\<lambda>k3.
           kbind (free_object (p_trapframe (task k3 i)) k3) (\<lambda>k4.
             kbind (free_object (p_fdtable (task k4 i)) k4) (\<lambda>k5.
               let k6 = k5\<lparr>lists := list_del (Tasks i) (list_del (Children i) (lists k5))\<rparr> in
               Inr (set_task i ((task k6 i)\<lparr>allocs := UNUSED\<rparr>) k6)))))))
       (pgtbl_free (pgtbl (task k i)) (mapping_list (task k i)) (heap k))"

subsection \<open>Switching\<close>

definition yield :: "kernel \<Rightarrow> kernel kres" where
  "yield k =
     kbind (my_proc k) (\<lambda>i.
       let k1 = (if state (task k i) = TASK_RUNNING then set_task i ((task k i)\<lparr>state := TASK_RUNABLE\<rparr>) k else k) in
       Inr (set_task 0 ((task k1 0)\<lparr>state := TASK_RUNNING\<rparr>) k1))"

definition kill :: "nat \<Rightarrow> kernel \<Rightarrow> kernel kres" where
  "kill i k =
     (let k1 = set_task i ((task k i)\<lparr>state := TASK_ZOMBIE\<rparr>) k in
      kbind (my_proc k1) (\<lambda>j. if i = j then yield k1 else Inr k1))"

definition exit :: "int \<Rightarrow> kernel \<Rightarrow> kernel kres" where
  "exit code k =
     kbind (my_proc k) (\<lambda>i. kill i (set_task i ((task k i)\<lparr>exit_code := code\<rparr>) k))"

definition switch_to :: "nat \<Rightarrow> kernel \<Rightarrow> kernel" where
  "switch_to i k = k\<lparr>cur_proc := Some i\<rparr>"

text \<open>
  The loop of \<open>scheduler\<close> from slot \<open>i\<close> with the flag \<open>run\<close> until it switches to a task, which
  is then the result, or leaves the loop to shut the machine down. The branch for a
  killed kernel task is not reached, as tasks with number 0 are skipped before it.
\<close>

function scheduler :: "nat \<Rightarrow> bool \<Rightarrow> kernel \<Rightarrow> nat option \<times> kernel" where
  "scheduler i run k =
     (if i < PROC_MAX then
        if allocs (task k i) = UNUSED \<or> pid (task k i) = 0 then scheduler (Suc i) run k
        else if state (task k i) = TASK_RUNABLE then
          (let k1 = set_task 0 ((task k 0)\<lparr>state := TASK_RUNABLE\<rparr>) k;
               k2 = set_task i ((task k1 i)\<lparr>state := TASK_RUNNING\<rparr>) k1 in
           (Some i, switch_to i k2))
        else scheduler (Suc i) run k
      else if run then scheduler 0 False k
      else (None, k))"
  by pat_completeness auto

termination scheduler
  by (relation "measures [\<lambda>(i, run, k). if run then 1 else 0, \<lambda>(i, run, k). PROC_MAX - i]") auto

declare scheduler.simps [simp del]

subsection \<open>The timer\<close>

definition get_ticks :: "kernel \<Rightarrow> u64" where
  "get_ticks k = ticks k"

text \<open>
  \<open>do_signal\<close> calls the handler of the process, which is code of the user program; what it
  does is a parameter.
\<close>

definition do_signal :: "(u64 \<Rightarrow> u64 \<Rightarrow> kernel \<Rightarrow> kernel kres) \<Rightarrow> u64 \<Rightarrow> kernel \<Rightarrow> kernel kres" where
  "do_signal handler signum k =
     kbind (my_proc k) (\<lambda>i.
       if callback (task k i) = 0 then Inl (Panic ''do_signal'')
       else handler (callback (task k i)) signum k)"

definition timer_handler :: "(u64 \<Rightarrow> u64 \<Rightarrow> kernel \<Rightarrow> kernel kres) \<Rightarrow> kernel \<Rightarrow> kernel kres" where
  "timer_handler handler k =
     (let k1 = k\<lparr>ticks := ticks k + 1\<rparr> in
      kbind (my_proc k1) (\<lambda>i.
        kbind (if callback (task k1 i) \<noteq> 0 \<and> ticks k1 \<ge> timer_call_time (task k1 i)
               then do_signal handler 14 (set_task i ((task k1 i)\<lparr>timer_call_time := - 1\<rparr>) k1)
               else Inr k1)
          yield))"

definition timer_init :: "kernel \<Rightarrow> u64 \<times> kernel" where
  "timer_init k = (1000000 OR 1 OR 2, k\<lparr>ticks := 0\<rparr>)"

section \<open>The scheduler\<close>

definition runnable :: "kernel \<Rightarrow> nat \<Rightarrow> bool" where
  "runnable k i \<longleftrightarrow> allocs (task k i) = USED \<and> pid (task k i) \<noteq> 0 \<and> state (task k i) = TASK_RUNABLE"

text \<open>What switching to a task does to the table.\<close>

definition dispatch :: "nat \<Rightarrow> kernel \<Rightarrow> kernel" where
  "dispatch i k =
     (let k1 = set_task 0 ((task k 0)\<lparr>state := TASK_RUNABLE\<rparr>) k in
      switch_to i (set_task i ((task k1 i)\<lparr>state := TASK_RUNNING\<rparr>) k1))"

lemma alloc_state_cases: "allocs t = UNUSED \<longleftrightarrow> allocs t \<noteq> USED"
  by (cases "allocs t") auto

lemma scheduler_step:
  "scheduler i run k =
     (if i < PROC_MAX then if runnable k i then (Some i, dispatch i k) else scheduler (Suc i) run k
      else if run then scheduler 0 False k else (None, k))"
  by (subst scheduler.simps) (auto simp: runnable_def dispatch_def Let_def alloc_state_cases)

lemma find_upt_step: "i < n \<Longrightarrow> find P [i..<n] = (if P i then Some i else find P [Suc i..<n])"
  by (simp add: upt_conv_Cons)

lemma scheduler_scan:
  "scheduler i run k = (case find (runnable k) [i..<PROC_MAX] of
     Some j \<Rightarrow> (Some j, dispatch j k)
   | None \<Rightarrow> if run then scheduler 0 False k else (None, k))"
proof (induction "PROC_MAX - i" arbitrary: i)
  case 0
  then show ?case by (subst scheduler_step) simp
next
  case (Suc n)
  then have i: "i < PROC_MAX" "n = PROC_MAX - Suc i" by simp_all
  show ?case
    using Suc.hyps(1) [OF i(2)] i(1) by (subst scheduler_step) (simp add: find_upt_step)
qed

lemma scheduler_eq:
  "scheduler i run k =
     (case find (runnable k) [i..<PROC_MAX] of
        Some j \<Rightarrow> (Some j, dispatch j k)
      | None \<Rightarrow> (case if run then find (runnable k) [0..<PROC_MAX] else None of
          Some j \<Rightarrow> (Some j, dispatch j k) | None \<Rightarrow> (None, k)))"
  by (simp add: scheduler_scan [of i] scheduler_scan [of 0] split: option.split)

lemma find_upt_from:
  "find P [i..<n] = Some j \<longleftrightarrow> i \<le> j \<and> j < n \<and> P j \<and> (\<forall>m. i \<le> m \<and> m < j \<longrightarrow> \<not> P m)"
proof -
  have "find P [i..<n] = Some j \<longleftrightarrow>
      (\<exists>m<n - i. P (i + m) \<and> j = i + m \<and> (\<forall>l<m. \<not> P (i + l)))"
    by (auto simp: find_Some_iff)
  also have "\<dots> \<longleftrightarrow> i \<le> j \<and> j < n \<and> P j \<and> (\<forall>m. i \<le> m \<and> m < j \<longrightarrow> \<not> P m)"
  proof (intro iffI)
    assume "\<exists>m<n - i. P (i + m) \<and> j = i + m \<and> (\<forall>l<m. \<not> P (i + l))"
    then obtain m where m: "m < n - i" "P (i + m)" "j = i + m" "\<forall>l<m. \<not> P (i + l)" by blast
    have "\<not> P l" if "i \<le> l" "l < j" for l using m(3,4) that by (metis le_iff_add nat_add_left_cancel_less)
    then show "i \<le> j \<and> j < n \<and> P j \<and> (\<forall>m. i \<le> m \<and> m < j \<longrightarrow> \<not> P m)" using m by auto
  next
    assume a: "i \<le> j \<and> j < n \<and> P j \<and> (\<forall>m. i \<le> m \<and> m < j \<longrightarrow> \<not> P m)"
    then show "\<exists>m<n - i. P (i + m) \<and> j = i + m \<and> (\<forall>l<m. \<not> P (i + l))"
      by (intro exI [of _ "j - i"]) auto
  qed
  finally show ?thesis .
qed

text \<open>
  How many slots lie between the position of the scheduler and slot \<open>j\<close>, going round.
\<close>

definition ring_distance :: "nat \<Rightarrow> nat \<Rightarrow> nat" where
  "ring_distance i j = (if i \<le> j then j - i else PROC_MAX - i + j + 1)"

lemma scheduler_nearer:
  assumes "runnable k j" "j < PROC_MAX" "i \<le> PROC_MAX"
  shows "\<exists>m. scheduler i True k = (Some m, dispatch m k) \<and> m < PROC_MAX \<and>
    (m = j \<or> ring_distance (Suc m) j < ring_distance i j)"
proof (cases "find (runnable k) [i..<PROC_MAX]")
  case (Some m)
  then have "i \<le> m" "m < PROC_MAX" "\<And>l. i \<le> l \<Longrightarrow> l < m \<Longrightarrow> \<not> runnable k l" by (auto simp: find_upt_from)
  moreover have "m \<le> j" if "i \<le> j" using calculation(3) [OF that] assms(1) by (meson not_le)
  ultimately show ?thesis using Some by (auto simp: scheduler_eq ring_distance_def)
next
  case None
  then have j: "j < i" using assms(1,2) by (auto simp: find_None_iff not_le [symmetric])
  obtain m where m: "find (runnable k) [0..<PROC_MAX] = Some m"
    using assms(1,2) by (cases "find (runnable k) [0..<PROC_MAX]") (auto simp: find_None_iff)
  then have "m < PROC_MAX" "m \<le> j" using assms(1) by (auto simp: find_upt_Some not_le [symmetric])
  then show ?thesis using None m j by (auto simp: scheduler_eq ring_distance_def)
qed

section \<open>New tasks\<close>

lemma task_set_task [simp]:
  "i < length (proc k) \<Longrightarrow> task (set_task i t k) i = t" "j \<noteq> i \<Longrightarrow> task (set_task i t k) j = task k j"
  "length (proc (set_task i t k)) = length (proc k)" "last_pid (set_task i t k) = last_pid k"
  "lists (set_task i t k) = lists k" "heap (set_task i t k) = heap k" "cur_proc (set_task i t k) = cur_proc k"
  by (simp_all add: task_def set_task_def)

lemma task_other [simp]:
  "task (k\<lparr>heap := h\<rparr>) i = task k i" "task (k\<lparr>tables := tb\<rparr>) i = task k i" "task (k\<lparr>lists := ls\<rparr>) i = task k i"
  "task (k\<lparr>last_pid := n\<rparr>) i = task k i" "task (k\<lparr>cur_proc := c\<rparr>) i = task k i" "task (k\<lparr>ticks := t\<rparr>) i = task k i"
  "task (k\<lparr>seed := u\<rparr>) i = task k i" "task (k\<lparr>files := fs\<rparr>) i = task k i" "task (k\<lparr>tty := y\<rparr>) i = task k i"
  by (simp_all add: task_def)

lemma new_fdtable_frame:
  "new_fdtable k = Inr (a, k') \<Longrightarrow> proc k' = proc k \<and> last_pid k' = last_pid k \<and> lists k' = lists k \<and>
     cur_proc k' = cur_proc k \<and> tables k' a = std_fdtable"
  by (auto simp: new_fdtable_def fdtable_alloc_def kres_simps)

lemma in_heap_frame:
  "in_heap f k = Inr (r, k') \<Longrightarrow> proc k' = proc k \<and> last_pid k' = last_pid k \<and> lists k' = lists k \<and>
     cur_proc k' = cur_proc k \<and> tables k' = tables k"
  by (auto simp: in_heap_def kres_simps)

text \<open>What \<open>proc_alloc\<close> leaves in the table.\<close>

lemma proc_alloc_effect:
  assumes "proc_alloc k = Inr (i, k')" and len: "length (proc k) = PROC_MAX"
  shows "i < PROC_MAX" "allocs (task k i) = UNUSED" "\<forall>j<i. allocs (task k j) = USED"
    "\<exists>fdt pt l. proc k' = (proc k)[i := (task k i)\<lparr>p_context := 0, p_trapframe := 0, p_fdtable := fdt,
       pid := last_pid k, allocs := USED, bss := 0, pgtbl := pt, mapping_list := l, callback := 0,
       timer_call_time := - 1\<rparr>] \<and> tables k' fdt = std_fdtable"
    "last_pid k' = last_pid k + 1" "cur_proc k' = cur_proc k"
    "lists k' = init_list_head (Tasks i) (init_list_head (Children i) (lists k))"
proof -
  obtain fdt k2 pt k4 l k6 where i: "find (\<lambda>i. allocs (task k i) = UNUSED) [0..<PROC_MAX] = Some i"
    and A: "new_fdtable (set_task i ((task k i)\<lparr>p_context := 0, p_trapframe := 0\<rparr>) k) = Inr (fdt, k2)"
    and B: "in_heap (in_mm pgtbl_create) ((set_task i ((task k2 i)\<lparr>p_fdtable := fdt, pid := last_pid k2, allocs := USED,
        bss := 0\<rparr>) k2)\<lparr>last_pid := last_pid k2 + 1\<rparr>) = Inr (pt, k4)"
    and C: "in_heap mlist_init (set_task i ((task k4 i)\<lparr>pgtbl := pt\<rparr>) k4) = Inr (l, k6)"
    and D: "k' = (set_task i ((task k6 i)\<lparr>mapping_list := l, callback := 0, timer_call_time := - 1\<rparr>) k6)
        \<lparr>lists := init_list_head (Tasks i) (init_list_head (Children i) (lists k6))\<rparr>"
    using assms(1) by (auto simp: proc_alloc_def kres_simps Let_def split: option.splits)
  have I: "i < PROC_MAX" "allocs (task k i) = UNUSED" "\<forall>j<i. allocs (task k j) \<noteq> UNUSED"
    using i by (auto simp: find_upt_Some)
  then show "i < PROC_MAX" "allocs (task k i) = UNUSED" "\<forall>j<i. allocs (task k j) = USED"
    by (auto simp: alloc_state_cases)
  note F = new_fdtable_frame [OF A] in_heap_frame [OF B] in_heap_frame [OF C]
  have l: "i < length (proc k)" using I(1) len by simp
  show "last_pid k' = last_pid k + 1" "cur_proc k' = cur_proc k"
    "lists k' = init_list_head (Tasks i) (init_list_head (Children i) (lists k))"
    using F by (simp_all add: D set_task_def)
  show "\<exists>fdt pt l. proc k' = (proc k)[i := (task k i)\<lparr>p_context := 0, p_trapframe := 0, p_fdtable := fdt,
       pid := last_pid k, allocs := USED, bss := 0, pgtbl := pt, mapping_list := l, callback := 0,
       timer_call_time := - 1\<rparr>] \<and> tables k' fdt = std_fdtable"
    using F l by (intro exI [of _ fdt] exI [of _ pt] exI [of _ l]) (simp add: D set_task_def task_def)
qed

lemma new_fdtable_ok:
  assumes "heap_inv (heap k) B live rq cap (x # xs)"
  shows "\<exists>k'. new_fdtable k = Inr (x, k') \<and> heap_inv (heap k') B live rq cap xs"
proof -
  obtain m where "kmalloc 16384 (hmm (heap k)) = Inr (x, m)"
    "\<forall>m'. (\<forall>a. \<not> in_page x a \<longrightarrow> m' a = mem m a) \<longrightarrow> heap_inv ((heap k)\<lparr>hmm := m\<lparr>mem := m'\<rparr>\<rparr>) B live rq cap xs"
    using heap_inv_kmalloc [OF assms, of 16384] by auto
  then show ?thesis by (simp add: new_fdtable_def fdtable_alloc_def memset_page)
qed

lemma pgtbl_create_heap:
  assumes "heap_inv (heap k) B live rq cap (x # xs)"
  shows "\<exists>k'. in_heap (in_mm pgtbl_create) k = Inr (x, k') \<and> heap_inv (heap k') B live rq cap xs"
proof -
  obtain m where "kmalloc 16384 (hmm (heap k)) = Inr (x, m)" "x \<noteq> 0"
    "\<forall>m'. (\<forall>a. \<not> in_page x a \<longrightarrow> m' a = mem m a) \<longrightarrow> heap_inv ((heap k)\<lparr>hmm := m\<lparr>mem := m'\<rparr>\<rparr>) B live rq cap xs"
    using heap_inv_kmalloc [OF assms, of 16384] by auto
  then show ?thesis by (simp add: in_heap_def in_mm_def pgtbl_create_def memset_page)
qed

text \<open>With an unused slot and three pages \<open>proc_alloc\<close> succeeds.\<close>

lemma proc_alloc_succeeds:
  assumes "heap_inv (heap k) B live rq cap (x # y # z # xs)" and "\<exists>i<PROC_MAX. allocs (task k i) = UNUSED"
  shows "\<exists>i k'. proc_alloc k = Inr (i, k')"
proof -
  obtain i where i: "find (\<lambda>i. allocs (task k i) = UNUSED) [0..<PROC_MAX] = Some i"
    using find_upt_ex [OF assms(2)] by auto
  let ?k1 = "set_task i ((task k i)\<lparr>p_context := 0, p_trapframe := 0\<rparr>) k"
  obtain k2 where k2: "new_fdtable ?k1 = Inr (x, k2)" "heap_inv (heap k2) B live rq cap (y # z # xs)"
    using new_fdtable_ok [of ?k1 B live rq cap x "y # z # xs"] assms(1) by auto
  let ?k3 = "(set_task i ((task k2 i)\<lparr>p_fdtable := x, pid := last_pid k2, allocs := USED, bss := 0\<rparr>) k2)
    \<lparr>last_pid := last_pid k2 + 1\<rparr>"
  obtain k4 where k4: "in_heap (in_mm pgtbl_create) ?k3 = Inr (y, k4)" "heap_inv (heap k4) B live rq cap (z # xs)"
    using pgtbl_create_heap [of ?k3 B live rq cap y "z # xs"] k2(2) by auto
  obtain p h where "malloc 16 (heap k4) = Inr (p, h)" using malloc_small_ok [OF k4(2), of 16] by auto
  then show ?thesis using i k2(1) k4(1) by (simp add: proc_alloc_def Let_def in_heap_def mlist_init_def)
qed

text \<open>
  Numbers of tasks in use are below \<open>last_pid\<close> and different, except for -1, which \<open>execve\<close>
  leaves behind.
\<close>

definition pids_ok :: "kernel \<Rightarrow> bool" where
  "pids_ok k \<longleftrightarrow> length (proc k) = PROC_MAX \<and> 0 \<le> last_pid k \<and>
     (\<forall>i<PROC_MAX. allocs (task k i) = USED \<longrightarrow> pid (task k i) < last_pid k) \<and>
     (\<forall>i<PROC_MAX. \<forall>j<PROC_MAX. i \<noteq> j \<and> allocs (task k i) = USED \<and> allocs (task k j) = USED \<and>
        pid (task k i) = pid (task k j) \<longrightarrow> pid (task k i) = - 1)"

section \<open>Properties\<close>

text \<open>
  C21: the loop of the scheduler ends and goes to the first runnable task at or behind its
  position; with none there it starts over once if it ran a task in this pass; it shuts
  down only when it finds none again.
\<close>

theorem scheduler_picks_next:
  "scheduler i run k =
     (case find (runnable k) [i..<PROC_MAX] of
        Some j \<Rightarrow> (Some j, dispatch j k)
      | None \<Rightarrow> (case if run then find (runnable k) [0..<PROC_MAX] else None of
          Some j \<Rightarrow> (Some j, dispatch j k) | None \<Rightarrow> (None, k)))"
  by (rule scheduler_eq)

text \<open>
  C9: the scheduler is fair. Whatever the tasks do to the table when they run, a task that
  stays runnable is switched to within 65 turns of the scheduler.
\<close>

theorem round_robin_fair:
  assumes "\<forall>n. runnable (K n) j" and "j < PROC_MAX" and "I 0 \<le> PROC_MAX"
    and "\<forall>n. fst (scheduler (I n) True (K n)) = Some (M n) \<and> I (Suc n) = Suc (M n)"
  shows "\<exists>n\<le>PROC_MAX. M n = j"
proof (rule ccontr)
  assume no: "\<not> ?thesis"
  have "I n \<le> PROC_MAX \<and> ring_distance (I n) j + n \<le> PROC_MAX" if "n \<le> Suc PROC_MAX" for n
    using that
  proof (induction n)
    case 0
    then show ?case using assms(2,3) by (auto simp: ring_distance_def)
  next
    case (Suc n)
    then have IH: "I n \<le> PROC_MAX" "ring_distance (I n) j + n \<le> PROC_MAX" by simp_all
    obtain m where m: "scheduler (I n) True (K n) = (Some m, dispatch m (K n))" "m < PROC_MAX"
      "m = j \<or> ring_distance (Suc m) j < ring_distance (I n) j"
      using scheduler_nearer [of "K n" j "I n"] assms(1,2) IH(1) by blast
    then have "M n = m" "I (Suc n) = Suc m" using assms(4) [rule_format, of n] by simp_all
    moreover have "m \<noteq> j" using no Suc.prems calculation(1) by auto
    ultimately show ?case using m(2,3) IH by simp
  qed
  from this [of "Suc PROC_MAX"] show False by simp
qed

definition sample_kernel :: kernel where
  "sample_kernel = \<lparr>proc = (replicate PROC_MAX (zero_task\<lparr>cwd := [47]\<rparr>))
       [0 := zero_task\<lparr>cwd := [47], allocs := USED\<rparr>,
        1 := zero_task\<lparr>cwd := [47], pid := 1, allocs := USED, state := TASK_RUNABLE\<rparr>,
        2 := zero_task\<lparr>cwd := [47], pid := 2, allocs := USED, state := TASK_RUNABLE\<rparr>],
     cur_proc = Some 0, last_pid = 3, lists = \<lparr>nxt = id, prv = id\<rparr>,
     heap = heap_boot (sample_heap 3), tables = (\<lambda>_. []), files = [], tty = \<lparr>keys = [], sent = []\<rparr>,
     ticks = 0, tick = 0, seed = 1, cur_sp = 0\<rparr>"

lemma sample_task:
  "i < PROC_MAX \<Longrightarrow> task sample_kernel i =
     (if i = 0 then zero_task\<lparr>cwd := [47], allocs := USED\<rparr>
      else if i = 1 \<or> i = 2 then zero_task\<lparr>cwd := [47], pid := int i, allocs := USED, state := TASK_RUNABLE\<rparr>
      else zero_task\<lparr>cwd := [47]\<rparr>)"
  by (auto simp: task_def sample_kernel_def PROC_MAX_def nth_update_if)

lemma sample_runnable: "i < PROC_MAX \<Longrightarrow> runnable sample_kernel i \<longleftrightarrow> i = 1 \<or> i = 2"
  by (auto simp: runnable_def sample_task zero_task_def)

text \<open>The first turns of the scheduler on this table: every task yields as soon as it runs.\<close>

primrec sample_turns :: "nat \<Rightarrow> nat \<times> kernel" where
  "sample_turns 0 = (0, sample_kernel)"
| "sample_turns (Suc n) = (case sample_turns n of (i, k) \<Rightarrow>
     case scheduler i True k of (None, k1) \<Rightarrow> (i, k1) | (Some m, k1) \<Rightarrow> (Suc m, case yield k1 of Inl e \<Rightarrow> k1 | Inr k2 \<Rightarrow> k2))"

lemma sample_turns_table:
  "fst (sample_turns n) \<le> PROC_MAX \<and> (\<exists>x. proc (snd (sample_turns n)) = (proc sample_kernel)[0 := (task sample_kernel 0)\<lparr>state := x\<rparr>])"
proof (induction n)
  case 0
  then show ?case by (auto simp: task_def intro!: exI [of _ "state (proc sample_kernel ! 0)"])
next
  case (Suc n)
  obtain i k where ik: "sample_turns n = (i, k)" by fastforce
  obtain x where x: "proc k = (proc sample_kernel)[0 := (task sample_kernel 0)\<lparr>state := x\<rparr>]" "i \<le> PROC_MAX" using Suc ik by auto
  have len: "length (proc sample_kernel) = PROC_MAX" "length (proc k) = PROC_MAX" by (simp_all add: x sample_kernel_def)
  have r: "runnable k j \<longleftrightarrow> j = 1 \<or> j = 2" if "j < PROC_MAX" for j
    using that len by (cases "j = 0") (auto simp: runnable_def task_def x sample_kernel_def zero_task_def nth_update_if PROC_MAX_def)
  have "runnable k 2" "2 < PROC_MAX" using r [of 2] by (simp_all add: PROC_MAX_def)
  from scheduler_nearer [OF this x(2)] obtain m where m: "scheduler i True k = (Some m, dispatch m k)" "m < PROC_MAX" by blast
  have "runnable k m" using m(1) by (auto simp: scheduler_eq find_upt_from split: option.splits if_splits)
  then have "m = 1 \<or> m = 2" using r m(2) by blast
  then have "\<exists>k2. yield (dispatch m k) = Inr k2 \<and> proc k2 = (proc sample_kernel)[0 := (task sample_kernel 0)\<lparr>state := TASK_RUNNING\<rparr>]"
    using len by (auto simp: yield_def my_proc_def dispatch_def switch_to_def Let_def task_def set_task_def x sample_kernel_def zero_task_def
        PROC_MAX_def list_update_swap numeral_2_eq_2)
  then show ?case using m by (auto simp: ik)
qed

theorem round_robin_fair_witness:
  "(\<forall>n. runnable (snd (sample_turns n)) 2) \<and>
   (\<exists>n\<le>PROC_MAX. fst (scheduler (fst (sample_turns n)) True (snd (sample_turns n))) = Some 2)"
proof -
  let ?I = "\<lambda>n. fst (sample_turns n)" and ?K = "\<lambda>n. snd (sample_turns n)"
  let ?M = "\<lambda>n. the (fst (scheduler (?I n) True (?K n)))"
  have r: "runnable (?K n) 2" for n
    using sample_turns_table [of n] by (auto simp: runnable_def task_def sample_kernel_def zero_task_def PROC_MAX_def)
  have p: "2 < PROC_MAX" by (simp add: PROC_MAX_def)
  have s: "fst (scheduler (?I n) True (?K n)) = Some (?M n) \<and> ?I (Suc n) = Suc (?M n)" for n
  proof -
    obtain m where "scheduler (?I n) True (?K n) = (Some m, dispatch m (?K n))"
      using scheduler_nearer [OF r p, of "?I n" n] sample_turns_table [of n] by blast
    then show ?thesis by (cases "sample_turns n") simp
  qed
  have i: "?I 0 \<le> PROC_MAX" by simp
  have "\<exists>n\<le>PROC_MAX. ?M n = 2"
    using round_robin_fair [of ?K 2 ?I ?M, OF allI [OF r] p i allI [OF s]] .
  then obtain n where n: "n \<le> PROC_MAX" "?M n = 2" by blast
  have "fst (scheduler (?I n) True (?K n)) = Some 2" using s [of n] n(2) by simp
  then show ?thesis using r n(1) by blast
qed

text \<open>
  C29: with an unused slot and three free pages \<open>proc_alloc\<close> takes the lowest unused slot and a number no task in use has, gives the
  task a descriptor table with the three console descriptors, a context and trap frame
  that are \<open>NULL\<close>, and empty lists of children and siblings; all other slots keep their
  tasks, and numbers stay unique.
\<close>

theorem proc_alloc_fresh:
  assumes "pids_ok k" and "\<exists>i<PROC_MAX. allocs (task k i) = UNUSED" and "heap_inv (heap k) B live rq cap (x # y # z # xs)"
  shows "\<exists>i k'. proc_alloc k = Inr (i, k') \<and> pids_ok k' \<and> i < PROC_MAX \<and> allocs (task k i) = UNUSED \<and> (\<forall>j<i. allocs (task k j) = USED) \<and>
    (\<forall>j<PROC_MAX. allocs (task k j) = USED \<longrightarrow> pid (task k j) \<noteq> pid (task k' i)) \<and>
    (\<forall>j. j \<noteq> i \<longrightarrow> task k' j = task k j) \<and> allocs (task k' i) = USED \<and>
    tables k' (p_fdtable (task k' i)) = std_fdtable \<and> p_context (task k' i) = 0 \<and> p_trapframe (task k' i) = 0 \<and>
    list_is_empty (Children i) (lists k') \<and> list_is_empty (Tasks i) (lists k')"
proof -
  obtain i k' where A: "proc_alloc k = Inr (i, k')" using proc_alloc_succeeds [OF assms(3,2)] by auto
  have len: "length (proc k) = PROC_MAX" using assms(1) by (simp add: pids_ok_def)
  note E = proc_alloc_effect [OF A len]
  obtain fdt pt l where T: "proc k' = (proc k)[i := (task k i)\<lparr>p_context := 0, p_trapframe := 0, p_fdtable := fdt,
       pid := last_pid k, allocs := USED, bss := 0, pgtbl := pt, mapping_list := l, callback := 0,
       timer_call_time := - 1\<rparr>]" "tables k' fdt = std_fdtable" using E(4) by blast
  have t: "task k' i = (task k i)\<lparr>p_context := 0, p_trapframe := 0, p_fdtable := fdt, pid := last_pid k, allocs := USED,
      bss := 0, pgtbl := pt, mapping_list := l, callback := 0, timer_call_time := - 1\<rparr>"
    and o: "\<forall>j. j \<noteq> i \<longrightarrow> task k' j = task k j"
    using E(1) len by (auto simp: task_def T(1))
  have used: "pid (task k j) < last_pid k" if "j < PROC_MAX" "allocs (task k j) = USED" for j
    using assms(1) that by (simp add: pids_ok_def)
  have "pids_ok k'"
    unfolding pids_ok_def
  proof (intro conjI allI impI)
    show "length (proc k') = PROC_MAX" "0 \<le> last_pid k'" using assms(1) T(1) E(5) len by (auto simp: pids_ok_def)
    fix a assume a: "a < PROC_MAX"
    show "pid (task k' a) < last_pid k'" if "allocs (task k' a) = USED"
      using that used [OF a] t o E(5) by (cases "a = i") auto
    fix b assume b: "b < PROC_MAX"
    assume h: "a \<noteq> b \<and> allocs (task k' a) = USED \<and> allocs (task k' b) = USED \<and> pid (task k' a) = pid (task k' b)"
    show "pid (task k' a) = - 1"
    proof (cases "a = i \<or> b = i")
      case True
      then show ?thesis using h used [OF a] used [OF b] t o by auto
    next
      case False
      then show ?thesis using h a b o assms(1) unfolding pids_ok_def by metis
    qed
  qed
  moreover have "pid (task k j) \<noteq> pid (task k' i)" if "j < PROC_MAX" "allocs (task k j) = USED" for j
    using used [OF that] t by simp
  moreover have "list_is_empty (Children i) (lists k')" "list_is_empty (Tasks i) (lists k')"
    using E(7) by (simp_all add: list_is_empty_def init_list_head_def set_next_def set_prev_def)
  ultimately show ?thesis using A E(1-3) t o T(2) by (intro exI [of _ i] exI [of _ k']) simp
qed

theorem proc_alloc_fresh_witness:
  "\<exists>k'. proc_alloc sample_kernel = Inr (3, k') \<and> pid (task k' 3) \<notin> {0, 1, 2} \<and> pids_ok k'"
proof -
  have ok: "pids_ok sample_kernel"
    unfolding pids_ok_def by (auto simp: sample_task zero_task_def) (auto simp: sample_kernel_def)
  have inv: "heap_inv (heap sample_kernel) (\<lambda>_. []) [] (\<lambda>_. 0) (\<lambda>_. 0) (rev (page_run KERNBASE 3))"
    using heap_boot_inv [OF sample_heap_inv [of 3]] by (simp add: sample_kernel_def)
  have pages: "rev (page_run KERNBASE 3) = [KERNBASE + 32768, KERNBASE + 16384, KERNBASE]"
    by (simp add: page_run_def upt_rec)
  have free: "\<exists>i<PROC_MAX. allocs (task sample_kernel i) = UNUSED"
    by (rule exI [of _ 3]) (simp add: sample_task zero_task_def PROC_MAX_def)
  obtain i k' where K: "proc_alloc sample_kernel = Inr (i, k')" "pids_ok k'" "i < PROC_MAX" "allocs (task sample_kernel i) = UNUSED"
      "\<forall>j<i. allocs (task sample_kernel j) = USED"
      "\<forall>j<PROC_MAX. allocs (task sample_kernel j) = USED \<longrightarrow> pid (task sample_kernel j) \<noteq> pid (task k' i)"
    using proc_alloc_fresh [OF ok free inv [unfolded pages]] by blast
  have "i = 3"
  proof (rule antisym)
    have "allocs (task sample_kernel 3) = UNUSED" by (simp add: sample_task zero_task_def PROC_MAX_def)
    then show "i \<le> 3" using K(5) by (cases "3 < i") auto
    have "i \<noteq> 0" "i \<noteq> 1" "i \<noteq> 2" using K(4) [unfolded sample_task [OF K(3)]] by (auto split: if_splits)
    then show "3 \<le> i" by linarith
  qed
  moreover have "pid (task k' i) \<notin> {0, 1, 2}"
    using K(6) [rule_format, of 0] K(6) [rule_format, of 1] K(6) [rule_format, of 2]
    by (auto simp: sample_task zero_task_def PROC_MAX_def)
  ultimately show ?thesis using K(1,2) by auto
qed

end
