(* ===== verification/Exec.thy ===== *)
theory Exec
  imports Proc
begin

text \<open>
  Loading programs and copying processes: core/exec.c, user_init of core/user.c. Object
  files are read with the calls of theory Fs into \<open>elf_buf\<close>, decoded from memory, and
  loaded with the operations of theories Vm and UserMem. Where the C code passes the address
  of a local variable, the variable is written to a word of the kernel stack first. The
  theory shows how \<open>exec\<close> lays out the first page of the user stack.
\<close>

section \<open>Definitions\<close>

text \<open>A call that may also fail to return.\<close>

definition obind :: "'a kres option \<Rightarrow> ('a \<Rightarrow> 'b kres option) \<Rightarrow> 'b kres option" where
  "obind x f = (case x of None \<Rightarrow> None | Some (Inl e) \<Rightarrow> Some (Inl e) | Some (Inr a) \<Rightarrow> f a)"

text \<open>
  Addresses the linker gives: the file buffer and the entry stub; \<open>kword\<close> is the word of the
  kernel stack for local variables; with them what the file system is mounted on.
\<close>

record exec_env =
  fsenv :: fs_env
  elf_buf :: u64
  exec_helper :: u64
  kword :: u64

definition kmem :: "kernel \<Rightarrow> mem" where
  "kmem k = mem (hmm (heap k))"

text \<open>File calls of the running task.\<close>

definition in_fs :: "(fs_state \<Rightarrow> ('a \<times> fs_state) kres) \<Rightarrow> kernel \<Rightarrow> ('a \<times> kernel) kres" where
  "in_fs f k =
     kbind (my_proc k) (\<lambda>i.
       let a = p_fdtable (task k i) in
       kbind (f \<lparr>fds = files k, fdt = tables k a, fmm = hmm (heap k), cons = tty k\<rparr>) (\<lambda>(r, s).
         Inr (r, k\<lparr>files := fds s, tables := (tables k)(a := fdt s), heap := (heap k)\<lparr>hmm := fmm s\<rparr>, tty := cons s\<rparr>)))"

text \<open>The registers of \<open>struct context\<close> and \<open>struct trapframe\<close>, each a word, and where they lie.\<close>

definition context_regs :: "string list" where
  "context_regs =
     [''ra'', ''tp'', ''sp'', ''a0'', ''a1'', ''a2'', ''a3'', ''a4'', ''a5'', ''a6'', ''a7'', 
      ''t0'', ''t1'', ''t2'', ''t3'', ''t4'', ''t5'', ''t6'', ''t7'', ''t8'', 
      ''r21'', ''fp'', ''s0'', ''s1'', ''s2'', ''s3'', ''s4'', ''s5'', ''s6'', ''s7'', ''s8'']"

definition trapframe_regs :: "string list" where
  "trapframe_regs = context_regs @ [''prmd'', ''era'']"

definition place :: "string \<Rightarrow> u64" where
  "place r = 8 * of_nat (length (takeWhile (\<lambda>x. x \<noteq> r) trapframe_regs))"

definition sizeof_context :: u64 where "sizeof_context = 8 * of_nat (length context_regs)"
definition sizeof_trapframe :: u64 where "sizeof_trapframe = 8 * of_nat (length trapframe_regs)"

definition PTE_USER :: u64 where
  "PTE_USER = 128 OR 256 OR 16 OR 2 OR 1"

definition USER_STACK_TOP :: u64 where "USER_STACK_TOP = 0x7FFF0000"
definition USER_STACK_BOTTOM :: u64 where "USER_STACK_BOTTOM = 0x7FF00000"
definition ARGS_MAX :: nat where "ARGS_MAX = 8"
definition ENVS_MAX :: nat where "ENVS_MAX = 16"

definition ALIGN :: "u64 \<Rightarrow> u64 \<Rightarrow> u64" where
  "ALIGN val to = val div to * to"

text \<open>The fields of \<open>Elf64_Phdr\<close> that the loader uses, and their places.\<close>

record elf_phdr =
  p_type :: u32
  p_flags :: u32
  p_offset :: u64
  p_vaddr :: u64
  p_filesz :: u64
  p_memsz :: u64
  p_align :: u64

definition read_phdr :: "mem \<Rightarrow> u64 \<Rightarrow> elf_phdr" where
  "read_phdr m a = \<lparr>p_type = load32 m a, p_flags = load32 m (a + 4), p_offset = load64 m (a + 8),
     p_vaddr = load64 m (a + 16), p_filesz = load64 m (a + 32), p_memsz = load64 m (a + 40),
     p_align = load64 m (a + 48)\<rparr>"

text \<open>Where a segment starts and ends in pages, with the room behind a data segment.\<close>

definition segment_range :: "elf_phdr \<Rightarrow> u64 \<times> u64" where
  "segment_range s =
     (let pg = (if PGSIZE > p_align s then PGSIZE else p_align s);
          start = ALIGN (p_vaddr s) pg;
          e = ALIGN (p_vaddr s + p_memsz s - 1) pg + pg in
      (start, if p_flags s AND 4 \<noteq> 0 \<and> p_flags s AND 2 \<noteq> 0 then e + 4 * PGSIZE else e))"

text \<open>One segment; the result says whether loading goes on.\<close>

definition load_segment :: "u64 \<Rightarrow> nat \<Rightarrow> elf_phdr \<Rightarrow> kernel \<Rightarrow> (bool \<times> kernel) kres" where
  "load_segment base i seg k =
     (if p_type seg \<noteq> 1 then Inr (True, k)
      else kbind (kassert (p_filesz seg \<le> p_memsz seg) ''filesz <= memsz'') (\<lambda>_.
        kbind (kassert (p_filesz seg \<noteq> 0) ''len'') (\<lambda>_.
          let k1 = (if p_flags seg AND 4 \<noteq> 0 \<and> p_flags seg AND 2 \<noteq> 0
                    then set_task i ((task k i)\<lparr>bss := p_vaddr seg + p_memsz seg\<rparr>) k else k);
              pt = pgtbl (task k1 i) in
          kbind (in_heap (alloc_vm pt (mapping_list (task k1 i)) (fst (segment_range seg)) (snd (segment_range seg)) PTE_USER) k1)
            (\<lambda>(r, k2).
              kbind (in_heap (in_mm (copy_to_va pt (p_vaddr seg) (base + p_offset seg) (p_filesz seg))) k2) (\<lambda>(r, k3).
                kbind (va_to_pa pt (p_vaddr seg) (hmm (heap k3))) (\<lambda>paddr. Inr (paddr \<noteq> 0, k3)))))))"

primrec load_segments :: "nat \<Rightarrow> u64 \<Rightarrow> u64 \<Rightarrow> nat \<Rightarrow> kernel \<Rightarrow> (bool \<times> kernel) kres" where
  "load_segments 0 base segs i k = Inr (True, k)"
| "load_segments (Suc n) base segs i k =
     kbind (load_segment base i (read_phdr (kmem k) segs) k) (\<lambda>(ok, k1).
       if ok then load_segments n base (segs + 56) i k1 else Inr (False, k1))"

definition elf_loader :: "exec_env \<Rightarrow> nat \<Rightarrow> bytes \<Rightarrow> kernel \<Rightarrow> (u64 \<times> kernel) kres" where
  "elf_loader env i path k =
     kbind (in_fs (openat (fsenv env) 0 path 0) k) (\<lambda>(myfd, k1).
       if myfd = - 1 then Inr (- 1, k1)
       else kbind (in_fs (read_file (fsenv env) myfd (elf_buf env) 20971520) k1) (\<lambda>(n, k2).
         kbind (in_fs (close myfd) k2) (\<lambda>(r, k3).
           let base = elf_buf env; m = kmem k3; magic = (read_bytes m base 4 = [0x7f, 69, 76, 70]) in
           kbind (kassert magic ''elf_magic'') (\<lambda>_.
             kbind (kassert (load16 m (base + 18) = 258) ''e_machine'') (\<lambda>_.
               kbind (kassert (m (base + 4) = 2) ''e_ident'') (\<lambda>_.
                 kbind (kassert (load16 m (base + 16) = 2 \<or> load16 m (base + 16) = 3) ''e_type'') (\<lambda>_.
                   if \<not> magic then Inr (- 1, k3)
                   else let phnum = unat (load16 m (base + 56)) in
                     kbind (kassert (phnum \<noteq> 0) ''phnum'') (\<lambda>_.
                       kbind (load_segments phnum base (base + load64 m (base + 32)) i k3) (\<lambda>(ok, k4).
                         Inr (if ok then load64 (kmem k4) (base + 24) else - 1, k4))))))))))"

text \<open>\<open>copy_to_va\<close> of a local variable of 8 bytes.\<close>

definition put_user :: "exec_env \<Rightarrow> u64 \<Rightarrow> u64 \<Rightarrow> u64 \<Rightarrow> kernel \<Rightarrow> kernel kres" where
  "put_user env pt va v k =
     kbind (in_heap (in_mm (copy_to_va pt va (kword env) 8)) (poke (kword env) (le_bytes 8 (unat v)) k))
       (\<lambda>(r, k1). Inr k1)"

text \<open>
  The loops over \<open>argv\<close> and \<open>envp\<close>: up to \<open>n\<close> strings of the array at \<open>vec\<close>, the addresses into
  the words from \<open>slot\<close> on, the strings from \<open>bp\<close> upwards.
\<close>

primrec push_strings :: "nat \<Rightarrow> exec_env \<Rightarrow> u64 \<Rightarrow> u64 \<Rightarrow> u64 \<Rightarrow> u64 \<Rightarrow> nat \<Rightarrow> kernel \<Rightarrow> (nat \<times> u64 \<times> kernel) kres option" where
  "push_strings 0 env pt vec slot bp c k = Some (Inr (c, bp, k))"
| "push_strings (Suc n) env pt vec slot bp c k =
     (let s = load64 (kmem k) (vec + 8 * of_nat c) in
      if s = 0 then Some (Inr (c, bp, k))
      else obind (Some (put_user env pt (slot + 8 * of_nat c) bp k)) (\<lambda>k1.
        obind (map_option Inr (strlen (kmem k1) s)) (\<lambda>len.
          obind (Some (in_heap (in_mm (copy_to_va pt bp s (len + 1))) k1)) (\<lambda>(r, k2).
            push_strings n env pt vec slot (bp + (len + 1)) (Suc c) k2))))"

text \<open>The words of the stack that \<open>exec\<close> and \<open>fork\<close> write last, in their order.\<close>

primrec put_words :: "exec_env \<Rightarrow> u64 \<Rightarrow> (u64 \<times> u64) list \<Rightarrow> kernel \<Rightarrow> kernel kres" where
  "put_words env pt [] k = Inr k"
| "put_words env pt (w # ws) k = kbind (put_user env pt (fst w) (snd w) k) (put_words env pt ws)"

definition context_va :: u64 where "context_va = USER_STACK_TOP - sizeof_context"
definition ustack_va :: u64 where "ustack_va = context_va - 8 * of_nat (ARGS_MAX + 2 + ENVS_MAX + 1)"
definition trapframe_va :: u64 where "trapframe_va = ustack_va - sizeof_trapframe"

definition exec_words :: "exec_env \<Rightarrow> u64 \<Rightarrow> nat \<Rightarrow> nat \<Rightarrow> (u64 \<times> u64) list" where
  "exec_words env entry argc envc =
     [(ustack_va + 8 * of_nat (argc + 2 + envc), 0), (ustack_va + 8 * of_nat (argc + 1), 0),
      (ustack_va, of_nat argc), (context_va + place ''sp'', trapframe_va), (context_va + place ''ra'', exec_helper env),
      (trapframe_va + place ''sp'', ustack_va), (trapframe_va + place ''prmd'', 4), (trapframe_va + place ''era'', entry)]"

text \<open>\<open>argv\<close> and \<open>envp\<close> are addresses; \<open>path\<close> is a string; \<open>NULL\<close> is \<open>None\<close>.\<close>

definition exec :: "exec_env \<Rightarrow> bytes \<Rightarrow> u64 \<Rightarrow> u64 \<Rightarrow> kernel \<Rightarrow> (nat option \<times> kernel) kres option" where
  "exec env path argv envp k =
     obind (Some (proc_alloc k)) (\<lambda>(i, k1).
       obind (Some (case cur_proc k1 of None \<Rightarrow> Inl (BadAccess ''cur_proc'') | Some c \<Rightarrow> Inr c)) (\<lambda>c.
         let t = (task k1 i)\<lparr>parent := Some 0, state := TASK_RUNABLE\<rparr>;
             k2 = set_task i (if c = 0 then t else t\<lparr>p_fdtable := p_fdtable (task k1 c)\<rparr>) k1;
             a0 = load64 (kmem k2) argv in
         obind (if a0 = 0 then Some (Inr path)
                else map_option (\<lambda>n. Inr (read_bytes (kmem k2) a0 (unat n))) (strlen (kmem k2) a0)) (\<lambda>nm.
           if length nm \<ge> 32 then Some (Inl (BadAccess ''name''))
           else let k3 = set_task i ((task k2 i)\<lparr>name := nm\<rparr>) k2 in
             obind (Some (elf_loader env i path k3)) (\<lambda>(entry, k4).
               if entry = - 1 then obind (proc_free i k4) (\<lambda>k5. Some (Inr (None, k5)))
               else let pt = pgtbl (task k4 i) in
                 obind (Some (in_heap (alloc_vm pt (mapping_list (task k4 i)) USER_STACK_BOTTOM USER_STACK_TOP PTE_USER) k4)) (\<lambda>(r, k5).
                   obind (Some (va_to_pa pt (USER_STACK_TOP - PGSIZE) (hmm (heap k5)))) (\<lambda>pa.
                     let k6 = set_task i ((task k5 i)\<lparr>p_context := PA2VA (pa + PGSIZE) - sizeof_context\<rparr>) k5 in
                     obind (push_strings ARGS_MAX env pt argv (ustack_va + 8) USER_STACK_BOTTOM 0 k6) (\<lambda>(argc, bp, k7).
                       if load64 (kmem k7) (argv + 8 * of_nat argc) \<noteq> 0 then Some (Inl (Panic ''exec: so many args''))
                       else obind (push_strings ENVS_MAX env pt envp (ustack_va + 8 * of_nat (argc + 2)) bp 0 k7) (\<lambda>(envc, bp2, k8).
                         if load64 (kmem k8) (envp + 8 * of_nat envc) \<noteq> 0 then Some (Inl (Panic ''exec: so many envs''))
                         else obind (Some (put_words env pt (exec_words env entry argc envc) k8)) (\<lambda>k9.
                           Some (Inr (Some i, k9)))))))))))"

definition exec_file :: "exec_env \<Rightarrow> bytes \<Rightarrow> u64 \<Rightarrow> u64 \<Rightarrow> kernel \<Rightarrow> (int \<times> kernel) kres option" where
  "exec_file env path argv envp k =
     obind (exec env path argv envp k) (\<lambda>(p, k1). Some (Inr (if p = None then - 1 else 0, k1)))"

text \<open>\<open>user_init\<close>: the first program, \<open>/bin/busybox\<close>.\<close>

definition user_init :: "exec_env \<Rightarrow> u64 \<Rightarrow> u64 \<Rightarrow> kernel \<Rightarrow> kernel kres option" where
  "user_init env argv envp k =
     obind (exec env [47, 98, 105, 110, 47, 98, 117, 115, 121, 98, 111, 120] argv envp k) (\<lambda>(p, k1).
       case p of None \<Rightarrow> Some (Inl (Panic ''exec fail''))
       | Some i \<Rightarrow> Some (Inr (set_task i ((task k1 i)\<lparr>cwd := [47, 98, 105, 110]\<rparr>) k1)))"

definition fork :: "exec_env \<Rightarrow> nat \<Rightarrow> kernel \<Rightarrow> (nat \<times> kernel) kres option" where
  "fork env p k =
     obind (Some (proc_alloc k)) (\<lambda>(np, k1).
       obind (copy_pagetable (pgtbl (task k1 p)) (mapping_list (task k1 p)) (pgtbl (task k1 np))
                (mapping_list (task k1 np)) (heap k1)) (\<lambda>(pl, h).
         let k2 = set_task p ((task k1 p)\<lparr>mapping_list := pl\<rparr>) (k1\<lparr>heap := h\<rparr>);
             k3 = k2\<lparr>lists := list_add (Children p) (Tasks np) (lists k2)\<rparr>;
             t = task k3 p;
             k4 = set_task np ((task k3 np)\<lparr>parent := Some p, state := TASK_RUNABLE, bss := bss t, name := name t,
                    p_fdtable := p_fdtable t, cwd := cwd t, callback := callback t,
                    timer_call_time := timer_call_time t\<rparr>) k3;
             pt = pgtbl (task k4 np) in
         obind (Some (va_to_pa pt (USER_STACK_TOP - PGSIZE) (hmm (heap k4)))) (\<lambda>pa.
           let k5 = set_task np ((task k4 np)\<lparr>p_context := PA2VA (pa + PGSIZE) - sizeof_context\<rparr>) k4 in
           obind (Some (put_words env pt [(cur_sp k5 + place ''a0'', 0), (context_va + place ''sp'', cur_sp k5), (context_va + place ''ra'', exec_helper env)] k5))
             (\<lambda>k6. Some (Inr (np, k6))))))"

section \<open>Loading a program\<close>

lemma place_simps [simp]:
  "place ''ra'' = 0" "place ''sp'' = 16" "place ''a0'' = 24" "place ''a7'' = 80" "place ''prmd'' = 248" "place ''era'' = 256"
  by (simp_all add: place_def trapframe_regs_def context_regs_def)

lemma obind_eq_iff: "obind x f = Some (Inr y) \<longleftrightarrow> (\<exists>a. x = Some (Inr a) \<and> f a = Some (Inr y))"
  by (auto simp: obind_def split: option.splits sum.splits)

lemma in_fs_frame: "in_fs f k = Inr (r, k') \<Longrightarrow> proc k' = proc k"
  by (auto simp: in_fs_def kres_simps Let_def)

text \<open>The loader changes nothing of the tasks but the end of the data segment of its own.\<close>

definition same_but_bss :: "nat \<Rightarrow> kernel \<Rightarrow> kernel \<Rightarrow> bool" where
  "same_but_bss i k k' \<longleftrightarrow> (\<exists>b. proc k' = (proc k)[i := (task k i)\<lparr>bss := b\<rparr>])"

lemma same_but_bss_refl: "proc k' = proc k \<Longrightarrow> same_but_bss i k k'"
  by (auto simp: same_but_bss_def task_def intro!: exI [of _ "bss (proc k ! i)"])

lemma same_but_bss_trans: "same_but_bss i k k1 \<Longrightarrow> same_but_bss i k1 k2 \<Longrightarrow> same_but_bss i k k2"
  by (cases "i < length (proc k)") (auto simp: same_but_bss_def task_def list_update_beyond)

lemma same_but_bss_start: "same_but_bss i k1 k' \<Longrightarrow> proc k1 = proc k \<Longrightarrow> same_but_bss i k k'"
  by (simp add: same_but_bss_def task_def)

lemma load_segment_tasks: "load_segment base i seg k = Inr (r, k') \<Longrightarrow> same_but_bss i k k'"
  by (auto simp: load_segment_def kres_simps Let_def same_but_bss_def set_task_def task_def
      dest!: in_heap_frame split: if_splits intro: exI [of _ "bss (proc k ! i)"])

lemma load_segments_tasks: "load_segments n base segs i k = Inr (r, k') \<Longrightarrow> same_but_bss i k k'"
proof (induction n arbitrary: segs k)
  case (Suc n)
  obtain ok k1 where "load_segment base i (read_phdr (kmem k) segs) k = Inr (ok, k1)"
    "(if ok then load_segments n base (segs + 56) i k1 else Inr (False, k1)) = Inr (r, k')"
    using Suc.prems by (auto simp: kres_simps)
  then show ?case using Suc.IH load_segment_tasks same_but_bss_trans by (auto split: if_splits) metis
qed (simp add: same_but_bss_refl)

lemma elf_loader_tasks: "elf_loader env i path k = Inr (r, k') \<Longrightarrow> same_but_bss i k k'"
  by (auto simp: elf_loader_def kres_simps Let_def split: if_splits
      dest!: in_fs_frame load_segments_tasks intro: same_but_bss_refl same_but_bss_start)

lemma proc_free_context: "proc_free i k = Some (Inr k') \<Longrightarrow> p_context (task k i) \<noteq> 0"
  by (auto simp: proc_free_def kres_simps Let_def free_object_def task_def split: if_splits)

text \<open>The words of the stack that a call of \<open>exec\<close> with \<open>argc\<close> arguments and \<open>envc\<close> environment strings writes.\<close>

definition stack_slots :: "exec_env \<Rightarrow> u64 \<Rightarrow> nat \<Rightarrow> nat \<Rightarrow> u64 list" where
  "stack_slots env entry argc envc =
     map fst (exec_words env entry argc envc) @ map (\<lambda>i. ustack_va + 8 + 8 * of_nat i) [0..<argc] @
     map (\<lambda>i. ustack_va + 8 * of_nat (argc + 2) + 8 * of_nat i) [0..<envc]"

section \<open>Properties\<close>

text \<open>
  \<open>exec\<close> never reports that a program could not be loaded: the new task has no context yet, and \<open>proc_free\<close> gives the
  missing context back to the heap, which reads memory in front of address 0.
\<close>

theorem exec_never_reports_failure:
  assumes "length (proc k) = PROC_MAX"
  shows "exec env path argv envp k \<noteq> Some (Inr (None, k'))"
proof
  assume X: "exec env path argv envp k = Some (Inr (None, k'))"
  obtain i k1 c where A: "proc_alloc k = Inr (i, k1)" and c: "cur_proc k1 = Some c"
    using X by (auto simp: exec_def obind_eq_iff split: option.splits)
  let ?t = "(task k1 i)\<lparr>parent := Some 0, state := TASK_RUNABLE\<rparr>"
  let ?k2 = "set_task i (if c = 0 then ?t else ?t\<lparr>p_fdtable := p_fdtable (task k1 c)\<rparr>) k1"
  obtain nm entry k4 where L: "elf_loader env i path (set_task i ((task ?k2 i)\<lparr>name := nm\<rparr>) ?k2) = Inr (entry, k4)"
    and F: "proc_free i k4 = Some (Inr k')"
    using X A c by (auto simp: exec_def obind_eq_iff Let_def split: option.splits if_splits)
  have i: "i < length (proc k1)" "p_context (task k1 i) = 0"
    using proc_alloc_effect [OF A assms] assms by (auto simp: task_def)
  then have "p_context (task k4 i) = 0"
    using elf_loader_tasks [OF L] by (auto simp: same_but_bss_def task_def set_task_def split: if_splits)
  with proc_free_context [OF F] show False by simp
qed

theorem exec_never_reports_failure_witness:
  "\<forall>k'. exec \<lparr>fsenv = sample_env, elf_buf = 0, exec_helper = 0, kword = 0\<rparr> [47] 0 0 sample_kernel \<noteq> Some (Inr (None, k'))"
  using exec_never_reports_failure [of sample_kernel] by (simp add: sample_kernel_def)

text \<open>
  The words that \<open>exec\<close> puts on the user stack, which are the argument count, the pointers to up to 8 arguments
  and 16 environment strings with their terminators, the context of the first switch and the trap frame of the
  first return, are aligned, lie in the topmost page of the stack, and no two of them share a place.
\<close>

theorem exec_stack_layout:
  assumes "argc \<le> ARGS_MAX" and "envc \<le> ENVS_MAX"
  shows "distinct (stack_slots env entry argc envc) \<and> (\<forall>a\<in>set (stack_slots env entry argc envc). USER_STACK_TOP - PGSIZE \<le> a \<and> a \<le> USER_STACK_TOP - 8 \<and> a mod 8 = 0)"
proof -
  define js where "js = [35 + argc + envc, 34 + argc, 33, 62, 60, 2, 31, 32] @ map (\<lambda>i. 34 + i) [0..<argc] @ map (\<lambda>i. 35 + argc + i) [0..<envc]"
  let ?f = "\<lambda>j. of_nat (2147417384 + 8 * j) :: u64"
  have b: "argc \<le> 8" "envc \<le> 16" using assms(1,2) by (simp_all add: ARGS_MAX_def ENVS_MAX_def)
  have v: "ustack_va = 2147417648" "context_va = 2147417864" "trapframe_va = 2147417384"
    by (simp_all add: ustack_va_def context_va_def trapframe_va_def USER_STACK_TOP_def sizeof_context_def sizeof_trapframe_def
        context_regs_def trapframe_regs_def ARGS_MAX_def ENVS_MAX_def)
  have s: "stack_slots env entry argc envc = map ?f js"
    unfolding stack_slots_def exec_words_def v js_def by (simp add: algebra_simps)
  have j: "j < 63" if "j \<in> set js" for j using that b by (auto simp: js_def)
  then have "unat (?f j) = 2147417384 + 8 * j" if "j \<in> set js" for j
    using j [OF that] by (intro unat_of_nat_64) simp
  note u = this
  have "inj_on ?f (set js)" using u by (intro inj_onI) (metis add_left_cancel mult_left_cancel zero_neq_numeral)
  moreover have "distinct js" unfolding js_def using b by (auto simp: distinct_map inj_on_def)
  moreover have "USER_STACK_TOP - PGSIZE \<le> ?f j \<and> ?f j \<le> USER_STACK_TOP - 8 \<and> ?f j mod 8 = 0" if "j \<in> set js" for j
  proof -
    have "(2147417384 + 8 * j) mod 8 = (0 :: nat)" by presburger
    then have "unat (?f j mod 8) = 0" using u [OF that] by (simp add: unat_mod)
    then show ?thesis
      using u [OF that] j [OF that] by (simp add: word_le_nat_alt USER_STACK_TOP_def PGSIZE_def unat_eq_0)
  qed
  ultimately show ?thesis unfolding s by (simp add: distinct_map)
qed

theorem exec_stack_layout_witness:
  "distinct (stack_slots \<lparr>fsenv = sample_env, elf_buf = 0, exec_helper = 0, kword = 0\<rparr> 65536 8 16) \<and>
   2147417648 \<in> set (stack_slots \<lparr>fsenv = sample_env, elf_buf = 0, exec_helper = 0, kword = 0\<rparr> 65536 8 16)"
  using exec_stack_layout [of 8 16]
  by (simp add: ARGS_MAX_def ENVS_MAX_def)
     (simp add: stack_slots_def exec_words_def ustack_va_def context_va_def USER_STACK_TOP_def sizeof_context_def
       context_regs_def ARGS_MAX_def ENVS_MAX_def)

end
