(* ===== verification/Syscall.thy ===== *)
theory Syscall
  imports Exec
begin

text \<open>
  System calls and traps: core/syscall.c, core/trap.c, the numbers of include/syscall.h and the
  causes of include/asm/exception.h. Arguments are read from the trap frame in memory;
  addresses that user programs pass are used as they are, as the code does (the
  translation the hardware applies to them is not part of the model). A handler
  returns a value, or it gives the processor away and will go on where it stopped.
  The theory shows what becomes of the working directory, what \<open>wait4\<close> reports, which handler
  a number selects, and that \<open>sendfile\<close> does not end on a file that is not empty.
\<close>

section \<open>Definitions\<close>

datatype sysres = Return u64 | Resched

type_synonym handler = "kernel \<Rightarrow> (sysres \<times> kernel) kres option"

definition done_with :: "(u64 \<times> kernel) kres \<Rightarrow> (sysres \<times> kernel) kres option" where
  "done_with r = Some (kbind r (\<lambda>(v, k). Inr (Return v, k)))"

definition argraw :: "nat \<Rightarrow> kernel \<Rightarrow> u64 kres" where
  "argraw n k = (if n \<le> 5 then Inr (load64 (kmem k) (cur_sp k + place ''a0'' + 8 * of_nat n)) else Inl (Panic ''called argraw''))"

definition arg :: "nat \<Rightarrow> kernel \<Rightarrow> u64" where
  "arg n k = load64 (kmem k) (cur_sp k + place ''a0'' + 8 * of_nat n)"

definition as_int :: "u64 \<Rightarrow> int" where
  "as_int x = sint (ucast x :: i32)"

definition int_arg :: "nat \<Rightarrow> kernel \<Rightarrow> int" where
  "int_arg n k = as_int (arg n k)"

text \<open>The string at an address.\<close>

definition user_str :: "u64 \<Rightarrow> kernel \<Rightarrow> bytes option" where
  "user_str a k = map_option (\<lambda>n. read_bytes (kmem k) a (unat n)) (strlen (kmem k) a)"

subsection \<open>Paths\<close>

definition sep :: "bytes \<Rightarrow> bytes" where
  "sep dir = (if dir = [47] then [] else [47])"

text \<open>\<open>get_path\<close> into a buffer of 256 bytes.\<close>

definition get_path :: "bytes \<Rightarrow> bytes \<Rightarrow> bytes kres" where
  "get_path dir ref_path =
     (let p = (if ref_path = [] \<or> hd ref_path \<noteq> 47 then dir @ sep dir @ ref_path else ref_path) in
      if length p < 256 then Inr p else Inl (BadAccess ''path''))"

text \<open>
  The loop of \<open>sys_chdir\<close> for \<open>..\<close>: from the terminator down to index 1 for a slash.
\<close>

primrec parent_scan :: "nat \<Rightarrow> bytes \<Rightarrow> bytes" where
  "parent_scan 0 p = [47]"
| "parent_scan (Suc i) p = (if (p @ [0]) ! Suc i = 47 then take (Suc i) p else parent_scan i p)"

definition chdir_path :: "bytes \<Rightarrow> bytes \<Rightarrow> bytes kres" where
  "chdir_path dir path =
     (let p = (if path = [46, 46] then parent_scan (length dir) dir
               else if path \<noteq> [] \<and> hd path = 47 then path
               else dir @ sep dir @ path) in
      if length p < 256 then Inr p else Inl (BadAccess ''newpath''))"

text \<open>\<open>argstr\<close> copies 256 bytes; without a terminator among them the string has no end.\<close>

definition argstr :: "nat \<Rightarrow> nat \<Rightarrow> kernel \<Rightarrow> bytes kres" where
  "argstr n mx k =
     (let bs = read_bytes (kmem k) (arg n k) mx in
      if 0 \<in> set bs then Inr (takeWhile (\<lambda>c. c \<noteq> 0) bs) else Inl (BadAccess ''argstr''))"

definition sys_chdir :: handler where
  "sys_chdir k =
     done_with (kbind (my_proc k) (\<lambda>i.
       kbind (argstr 0 256 k) (\<lambda>path.
         kbind (chdir_path (cwd (task k i)) path) (\<lambda>newpath.
           Inr (0, set_task i ((task k i)\<lparr>cwd := newpath\<rparr>) k)))))"

definition sys_getcwd :: handler where
  "sys_getcwd k = done_with (getcwd (arg 0 k) (arg 1 k) k)"

subsection \<open>Files\<close>

definition ret_int :: "(int \<times> kernel) kres \<Rightarrow> (sysres \<times> kernel) kres option" where
  "ret_int r = done_with (kbind r (\<lambda>(v, k). Inr (of_int v, k)))"

definition sys_openat :: "exec_env \<Rightarrow> handler" where
  "sys_openat env k =
     obind (Some (my_proc k)) (\<lambda>i.
       obind (map_option Inr (user_str (arg 1 k) k)) (\<lambda>ref_path.
         ret_int (kbind (get_path (cwd (task k i)) ref_path) (\<lambda>path.
           in_fs (openat (fsenv env) (int_arg 0 k) path (ucast (arg 2 k))) k))))"

definition sys_close :: handler where
  "sys_close k = ret_int (in_fs (close (int_arg 0 k)) k)"

definition sys_read :: "exec_env \<Rightarrow> handler" where
  "sys_read env k = done_with (in_fs (read_file (fsenv env) (int_arg 0 k) (arg 1 k) (arg 2 k)) k)"

definition sys_write :: handler where
  "sys_write k = done_with (in_fs (write_file (int_arg 0 k) (arg 1 k) (arg 2 k)) k)"

definition sys_lseek :: handler where
  "sys_lseek k = ret_int (in_fs (\<lambda>s. Inr (lseek (int_arg 0 k) (int_arg 1 k) (int_arg 2 k) s, s)) k)"

definition sys_fcntl :: handler where
  "sys_fcntl k = ret_int (in_fs (fcntl (int_arg 0 k) (int_arg 1 k) (int_arg 2 k)) k)"

definition sys_dup3 :: handler where
  "sys_dup3 k = ret_int (in_fs (dup3 (int_arg 0 k) (int_arg 1 k) (ucast (arg 2 k))) k)"

definition sys_dup2 :: handler where
  "sys_dup2 k = ret_int (in_fs (dup3 (int_arg 0 k) (int_arg 1 k) 0) k)"

definition sys_dup :: handler where
  "sys_dup k = ret_int (in_fs (dup (int_arg 0 k)) k)"

text \<open>\<open>struct iovec\<close>: base at 0, length at 8.\<close>

definition sys_writev :: handler where
  "sys_writev k =
     done_with (kbind (kfold (\<lambda>i k1.
         let a = arg 1 k + 16 * of_nat i in
         kbind (in_fs (write_file (int_arg 0 k) (load64 (kmem k1) a) (load64 (kmem k1) (a + 8))) k1) (\<lambda>(n, k2). Inr k2))
       [0..<unat (arg 2 k)] k) (\<lambda>k1. Inr (0, k1)))"

text \<open>\<open>sys_sendfile\<close> with the address of its buffer; the loop has no other end than an empty read.\<close>

partial_function (option) sendfile_loop :: "exec_env \<Rightarrow> u64 \<Rightarrow> int \<Rightarrow> int \<Rightarrow> u64 \<Rightarrow> kernel \<Rightarrow> (u64 \<times> kernel) kres option" where
  "sendfile_loop env buf out_fd in_fd tot k =
     (case in_fs (read_file (fsenv env) in_fd buf 1) k of
        Inl e \<Rightarrow> Some (Inl e)
      | Inr (n, k1) \<Rightarrow>
          if n = 0 then Some (Inr (tot, k1))
          else case in_fs (write_file out_fd buf n) k1 of
            Inl e \<Rightarrow> Some (Inl e)
          | Inr (w, k2) \<Rightarrow> sendfile_loop env buf out_fd in_fd (tot + n) k2)"

definition sys_sendfile :: "exec_env \<Rightarrow> u64 \<Rightarrow> handler" where
  "sys_sendfile env buf k =
     (if arg 2 k \<noteq> 0 then Some (Inl (Panic ''sendfile offset''))
      else obind (sendfile_loop env buf (int_arg 0 k) (int_arg 1 k) 0 k) (\<lambda>r. done_with (Inr r)))"

subsection \<open>Memory\<close>

definition sys_brk :: handler where
  "sys_brk k =
     done_with (kbind (my_proc k) (\<lambda>i.
       kbind (kassert (bss (task k i) \<noteq> 0) ''p->bss'') (\<lambda>_.
         let k1 = (if arg 0 k \<noteq> 0 then set_task i ((task k i)\<lparr>bss := arg 0 k\<rparr>) k else k) in
         Inr (bss (task k1 i), k1))))"

definition sys_mmap :: handler where
  "sys_mmap k =
     done_with (if arg 0 k \<noteq> 0 then Inr (arg 0 k, k) else in_heap (in_mm (kmalloc (ucast (arg 1 k)))) k)"

subsection \<open>Processes\<close>

definition sys_clone :: "exec_env \<Rightarrow> handler" where
  "sys_clone env k =
     obind (Some (my_proc k)) (\<lambda>i.
       obind (fork env i k) (\<lambda>(np, k1). done_with (Inr (of_int (pid (task k1 np)), k1))))"

definition sys_execve :: "exec_env \<Rightarrow> handler" where
  "sys_execve env k =
     obind (Some (my_proc k)) (\<lambda>p.
       obind (map_option Inr (user_str (arg 0 k) k)) (\<lambda>filename.
         obind (Some (get_path (cwd (task k p)) filename)) (\<lambda>buf.
           obind (exec env buf (arg 1 k) (arg 2 k) k) (\<lambda>(r, k1).
             case r of
               None \<Rightarrow> done_with (Inr (- 1, k1))
             | Some np \<Rightarrow>
                 if length buf \<ge> 32 then Some (Inl (BadAccess ''name''))
                 else case parent (task k1 p) of
                   None \<Rightarrow> Some (Inl (BadAccess ''parent''))
                 | Some pp \<Rightarrow>
                     let t = task k1 p;
                         k2 = set_task np ((task k1 np)\<lparr>name := buf, cwd := cwd t, pid := pid t, parent := parent t\<rparr>) k1;
                         k3 = k2\<lparr>lists := list_add (Children pp) (Tasks np) (lists k2)\<rparr> in
                     done_with (Inr (0, set_task p ((task k3 p)\<lparr>pid := - 1, state := TASK_KILLED\<rparr>) k3))))))"

definition clean_up :: "kernel \<Rightarrow> kernel kres" where
  "clean_up k = kbind (my_proc k) (\<lambda>i. Inr (set_task i ((task k i)\<lparr>callback := 0, timer_call_time := - 1\<rparr>) k))"

definition sys_exit :: handler where
  "sys_exit k =
     Some (kbind (clean_up k) (\<lambda>k1. kbind (exit (int_arg 0 k) k1) (\<lambda>k2. Inr (Resched, k2))))"

definition sys_get_proc_id :: handler where
  "sys_get_proc_id k = ret_int (kbind (get_proc_id k) (\<lambda>p. Inr (p, k)))"

definition sys_set_proc_id :: handler where
  "sys_set_proc_id k = ret_int (set_proc_id (int_arg 0 k) k)"

text \<open>
  The scan of the children in \<open>sys_wait4\<close>: the first zombie, or whether one is still alive.
\<close>

fun scan_children :: "pnode list \<Rightarrow> bool \<Rightarrow> kernel \<Rightarrow> (nat option \<times> bool) kres" where
  "scan_children [] runnings k = Inr (None, runnings)"
| "scan_children (Children j # ns) runnings k = Inl (BadAccess ''container_of'')"
| "scan_children (Tasks j # ns) runnings k =
     (if state (task k j) = TASK_ZOMBIE then Inr (Some j, runnings)
      else scan_children ns (runnings \<or> state (task k j) = TASK_RUNNING \<or> state (task k j) = TASK_RUNABLE) k)"

text \<open>
  What \<open>sys_wait4\<close> does with the zombie it found: \<open>sizeof(struct rusage)\<close> is 144, with the
  seconds of user and system time at 0 and 16.
\<close>

definition exit_status :: "int \<Rightarrow> u64" where
  "exit_status code = scast (push_bit 8 (word_of_int code :: i32))"

definition reap :: "nat \<Rightarrow> u64 \<Rightarrow> u64 \<Rightarrow> kernel \<Rightarrow> u64 \<times> kernel" where
  "reap pos wstatus rusage k =
     (let k1 = (if rusage \<noteq> 0
                then poke rusage (le_bytes 8 1) (poke (rusage + 16) (le_bytes 8 1) (poke rusage (replicate 144 0) k)) else k);
          k2 = (if wstatus \<noteq> 0
                then poke wstatus (le_bytes 8 (unat (exit_status (exit_code (task k1 pos))))) k1 else k1) in
      (of_int (pid (task k2 pos)), set_task pos ((task k2 pos)\<lparr>state := TASK_KILLED\<rparr>) k2))"

definition sys_wait4 :: handler where
  "sys_wait4 k =
     obind (Some (my_proc k)) (\<lambda>p.
       let found = (\<lambda>pos. done_with (Inr (reap pos (arg 1 k) (arg 3 k) k)));
           block = Some (kbind (yield k) (\<lambda>k1. Inr (Resched, k1))) in
       if arg 0 k = - 1 then
         obind (map_option Inr (list_for_each_entry (Children p) (lists k))) (\<lambda>ns.
           obind (Some (scan_children ns False k)) (\<lambda>(z, runnings).
             case z of Some pos \<Rightarrow> found pos
             | None \<Rightarrow> if runnings then block else done_with (Inr (- 1, k))))
       else case proc_find (int_arg 0 k) k of
         None \<Rightarrow> Some (Inl (BadAccess ''pos''))
       | Some pos \<Rightarrow>
           if parent (task k pos) \<noteq> Some p then done_with (Inr (- 1, k))
           else if state (task k pos) = TASK_ZOMBIE then found pos
           else block)"

subsection \<open>The rest\<close>

text \<open>
  The strings of \<open>sys_newuname\<close>, each in a field of 65 bytes; the version is in UTF-8.
\<close>

definition uname_strings :: "bytes list" where
  "uname_strings =
     [[76, 111, 79, 83], [108, 111, 99, 97, 108, 104, 111, 115, 116], [118, 49, 46, 50],
      [83, 104, 105, 114, 111, 32, 0xE3, 0x81, 0x97, 0xE3, 0x82, 0x8D],
      [76, 111, 111, 110, 103, 65, 114, 99, 104, 54, 52]]"

definition sys_newuname :: handler where
  "sys_newuname k =
     done_with (Inr (0, fst (fold (\<lambda>s (k1, a). (poke a (s @ [0]) k1, a + 65)) uname_strings (k, arg 0 k))))"

definition sys_read_link_at :: handler where
  "sys_read_link_at k = done_with (Inr (0, k))"

primrec fill_random :: "nat \<Rightarrow> u64 \<Rightarrow> kernel \<Rightarrow> kernel" where
  "fill_random 0 a k = k"
| "fill_random (Suc n) a k =
     (case rand (seed k) of (r, s) \<Rightarrow> fill_random n (a + 1) (poke a [ucast r] (k\<lparr>seed := s\<rparr>)))"

definition sys_getrandom :: handler where
  "sys_getrandom k = done_with (Inr (arg 1 k, fill_random (unat (arg 1 k)) (arg 0 k) k))"

definition sys_rt_sigaction :: handler where
  "sys_rt_sigaction k =
     done_with (kbind (my_proc k) (\<lambda>i.
       let h = load64 (kmem k) (arg 1 k) in
       kbind (kassert (h \<noteq> 0) ''sa_handler'') (\<lambda>_. Inr (0, set_task i ((task k i)\<lparr>callback := h\<rparr>) k))))"

definition get_ns :: "kernel \<Rightarrow> u64" where
  "get_ns k = tick k * 1000 * 2"

definition get_tick_by_ms :: "u64 \<Rightarrow> u64" where
  "get_tick_by_ms ms = ms div 2"

text \<open>\<open>struct itimerval\<close>: interval seconds and microseconds at 0 and 8, value at 16 and 24.\<close>

definition sys_setitimer :: handler where
  "sys_setitimer k =
     done_with (kbind (my_proc k) (\<lambda>i.
       let a = arg 1 k; m = kmem k in
       kbind (kassert (load64 m a = 0 \<and> load64 m (a + 8) = 0) ''it_interval'') (\<lambda>_.
         Inr (0, set_task i ((task k i)\<lparr>timer_call_time :=
           tick k + get_tick_by_ms (load64 m (a + 16) * 10 + load64 m (a + 24))\<rparr>) k))))"

definition sys_poll :: handler where
  "sys_poll k = done_with (Inr (1, k))"

definition sys_pipe2 :: handler where
  "sys_pipe2 k = Some (Inl (Panic ''pipe machanism not implement''))"

definition sys_return_zero :: handler where
  "sys_return_zero k = done_with (Inr (0, k))"

definition sys_return_wrong :: handler where
  "sys_return_wrong k = done_with (Inr (- 1, k))"

definition sys_return_random :: handler where
  "sys_return_random k = done_with (case rand (seed k) of (r, s) \<Rightarrow> Inr (ucast r, k\<lparr>seed := s\<rparr>))"

subsection \<open>Dispatch\<close>

text \<open>The numbers the table uses.\<close>

definition SYS_openat :: nat where "SYS_openat = 56"
definition SYS_close :: nat where "SYS_close = 57"
definition SYS_read :: nat where "SYS_read = 63"
definition SYS_write :: nat where "SYS_write = 64"
definition SYS_lseek :: nat where "SYS_lseek = 62"
definition SYS_exit :: nat where "SYS_exit = 93"
definition SYS_fstat :: nat where "SYS_fstat = 80"
definition SYS_fcntl :: nat where "SYS_fcntl = 25"
definition SYS_exit_group :: nat where "SYS_exit_group = 94"
definition SYS_brk :: nat where "SYS_brk = 214"
definition SYS_mmap :: nat where "SYS_mmap = 222"
definition SYS_writev :: nat where "SYS_writev = 66"
definition SYS_newuname :: nat where "SYS_newuname = 160"
definition SYS_readlinkat :: nat where "SYS_readlinkat = 78"
definition SYS_getrandom :: nat where "SYS_getrandom = 278"
definition SYS_rt_sigaction :: nat where "SYS_rt_sigaction = 134"
definition SYS_setitimer :: nat where "SYS_setitimer = 103"
definition SYS_clone :: nat where "SYS_clone = 220"
definition SYS_wait4 :: nat where "SYS_wait4 = 260"
definition SYS_execve :: nat where "SYS_execve = 221"
definition SYS_set_tid_address :: nat where "SYS_set_tid_address = 96"
definition SYS_set_robust_list :: nat where "SYS_set_robust_list = 99"
definition SYS_rt_sigprocmask :: nat where "SYS_rt_sigprocmask = 135"
definition SYS_gettid :: nat where "SYS_gettid = 178"
definition SYS_getpid :: nat where "SYS_getpid = 172"
definition SYS_getppid :: nat where "SYS_getppid = 173"
definition SYS_geteuid :: nat where "SYS_geteuid = 175"
definition SYS_getuid :: nat where "SYS_getuid = 174"
definition SYS_getgid :: nat where "SYS_getgid = 176"
definition SYS_getpgid :: nat where "SYS_getpgid = 155"
definition SYS_setuid :: nat where "SYS_setuid = 146"
definition SYS_setpgid :: nat where "SYS_setpgid = 154"
definition SYS_setgid :: nat where "SYS_setgid = 144"
definition SYS_tgkill :: nat where "SYS_tgkill = 131"
definition SYS_prlimit64 :: nat where "SYS_prlimit64 = 261"
definition SYS_mprotect :: nat where "SYS_mprotect = 226"
definition SYS_statx :: nat where "SYS_statx = 291"
definition SYS_chdir :: nat where "SYS_chdir = 49"
definition SYS_getcwd :: nat where "SYS_getcwd = 17"
definition SYS_dup3 :: nat where "SYS_dup3 = 24"
definition SYS_getdents64 :: nat where "SYS_getdents64 = 61"
definition SYS_mkdirat :: nat where "SYS_mkdirat = 34"
definition SYS_dup :: nat where "SYS_dup = 23"
definition SYS_pipe2 :: nat where "SYS_pipe2 = 59"
definition SYS_unlinkat :: nat where "SYS_unlinkat = 35"
definition SYS_ioctl :: nat where "SYS_ioctl = 29"
definition SYS_ppoll :: nat where "SYS_ppoll = 73"
definition SYS_reboot :: nat where "SYS_reboot = 142"
definition SYS_nanosleep :: nat where "SYS_nanosleep = 101"
definition SYS_munmap :: nat where "SYS_munmap = 215"
definition SYS_clock_gettime :: nat where "SYS_clock_gettime = 113"
definition SYS_gettimeofday :: nat where "SYS_gettimeofday = 169"
definition SYS_faccessat :: nat where "SYS_faccessat = 48"
definition SYS_sendfile :: nat where "SYS_sendfile = 71"

lemmas SYS_defs =
  SYS_openat_def SYS_close_def SYS_read_def SYS_write_def SYS_lseek_def SYS_exit_def SYS_fstat_def SYS_fcntl_def SYS_exit_group_def SYS_brk_def
  SYS_mmap_def SYS_writev_def SYS_newuname_def SYS_readlinkat_def SYS_getrandom_def SYS_rt_sigaction_def SYS_setitimer_def SYS_clone_def SYS_wait4_def SYS_execve_def
  SYS_set_tid_address_def SYS_set_robust_list_def SYS_rt_sigprocmask_def SYS_gettid_def SYS_getpid_def SYS_getppid_def SYS_geteuid_def SYS_getuid_def SYS_getgid_def SYS_getpgid_def
  SYS_setuid_def SYS_setpgid_def SYS_setgid_def SYS_tgkill_def SYS_prlimit64_def SYS_mprotect_def SYS_statx_def SYS_chdir_def SYS_getcwd_def SYS_dup3_def
  SYS_getdents64_def SYS_mkdirat_def SYS_dup_def SYS_pipe2_def SYS_unlinkat_def SYS_ioctl_def SYS_ppoll_def SYS_reboot_def SYS_nanosleep_def SYS_munmap_def
  SYS_clock_gettime_def SYS_gettimeofday_def SYS_faccessat_def SYS_sendfile_def

definition syscalls :: "exec_env \<Rightarrow> u64 \<Rightarrow> (nat \<times> handler) list" where
  "syscalls env buf =
     [(SYS_openat, sys_openat env), (SYS_close, sys_close), (SYS_read, sys_read env), (SYS_write, sys_write),
      (SYS_lseek, sys_lseek), (SYS_exit, sys_exit), (SYS_fstat, sys_return_wrong), (SYS_fcntl, sys_fcntl),
      (SYS_exit_group, sys_exit), (SYS_brk, sys_brk), (SYS_mmap, sys_mmap), (SYS_writev, sys_writev),
      (SYS_newuname, sys_newuname), (SYS_readlinkat, sys_read_link_at), (SYS_getrandom, sys_getrandom),
      (SYS_rt_sigaction, sys_rt_sigaction), (SYS_setitimer, sys_setitimer), (SYS_clone, sys_clone env),
      (SYS_wait4, sys_wait4), (SYS_execve, sys_execve env), (SYS_set_tid_address, sys_get_proc_id),
      (SYS_set_robust_list, sys_return_zero), (SYS_rt_sigprocmask, sys_return_zero), (SYS_gettid, sys_get_proc_id),
      (SYS_getpid, sys_get_proc_id), (SYS_getppid, sys_get_proc_id), (SYS_geteuid, sys_return_zero),
      (SYS_getuid, sys_return_zero), (SYS_getgid, sys_return_zero), (SYS_getpgid, sys_return_zero),
      (SYS_setuid, sys_return_zero), (SYS_setpgid, sys_return_zero), (SYS_setgid, sys_return_zero),
      (SYS_tgkill, sys_return_zero), (SYS_prlimit64, sys_return_zero), (SYS_mprotect, sys_return_zero),
      (SYS_statx, sys_return_zero), (SYS_chdir, sys_chdir), (SYS_getcwd, sys_getcwd), (SYS_dup3, sys_dup3),
      (SYS_getdents64, sys_return_zero), (SYS_mkdirat, sys_return_wrong), (SYS_dup, sys_dup), (SYS_pipe2, sys_pipe2),
      (SYS_unlinkat, sys_return_wrong), (SYS_ioctl, sys_return_zero), (SYS_ppoll, sys_poll),
      (SYS_reboot, sys_return_zero), (SYS_nanosleep, sys_return_zero), (SYS_munmap, sys_return_zero),
      (SYS_clock_gettime, sys_return_zero), (SYS_gettimeofday, sys_return_zero), (SYS_faccessat, sys_return_wrong),
      (SYS_pipe2, sys_pipe2), (SYS_sendfile, sys_sendfile env buf)]"

text \<open>The table has 292 entries; a negative number is a large unsigned one.\<close>

definition select_syscall :: "exec_env \<Rightarrow> u64 \<Rightarrow> int \<Rightarrow> handler" where
  "select_syscall env buf num =
     (case if 0 \<le> num \<and> num < 292 then map_of (syscalls env buf) (nat num) else None of
        Some h \<Rightarrow> h | None \<Rightarrow> sys_exit)"

definition syscall_handler :: "exec_env \<Rightarrow> u64 \<Rightarrow> handler" where
  "syscall_handler env buf k =
     (let tf = cur_sp k in
      obind (select_syscall env buf (as_int (load64 (kmem k) (tf + place ''a7''))) k) (\<lambda>(r, k1).
        case r of Resched \<Rightarrow> Some (Inr (Resched, k1))
        | Return v \<Rightarrow> Some (Inr (Return v, poke (tf + place ''a0'') (le_bytes 8 (unat v)) k1))))"

subsection \<open>Traps\<close>

definition HWI_VEC :: u32 where "HWI_VEC = 0x3fc"
definition TI_VEC :: u32 where "TI_VEC = push_bit 11 1"
definition CSR_ESTAT_ECODE :: u32 where "CSR_ESTAT_ECODE = push_bit 16 0x3f"
definition CSR_ESTAT_ESUBCODE :: u32 where "CSR_ESTAT_ESUBCODE = push_bit 22 0x1ff"

definition E_PIL :: u32 where "E_PIL = 0x01"
definition E_PIS :: u32 where "E_PIS = 0x02"
definition E_PIF :: u32 where "E_PIF = 0x03"
definition E_ADE :: u32 where "E_ADE = 0x08"
definition E_ALE :: u32 where "E_ALE = 0x09"
definition E_SYS :: u32 where "E_SYS = 0x0B"
definition E_INE :: u32 where "E_INE = 0x0D"
definition E_FPD :: u32 where "E_FPD = 0x0F"

lemmas E_defs = E_PIL_def E_PIS_def E_PIF_def E_ADE_def E_ALE_def E_SYS_def E_INE_def E_FPD_def

definition r_trap_era :: "kernel \<Rightarrow> u64" where
  "r_trap_era k = load64 (kmem k) (cur_sp k + place ''era'')"

definition w_trap_era :: "u64 \<Rightarrow> kernel \<Rightarrow> kernel" where
  "w_trap_era era k = poke (cur_sp k + place ''era'') (le_bytes 8 (unat era)) k"

text \<open>
  \<open>trap_handler\<close> on the values of the registers \<open>estat\<close> and \<open>ecfg\<close>; what it prints is left out.
  A timer interrupt and an exit give the processor away.
\<close>

definition trap_handler :: "exec_env \<Rightarrow> u64 \<Rightarrow> (u64 \<Rightarrow> u64 \<Rightarrow> kernel \<Rightarrow> kernel kres) \<Rightarrow> u32 \<Rightarrow> u32 \<Rightarrow> handler" where
  "trap_handler env buf sighandler estat ecfg k =
     (if estat AND ecfg AND HWI_VEC \<noteq> 0 then Some (Inl (Panic ''not finish''))
      else if estat AND ecfg AND TI_VEC \<noteq> 0 then
        Some (kbind (timer_handler sighandler k) (\<lambda>k1. Inr (Resched, k1)))
      else
        let k1 = w_trap_era (r_trap_era k + 4) k;
            ecode = drop_bit 16 (estat AND CSR_ESTAT_ECODE);
            esubcode = drop_bit 22 (estat AND CSR_ESTAT_ESUBCODE) in
        obind (Some (my_proc k1)) (\<lambda>p.
          if ecode = E_SYS then syscall_handler env buf k1
          else if ecode = E_FPD then Some (Inr (Return 0, k1))
          else if ecode = E_PIL \<or> ecode = E_PIS \<or> ecode = E_PIF then Some (Inr (Return 0, k1))
          else if ecode = E_ADE then
            (if esubcode = 1 \<or> esubcode = 0 then Some (kbind (exit 1 k1) (\<lambda>k2. Inr (Resched, k2)))
             else Some (Inl (Panic ''esubcode not 1 neither 0'')))
          else if ecode = E_INE then Some (kbind (exit 1 k1) (\<lambda>k2. Inr (Resched, k2)))
          else if ecode = E_ALE then Some (Inr (Return 0, k1))
          else Some (Inr (Return 0, k1))))"

text \<open>
  \<open>trap_init\<close>: the interrupts it enables, with the entry points it is given and what the timer is set to.
\<close>

record trap_csrs =
  csr_ecfg :: u32
  csr_eentry :: u64
  csr_tlbrentry :: u64
  csr_tcfg :: u64

definition trap_init :: "u64 \<Rightarrow> u64 \<Rightarrow> kernel \<Rightarrow> trap_csrs \<times> kernel" where
  "trap_init trap_entry handle_tlbr k =
     (case timer_init k of (tcfg, k1) \<Rightarrow>
        (\<lparr>csr_ecfg = push_bit 16 0 OR HWI_VEC OR TI_VEC, csr_eentry = trap_entry, csr_tlbrentry = handle_tlbr, csr_tcfg = tcfg\<rparr>, k1))"

section \<open>Calls on paths\<close>

lemma parent_scan_last:
  assumes "length dir \<le> n" "n < length (dir @ 47 # c)" "47 \<notin> set c" "dir \<noteq> []"
  shows "parent_scan n (dir @ 47 # c) = dir"
  using assms(1,2)
proof (induction n)
  case 0
  then show ?case using assms(4) by simp
next
  case (Suc n)
  show ?case
  proof (cases "length dir = Suc n")
    case True
    then show ?thesis by (simp add: nth_append)
  next
    case False
    then have l: "length dir \<le> n" using Suc.prems(1) by simp
    let ?j = "Suc n - Suc (length dir)"
    have "(dir @ 47 # c) ! Suc n = c ! ?j" using l by (simp add: nth_append nth_Cons')
    moreover have "?j < length c" using Suc.prems(2) l by simp
    ultimately have "(dir @ 47 # c) ! Suc n \<noteq> 47" using assms(3) by (metis nth_mem)
    then have "((dir @ 47 # c) @ [0]) ! Suc n \<noteq> 47" using Suc.prems(2) by (metis nth_append)
    then show ?thesis using Suc.IH l Suc.prems(2) by simp
  qed
qed

lemma parent_scan_root:
  assumes "47 \<notin> set c" "n \<le> length c"
  shows "parent_scan n (47 # c) = [47]"
  using assms(2)
proof (induction n)
  case (Suc n)
  then have "(47 # c) ! Suc n \<noteq> 47" using assms(1) by (metis Suc_le_eq nth_Cons_Suc nth_mem)
  then have "((47 # c) @ [0]) ! Suc n \<noteq> 47" using Suc.prems by (simp add: nth_append)
  then show ?case using Suc by simp
qed simp

lemma chdir_path_parent:
  assumes "dir \<noteq> []" "47 \<notin> set c" "length dir < 256"
  shows "chdir_path (dir @ sep dir @ c) [46, 46] = Inr dir"
proof (cases "dir = [47]")
  case True
  then show ?thesis using parent_scan_root [OF assms(2), of "length c"]
    using assms(2) by (cases c rule: rev_cases) (auto simp: chdir_path_def sep_def Let_def nth_append)
next
  case False
  let ?p = "dir @ 47 # c"
  have "(?p @ [0]) ! length ?p \<noteq> 47" by (simp add: nth_append)
  then have "parent_scan (length ?p) ?p = parent_scan (length dir + length c) ?p" by simp
  also have "\<dots> = dir" by (rule parent_scan_last) (use assms in simp_all)
  finally show ?thesis using False assms(3) by (simp add: chdir_path_def sep_def)
qed

lemma sys_chdir_effect:
  assumes "cur_proc k = Some i" "argstr 0 256 k = Inr path" "chdir_path (cwd (task k i)) path = Inr p"
  shows "sys_chdir k = Some (Inr (Return 0, set_task i ((task k i)\<lparr>cwd := p\<rparr>) k))"
  using assms by (simp add: sys_chdir_def my_proc_def done_with_def)

text \<open>A string in memory as \<open>argstr\<close> reads it.\<close>

lemma argstr_string:
  assumes "read_bytes (kmem k) (arg n k) (length s) = s" "kmem k (arg n k + of_nat (length s)) = 0" "0 \<notin> set s" "length s < mx"
  shows "argstr n mx k = Inr s"
proof -
  obtain d where d: "mx = length s + Suc d" using assms(4) by (metis add_Suc_right less_iff_Suc_add)
  have "read_bytes (kmem k) (arg n k) mx = s @ 0 # read_bytes (kmem k) (arg n k + of_nat (length s) + 1) d"
    unfolding d read_bytes_append assms(1) by (simp add: read_bytes_Suc assms(2))
  moreover have "takeWhile (\<lambda>c. c \<noteq> 0) (s @ 0 # r) = s" for r using assms(3) by (induction s) auto
  ultimately show ?thesis by (simp add: argstr_def)
qed

text \<open>A kernel whose first task has called with the arguments \<open>args\<close> and has \<open>bs\<close> at address \<open>a\<close>.\<close>

definition call_kernel :: "u64 list \<Rightarrow> u64 \<Rightarrow> bytes \<Rightarrow> kernel" where
  "call_kernel args a bs = poke a bs (poke 24 (concat (map (\<lambda>v. le_bytes 8 (unat v)) args)) sample_kernel)"

lemmas call_simps = load64_def read_bytes_def upt_rec write_bytes_def le_bytes_numeral

lemma kmem_poke: "kmem (poke a bs k) = write_bytes (kmem k) a bs"
  by (simp add: kmem_def poke_def)

section \<open>Waiting\<close>

lemma scan_children_find:
  "\<exists>b. scan_children (map Tasks js) r k = Inr (find (\<lambda>j. state (task k j) = TASK_ZOMBIE) js, b) \<and>
     (find (\<lambda>j. state (task k j) = TASK_ZOMBIE) js = None \<longrightarrow>
        (b \<longleftrightarrow> r \<or> (\<exists>j\<in>set js. state (task k j) = TASK_RUNNING \<or> state (task k j) = TASK_RUNABLE)))"
proof (induction js arbitrary: r)
  case (Cons j js)
  show ?case
    using Cons.IH [of "r \<or> state (task k j) = TASK_RUNNING \<or> state (task k j) = TASK_RUNABLE"]
    by (cases "state (task k j) = TASK_ZOMBIE") auto
qed simp

lemma task_poke [simp]: "task (poke a bs k) i = task k i" "proc (poke a bs k) = proc k"
  by (simp_all add: poke_def task_def)

lemma load64_poke: "load64 (kmem (poke a (le_bytes 8 (unat v)) k)) a = v"
  using load64_store64_same [of "kmem k" a v] by (simp add: kmem_poke store64_def)

lemma reap_effect:
  assumes "j < length (proc k)"
  shows "fst (reap j ws ru k) = of_int (pid (task k j))" "task (snd (reap j ws ru k)) j = (task k j)\<lparr>state := TASK_KILLED\<rparr>"
    "i \<noteq> j \<Longrightarrow> task (snd (reap j ws ru k)) i = task k i"
    "ws \<noteq> 0 \<Longrightarrow> load64 (kmem (snd (reap j ws ru k))) ws = exit_status (exit_code (task k j))"
proof -
  have km: "kmem (set_task a t k1) = kmem k1" for a t k1 by (simp add: kmem_def set_task_def)
  show "fst (reap j ws ru k) = of_int (pid (task k j))" "task (snd (reap j ws ru k)) j = (task k j)\<lparr>state := TASK_KILLED\<rparr>"
    "i \<noteq> j \<Longrightarrow> task (snd (reap j ws ru k)) i = task k i"
    "ws \<noteq> 0 \<Longrightarrow> load64 (kmem (snd (reap j ws ru k))) ws = exit_status (exit_code (task k j))"
    using assms by (auto simp: reap_def Let_def km load64_poke)
qed

section \<open>Exits and files\<close>

lemma exit_effect:
  assumes "cur_proc k = Some c" "c < length (proc k)" "c \<noteq> 0" "0 < length (proc k)"
  shows "\<exists>k'. exit code k = Inr k' \<and> task k' c = (task k c)\<lparr>exit_code := code, state := TASK_ZOMBIE\<rparr> \<and>
    task k' 0 = (task k 0)\<lparr>state := TASK_RUNNING\<rparr> \<and> (\<forall>i. i \<noteq> c \<and> i \<noteq> 0 \<longrightarrow> task k' i = task k i)"
  using assms by (simp add: exit_def kill_def yield_def my_proc_def Let_def)

text \<open>The files of the running task as the calls of theory Fs see them.\<close>

definition fs_of :: "nat \<Rightarrow> kernel \<Rightarrow> fs_state" where
  "fs_of i k = \<lparr>fds = files k, fdt = tables k (p_fdtable (task k i)), fmm = hmm (heap k), cons = tty k\<rparr>"

lemma in_fs_run:
  assumes "cur_proc k = Some i" "f (fs_of i k) = Inr (r, s)"
  shows "\<exists>k'. in_fs f k = Inr (r, k') \<and> fs_of i k' = s \<and> cur_proc k' = Some i"
  using assms by (simp add: in_fs_def fs_of_def my_proc_def Let_def task_def)

lemma write_file_runs:
  assumes "fs_wf s" "unat count < 2 ^ 31"
  shows "\<exists>n s'. write_file fd buf count s = Inr (n, s') \<and> fds s' = fds s \<and> fdt s' = fdt s"
  using assms fd_valid(5) [OF assms(1)] by (cases "fd_invaild fd s") (auto simp: write_file_def)

text \<open>A descriptor that leads to a file which is not empty.\<close>

definition reads_file :: "fs_env \<Rightarrow> int \<Rightarrow> fs_state \<Rightarrow> bool" where
  "reads_file env fd s \<longleftrightarrow> fs_wf s \<and> \<not> fd_invaild fd s \<and>
     (\<exists>k a inode. fds_index (fdt s ! nat fd) = int k \<and> k \<noteq> 0 \<and> f_inode (fds s ! k) = Some (a, inode) \<and> i_size inode \<noteq> 0 \<and>
        unat (i_size inode) \<le> (12 + 256 + 256 ^ 2 + 256 ^ 3) * 1024)"

lemma reads_file_cong: "fds s' = fds s \<Longrightarrow> fdt s' = fdt s \<Longrightarrow> reads_file env fd s' = reads_file env fd s"
  by (simp add: reads_file_def fs_wf_def fd_invaild_def)

lemma reads_one_byte:
  assumes "reads_file env fd s" "block_size (e2fs env) = 1024"
  shows "\<exists>s'. read_file env fd buf 1 s = Inr (1, s') \<and> fds s' = fds s \<and> fdt s' = fdt s"
proof -
  obtain k a inode where k: "fs_wf s" "\<not> fd_invaild fd s" "fds_index (fdt s ! nat fd) = int k" "k \<noteq> 0" "f_inode (fds s ! k) = Some (a, inode)"
    "i_size inode \<noteq> 0" "unat (i_size inode) \<le> (12 + 256 + 256 ^ 2 + 256 ^ 3) * 1024" using assms(1) unfolding reads_file_def by blast
  have "1 \<le> i_size inode" using k(6) by (simp add: word_le_nat_alt Suc_le_eq unat_gt_0)
  then show ?thesis
    using read_file_ok [OF k(1-5) assms(2) k(7), of buf 1] by (simp add: min_def)
qed

lemma sendfile_loop_runs_on:
  assumes "block_size (e2fs (fsenv env)) = 1024"
    and ret: "sendfile_loop env buf out_fd in_fd n k = Some r"
  shows "\<not> (cur_proc k = Some i \<and> reads_file (fsenv env) in_fd (fs_of i k))"
proof -
  have "block_size (e2fs (fsenv env)) = 1024 \<longrightarrow> \<not> (cur_proc k = Some i \<and> reads_file (fsenv env) in_fd (fs_of i k))"
  proof (rule sendfile_loop.raw_induct [where P = "\<lambda>env buf out_fd in_fd n k r. block_size (e2fs (fsenv env)) = 1024 \<longrightarrow>
      \<not> (cur_proc k = Some i \<and> reads_file (fsenv env) in_fd (fs_of i k))", OF _ ret], intro impI)
    fix loop env buf out_fd in_fd n k r
    assume IH: "\<And>env buf out_fd in_fd n k r. loop env buf out_fd in_fd n k = Some r \<Longrightarrow> block_size (e2fs (fsenv env)) = 1024 \<longrightarrow>
        \<not> (cur_proc k = Some i \<and> reads_file (fsenv env) in_fd (fs_of i k))"
      and R: "(case in_fs (read_file (fsenv env) in_fd buf 1) k of Inl e \<Rightarrow> Some (Inl e)
        | Inr (l, k1) \<Rightarrow> if l = 0 then Some (Inr (n, k1))
            else case in_fs (write_file out_fd buf l) k1 of Inl e \<Rightarrow> Some (Inl e)
            | Inr (w, k2) \<Rightarrow> loop env buf out_fd in_fd (n + l) k2) = Some r"
      and b: "block_size (e2fs (fsenv env)) = 1024"
    show "\<not> (cur_proc k = Some i \<and> reads_file (fsenv env) in_fd (fs_of i k))"
    proof
      assume k: "cur_proc k = Some i \<and> reads_file (fsenv env) in_fd (fs_of i k)"
      obtain s1 where s1: "read_file (fsenv env) in_fd buf 1 (fs_of i k) = Inr (1, s1)" "fds s1 = fds (fs_of i k)" "fdt s1 = fdt (fs_of i k)"
        using reads_one_byte [OF _ b] k by blast
      then obtain k1 where k1: "in_fs (read_file (fsenv env) in_fd buf 1) k = Inr (1, k1)" "fs_of i k1 = s1" "cur_proc k1 = Some i"
        using in_fs_run [OF conjunct1 [OF k], of "read_file (fsenv env) in_fd buf 1" 1 s1] s1(1) by auto
      have r1: "reads_file (fsenv env) in_fd s1" using k reads_file_cong [OF s1(2,3)] by simp
      then obtain w s2 where s2: "write_file out_fd buf 1 s1 = Inr (w, s2)" "fds s2 = fds s1" "fdt s2 = fdt s1"
        using write_file_runs [of s1 1 out_fd buf] by (auto simp: reads_file_def)
      then obtain k2 where k2: "in_fs (write_file out_fd buf 1) k1 = Inr (w, k2)" "fs_of i k2 = s2" "cur_proc k2 = Some i"
        using in_fs_run [OF k1(3), of "write_file out_fd buf 1" w s2] k1(2) by auto
      have "reads_file (fsenv env) in_fd (fs_of i k2)" using r1 reads_file_cong [OF s2(2,3)] k2(2) by simp
      moreover have "loop env buf out_fd in_fd (n + 1) k2 = Some r" using R k1(1) k2(1) by simp
      ultimately show False using IH b k2(3) by blast
    qed
  qed
  then show ?thesis using assms(1) by blast
qed

section \<open>Properties\<close>

text \<open>
  C31: going into a directory by a name without slashes and then to \<open>..\<close> leads back: the first
  call makes the working directory the old one with the name behind it, the second makes it the old one again.
\<close>

theorem chdir_parent_roundtrip:
  assumes "cur_proc k = Some i" and "i < length (proc k)" and "cwd (task k i) = dir" and "dir \<noteq> []"
    and "argstr 0 256 k = Inr c" and "c \<noteq> [46, 46]" and "47 \<notin> set c" and "length dir + length c < 255"
  shows "\<exists>k1. sys_chdir k = Some (Inr (Return 0, k1)) \<and> cwd (task k1 i) = dir @ sep dir @ c \<and>
    (\<forall>k2. proc k2 = proc k1 \<and> cur_proc k2 = Some i \<and> argstr 0 256 k2 = Inr [46, 46] \<longrightarrow>
      (\<exists>k3. sys_chdir k2 = Some (Inr (Return 0, k3)) \<and> cwd (task k3 i) = dir))"
proof -
  let ?p = "dir @ sep dir @ c" and ?k1 = "set_task i ((task k i)\<lparr>cwd := dir @ sep dir @ c\<rparr>) k"
  have "chdir_path dir c = Inr ?p"
    using assms(6-8) by (cases c) (auto simp: chdir_path_def sep_def)
  then have "sys_chdir k = Some (Inr (Return 0, ?k1))" using sys_chdir_effect [OF assms(1,5)] assms(3) by simp
  moreover have t: "task ?k1 i = (task k i)\<lparr>cwd := ?p\<rparr>" using assms(2) by simp
  moreover have "\<exists>k3. sys_chdir k2 = Some (Inr (Return 0, k3)) \<and> cwd (task k3 i) = dir"
    if "proc k2 = proc ?k1" "cur_proc k2 = Some i" "argstr 0 256 k2 = Inr [46, 46]" for k2
  proof -
    have "cwd (task k2 i) = ?p" using that(1) t by (simp add: task_def)
    moreover have "chdir_path ?p [46, 46] = Inr dir" by (rule chdir_path_parent) (use assms in simp_all)
    ultimately show ?thesis
      using sys_chdir_effect [OF that(2,3), of dir] that(1) assms(2) by (auto simp: set_task_def task_def)
  qed
  ultimately show ?thesis by (intro exI [of _ ?k1]) simp
qed

theorem chdir_parent_roundtrip_witness:
  "\<exists>k1 k3. sys_chdir (call_kernel [4096] 4096 [98, 105, 110, 0]) = Some (Inr (Return 0, k1)) \<and> cwd (task k1 0) = [47, 98, 105, 110] \<and>
    sys_chdir (poke 4096 [46, 46, 0] k1) = Some (Inr (Return 0, k3)) \<and> cwd (task k3 0) = [47]"
proof -
  let ?k = "call_kernel [4096] 4096 [98, 105, 110, 0]"
  have k: "proc ?k = proc sample_kernel" "cur_proc ?k = Some 0" "cur_sp ?k = 0"
    by (simp_all add: call_kernel_def poke_def sample_kernel_def)
  have m: "kmem ?k = write_bytes (write_bytes (kmem sample_kernel) 24 (le_bytes 8 4096)) 4096 [98, 105, 110, 0]"
    by (simp add: call_kernel_def kmem_poke)
  have a: "arg 0 ?k = 4096"
    by (simp add: arg_def k m call_simps)
  have c: "argstr 0 256 ?k = Inr [98, 105, 110]"
    by (rule argstr_string) (simp_all add: a m read_bytes_def upt_rec write_bytes_def)
  have "i < 64 \<Longrightarrow> cwd (task ?k i) = [47]" for i using sample_task [of i] k by (simp add: task_def PROC_MAX_def)
  then have "\<exists>k1. sys_chdir ?k = Some (Inr (Return 0, k1)) \<and> cwd (task k1 0) = [47] @ sep [47] @ [98, 105, 110] \<and>
    (\<forall>k2. proc k2 = proc k1 \<and> cur_proc k2 = Some 0 \<and> argstr 0 256 k2 = Inr [46, 46] \<longrightarrow>
      (\<exists>k3. sys_chdir k2 = Some (Inr (Return 0, k3)) \<and> cwd (task k3 0) = [47]))"
    using k c by (intro chdir_parent_roundtrip) (simp_all add: sample_kernel_def PROC_MAX_def)
  then obtain k1 where k1: "sys_chdir ?k = Some (Inr (Return 0, k1))" "cwd (task k1 0) = [47, 98, 105, 110]"
    and r: "\<And>k2. proc k2 = proc k1 \<Longrightarrow> cur_proc k2 = Some 0 \<Longrightarrow> argstr 0 256 k2 = Inr [46, 46] \<Longrightarrow>
      \<exists>k3. sys_chdir k2 = Some (Inr (Return 0, k3)) \<and> cwd (task k3 0) = [47]"
    by (auto simp: sep_def)
  let ?k2 = "poke 4096 [46, 46, 0] k1"
  have k1': "k1 = set_task 0 ((task ?k 0)\<lparr>cwd := [47, 98, 105, 110]\<rparr>) ?k"
    using k1(1) k c sample_task [of 0]
    by (simp add: sys_chdir_def my_proc_def done_with_def chdir_path_def sep_def task_def PROC_MAX_def)
  have p: "proc ?k2 = proc k1" "cur_proc ?k2 = Some 0" "cur_sp ?k2 = 0" "kmem ?k2 = write_bytes (kmem ?k) 4096 [46, 46, 0]"
    using k by (simp_all add: k1' poke_def set_task_def kmem_def)
  have "arg 0 ?k2 = 4096"
    by (simp add: arg_def p m call_simps)
  then have "argstr 0 256 ?k2 = Inr [46, 46]"
    by (intro argstr_string) (simp_all add: p m read_bytes_def upt_rec write_bytes_def)
  then show ?thesis using r [OF p(1,2)] k1 by blast
qed

text \<open>
  C27: \<open>wait4\<close> for any child looks at the children in the order of their list. It reaps the first
  zombie: it returns its number, stores its exit code shifted by 8 as the status, marks it killed and
  touches no other task. Without a zombie it gives the processor away while a child is running or
  runnable, and returns -1 otherwise.
\<close>

theorem wait4_any_child:
  assumes "cur_proc k = Some p" and "arg 0 k = - 1" and "clist (lists k) (Children p) (map Tasks js)"
    and "\<forall>j\<in>set js. j < length (proc k)"
  shows "case find (\<lambda>j. state (task k j) = TASK_ZOMBIE) js of
      Some j \<Rightarrow> \<exists>k'. sys_wait4 k = Some (Inr (Return (of_int (pid (task k j))), k')) \<and>
        task k' j = (task k j)\<lparr>state := TASK_KILLED\<rparr> \<and> (\<forall>i. i \<noteq> j \<longrightarrow> task k' i = task k i) \<and>
        (arg 1 k \<noteq> 0 \<longrightarrow> load64 (kmem k') (arg 1 k) = exit_status (exit_code (task k j)))
    | None \<Rightarrow> if \<exists>j\<in>set js. state (task k j) = TASK_RUNNING \<or> state (task k j) = TASK_RUNABLE
        then \<exists>k'. sys_wait4 k = Some (Inr (Resched, k')) \<and> yield k = Inr k'
        else sys_wait4 k = Some (Inr (Return (- 1), k))"
proof -
  obtain b where b: "scan_children (map Tasks js) False k = Inr (find (\<lambda>j. state (task k j) = TASK_ZOMBIE) js, b)"
    "find (\<lambda>j. state (task k j) = TASK_ZOMBIE) js = None \<longrightarrow>
        (b \<longleftrightarrow> (\<exists>j\<in>set js. state (task k j) = TASK_RUNNING \<or> state (task k j) = TASK_RUNABLE))"
    using scan_children_find [of js False k] by auto
  have w: "sys_wait4 k = (case find (\<lambda>j. state (task k j) = TASK_ZOMBIE) js of
      Some pos \<Rightarrow> done_with (Inr (reap pos (arg 1 k) (arg 3 k) k))
    | None \<Rightarrow> if b then Some (kbind (yield k) (\<lambda>k1. Inr (Resched, k1))) else done_with (Inr (- 1, k)))"
    using assms(1,2) list_for_each_clist(1) [OF assms(3)] b(1)
    by (simp add: sys_wait4_def my_proc_def obind_def Let_def split: option.split)
  show ?thesis
  proof (cases "find (\<lambda>j. state (task k j) = TASK_ZOMBIE) js")
    case (Some j)
    then have "j \<in> set js" by (auto simp: find_Some_iff)
    then have j: "j < length (proc k)" using assms(4) by blast
    show ?thesis
      using reap_effect [OF j, where ws = "arg 1 k" and ru = "arg 3 k"] w
      by (cases "reap j (arg 1 k) (arg 3 k) k") (simp add: Some done_with_def)
  next
    case None
    obtain k' where "yield k = Inr k'" using assms(1) by (simp add: yield_def my_proc_def Let_def)
    then show ?thesis using w b(2) by (simp add: None done_with_def)
  qed
qed

theorem wait4_any_child_witness:
  "\<exists>k'. sys_wait4 ((set_task 1 ((task sample_kernel 1)\<lparr>state := TASK_ZOMBIE, exit_code := 3\<rparr>) (call_kernel [- 1, 4096] 8192 []))
      \<lparr>lists := list_add (Children 0) (Tasks 1) (lists sample_kernel)\<rparr>) = Some (Inr (Return 1, k')) \<and>
     state (task k' 1) = TASK_KILLED \<and> load64 (kmem k') 4096 = 768"
proof -
  let ?t = "(task sample_kernel 1)\<lparr>state := TASK_ZOMBIE, exit_code := 3\<rparr>"
  define k where "k = (set_task 1 ?t (call_kernel [- 1, 4096] 8192 []))\<lparr>lists := list_add (Children 0) (Tasks 1) (lists sample_kernel)\<rparr>"
  have k: "length (proc k) = 64" "cur_proc k = Some 0" "cur_sp k = 0" "task k 1 = ?t"
    by (simp_all add: call_kernel_def poke_def sample_kernel_def set_task_def task_def PROC_MAX_def k_def)
  have m: "kmem k = write_bytes (kmem sample_kernel) 24 (le_bytes 8 18446744073709551615 @ le_bytes 8 4096)"
    by (simp add: call_kernel_def poke_def kmem_def set_task_def k_def)
  have a: "arg 0 k = - 1" "arg 1 k = 4096"
    by (simp_all add: arg_def k m call_simps)
  have "clist (lists sample_kernel) (Children 0) []" by (simp add: clist_def linked_def pairs_def sample_kernel_def)
  from list_add_clist [OF this, of "Tasks 1"] have c: "clist (lists k) (Children 0) (map Tasks [1])" by (simp add: k_def)
  have t: "pid ?t = 1" "state ?t = TASK_ZOMBIE" "exit_code ?t = 3" by (simp_all add: sample_task PROC_MAX_def)
  then have f: "find (\<lambda>j. state (task k j) = TASK_ZOMBIE) [1] = Some 1" using k(4) by simp
  show ?thesis
    unfolding k_def [symmetric]
    using wait4_any_child [OF k(2) a(1) c] k(1) unfolding f a(2) k(4) t option.case
    by (auto simp: exit_status_def)
qed

text \<open>
  A system call with a number that the table does not list ends the process: it becomes a
  zombie with its first argument as the exit code and no alarm, the kernel task is the one that runs, and
  the other tasks are as before.
\<close>

theorem unlisted_syscall_exits:
  assumes "cur_proc k = Some c" and "c < length (proc k)" and "c \<noteq> 0"
    and "n = as_int (load64 (kmem k) (cur_sp k + place ''a7''))"
    and "n < 0 \<or> 292 \<le> n \<or> map_of (syscalls env buf) (nat n) = None"
  shows "\<exists>k'. syscall_handler env buf k = Some (Inr (Resched, k')) \<and> state (task k' c) = TASK_ZOMBIE \<and>
    exit_code (task k' c) = int_arg 0 k \<and> callback (task k' c) = 0 \<and> state (task k' 0) = TASK_RUNNING \<and>
    (\<forall>i. i \<noteq> c \<and> i \<noteq> 0 \<longrightarrow> task k' i = task k i)"
proof -
  let ?k1 = "set_task c ((task k c)\<lparr>callback := 0, timer_call_time := - 1\<rparr>) k"
  have "select_syscall env buf n = sys_exit" using assms(5) by (auto simp: select_syscall_def)
  then have h: "syscall_handler env buf k = obind (sys_exit k) (\<lambda>(r, k1). case r of Resched \<Rightarrow> Some (Inr (Resched, k1))
        | Return v \<Rightarrow> Some (Inr (Return v, poke (cur_sp k + place ''a0'') (le_bytes 8 (unat v)) k1)))"
    unfolding syscall_handler_def Let_def assms(4) [symmetric] by simp
  have "0 < length (proc k)" using assms(2) by linarith
  then obtain k' where k': "exit (int_arg 0 k) ?k1 = Inr k'"
    "task k' c = (task ?k1 c)\<lparr>exit_code := int_arg 0 k, state := TASK_ZOMBIE\<rparr>"
    "task k' 0 = (task ?k1 0)\<lparr>state := TASK_RUNNING\<rparr>" "\<forall>i. i \<noteq> c \<and> i \<noteq> 0 \<longrightarrow> task k' i = task ?k1 i"
    using exit_effect [of ?k1 c "int_arg 0 k"] assms(1-3) by auto
  then have "sys_exit k = Some (Inr (Resched, k'))"
    using assms(1) by (simp add: sys_exit_def clean_up_def my_proc_def)
  then show ?thesis using k' assms(2) by (auto simp: h obind_def)
qed

theorem unlisted_syscall_exits_witness:
  "\<exists>k'. syscall_handler \<lparr>fsenv = sample_env, elf_buf = 0, exec_helper = 0, kword = 0\<rparr> 0
      ((poke 80 (le_bytes 8 5) sample_kernel)\<lparr>cur_proc := Some 1\<rparr>) = Some (Inr (Resched, k')) \<and>
    state (task k' 1) = TASK_ZOMBIE \<and> task k' 2 = task sample_kernel 2"
proof -
  define k where "k = (poke 80 (le_bytes 8 5) sample_kernel)\<lparr>cur_proc := Some 1\<rparr>"
  let ?env = "\<lparr>fsenv = sample_env, elf_buf = 0, exec_helper = 0, kword = 0\<rparr>"
  have k: "cur_proc k = Some 1" "proc k = proc sample_kernel" "cur_sp k = 0"
    by (simp_all add: k_def poke_def sample_kernel_def)
  have "kmem k = write_bytes (kmem sample_kernel) 80 (le_bytes 8 5)" by (simp add: k_def poke_def kmem_def)
  then have n: "as_int (load64 (kmem k) (cur_sp k + place ''a7'')) = 5"
    by (simp add: k(3) call_simps as_int_def)
  have "map_of (syscalls ?env 0) (nat 5) = None"
    by (simp add: syscalls_def SYS_defs)
  then have "\<exists>k'. syscall_handler ?env 0 k = Some (Inr (Resched, k')) \<and> state (task k' 1) = TASK_ZOMBIE \<and>
      (\<forall>i. i \<noteq> 1 \<and> i \<noteq> 0 \<longrightarrow> task k' i = task k i)"
    using unlisted_syscall_exits [OF k(1) _ _ n [symmetric], of ?env 0] k(2) by (auto simp: sample_kernel_def PROC_MAX_def)
  then show ?thesis unfolding k_def [symmetric] using k(2) by (auto simp: task_def)
qed

text \<open>
  C40: \<open>sendfile\<close> from a file that is not empty does not return: \<open>read\<close> starts at the beginning of the file every
  time, so that the loop never sees its end, whatever the other descriptor is.
\<close>

theorem sendfile_never_ends:
  assumes "cur_proc k = Some i" and "block_size (e2fs (fsenv env)) = 1024" and "arg 2 k = 0"
    and "reads_file (fsenv env) (int_arg 1 k) (fs_of i k)"
  shows "sys_sendfile env buf k = None"
proof (cases "sendfile_loop env buf (int_arg 0 k) (int_arg 1 k) 0 k")
  case None
  then show ?thesis using assms(3) by (simp add: sys_sendfile_def obind_def)
next
  case (Some r)
  from sendfile_loop_runs_on [OF assms(2) this] assms(1,4) show ?thesis by blast
qed

theorem sendfile_never_ends_witness:
  "sys_sendfile \<lparr>fsenv = sample_env, elf_buf = 0, exec_helper = 0, kword = 0\<rparr> 65536
     ((call_kernel [1, 3, 0] 8192 [])\<lparr>files := (fds sample_state)[3 := zero_file\<lparr>alloc := 1, f_inode := Some (0, inode_at sample_disk sample_fs 2)\<rparr>],
        tables := (\<lambda>_. std_fdtable[3 := \<lparr>fds_index = 3, busy = 1\<rparr>])\<rparr>) = None"
proof -
  define k where "k = (call_kernel [1, 3, 0] 8192 [])\<lparr>files := (fds sample_state)[3 := zero_file\<lparr>alloc := 1,
      f_inode := Some (0, inode_at sample_disk sample_fs 2)\<rparr>], tables := (\<lambda>_. std_fdtable[3 := \<lparr>fds_index = 3, busy = 1\<rparr>])\<rparr>"
  let ?env = "\<lparr>fsenv = sample_env, elf_buf = 0, exec_helper = 0, kword = 0\<rparr>"
  have k: "cur_proc k = Some 0" "cur_sp k = 0" "kmem k = write_bytes (kmem sample_kernel) 24 (le_bytes 8 1 @ le_bytes 8 3 @ le_bytes 8 0)"
    by (simp_all add: k_def call_kernel_def poke_def sample_kernel_def kmem_def)
  have a: "arg 2 k = 0" "int_arg 1 k = 3"
    by (simp_all add: arg_def int_arg_def as_int_def k call_simps)
  have f: "fds (fs_of 0 k) = (fds sample_state)[3 := zero_file\<lparr>alloc := 1, f_inode := Some (0, inode_at sample_disk sample_fs 2)\<rparr>]"
    "fdt (fs_of 0 k) = std_fdtable[3 := \<lparr>fds_index = 3, busy = 1\<rparr>]"
    by (simp_all add: fs_of_def k_def)
  have "fs_wf (fs_of 0 k)"
    using sample_state_wf sample_state_facts
    by (auto simp: fs_wf_def f nth_list_update fs_sizes)
  moreover have "\<not> fd_invaild 3 (fs_of 0 k)"
    by (simp add: fd_invaild_def f sample_state_facts MAX_FDTABLE_def)
  ultimately have "reads_file sample_env 3 (fs_of 0 k)"
    unfolding reads_file_def using sample_state_facts
    by (intro conjI exI [of _ 3] exI [of _ 0] exI [of _ "inode_at sample_disk sample_fs 2"]) (auto simp: f sample_root)
  moreover have "block_size (e2fs (fsenv ?env)) = 1024" by (simp add: sample_env_def sample_fs_def)
  ultimately show ?thesis
    unfolding k_def [symmetric] using sendfile_never_ends [OF k(1), of ?env 65536] a by simp
qed

end
