(* ===== verification/Kernel.thy ===== *)
theory Kernel
  imports Syscall
begin

text \<open>
  The running kernel: the scheduler of core/sche.c, the traps of core/trap.c and the programs
  between them as one transition system. The processor is in the loop of the scheduler or
  runs a task; a task changes memory and its stack pointer as it likes, traps into the kernel, or is
  interrupted. Interrupts are on while a program runs, in the wait for a key in \<open>getstr\<close>, and between the
  \<open>intr_on\<close> of \<open>kmain\<close> and the first switch to a task; a trap turns them off, and so they are off whenever the
  scheduler gets the processor back. The theory shows the invariant of the task table in all states this system reaches:
  only the task that executes is marked running, next to it the kernel task at most if the first switch was interrupted,
  task numbers other than -1 are not shared, and the working directories are absolute.
\<close>

section \<open>Definitions\<close>

text \<open>
  Where the processor is. \<open>Init\<close>: in \<open>kmain\<close>, before \<open>intr_on\<close>. \<open>Sched\<close>: in the loop of \<open>scheduler\<close>, with interrupts on or off, at a
  position and with the flag \<open>run\<close>. \<open>Picked n j\<close>: interrupts are on, the loop has found task \<open>j\<close> and done the first \<open>n\<close> of its stores, to the
  state of the kernel task and to the state of \<open>j\<close>. \<open>User\<close>: in the current task, be it in its program or waiting in a call.
\<close>

datatype mode = Init | Sched bool nat bool | Picked nat nat | User

text \<open>What a program may do on its own.\<close>

definition user_writes :: "mem \<Rightarrow> u64 \<Rightarrow> kernel \<Rightarrow> kernel" where
  "user_writes m sp k = k\<lparr>heap := (heap k)\<lparr>hmm := (hmm (heap k))\<lparr>mem := m\<rparr>\<rparr>, cur_sp := sp\<rparr>"

text \<open>
  A call that gave the processor away, or a timer interrupt, goes back to the slot behind its own in the loop of the
  scheduler; a task that waits in \<open>wait4\<close> tries again when it is switched to.
\<close>

fun goes_to :: "sysres \<Rightarrow> kernel \<Rightarrow> mode" where
  "goes_to (Return v) k = User"
| "goes_to Resched k = (case cur_proc k of Some c \<Rightarrow> Sched False (Suc c) True | None \<Rightarrow> User)"

text \<open>
  \<open>early_timer\<close> is the timer interrupt in the first pass of the scheduler: the kernel task is the current one, so \<open>yield\<close> switches from the
  kernel task to itself and the loop goes on where it was. An interrupt inside \<open>switch_to\<close>, behind its store to \<open>cur_proc\<close>, would store the context of the kernel
  task into the one of the new task; it has no step here. \<open>key_wait\<close> is the timer interrupt while a \<open>read\<close> waits for
  a key: what the call has done so far to memory, the console and \<open>cur_sp\<close> (the nested trap sets it to its own frame) is arbitrary.
\<close>

inductive kernel_step :: "exec_env \<Rightarrow> u64 \<Rightarrow> (u64 \<Rightarrow> u64 \<Rightarrow> kernel \<Rightarrow> kernel kres) \<Rightarrow> mode \<times> kernel \<Rightarrow> mode \<times> kernel \<Rightarrow> bool"
  for env buf sighandler where
  first_program: "user_init env argv envp k = Some (Inr k') \<Longrightarrow> kernel_step env buf sighandler (Init, k) (Init, k')"
| interrupts_on: "kernel_step env buf sighandler (Init, k) (Sched True 0 False, k)"
| switch: "scheduler i run k = (Some j, k') \<Longrightarrow> kernel_step env buf sighandler (Sched irq i run, k) (User, k')"
| pick: "fst (scheduler i run k) = Some j \<Longrightarrow> kernel_step env buf sighandler (Sched True i run, k) (Picked 0 j, k)"
| free_kernel: "kernel_step env buf sighandler (Picked 0 j, k) (Picked 1 j, set_task 0 ((task k 0)\<lparr>state := TASK_RUNABLE\<rparr>) k)"
| mark_task: "kernel_step env buf sighandler (Picked 1 j, k) (Picked 2 j, set_task j ((task k j)\<lparr>state := TASK_RUNNING\<rparr>) k)"
| first_switch: "kernel_step env buf sighandler (Picked 2 j, k) (User, switch_to j k)"
| early_timer: "timer_handler sighandler k = Inr k' \<Longrightarrow> m = Sched True i run \<or> m = Picked n j \<Longrightarrow>
    kernel_step env buf sighandler (m, k) (m, k')"
| program: "kernel_step env buf sighandler (User, k) (User, user_writes m sp k)"
| trap: "trap_handler env buf sighandler estat ecfg k = Some (Inr (r, k')) \<Longrightarrow>
    kernel_step env buf sighandler (User, k) (goes_to r k', k')"
| waiting: "sys_wait4 k = Some (Inr (r, k')) \<Longrightarrow> kernel_step env buf sighandler (User, k) (goes_to r k', k')"
| key_wait: "timer_handler sighandler (k\<lparr>heap := h, tty := t, cur_sp := sp\<rparr>) = Inr k' \<Longrightarrow>
    kernel_step env buf sighandler (User, k) (goes_to Resched k', k')"

inductive_cases kernel_step_cases: "kernel_step env buf sighandler s s'"

section \<open>The invariant\<close>

definition absolute :: "bytes \<Rightarrow> bool" where
  "absolute p \<longleftrightarrow> p \<noteq> [] \<and> hd p = 47 \<and> length p < 256"

text \<open>\<open>X\<close> has the tasks that may be marked running.\<close>

definition table_ok :: "nat set \<Rightarrow> kernel \<Rightarrow> bool" where
  "table_ok X k \<longleftrightarrow> pids_ok k \<and> (\<exists>c<PROC_MAX. cur_proc k = Some c \<and> allocs (task k c) = USED) \<and>
     allocs (task k 0) = USED \<and> pid (task k 0) = 0 \<and>
     (\<forall>i<PROC_MAX. allocs (task k i) = USED \<and> state (task k i) = TASK_RUNNING \<longrightarrow> i \<in> X) \<and>
     (\<forall>i<PROC_MAX. absolute (cwd (task k i)))"

text \<open>With the flag \<open>b\<close> the first switch is over, and no interrupt can come between it and the stores before it.\<close>

fun kernel_inv :: "bool \<Rightarrow> mode \<times> kernel \<Rightarrow> bool" where
  "kernel_inv b (Init, k) \<longleftrightarrow> \<not> b \<and> cur_proc k = Some 0 \<and> table_ok {0} k"
| "kernel_inv b (Sched irq i run, k) \<longleftrightarrow> \<not> (b \<and> irq) \<and> (irq \<longrightarrow> cur_proc k = Some 0) \<and> table_ok {0} k"
| "kernel_inv b (Picked n j, k) \<longleftrightarrow> \<not> b \<and> n \<le> 2 \<and> cur_proc k = Some 0 \<and> 0 < j \<and> j < PROC_MAX \<and> allocs (task k j) = USED \<and>
     table_ok (if n = 2 then {0, j} else {0}) k"
| "kernel_inv b (User, k) \<longleftrightarrow> (\<exists>c. cur_proc k = Some c \<and> c \<noteq> 0 \<and> table_ok (if b then {c} else {0, c}) k)"

text \<open>The part of the state the invariant speaks of.\<close>

definition view :: "task_struct \<Rightarrow> int \<times> proc_state \<times> alloc_state \<times> bool" where
  "view t = (pid t, state t, allocs t, absolute (cwd t))"

definition obs :: "kernel \<Rightarrow> (int \<times> proc_state \<times> alloc_state \<times> bool) list \<times> nat option \<times> int" where
  "obs k = (map view (proc k), cur_proc k, last_pid k)"

lemma obs_task:
  assumes "obs k' = obs k" "i < length (proc k)"
  shows "pid (task k' i) = pid (task k i)" "state (task k' i) = state (task k i)"
    "allocs (task k' i) = allocs (task k i)" "absolute (cwd (task k' i)) = absolute (cwd (task k i))"
proof -
  have e: "map view (proc k') = map view (proc k)" using assms(1) by (simp add: obs_def)
  then have "length (proc k') = length (proc k)" by (metis length_map)
  then have "view (task k' i) = view (task k i)" using e assms(2) by (simp add: task_def list_eq_iff_nth_eq)
  then show "pid (task k' i) = pid (task k i)" "state (task k' i) = state (task k i)"
    "allocs (task k' i) = allocs (task k i)" "absolute (cwd (task k' i)) = absolute (cwd (task k i))"
    by (simp_all add: view_def)
qed

lemma obs_other:
  assumes "obs k' = obs k"
  shows "cur_proc k' = cur_proc k" "last_pid k' = last_pid k" "length (proc k') = length (proc k)"
  using assms by (auto simp: obs_def dest: map_eq_imp_length_eq)

lemma table_ok_length: "table_ok x k \<Longrightarrow> length (proc k) = PROC_MAX"
  by (simp add: table_ok_def pids_ok_def)

lemma table_ok_obs:
  assumes "obs k' = obs k" "table_ok x k"
  shows "table_ok x k'"
proof -
  note l = table_ok_length [OF assms(2)]
  note e = obs_task [OF assms(1), unfolded l] obs_other [OF assms(1)]
  have "0 < PROC_MAX" by (simp add: PROC_MAX_def)
  then show ?thesis using assms(2) by (auto simp: table_ok_def pids_ok_def e)
qed

section \<open>Calls that leave the table alone\<close>

named_theorems keeps_intros \<open>operations that keep what the invariant sees\<close>

definition keeps :: "kernel \<Rightarrow> ('a \<times> kernel) kres \<Rightarrow> bool" where
  "keeps k r \<longleftrightarrow> (\<forall>a k'. r = Inr (a, k') \<longrightarrow> obs k' = obs k)"

definition okeeps :: "kernel \<Rightarrow> ('a \<times> kernel) kres option \<Rightarrow> bool" where
  "okeeps k r \<longleftrightarrow> (\<forall>a k'. r = Some (Inr (a, k')) \<longrightarrow> obs k' = obs k)"

lemma keeps_return [keeps_intros]: "obs k' = obs k \<Longrightarrow> keeps k (Inr (a, k'))"
  by (simp add: keeps_def)

lemma keeps_error [keeps_intros]: "keeps k (Inl e)"
  by (simp add: keeps_def)

lemma keeps_bind:
  assumes "keeps k x" "\<And>a k1. obs k1 = obs k \<Longrightarrow> keeps k (f (a, k1))"
  shows "keeps k (kbind x f)"
proof (cases x)
  case (Inr p)
  then obtain a k1 where p: "x = Inr (a, k1)" by (cases p) simp
  then have "obs k1 = obs k" using assms(1) by (simp add: keeps_def)
  from assms(2) [OF this] show ?thesis by (simp add: p)
qed (simp add: keeps_def)

lemma keeps_bind_value:
  assumes "\<And>a. keeps k (f a)"
  shows "keeps k (kbind x f)"
  using assms by (cases x) (auto simp: keeps_def)

lemma okeeps_some [keeps_intros]: "keeps k r \<Longrightarrow> okeeps k (Some r)"
  by (simp add: keeps_def okeeps_def)

lemma okeeps_none [keeps_intros]: "okeeps k None"
  by (simp add: okeeps_def)

lemma okeeps_obind:
  assumes "okeeps k x" "\<And>a k1. obs k1 = obs k \<Longrightarrow> okeeps k (f (a, k1))"
  shows "okeeps k (obind x f)"
proof (cases "\<exists>a k1. x = Some (Inr (a, k1))")
  case True
  then obtain a k1 where x: "x = Some (Inr (a, k1))" by blast
  then have "obs k1 = obs k" using assms(1) by (simp add: okeeps_def)
  from assms(2) [OF this] show ?thesis by (simp add: x obind_def)
next
  case False
  then have "obind x f \<noteq> Some (Inr y)" for y by (auto simp: obind_def split: option.splits sum.splits)
  then show ?thesis by (simp add: okeeps_def)
qed

lemma okeeps_obind_value:
  assumes "\<And>a. okeeps k (f a)"
  shows "okeeps k (obind x f)"
  using assms by (auto simp: okeeps_def obind_def split: option.splits sum.splits)

text \<open>A system call that returns and keeps what the invariant sees.\<close>

definition quiet :: "kernel \<Rightarrow> (sysres \<times> kernel) kres option \<Rightarrow> bool" where
  "quiet k x \<longleftrightarrow> (\<forall>r k'. x = Some (Inr (r, k')) \<longrightarrow> (\<exists>v. r = Return v) \<and> obs k' = obs k)"

lemma quiet_error [keeps_intros]: "quiet k (Some (Inl e))"
  by (simp add: quiet_def)

lemma quiet_none [keeps_intros]: "quiet k None"
  by (simp add: quiet_def)

lemma quiet_obind_value:
  assumes "\<And>a. quiet k (f a)"
  shows "quiet k (obind x f)"
  using assms by (auto simp: quiet_def obind_def split: option.splits sum.splits)

lemma quiet_done [keeps_intros]: "keeps k r \<Longrightarrow> quiet k (done_with r)"
  by (auto simp: quiet_def done_with_def keeps_def kres_simps)

lemma quiet_ret_int [keeps_intros]: "keeps k r \<Longrightarrow> quiet k (ret_int r)"
  unfolding ret_int_def by (rule quiet_done) (auto simp: keeps_def kres_simps)

lemma obs_set_task [simp]:
  assumes "view t = view (task k i)"
  shows "obs (set_task i t k) = obs k"
  using assms by (cases "i < length (proc k)") (auto simp: obs_def set_task_def task_def map_update list_update_same_conv list_update_beyond)

lemma obs_poke [simp]: "obs (poke a bs k) = obs k"
  by (simp add: obs_def poke_def)

lemma obs_update [simp]:
  "obs (k\<lparr>heap := h\<rparr>) = obs k" "obs (k\<lparr>lists := l\<rparr>) = obs k" "obs (k\<lparr>seed := u\<rparr>) = obs k"
  "obs (k\<lparr>ticks := t\<rparr>) = obs k" "obs (user_writes m sp k) = obs k"
  by (simp_all add: obs_def user_writes_def)

lemma obs_in_fs: "in_fs f k = Inr (r, k') \<Longrightarrow> obs k' = obs k"
  by (auto simp: in_fs_def kres_simps Let_def obs_def)

lemma keeps_in_fs [keeps_intros]: "keeps k (in_fs f k)"
  by (auto simp: keeps_def obs_in_fs)

lemma obs_in_heap: "in_heap f k = Inr (r, k') \<Longrightarrow> obs k' = obs k"
  by (auto simp: in_heap_def kres_simps obs_def)

lemma keeps_in_heap [keeps_intros]: "keeps k (in_heap f k)"
  by (auto simp: keeps_def obs_in_heap)

lemma keeps_my_proc: "(\<And>i. cur_proc k = Some i \<Longrightarrow> keeps k (f i)) \<Longrightarrow> keeps k (kbind (my_proc k) f)"
  by (auto simp: my_proc_def keeps_error split: option.split)

lemma keeps_fst [keeps_intros]: "keeps k (x k) \<Longrightarrow> keeps k (kbind (x k) (\<lambda>(a, k1). Inr (g a, k1)))"
  by (auto simp: keeps_def kres_simps)

lemma obs_fill_random: "obs (fill_random n a k) = obs k"
  by (induction n arbitrary: a k) (simp_all add: split_beta)

lemma obs_uname: "obs (fst (fold (\<lambda>s (k1, a). (poke a (f s) k1, a + d)) ss (k, a))) = obs k"
  by (induction ss arbitrary: k a) simp_all

lemma kfold_obs:
  assumes "\<And>i k1 k2. f i k1 = Inr k2 \<Longrightarrow> obs k2 = obs k1"
  shows "kfold f is k = Inr k' \<Longrightarrow> obs k' = obs k"
  by (induction "is" arbitrary: k) (auto simp: kres_simps dest: assms)

lemma sendfile_loop_obs:
  assumes "sendfile_loop env buf out_fd in_fd n k = Some r"
  shows "keeps k r"
proof (rule sendfile_loop.raw_induct [where P = "\<lambda>env buf out_fd in_fd n k r. keeps k r", OF _ assms])
  fix loop env buf out_fd in_fd n k r
  assume IH: "\<And>env buf out_fd in_fd n k r. loop env buf out_fd in_fd n k = Some r \<Longrightarrow> keeps k r"
    and R: "(case in_fs (read_file (fsenv env) in_fd buf 1) k of Inl e \<Rightarrow> Some (Inl e)
      | Inr (l, k1) \<Rightarrow> if l = 0 then Some (Inr (n, k1))
          else case in_fs (write_file out_fd buf l) k1 of Inl e \<Rightarrow> Some (Inl e)
          | Inr (w, k2) \<Rightarrow> loop env buf out_fd in_fd (n + l) k2) = Some r"
  then consider e where "r = Inl e"
    | l k1 where "in_fs (read_file (fsenv env) in_fd buf 1) k = Inr (l, k1)" "r = Inr (n, k1)"
    | l k1 w k2 where "in_fs (read_file (fsenv env) in_fd buf 1) k = Inr (l, k1)"
        "in_fs (write_file out_fd buf l) k1 = Inr (w, k2)" "loop env buf out_fd in_fd (n + l) k2 = Some r"
    by (auto split: sum.splits if_splits) metis+
  then show "keeps k r"
  proof cases
    case 3
    then show ?thesis using IH [OF 3(3)] obs_in_fs [OF 3(1)] obs_in_fs [OF 3(2)] by (simp add: keeps_def)
  qed (auto simp: keeps_error keeps_return obs_in_fs)
qed

lemma quiet_simple [keeps_intros]:
  "quiet k (sys_close k)" "quiet k (sys_read env k)" "quiet k (sys_write k)" "quiet k (sys_lseek k)"
  "quiet k (sys_fcntl k)" "quiet k (sys_dup3 k)" "quiet k (sys_dup k)" "quiet k (sys_read_link_at k)"
  "quiet k (sys_poll k)" "quiet k (sys_pipe2 k)" "quiet k (sys_return_zero k)" "quiet k (sys_return_wrong k)"
  "quiet k (sys_newuname k)" "quiet k (sys_getrandom k)"
  unfolding sys_close_def sys_read_def sys_write_def sys_lseek_def sys_fcntl_def sys_dup3_def sys_dup_def
    sys_read_link_at_def sys_poll_def sys_pipe2_def sys_return_zero_def sys_return_wrong_def sys_newuname_def sys_getrandom_def
  by (intro keeps_intros; simp add: obs_fill_random obs_uname)+

lemma quiet_openat [keeps_intros]: "quiet k (sys_openat env k)"
  unfolding sys_openat_def
  by (intro quiet_obind_value quiet_ret_int keeps_bind_value keeps_in_fs)

lemma quiet_mmap [keeps_intros]: "quiet k (sys_mmap k)"
  unfolding sys_mmap_def by (intro quiet_done) (simp add: keeps_return keeps_in_heap)

lemma quiet_writev [keeps_intros]: "quiet k (sys_writev k)"
proof -
  have "obs k2 = obs k1"
    if "(let a = arg 1 k + 16 * of_nat i in
         kbind (in_fs (write_file (int_arg 0 k) (load64 (kmem k1) a) (load64 (kmem k1) (a + 8))) k1) (\<lambda>(n, k2). Inr k2)) = Inr k2"
    for i k1 k2 using that by (auto simp: Let_def kres_simps obs_in_fs)
  note k = kfold_obs [OF this]
  show ?thesis
    unfolding sys_writev_def by (intro quiet_done) (auto simp: keeps_def kres_simps intro: k)
qed

lemma quiet_current [keeps_intros]:
  "quiet k (sys_brk k)" "quiet k (sys_rt_sigaction k)" "quiet k (sys_setitimer k)" "quiet k (sys_getcwd k)"
  "quiet k (sys_get_proc_id k)"
  unfolding sys_brk_def sys_rt_sigaction_def sys_setitimer_def sys_getcwd_def getcwd_def sys_get_proc_id_def Let_def
  by (intro quiet_done quiet_ret_int keeps_my_proc keeps_bind_value keeps_return; simp add: view_def)+

lemma quiet_sendfile [keeps_intros]: "quiet k (sys_sendfile env buf k)"
proof -
  have "keeps k (Inr r)" if "sendfile_loop env buf (int_arg 0 k) (int_arg 1 k) 0 k = Some (Inr r)" for r
    using that by (rule sendfile_loop_obs)
  then have "quiet k (obind (sendfile_loop env buf (int_arg 0 k) (int_arg 1 k) 0 k) (\<lambda>r. done_with (Inr r)))"
    by (auto simp: obind_def quiet_error quiet_done quiet_none split: option.split sum.split)
  then show ?thesis by (simp add: sys_sendfile_def quiet_error)
qed

section \<open>Calls that change the table\<close>

lemma table_okD:
  assumes "table_ok x k" "i < PROC_MAX"
  shows "allocs (task k i) = USED \<Longrightarrow> state (task k i) = TASK_RUNNING \<Longrightarrow> i \<in> x" "absolute (cwd (task k i))"
    "allocs (task k i) = USED \<Longrightarrow> pid (task k i) < last_pid k"
    "j < PROC_MAX \<Longrightarrow> i \<noteq> j \<Longrightarrow> allocs (task k i) = USED \<Longrightarrow> allocs (task k j) = USED \<Longrightarrow> pid (task k i) = pid (task k j) \<Longrightarrow>
      pid (task k i) = - 1"
  using assms unfolding table_ok_def pids_ok_def by blast+

lemma table_ok_kernel:
  assumes "table_ok x k"
  shows "allocs (task k 0) = USED" "pid (task k 0) = 0" "0 \<le> last_pid k"
    "cur_proc k = Some c \<Longrightarrow> c < PROC_MAX \<and> allocs (task k c) = USED"
  using assms by (auto simp: table_ok_def pids_ok_def)

text \<open>States and directories change, the rest of the table does not.\<close>

lemma table_ok_change:
  assumes ok: "table_ok x k" and l: "length (proc k') = length (proc k)" "last_pid k' = last_pid k"
    and c: "cur_proc k' = Some c" "c < PROC_MAX" "allocs (task k c) = USED"
    and s: "\<And>i. i < PROC_MAX \<Longrightarrow> pid (task k' i) = pid (task k i) \<and> allocs (task k' i) = allocs (task k i) \<and> absolute (cwd (task k' i))"
    and r: "\<And>i. i < PROC_MAX \<Longrightarrow> allocs (task k i) = USED \<Longrightarrow> state (task k' i) = TASK_RUNNING \<Longrightarrow> i \<in> y"
  shows "table_ok y k'"
proof -
  have "0 < PROC_MAX" by (simp add: PROC_MAX_def)
  note z = s [OF this]
  have "pids_ok k'"
    using ok s l unfolding pids_ok_def table_ok_def by (metis (no_types, lifting))
  then show ?thesis
    unfolding table_ok_def using s r c z table_ok_kernel(1,2) [OF ok] by auto
qed

lemma set_state_ok:
  assumes ok: "table_ok x k" and i: "i < PROC_MAX"
    and t: "pid t = pid (task k i)" "allocs t = allocs (task k i)" "absolute (cwd t)" "state t \<noteq> TASK_RUNNING \<or> state t = state (task k i)"
  shows "table_ok x (set_task i t k)"
proof -
  note len = table_ok_length [OF ok]
  obtain c where c: "cur_proc k = Some c" "c < PROC_MAX" "allocs (task k c) = USED" using ok by (auto simp: table_ok_def)
  have j: "task (set_task i t k) j = (if j = i then t else task k j)" for j
    using i len by simp
  show ?thesis
  proof (rule table_ok_change [OF ok])
    show "length (proc (set_task i t k)) = length (proc k)" "last_pid (set_task i t k) = last_pid k"
      "cur_proc (set_task i t k) = Some c" "c < PROC_MAX" "allocs (task k c) = USED" using c by simp_all
    fix j assume l: "j < PROC_MAX"
    show "pid (task (set_task i t k) j) = pid (task k j) \<and> allocs (task (set_task i t k) j) = allocs (task k j) \<and>
        absolute (cwd (task (set_task i t k) j))"
      using t table_okD(2) [OF ok l] by (simp add: j)
    show "j \<in> x" if "allocs (task k j) = USED" "state (task (set_task i t k) j) = TASK_RUNNING"
      using that t(4) table_okD(1) [OF ok l] by (auto simp: j split: if_splits)
  qed
qed

lemma dispatch_task:
  assumes "length (proc k) = PROC_MAX" "j < PROC_MAX" "j \<noteq> 0" "i < PROC_MAX"
  shows "task (dispatch j k) i =
      (if i = j then (task k j)\<lparr>state := TASK_RUNNING\<rparr> else if i = 0 then (task k 0)\<lparr>state := TASK_RUNABLE\<rparr> else task k i)"
  using assms by (auto simp: dispatch_def Let_def switch_to_def PROC_MAX_def)

lemma yield_task:
  assumes "length (proc k) = PROC_MAX" "cur_proc k = Some c" "c < PROC_MAX" "yield k = Inr k'" "i < PROC_MAX"
  shows "task k' i = (if i = 0 then (task k 0)\<lparr>state := TASK_RUNNING\<rparr>
      else if i = c \<and> state (task k c) = TASK_RUNNING then (task k c)\<lparr>state := TASK_RUNABLE\<rparr> else task k i)"
  using assms by (auto simp: yield_def my_proc_def Let_def PROC_MAX_def)

lemma yield_frame:
  "cur_proc k = Some c \<Longrightarrow> yield k = Inr k' \<Longrightarrow>
     cur_proc k' = Some c \<and> length (proc k') = length (proc k) \<and> last_pid k' = last_pid k"
  by (auto simp: yield_def my_proc_def Let_def)

lemma dispatch_ok:
  assumes ok: "table_ok {0} k" and j: "runnable k j" "j < PROC_MAX"
  shows "j \<noteq> 0" "cur_proc (dispatch j k) = Some j" "table_ok {j} (dispatch j k)"
proof -
  note len = table_ok_length [OF ok]
  show j0: "j \<noteq> 0" using j(1) table_ok_kernel(2) [OF ok] by (intro notI) (simp add: runnable_def)
  show cur: "cur_proc (dispatch j k) = Some j" by (simp add: dispatch_def Let_def switch_to_def)
  note t = dispatch_task [OF len j(2) j0]
  show "table_ok {j} (dispatch j k)"
  proof (rule table_ok_change [OF ok])
    show "length (proc (dispatch j k)) = length (proc k)" "last_pid (dispatch j k) = last_pid k" "cur_proc (dispatch j k) = Some j"
      by (simp_all add: dispatch_def Let_def switch_to_def)
    show "j < PROC_MAX" "allocs (task k j) = USED" using j by (simp_all add: runnable_def)
    fix i assume i: "i < PROC_MAX"
    show "pid (task (dispatch j k) i) = pid (task k i) \<and> allocs (task (dispatch j k) i) = allocs (task k i) \<and>
        absolute (cwd (task (dispatch j k) i))"
      using table_okD(2) [OF ok i] by (auto simp: t [OF i])
    show "i \<in> {j}" if "allocs (task k i) = USED" "state (task (dispatch j k) i) = TASK_RUNNING"
      using that table_okD(1) [OF ok i] by (simp add: t [OF i] split: if_splits)
  qed
qed

lemma yield_ok:
  assumes ok: "table_ok X k" and c: "cur_proc k = Some c" and y: "yield k = Inr k'"
  shows "cur_proc k' = Some c" "table_ok (insert 0 (X - {c})) k'"
proof -
  note len = table_ok_length [OF ok] and c' = table_ok_kernel(4) [OF ok c]
  note cur = yield_frame [OF c y]
  show "cur_proc k' = Some c" using cur by simp
  note t = yield_task [OF len c c' [THEN conjunct1] y]
  show "table_ok (insert 0 (X - {c})) k'"
  proof (rule table_ok_change [OF ok])
    show "length (proc k') = length (proc k)" "last_pid k' = last_pid k" using cur by simp_all
    show "cur_proc k' = Some c" "c < PROC_MAX" "allocs (task k c) = USED" using cur c' by simp_all
    fix i assume i: "i < PROC_MAX"
    show "pid (task k' i) = pid (task k i) \<and> allocs (task k' i) = allocs (task k i) \<and> absolute (cwd (task k' i))"
      using table_okD(2) [OF ok i] by (auto simp: t [OF i])
    show "i \<in> insert 0 (X - {c})" if "allocs (task k i) = USED" "state (task k' i) = TASK_RUNNING"
      using that table_okD(1) [OF ok i] by (auto simp: t [OF i] split: if_splits)
  qed
qed

lemma exit_ok:
  assumes ok: "table_ok X k" and c: "cur_proc k = Some c" and e: "exit code k = Inr k'"
  shows "cur_proc k' = Some c" "table_ok (insert 0 (X - {c})) k'"
proof -
  note len = table_ok_length [OF ok] and c' = table_ok_kernel(4) [OF ok c]
  let ?t = "(task k c)\<lparr>exit_code := code, state := TASK_ZOMBIE\<rparr>"
  let ?k1 = "set_task c ((task k c)\<lparr>exit_code := code\<rparr>) k"
  have z: "yield (set_task c ((task ?k1 c)\<lparr>state := TASK_ZOMBIE\<rparr>) ?k1) = Inr k'"
    using e c by (simp add: exit_def kill_def my_proc_def Let_def)
  have "set_task c ((task ?k1 c)\<lparr>state := TASK_ZOMBIE\<rparr>) ?k1 = set_task c ?t k"
    using c' len by (simp add: set_task_def task_def)
  then have "table_ok X (set_task c ((task ?k1 c)\<lparr>state := TASK_ZOMBIE\<rparr>) ?k1)"
    using set_state_ok [OF ok, of c ?t] table_okD(2) [OF ok] c' by simp
  from yield_ok [OF this _ z] c show "cur_proc k' = Some c" "table_ok (insert 0 (X - {c})) k'" by simp_all
qed

text \<open>A new task in a slot that was unused.\<close>

lemma alloc_ok:
  assumes ok: "table_ok x k" and A: "proc_alloc k = Inr (i, k1)"
  shows "i < PROC_MAX" "allocs (task k i) = UNUSED" "cur_proc k1 = cur_proc k" "\<And>j. j \<noteq> i \<Longrightarrow> task k1 j = task k j"
    "pid (task k1 i) = last_pid k" "cwd (task k1 i) = cwd (task k i)" "last_pid k1 = last_pid k + 1" "length (proc k1) = PROC_MAX"
    "\<And>t. pid t = last_pid k \<Longrightarrow> absolute (cwd t) \<Longrightarrow> state t \<noteq> TASK_RUNNING \<Longrightarrow> table_ok x (set_task i t k1)"
proof -
  note len = table_ok_length [OF ok]
  note E = proc_alloc_effect [OF A len]
  then show i: "i < PROC_MAX" "allocs (task k i) = UNUSED" "cur_proc k1 = cur_proc k" "last_pid k1 = last_pid k + 1" by simp_all
  show o: "task k1 j = task k j" if "j \<noteq> i" for j using E(4) that by (auto simp: task_def)
  show "pid (task k1 i) = last_pid k" "cwd (task k1 i) = cwd (task k i)" and l: "length (proc k1) = PROC_MAX"
    using E(4) i(1) len by (auto simp: task_def)
  fix t :: task_struct assume t: "pid t = last_pid k" "absolute (cwd t)" "state t \<noteq> TASK_RUNNING"
  obtain c where c: "cur_proc k = Some c" "c < PROC_MAX" "allocs (task k c) = USED" using ok by (auto simp: table_ok_def)
  let ?k = "set_task i t k1"
  have j: "task ?k j = (if j = i then t else task k j)" for j using i(1) l o by simp
  have ne: "c \<noteq> i" "0 \<noteq> i" using c(3) i(2) table_ok_kernel(1) [OF ok] by (metis alloc_state.distinct(1))+
  have "pids_ok ?k"
    unfolding pids_ok_def
  proof (intro conjI allI impI)
    show "length (proc ?k) = PROC_MAX" "0 \<le> last_pid ?k" using l i(4) table_ok_kernel(3) [OF ok] by simp_all
    fix a assume a: "a < PROC_MAX"
    show "pid (task ?k a) < last_pid ?k" if "allocs (task ?k a) = USED"
      using that table_okD(3) [OF ok a] t(1) i(4) by (auto simp: j split: if_splits)
    fix b assume b: "b < PROC_MAX"
    assume "a \<noteq> b \<and> allocs (task ?k a) = USED \<and> allocs (task ?k b) = USED \<and> pid (task ?k a) = pid (task ?k b)"
    then show "pid (task ?k a) = - 1"
      using table_okD(3) [OF ok a] table_okD(3) [OF ok b] table_okD(4) [OF ok a b] t(1) by (auto simp: j split: if_splits)
  qed
  moreover have "a \<in> x" if "a < PROC_MAX" "allocs (task ?k a) = USED" "state (task ?k a) = TASK_RUNNING" for a
    using that table_okD(1) [OF ok] t(3) by (auto simp: j split: if_splits)
  moreover have "absolute (cwd (task ?k a))" if "a < PROC_MAX" for a
    using table_okD(2) [OF ok that] t(2) by (simp add: j)
  ultimately show "table_ok x ?k"
    unfolding table_ok_def using c i(3) ne j table_ok_kernel(1,2) [OF ok] by auto
qed

text \<open>\<open>execve\<close> hands the number of the old task to the new one.\<close>

lemma take_over_ok:
  assumes ok: "table_ok x k" and p: "p < PROC_MAX" "p \<noteq> 0" "allocs (task k p) = USED" and i: "i < PROC_MAX" "i \<noteq> p" "i \<noteq> 0"
    and t: "pid t = pid (task k p)" "allocs t = allocs (task k i)" "absolute (cwd t)" "state t \<noteq> TASK_RUNNING"
    and u: "pid u = - 1" "allocs u = USED" "absolute (cwd u)" "state u \<noteq> TASK_RUNNING"
  shows "table_ok x (set_task p u (set_task i t k))"
proof -
  let ?k = "set_task p u (set_task i t k)"
  note len = table_ok_length [OF ok]
  have j: "task ?k j = (if j = p then u else if j = i then t else task k j)" for j using p(1) i(1) len by simp
  obtain c where c: "cur_proc k = Some c" "c < PROC_MAX" "allocs (task k c) = USED" using ok by (auto simp: table_ok_def)
  have "pids_ok ?k"
    unfolding pids_ok_def
  proof (intro conjI allI impI)
    show "length (proc ?k) = PROC_MAX" "0 \<le> last_pid ?k" using len table_ok_kernel(3) [OF ok] by simp_all
    fix a assume a: "a < PROC_MAX"
    show "pid (task ?k a) < last_pid ?k" if "allocs (task ?k a) = USED"
      using that table_okD(3) [OF ok a] table_okD(3) [OF ok p(1) p(3)] t(1) u(1) table_ok_kernel(3) [OF ok]
      by (auto simp: j split: if_splits)
    fix b assume b: "b < PROC_MAX"
    assume h: "a \<noteq> b \<and> allocs (task ?k a) = USED \<and> allocs (task ?k b) = USED \<and> pid (task ?k a) = pid (task ?k b)"
    consider "a = p \<or> b = p" | "a = i" "b \<noteq> p" "b \<noteq> i" | "b = i" "a \<noteq> p" "a \<noteq> i" | "a \<noteq> p" "a \<noteq> i" "b \<noteq> p" "b \<noteq> i" using h by blast
    then show "pid (task ?k a) = - 1"
    proof cases
      case 1
      then show ?thesis using h u(1) by (auto simp: j)
    next
      case 2
      then show ?thesis using h t(1) i(2) table_okD(4) [OF ok p(1) b] p(3) by (auto simp: j split: if_splits)
    next
      case 3
      then show ?thesis using h t(1) i(2) table_okD(4) [OF ok p(1) a] p(3) by (auto simp: j split: if_splits)
    next
      case 4
      then show ?thesis using h table_okD(4) [OF ok a b] by (simp add: j)
    qed
  qed
  moreover have "a \<in> x" if "a < PROC_MAX" "allocs (task ?k a) = USED" "state (task ?k a) = TASK_RUNNING" for a
    using that table_okD(1) [OF ok] t(4) u(4) by (auto simp: j split: if_splits)
  moreover have "absolute (cwd (task ?k a))" if "a < PROC_MAX" for a
    using table_okD(2) [OF ok that] t(3) u(3) by (simp add: j)
  moreover have "allocs (task ?k c) = USED" using c(3) t(2) u(2) by (auto simp: j)
  ultimately show ?thesis
    unfolding table_ok_def using c p(2) i(3) table_ok_kernel(1,2) [OF ok] by (auto simp: j)
qed

section \<open>Loading and copying\<close>

lemma load_segment_obs: "load_segment base i seg k = Inr (r, k') \<Longrightarrow> obs k' = obs k"
  by (auto simp: load_segment_def kres_simps Let_def view_def dest!: obs_in_heap split: if_splits)

lemma load_segments_obs: "load_segments n base segs i k = Inr (r, k') \<Longrightarrow> obs k' = obs k"
proof (induction n arbitrary: segs k)
  case (Suc n)
  then show ?case by (auto simp: kres_simps dest!: load_segment_obs split: if_splits)
qed simp

lemma elf_loader_obs: "elf_loader env i path k = Inr (r, k') \<Longrightarrow> obs k' = obs k"
  by (auto simp: elf_loader_def kres_simps Let_def split: if_splits dest!: obs_in_fs load_segments_obs)

lemma put_user_obs: "put_user env pt va v k = Inr k' \<Longrightarrow> obs k' = obs k"
  by (auto simp: put_user_def kres_simps dest!: obs_in_heap)

lemma put_words_obs: "put_words env pt ws k = Inr k' \<Longrightarrow> obs k' = obs k"
  by (induction ws arbitrary: k) (auto simp: kres_simps dest!: put_user_obs)

lemma push_strings_obs: "push_strings n env pt vec slot bp c k = Some (Inr (c', bp', k')) \<Longrightarrow> obs k' = obs k"
proof (induction n arbitrary: bp c k)
  case (Suc n)
  then show ?case
    by (auto simp: Let_def obind_eq_iff dest!: put_user_obs obs_in_heap split: if_splits)
qed simp

lemma proc_free_table:
  assumes "proc_free i k = Some (Inr k')"
  shows "proc k' = (proc k)[i := (task k i)\<lparr>allocs := UNUSED\<rparr>]" "cur_proc k' = cur_proc k" "last_pid k' = last_pid k"
  using assms by (auto simp: proc_free_def kres_simps Let_def free_object_def set_task_def task_def split: if_splits)

lemma obs_set_cong:
  assumes "obs k' = obs k" "view t' = view t"
  shows "obs (set_task i t' k') = obs (set_task i t k)"
  using assms by (simp add: obs_def set_task_def map_update)

lemma set_task_twice: "set_task i t (set_task i u k) = set_task i t k"
  by (simp add: set_task_def)

lemma exec_obs:
  assumes X: "exec env path argv envp k = Some (Inr (r, k'))" and len: "length (proc k) = PROC_MAX"
  shows "\<exists>i k1 t. proc_alloc k = Inr (i, k1) \<and> pid t = pid (task k1 i) \<and> cwd t = cwd (task k1 i) \<and> state t = TASK_RUNABLE \<and>
    obs k' = obs (set_task i t k1) \<and> (r = None \<or> r = Some i \<and> allocs t = allocs (task k1 i))"
proof -
  obtain i k1 c nm where A: "proc_alloc k = Inr (i, k1)" and c: "cur_proc k1 = Some c"
    using X by (auto simp: exec_def obind_eq_iff split: option.splits)
  let ?t = "(task k1 i)\<lparr>parent := Some 0, state := TASK_RUNABLE\<rparr>"
  let ?k2 = "set_task i (if c = 0 then ?t else ?t\<lparr>p_fdtable := p_fdtable (task k1 c)\<rparr>) k1"
  obtain nm entry k4 where L: "elf_loader env i path (set_task i ((task ?k2 i)\<lparr>name := nm\<rparr>) ?k2) = Inr (entry, k4)"
    and R: "entry = - 1 \<and> r = None \<and> proc_free i k4 = Some (Inr k') \<or> entry \<noteq> - 1 \<and> r = Some i \<and> obs k' = obs k4"
    using X A c
    by (auto simp: exec_def obind_eq_iff Let_def view_def split: option.splits if_splits
        dest!: put_words_obs push_strings_obs obs_in_heap)
  have l: "i < PROC_MAX" "length (proc k1) = PROC_MAX" using proc_alloc_effect [OF A len] len by auto
  have "obs k4 = obs (set_task i ?t k1)"
    using elf_loader_obs [OF L] l by (simp add: set_task_twice) (auto intro!: obs_set_cong simp: view_def)
  note k4 = this
  have k4i: "pid (task k4 i) = pid (task k1 i)" "state (task k4 i) = TASK_RUNABLE" "allocs (task k4 i) = allocs (task k1 i)"
     "absolute (cwd (task k4 i)) = absolute (cwd (task k1 i))"
    using obs_task [OF k4, of i] l by simp_all
  show ?thesis
  proof (cases "r = None")
    case True
    then have F: "proc_free i k4 = Some (Inr k')" using R by simp
    have "obs k' = obs (set_task i ((task k4 i)\<lparr>allocs := UNUSED\<rparr>) k4)"
      using proc_free_table [OF F] by (simp add: obs_def set_task_def)
    also have "\<dots> = obs (set_task i (?t\<lparr>allocs := UNUSED\<rparr>) (set_task i ?t k1))"
      by (rule obs_set_cong [OF k4]) (simp add: view_def k4i)
    finally show ?thesis
      using True A by (intro exI [of _ i] exI [of _ k1] exI [of _ "?t\<lparr>allocs := UNUSED\<rparr>"]) (simp add: set_task_twice)
  next
    case False
    then show ?thesis using R A k4 by (intro exI [of _ i] exI [of _ k1] exI [of _ ?t]) auto
  qed
qed

lemma exec_ok:
  assumes ok: "table_ok x k" and X: "exec env path argv envp k = Some (Inr (r, k'))"
  shows "table_ok x k'" "cur_proc k' = cur_proc k"
    "r = Some i \<Longrightarrow> i < PROC_MAX \<and> allocs (task k i) = UNUSED \<and> state (task k' i) = TASK_RUNABLE \<and>
      (\<forall>j<PROC_MAX. j \<noteq> i \<longrightarrow> view (task k' j) = view (task k j))"
proof -
  note len = table_ok_length [OF ok]
  obtain n k1 t where T: "proc_alloc k = Inr (n, k1)" "pid t = pid (task k1 n)" "cwd t = cwd (task k1 n)" "state t = TASK_RUNABLE"
    "obs k' = obs (set_task n t k1)" "r = None \<or> r = Some n \<and> allocs t = allocs (task k1 n)"
    using exec_obs [OF X len] by blast
  note A = alloc_ok [OF ok T(1)]
  have a: "absolute (cwd t)" using T(3) A(6) table_okD(2) [OF ok A(1)] by simp
  show "table_ok x k'"
    by (rule table_ok_obs [OF T(5)]) (use A(9) [of t] A(5) T(2,4) a in simp)
  show "cur_proc k' = cur_proc k" using obs_other(1) [OF T(5)] A(3) by simp
  assume "r = Some i"
  then have n: "n = i" using T(6) by simp
  have v: "view (task k' j) = view (task (set_task i t k1) j)" if "j < PROC_MAX" for j
    using obs_task [OF T(5), of j] that A(8) n by (simp add: view_def)
  have "view (task k' j) = view (task k j)" if "j < PROC_MAX" "j \<noteq> i" for j using v [OF that(1)] A(4) that n by simp
  moreover have "state (task k' i) = TASK_RUNABLE" using v [of i] A(1,8) T(4) n by (simp add: view_def)
  ultimately show "i < PROC_MAX \<and> allocs (task k i) = UNUSED \<and> state (task k' i) = TASK_RUNABLE \<and>
      (\<forall>j<PROC_MAX. j \<noteq> i \<longrightarrow> view (task k' j) = view (task k j))" using A(1,2) n by simp
qed

lemma fork_obs:
  assumes F: "fork env p k = Some (Inr (np, k'))"
  shows "\<exists>k1 k2 t. proc_alloc k = Inr (np, k1) \<and> obs k2 = obs k1 \<and> pid t = pid (task k2 np) \<and> cwd t = cwd (task k2 p) \<and>
    state t = TASK_RUNABLE \<and> obs k' = obs (set_task np t k2)"
proof -
  obtain n k1 pl h where A: "proc_alloc k = Inr (n, k1)"
    and C: "copy_pagetable (pgtbl (task k1 p)) (mapping_list (task k1 p)) (pgtbl (task k1 n)) (mapping_list (task k1 n)) (heap k1) = Some (Inr (pl, h))"
    using F by (auto simp: fork_def obind_eq_iff)
  define k2 where "k2 = set_task p ((task k1 p)\<lparr>mapping_list := pl\<rparr>) (k1\<lparr>heap := h\<rparr>)"
  define k3 where "k3 = k2\<lparr>lists := list_add (Children p) (Tasks n) (lists k2)\<rparr>"
  define t where "t = (task k3 n)\<lparr>parent := Some p, state := TASK_RUNABLE, bss := bss (task k3 p), name := name (task k3 p),
      p_fdtable := p_fdtable (task k3 p), cwd := cwd (task k3 p), callback := callback (task k3 p),
      timer_call_time := timer_call_time (task k3 p)\<rparr>"
  define k4 where "k4 = set_task n t k3"
  have o: "obs k3 = obs k1" by (simp add: k3_def k2_def view_def)
  have "obind (Some (va_to_pa (pgtbl (task k4 n)) (USER_STACK_TOP - PGSIZE) (hmm (heap k4)))) (\<lambda>pa.
      let k5 = set_task n ((task k4 n)\<lparr>p_context := PA2VA (pa + PGSIZE) - sizeof_context\<rparr>) k4 in
      obind (Some (put_words env (pgtbl (task k4 n)) [(cur_sp k5 + place ''a0'', 0), (context_va + place ''sp'', cur_sp k5),
        (context_va + place ''ra'', exec_helper env)] k5)) (\<lambda>k6. Some (Inr (n, k6)))) = Some (Inr (np, k'))"
    using F unfolding fork_def k4_def t_def k3_def k2_def Let_def by (simp add: obind_def A C Let_def)
  then obtain pa ws where n: "np = n" and W: "put_words env (pgtbl (task k4 n)) ws
      (set_task n ((task k4 n)\<lparr>p_context := PA2VA (pa + PGSIZE) - sizeof_context\<rparr>) k4) = Inr k'"
    by (auto simp: obind_eq_iff Let_def simp del: put_words.simps)
  have "obs k' = obs k4" using put_words_obs [OF W] by (simp add: view_def)
  then show ?thesis using A o n by (intro exI [of _ k1] exI [of _ k3] exI [of _ t]) (simp add: t_def k4_def)
qed

lemma fork_ok:
  assumes ok: "table_ok x k" and p: "p < PROC_MAX" and F: "fork env p k = Some (Inr (np, k'))"
  shows "table_ok x k'" "cur_proc k' = cur_proc k"
proof -
  obtain k1 k2 t where T: "proc_alloc k = Inr (np, k1)" "obs k2 = obs k1" "pid t = pid (task k2 np)" "cwd t = cwd (task k2 p)"
    "state t = TASK_RUNABLE" "obs k' = obs (set_task np t k2)" using fork_obs [OF F] by blast
  note A = alloc_ok [OF ok T(1)]
  have k': "obs k' = obs (set_task np t k1)" unfolding T(6) by (rule obs_set_cong [OF T(2) refl])
  have "absolute (cwd (task k1 p))" using A(4,6) table_okD(2) [OF ok p] by (cases "p = np") auto
  then have "absolute (cwd t)" "pid t = last_pid k"
    using obs_task [OF T(2)] T(3,4) A(1,5,8) p by simp_all
  then have "table_ok x (set_task np t k1)" using A(9) [of t] T(5) by simp
  then show "table_ok x k'" by (rule table_ok_obs [OF k'])
  show "cur_proc k' = cur_proc k" using obs_other(1) [OF k'] A(3) by simp
qed

section \<open>System calls and traps\<close>

text \<open>What a call of task \<open>c\<close> leaves behind: its own turn goes on, or the scheduler executes.\<close>

definition served :: "nat set \<Rightarrow> nat \<Rightarrow> (sysres \<times> kernel) kres option \<Rightarrow> bool" where
  "served X c x \<longleftrightarrow> (\<forall>r k'. x = Some (Inr (r, k')) \<longrightarrow> cur_proc k' = Some c \<and>
     table_ok (case r of Return v \<Rightarrow> X | Resched \<Rightarrow> insert 0 (X - {c})) k')"

lemma quiet_served:
  assumes "table_ok X k" "cur_proc k = Some c" "quiet k x"
  shows "served X c x"
  unfolding served_def
proof (intro allI impI)
  fix r k' assume "x = Some (Inr (r, k'))"
  then obtain v where v: "r = Return v" "obs k' = obs k" using assms(3) by (auto simp: quiet_def)
  then show "cur_proc k' = Some c \<and> table_ok (case r of Return v \<Rightarrow> X | Resched \<Rightarrow> insert 0 (X - {c})) k'"
    using obs_other(1) [OF v(2)] table_ok_obs [OF v(2) assms(1)] assms(2) by simp
qed

lemma parent_scan_absolute: "absolute p \<Longrightarrow> absolute (parent_scan i p)"
  by (induction i) (auto simp: absolute_def)

lemma chdir_path_absolute: "absolute dir \<Longrightarrow> chdir_path dir path = Inr p \<Longrightarrow> absolute p"
  using parent_scan_absolute [of dir "length dir"]
  by (auto simp: chdir_path_def Let_def absolute_def split: if_splits)

lemma served_chdir:
  assumes ok: "table_ok X k" and c: "cur_proc k = Some c"
  shows "served X c (sys_chdir k)"
proof -
  note c' = table_ok_kernel(4) [OF ok c]
  note a = table_okD(2) [OF ok c' [THEN conjunct1]]
  have "keeps k (kbind (my_proc k) (\<lambda>i. kbind (argstr 0 256 k) (\<lambda>path.
         kbind (chdir_path (cwd (task k i)) path) (\<lambda>newpath. Inr (0, set_task i ((task k i)\<lparr>cwd := newpath\<rparr>) k)))))"
    using chdir_path_absolute [OF a] a by (auto simp: keeps_def kres_simps my_proc_def c view_def)
  from quiet_served [OF ok c quiet_done [OF this]] show ?thesis by (simp add: sys_chdir_def)
qed

lemma served_clone:
  assumes ok: "table_ok X k" and c: "cur_proc k = Some c"
  shows "served X c (sys_clone env k)"
  using fork_ok [OF ok] table_ok_kernel(4) [OF ok c] c
  by (auto simp: served_def sys_clone_def obind_eq_iff my_proc_def done_with_def)

lemma served_exit:
  assumes ok: "table_ok X k" and c: "cur_proc k = Some c"
  shows "served X c (sys_exit k)"
proof -
  have "cur_proc k' = Some c \<and> table_ok (insert 0 (X - {c})) k'" if x: "sys_exit k = Some (Inr (r, k'))" for r k'
  proof -
    obtain k1 where k1: "clean_up k = Inr k1" "exit (int_arg 0 k) k1 = Inr k'"
      using x by (auto simp: sys_exit_def kres_simps)
    then have "obs k1 = obs k" using c by (auto simp: clean_up_def my_proc_def view_def)
    then show ?thesis using exit_ok [OF table_ok_obs [OF _ ok] _ k1(2)] obs_other(1) c by metis
  qed
  moreover have "r = Resched" if "sys_exit k = Some (Inr (r, k'))" for r k'
    using that by (auto simp: sys_exit_def kres_simps)
  ultimately show ?thesis by (fastforce simp: served_def)
qed

lemma served_reap:
  assumes ok: "table_ok X k" and c: "cur_proc k = Some c"
  shows "served X c (done_with (Inr (reap pos ws ru k)))"
proof -
  let ?v = "fst (reap pos ws ru k)" and ?k = "snd (reap pos ws ru k)"
  have "\<exists>k2. obs k2 = obs k \<and> ?k = set_task pos ((task k2 pos)\<lparr>state := TASK_KILLED\<rparr>) k2"
    unfolding reap_def Let_def snd_conv by (rule exI, rule conjI [rotated], rule refl) simp
  then obtain k2 where k2: "obs k2 = obs k" "?k = set_task pos ((task k2 pos)\<lparr>state := TASK_KILLED\<rparr>) k2" by blast
  have ok2: "table_ok X k2" by (rule table_ok_obs [OF k2(1) ok])
  have "table_ok X ?k"
  proof (cases "pos < PROC_MAX")
    case True
    then show ?thesis unfolding k2(2) by (intro set_state_ok [OF ok2]) (simp_all add: table_okD(2) [OF ok2])
  next
    case False
    then have "?k = k2" using k2(2) table_ok_length [OF ok2] by (simp add: set_task_def list_update_beyond)
    then show ?thesis using ok2 by simp
  qed
  moreover have "cur_proc ?k = Some c" using k2 obs_other(1) [OF k2(1)] c by simp
  ultimately show ?thesis by (cases "reap pos ws ru k") (simp add: served_def done_with_def)
qed

lemma served_wait4:
  assumes ok: "table_ok X k" and c: "cur_proc k = Some c"
  shows "served X c (sys_wait4 k)"
proof -
  have b: "served X c (Some (kbind (yield k) (\<lambda>k1. Inr (Resched, k1))))"
    using yield_ok [OF ok c] by (auto simp: served_def kres_simps)
  have m: "served X c (done_with (Inr (- 1, k)))"
    by (rule quiet_served [OF ok c]) (intro keeps_intros refl)
  have e: "served X c (Some (Inl er))" "served X c None" for er by (simp_all add: served_def)
  have o: "served X c (obind x f)" if "\<And>a. served X c (f a)" for x and f :: "'b \<Rightarrow> _"
    using that by (auto simp: served_def obind_eq_iff)
  show ?thesis
    unfolding sys_wait4_def Let_def
    by (intro o) (auto intro!: o simp: b m e served_reap [OF ok c] split: option.split)
qed

text \<open>The outcomes of \<open>execve\<close>: the program is not found, or the new task takes the place of the old one.\<close>

lemma execve_cases:
  assumes c: "cur_proc k = Some c" and R: "sys_execve env k = Some (Inr (r, k'))"
  obtains (missing) buf where "exec env buf (arg 1 k) (arg 2 k) k = Some (Inr (None, k'))" "r = Return (- 1)"
  | (loaded) buf np k1 l where "exec env buf (arg 1 k) (arg 2 k) k = Some (Inr (Some np, k1))" "r = Return 0"
    "k' = (let k2 = (set_task np ((task k1 np)\<lparr>name := buf, cwd := cwd (task k1 c), pid := pid (task k1 c),
       parent := parent (task k1 c)\<rparr>) k1)\<lparr>lists := l\<rparr> in set_task c ((task k2 c)\<lparr>pid := - 1, state := TASK_KILLED\<rparr>) k2)"
proof -
  obtain buf q k1 where X: "exec env buf (arg 1 k) (arg 2 k) k = Some (Inr (q, k1))"
    and C: "(case q of None \<Rightarrow> done_with (Inr (- 1, k1))
      | Some np \<Rightarrow> if length buf \<ge> 32 then Some (Inl (BadAccess ''name''))
          else case parent (task k1 c) of None \<Rightarrow> Some (Inl (BadAccess ''parent''))
          | Some pp \<Rightarrow>
             let t = task k1 c;
                 k2 = set_task np ((task k1 np)\<lparr>name := buf, cwd := cwd t, pid := pid t, parent := parent t\<rparr>) k1;
                 k3 = k2\<lparr>lists := list_add (Children pp) (Tasks np) (lists k2)\<rparr> in
             done_with (Inr (0, set_task c ((task k3 c)\<lparr>pid := - 1, state := TASK_KILLED\<rparr>) k3))) = Some (Inr (r, k'))"
    using R by (auto simp: sys_execve_def obind_eq_iff my_proc_def c)
  show thesis
  proof (cases q)
    case None
    then show thesis using missing X C by (auto simp: done_with_def)
  next
    case (Some np)
    then obtain pp where "parent (task k1 c) = Some pp" using C by (auto split: if_splits option.splits)
    then show thesis using loaded [of buf np k1] X C Some by (auto simp: done_with_def Let_def split: if_splits)
  qed
qed

lemma served_execve:
  assumes ok: "table_ok X k" and c: "cur_proc k = Some c" "c \<noteq> 0"
  shows "served X c (sys_execve env k)"
proof -
  note c' = table_ok_kernel(4) [OF ok c(1)]
  have "cur_proc k' = Some c \<and> table_ok X k' \<and> (\<exists>v. r = Return v)" if R: "sys_execve env k = Some (Inr (r, k'))" for r k'
    using c(1) R
  proof (cases rule: execve_cases)
    case (missing buf)
    then show ?thesis using exec_ok(1,2) [OF ok missing(1)] c by simp
  next
    case (loaded buf np k1 l)
    note E = exec_ok [OF ok loaded(1)] and N = exec_ok(3) [OF ok loaded(1) refl]
    have np: "np \<noteq> c" "np \<noteq> 0" using N c' table_ok_kernel(1) [OF ok] by (metis alloc_state.distinct(1))+
    let ?t = "(task k1 np)\<lparr>name := buf, cwd := cwd (task k1 c), pid := pid (task k1 c), parent := parent (task k1 c)\<rparr>"
    let ?u = "(task k1 c)\<lparr>pid := - 1, state := TASK_KILLED\<rparr>"
    have u: "allocs (task k1 c) = USED" using N c' np(1) by (simp add: view_def)
    have "table_ok X (set_task c ?u (set_task np ?t k1))"
      by (rule take_over_ok [OF E(1)]) (use c(2) c' N np u table_okD(2) [OF E(1)] in simp_all)
    moreover have o: "obs k' = obs (set_task c ?u (set_task np ?t k1))"
      unfolding loaded(3) Let_def by (rule obs_set_cong) (use np in simp_all)
    ultimately have "table_ok X k'" by (rule table_ok_obs [rotated])
    then show ?thesis using obs_other(1) [OF o] E(2) c(1) loaded(2) by simp
  qed
  then show ?thesis by (fastforce simp: served_def)
qed

lemma served_syscall:
  assumes ok: "table_ok X k" and c: "cur_proc k = Some c" "c \<noteq> 0"
  shows "served X c (syscall_handler env buf k)"
proof -
  note q = quiet_served [OF ok c(1)]
  have "served X c (snd e k)" if "e \<in> set (syscalls env buf)" for e
    using that unfolding syscalls_def set_simps
    by (elim insertE emptyE; simp add: served_chdir [OF ok c(1)] served_clone [OF ok c(1)] served_exit [OF ok c(1)]
        served_wait4 [OF ok c(1)] served_execve [OF ok c]; intro q keeps_intros)
  moreover have "select_syscall env buf n \<in> insert sys_exit (snd ` set (syscalls env buf))" for n
    by (auto simp: select_syscall_def image_iff split: option.split if_split dest!: map_of_SomeD) (metis snd_conv)
  ultimately have s: "served X c (select_syscall env buf n k)" for n using served_exit [OF ok c(1)] by force
  have p: "table_ok x (poke a bs k1)" if "table_ok x k1" for x a bs k1 using that by (rule table_ok_obs [rotated]) simp
  have w: "cur_proc (poke a bs k1) = cur_proc k1" for a bs k1 by (simp add: poke_def)
  show ?thesis
    unfolding served_def
  proof (intro allI impI)
    fix r k' assume R: "syscall_handler env buf k = Some (Inr (r, k'))"
    let ?n = "as_int (load64 (kmem k) (cur_sp k + place ''a7''))"
    obtain q k1 where "select_syscall env buf ?n k = Some (Inr (q, k1))"
      "(case q of Resched \<Rightarrow> Some (Inr (Resched, k1))
        | Return v \<Rightarrow> Some (Inr (Return v, poke (cur_sp k + place ''a0'') (le_bytes 8 (unat v)) k1))) = (Some (Inr (r, k')) :: (sysres \<times> kernel) kres option)"
      using R by (auto simp: syscall_handler_def Let_def obind_eq_iff)
    then have k1: "select_syscall env buf ?n k = Some (Inr (r, k1))"
      and k': "k' = (case r of Resched \<Rightarrow> k1 | Return v \<Rightarrow> poke (cur_sp k + place ''a0'') (le_bytes 8 (unat v)) k1)"
      by (cases q, auto)+
    have "cur_proc k1 = Some c" "table_ok (case r of Return v \<Rightarrow> X | Resched \<Rightarrow> insert 0 (X - {c})) k1"
      using s [of ?n] k1 by (auto simp: served_def)
    then show "cur_proc k' = Some c \<and> table_ok (case r of Return v \<Rightarrow> X | Resched \<Rightarrow> insert 0 (X - {c})) k'"
      unfolding k' by (cases r) (simp_all add: w p)
  qed
qed

lemma timer_yields:
  assumes c: "cur_proc k = Some c" and h: "\<And>cb n k k'. sighandler cb n k = Inr k' \<Longrightarrow> obs k' = obs k"
    and t: "timer_handler sighandler k = Inr k'"
  obtains k2 where "obs k2 = obs k" "yield k2 = Inr k'"
proof -
  let ?k1 = "k\<lparr>ticks := ticks k + 1\<rparr>"
  obtain k2 where k2: "(if callback (task ?k1 c) \<noteq> 0 \<and> ticks ?k1 \<ge> timer_call_time (task ?k1 c)
      then do_signal sighandler 14 (set_task c ((task ?k1 c)\<lparr>timer_call_time := - 1\<rparr>) ?k1) else Inr ?k1) = Inr k2" "yield k2 = Inr k'"
    using t c by (auto simp: timer_handler_def Let_def kbind_Inr_iff my_proc_def)
  have "obs k2 = obs k"
  proof (cases "callback (task ?k1 c) \<noteq> 0 \<and> ticks ?k1 \<ge> timer_call_time (task ?k1 c)")
    case True
    then have "obs k2 = obs (set_task c ((task ?k1 c)\<lparr>timer_call_time := - 1\<rparr>) ?k1)"
      using k2(1) c by (intro h) (auto simp: do_signal_def my_proc_def split: if_splits)
    then show ?thesis by (simp add: view_def)
  next
    case False
    then show ?thesis using k2(1) by auto
  qed
  then show thesis using k2(2) by (rule that)
qed

lemma served_timer:
  assumes ok: "table_ok X k" and c: "cur_proc k = Some c" and h: "\<And>cb n k k'. sighandler cb n k = Inr k' \<Longrightarrow> obs k' = obs k"
    and t: "timer_handler sighandler k = Inr k'"
  shows "cur_proc k' = Some c" "table_ok (insert 0 (X - {c})) k'" "j < PROC_MAX \<Longrightarrow> allocs (task k' j) = allocs (task k j)"
proof -
  obtain k2 where k2: "obs k2 = obs k" "yield k2 = Inr k'" by (rule timer_yields [OF c h t])
  note len = table_ok_length [OF ok] and c' = table_ok_kernel(4) [OF ok c] and o = obs_other [OF k2(1)]
  show "cur_proc k' = Some c" "table_ok (insert 0 (X - {c})) k'"
    using yield_ok [OF table_ok_obs [OF k2(1) ok] _ k2(2)] o c by simp_all
  show "allocs (task k' j) = allocs (task k j)" if j: "j < PROC_MAX"
    using yield_task [of k2 c k' j] k2 o c c' len j obs_task(3) [OF k2(1), of j] obs_task(3) [OF k2(1), of 0] obs_task(3) [OF k2(1), of c]
    by (auto split: if_splits)
qed

lemma served_trap:
  assumes ok: "table_ok X k" and c: "cur_proc k = Some c" "c \<noteq> 0" and h: "\<And>cb n k k'. sighandler cb n k = Inr k' \<Longrightarrow> obs k' = obs k"
  shows "served X c (trap_handler env buf sighandler estat ecfg k)"
proof -
  let ?k1 = "w_trap_era (r_trap_era k + 4) k"
  have k1: "table_ok X ?k1" "cur_proc ?k1 = Some c"
    using c by (auto intro: table_ok_obs [OF _ ok] simp: w_trap_era_def poke_def obs_def)
  have a: "served X c (Some (kbind (timer_handler sighandler k) (\<lambda>k1. Inr (Resched, k1))))"
    using served_timer [OF ok c(1) h] by (auto simp: served_def kres_simps)
  have b: "served X c (Some (kbind (exit 1 ?k1) (\<lambda>k2. Inr (Resched, k2))))"
    using exit_ok [OF k1] by (auto simp: served_def kres_simps)
  have d: "served X c (Some (Inr (Return 0, ?k1)))" "served X c (Some (Inl e))" for e using k1 by (simp_all add: served_def)
  show ?thesis
    using a b d served_syscall [OF k1 c(2), of env buf]
    by (simp add: trap_handler_def Let_def obind_def my_proc_def k1(2))
qed

lemma table_ok_mono: "table_ok X k \<Longrightarrow> X \<subseteq> Y \<Longrightarrow> table_ok Y k"
  unfolding table_ok_def by blast

text \<open>What a task in its turn leaves behind satisfies the invariant.\<close>

lemma served_inv:
  assumes "served (if b then {c} else {0, c}) c (Some (Inr (r, k')))" "c \<noteq> 0"
  shows "kernel_inv b (goes_to r k', k')"
proof (cases r)
  case Resched
  then have "cur_proc k' = Some c" "table_ok (insert 0 ((if b then {c} else {0, c}) - {c})) k'" using assms(1) by (simp_all add: served_def)
  then show ?thesis using Resched table_ok_mono [of _ k' "{0}"] by (auto split: if_splits)
qed (use assms in \<open>simp add: served_def\<close>)

lemma mark_ok:
  assumes ok: "table_ok X k" and j: "j < PROC_MAX"
  shows "table_ok (insert j X) (set_task j ((task k j)\<lparr>state := TASK_RUNNING\<rparr>) k)"
proof -
  let ?k = "set_task j ((task k j)\<lparr>state := TASK_RUNNING\<rparr>) k"
  obtain c where c: "cur_proc k = Some c" "c < PROC_MAX" "allocs (task k c) = USED" using ok by (auto simp: table_ok_def)
  have t: "task ?k i = (if i = j then (task k j)\<lparr>state := TASK_RUNNING\<rparr> else task k i)" for i using j table_ok_length [OF ok] by simp
  show ?thesis
  proof (rule table_ok_change [OF ok])
    show "length (proc ?k) = length (proc k)" "last_pid ?k = last_pid k" "cur_proc ?k = Some c" "c < PROC_MAX" "allocs (task k c) = USED"
      using c by simp_all
  qed (use table_okD(1,2) [OF ok] in \<open>auto simp: t split: if_splits\<close>)
qed

lemma kernel_step_inv:
  assumes "kernel_step env buf sighandler s s'" and "kernel_inv b s"
    and h: "\<And>cb n k k'. sighandler cb n k = Inr k' \<Longrightarrow> obs k' = obs k"
  shows "kernel_inv b s'"
  using assms(1,2)
proof cases
  case (first_program argv envp k k')
  obtain n k1 where X: "exec env [47, 98, 105, 110, 47, 98, 117, 115, 121, 98, 111, 120] argv envp k = Some (Inr (Some n, k1))"
    and k': "k' = set_task n ((task k1 n)\<lparr>cwd := [47, 98, 105, 110]\<rparr>) k1"
    using first_program(3) by (auto simp: user_init_def obind_eq_iff split: option.splits)
  have ok: "table_ok {0} k" using assms(2) first_program(1) by simp
  have "table_ok {0} k'"
    unfolding k' using exec_ok(1) [OF ok X] exec_ok(3) [OF ok X refl]
    by (intro set_state_ok) (simp_all add: absolute_def)
  then show ?thesis using first_program(1,2) assms(2) exec_ok(2) [OF ok X] by (simp add: k')
next
  case (interrupts_on k)
  then show ?thesis using assms(2) by simp
next
  case (switch i run k j k' irq)
  have ok: "table_ok {0} k" using assms(2) switch(1) by simp
  have "j < PROC_MAX" "runnable k j" "k' = dispatch j k"
    using switch(3) by (auto simp: scheduler_eq find_upt_from split: option.splits if_splits)
  then show ?thesis using dispatch_ok [OF ok] table_ok_mono [of "{j}" k' "{0, j}"] switch(2) by auto
next
  case (pick i run k j)
  have ok: "table_ok {0} k" using assms(2) pick(1) by simp
  have j: "j < PROC_MAX" "runnable k j" using pick(3) by (auto simp: scheduler_eq find_upt_from split: option.splits if_splits)
  then show ?thesis using dispatch_ok(1) [OF ok] pick assms(2) by (simp add: runnable_def)
next
  case (free_kernel j k)
  have ok: "table_ok {0} k" using assms(2) free_kernel(1) by simp
  have "table_ok {0} (set_task 0 ((task k 0)\<lparr>state := TASK_RUNABLE\<rparr>) k)"
    using table_okD(2) [OF ok, of 0] by (intro set_state_ok [OF ok]) (simp_all add: PROC_MAX_def)
  then show ?thesis using free_kernel assms(2) by simp
next
  case (mark_task j k)
  have ok: "table_ok {0} k" using assms(2) mark_task(1) by simp
  then show ?thesis using mark_ok [OF ok, of j] mark_task assms(2) table_ok_length [OF ok] by (simp add: insert_commute)
next
  case (first_switch j k)
  have ok: "table_ok {0, j} k" "allocs (task k j) = USED" "j < PROC_MAX" "0 < j" using assms(2) first_switch(1) by simp_all
  have "table_ok {0, j} (switch_to j k)"
    by (rule table_ok_change [OF ok(1)]) (use ok table_okD(1,2) [OF ok(1)] in \<open>auto simp: switch_to_def task_def\<close>)
  then show ?thesis using first_switch assms(2) by (simp add: switch_to_def)
next
  case (early_timer k k' m i run n j)
  have c: "cur_proc k = Some 0" using assms(2) early_timer(1,4) by auto
  have T: "cur_proc k' = Some 0" "table_ok (insert 0 (X - {0})) k'" if "table_ok X k" for X
    using served_timer [OF that c h early_timer(3)] by simp_all
  show ?thesis
  proof (cases m)
    case (Sched irq i run)
    then show ?thesis using early_timer(1,2,4) assms(2) T [of "{0}"] by auto
  next
    case (Picked n j)
    then have ok: "table_ok (if n = 2 then {0, j} else {0}) k" "0 < j" "j < PROC_MAX" using early_timer(1) assms(2) by auto
    have "insert 0 ((if n = 2 then {0, j} else {0}) - {0}) = (if n = 2 then {0, j} else {0 :: nat})" using ok(2) by auto
    then show ?thesis using T [OF ok(1)] served_timer(3) [OF ok(1) c h early_timer(3) ok(3)] Picked early_timer(1,2) assms(2) by simp
  qed (use early_timer(4) in auto)
next
  case (program k m sp)
  then obtain c where c: "cur_proc k = Some c" "c \<noteq> 0" "table_ok (if b then {c} else {0, c}) k" using assms(2) by auto
  then show ?thesis using program(2) table_ok_obs [of "user_writes m sp k" k "if b then {c} else {0, c}"] by (simp add: user_writes_def obs_def)
next
  case (trap estat ecfg k r k')
  then obtain c where c: "cur_proc k = Some c" "c \<noteq> 0" "table_ok (if b then {c} else {0, c}) k" using assms(2) by auto
  have "served (if b then {c} else {0, c}) c (trap_handler env buf sighandler estat ecfg k)" by (rule served_trap [OF c(3) c(1,2) h])
  then show ?thesis using served_inv [OF _ c(2)] trap(2,3) by simp
next
  case (waiting k r k')
  then obtain c where c: "cur_proc k = Some c" "c \<noteq> 0" "table_ok (if b then {c} else {0, c}) k" using assms(2) by auto
  then show ?thesis using served_wait4 [OF c(3) c(1)] served_inv waiting(2,3) by simp
next
  case (key_wait sp t h' k k')
  then obtain c where c: "cur_proc k = Some c" "c \<noteq> 0" "table_ok (if b then {c} else {0, c}) k" using assms(2) by auto
  let ?k = "k\<lparr>heap := h', tty := t, cur_sp := sp\<rparr>"
  have "obs ?k = obs k" by (simp add: obs_def)
  then have "table_ok (if b then {c} else {0, c}) ?k" by (rule table_ok_obs [OF _ c(3)])
  moreover have "cur_proc ?k = Some c" using c by simp
  ultimately have "table_ok (if b then {c} else {0, c}) ?k" "cur_proc ?k = Some c" .
  from served_timer [OF this h key_wait(3)] have "served (if b then {c} else {0, c}) c (Some (Inr (Resched, k')))" by (simp add: served_def)
  from served_inv [OF this c(2)] show ?thesis unfolding key_wait(2) .
qed

lemma kernel_steps_inv:
  assumes "(kernel_step env buf sighandler)\<^sup>*\<^sup>* s s'" and "kernel_inv b s"
    and h: "\<And>cb n k k'. sighandler cb n k = Inr k' \<Longrightarrow> obs k' = obs k"
  shows "kernel_inv b s'"
  using assms(1,2) by (induction rule: rtranclp_induct) (auto intro: kernel_step_inv [OF _ _ h])

text \<open>The table that \<open>proc_init\<close> sets up.\<close>

lemma proc_init_table:
  assumes "proc_init k = Inr k'"
  shows "length (proc k') = PROC_MAX" "cur_proc k' = Some 0" "last_pid k' = 1"
    "allocs (task k' 0) = USED" "pid (task k' 0) = 0" "absolute (cwd (task k' 0))"
    "0 < j \<Longrightarrow> j < PROC_MAX \<Longrightarrow> task k' j = zero_task\<lparr>cwd := [47]\<rparr>"
proof -
  let ?k0 = "k\<lparr>proc := replicate PROC_MAX (zero_task\<lparr>cwd := [47]\<rparr>)\<rparr>"
  obtain i k1 c k3 fdt k5 where A: "proc_alloc ?k0 = Inr (i, k1)"
    and B: "in_heap (in_mm (kmalloc 248)) (set_task i ((task k1 i)\<lparr>name := [107], pid := 0, state := TASK_RUNNING\<rparr>)
        (k1\<lparr>lists := init_list_head (Tasks i) (init_list_head (Children i) (lists k1))\<rparr>)) = Inr (c, k3)"
    and C: "new_fdtable (set_task i ((task k3 i)\<lparr>p_context := c\<rparr>) k3) = Inr (fdt, k5)"
    and k': "k' = (set_task i ((task k5 i)\<lparr>p_fdtable := fdt\<rparr>) k5)\<lparr>cur_proc := Some 0\<rparr>" and l: "last_pid k' = 1"
    using assms by (auto simp: proc_init_def kernel_proc_init_def kres_simps Let_def)
  have len: "length (proc ?k0) = PROC_MAX" by simp
  note E = proc_alloc_effect [OF A len]
  have t0: "task ?k0 j = zero_task\<lparr>cwd := [47]\<rparr>" if "j < PROC_MAX" for j using that by (simp add: task_def)
  have i: "i = 0" using E(1,3) t0 [of 0] by (auto simp: PROC_MAX_def zero_task_def)
  obtain u where p1: "proc k1 = (proc ?k0)[0 := u]" "allocs u = USED" "cwd u = [47]"
    using E(4) t0 [of 0] by (auto simp: i PROC_MAX_def)
  have l1: "length (proc k1) = PROC_MAX" by (simp add: p1(1))
  have p: "proc k' = (proc k1)[0 := task k' 0]" "allocs (task k' 0) = USED" "pid (task k' 0) = 0" "absolute (cwd (task k' 0))"
    using in_heap_frame [OF B] new_fdtable_frame [OF C] l1 p1
    by (auto simp: k' i set_task_def task_def absolute_def PROC_MAX_def)
  show "task k' j = zero_task\<lparr>cwd := [47]\<rparr>" if "0 < j" "j < PROC_MAX"
  proof -
    have "proc k' ! j = proc k1 ! j" using that(1) by (subst p(1)) simp
    then show ?thesis using that t0 [OF that(2)] p1(1) by (simp add: task_def)
  qed
  show "length (proc k') = PROC_MAX" using l1 by (subst p(1)) simp
  show "cur_proc k' = Some 0" "last_pid k' = 1" "allocs (task k' 0) = USED" "pid (task k' 0) = 0" "absolute (cwd (task k' 0))"
    using l p by (simp_all add: k')
qed

lemma proc_init_inv:
  assumes "proc_init k = Inr k'"
  shows "kernel_inv False (Init, k')"
proof -
  note T = proc_init_table [OF assms]
  have z: "j = 0" if "j < PROC_MAX" "allocs (task k' j) = USED" for j
    using that T(7) [of j] by (cases "j = 0") (auto simp: zero_task_def)
  have "pids_ok k'"
    unfolding pids_ok_def
  proof (intro conjI allI impI)
    fix i j assume "i < PROC_MAX" "j < PROC_MAX"
    then show "pid (task k' i) = - 1" if "i \<noteq> j \<and> allocs (task k' i) = USED \<and> allocs (task k' j) = USED \<and> pid (task k' i) = pid (task k' j)"
      using that z [of i] z [of j] by simp
  next
    fix i assume "i < PROC_MAX" "allocs (task k' i) = USED"
    then show "pid (task k' i) < last_pid k'" using z [of i] T(3,5) by simp
  qed (simp_all add: T)
  moreover have "absolute (cwd (task k' j))" if "j < PROC_MAX" for j
    using that T(6) T(7) [of j] by (cases "j = 0") (auto simp: absolute_def)
  moreover have "\<exists>c<PROC_MAX. cur_proc k' = Some c \<and> allocs (task k' c) = USED"
    using T(2,4) by (intro exI [of _ 0]) (simp add: PROC_MAX_def)
  ultimately show ?thesis
    unfolding kernel_inv.simps table_ok_def using T(2,4,5) z by blast
qed

section \<open>Properties\<close>

text \<open>
  C1: starting from a table that is in order, whatever the programs do and however they are interrupted,
  there is a current task; apart from the task that executes (the kernel task while the
  scheduler runs, the current one otherwise) none is marked running, except that the task just picked is while it is switched to, and that
  the kernel task may stay marked too when the path starts before the first switch (\<open>b\<close> is false), as that switch may be interrupted; two tasks with the same number both have the -1 that \<open>execve\<close> leaves behind; and every
  working directory is an absolute path that fits its buffer. The flag \<open>b\<close> says that the first switch is over at the start.
  The handler of a signal, code of the program, is taken to leave the table alone.
\<close>

theorem running_task_exclusive:
  assumes "kernel_inv b s" and "(kernel_step env buf sighandler)\<^sup>*\<^sup>* s (m, k)"
    and "\<forall>cb n k k'. sighandler cb n k = Inr k' \<longrightarrow> proc k' = proc k \<and> cur_proc k' = cur_proc k \<and> last_pid k' = last_pid k"
  shows "\<exists>c<PROC_MAX. cur_proc k = Some c \<and> allocs (task k c) = USED \<and>
    (\<forall>i<PROC_MAX. allocs (task k i) = USED \<and> state (task k i) = TASK_RUNNING \<longrightarrow>
      (case m of User \<Rightarrow> i = c \<or> \<not> b \<and> i = 0 | Picked n j \<Rightarrow> i = 0 \<or> n = 2 \<and> i = j | _ \<Rightarrow> i = 0)) \<and>
    (\<forall>i<PROC_MAX. \<forall>j<PROC_MAX. i \<noteq> j \<and> allocs (task k i) = USED \<and> allocs (task k j) = USED \<and>
      pid (task k i) = pid (task k j) \<longrightarrow> pid (task k i) = - 1) \<and>
    (\<forall>i<PROC_MAX. absolute (cwd (task k i)))"
proof -
  have "kernel_inv b (m, k)"
    by (rule kernel_steps_inv [OF assms(2,1)]) (use assms(3) in \<open>simp add: obs_def\<close>)
  then obtain X c where X: "table_ok X k" "cur_proc k = Some c"
    "\<forall>i\<in>X. case m of User \<Rightarrow> i = c \<or> \<not> b \<and> i = 0 | Picked n j \<Rightarrow> i = 0 \<or> n = 2 \<and> i = j | _ \<Rightarrow> i = 0"
    using table_ok_def [of "{0}" k] by (cases m) (auto split: if_splits)
  note D = table_okD [OF X(1)]
  have c: "c < PROC_MAX" "allocs (task k c) = USED" using table_ok_kernel(4) [OF X(1,2)] by simp_all
  show ?thesis
  proof (intro exI [of _ c] conjI allI impI)
    fix i assume i: "i < PROC_MAX"
    show "absolute (cwd (task k i))" by (rule D(2) [OF i])
    show "case m of User \<Rightarrow> i = c \<or> \<not> b \<and> i = 0 | Picked n j \<Rightarrow> i = 0 \<or> n = 2 \<and> i = j | _ \<Rightarrow> i = 0"
      if "allocs (task k i) = USED \<and> state (task k i) = TASK_RUNNING" using D(1) [OF i] that X(3) by blast
    fix j assume j: "j < PROC_MAX"
    show "pid (task k i) = - 1" if "i \<noteq> j \<and> allocs (task k i) = USED \<and> allocs (task k j) = USED \<and> pid (task k i) = pid (task k j)"
      by (rule D(4) [OF i j]) (use that in simp_all)
  qed (use c X(2) in simp_all)
qed

lemma sample_kernel_inv: "table_ok {0} sample_kernel"
proof -
  have l: "length (proc sample_kernel) = PROC_MAX" "last_pid sample_kernel = 3" "cur_proc sample_kernel = Some 0"
    by (simp_all add: sample_kernel_def)
  have "0 < PROC_MAX" by (simp add: PROC_MAX_def)
  then show ?thesis
    unfolding table_ok_def pids_ok_def
    by (auto simp: sample_task l zero_task_def absolute_def split: if_splits)
qed

theorem running_task_exclusive_witness:
  "\<exists>k. (kernel_step \<lparr>fsenv = sample_env, elf_buf = 0, exec_helper = 0, kword = 0\<rparr> 0 (\<lambda>cb n k. Inr k))\<^sup>*\<^sup>*
       (Sched False 0 False, sample_kernel) (User, k) \<and> cur_proc k = Some 2 \<and>
     (\<forall>i<PROC_MAX. allocs (task k i) = USED \<and> state (task k i) = TASK_RUNNING \<longrightarrow> i = 2)"
proof -
  let ?env = "\<lparr>fsenv = sample_env, elf_buf = 0, exec_helper = 0, kword = 0\<rparr>" and ?h = "\<lambda>cb n k. Inr k"
  let ?step = "kernel_step ?env 0 ?h"
  have len: "length (proc sample_kernel) = PROC_MAX" by (simp add: sample_kernel_def)
  have r: "find (runnable sample_kernel) [0..<PROC_MAX] = Some 1"
    by (auto simp: find_upt_from sample_runnable PROC_MAX_def)
  define k1 where "k1 = dispatch 1 sample_kernel"
  define k2 where "k2 = user_writes (\<lambda>_. 7) 64 k1"
  have s1: "?step (Sched False 0 False, sample_kernel) (User, k1)"
    by (rule switch [of _ _ _ 1]) (simp add: scheduler_eq r k1_def)
  have s2: "?step (User, k1) (User, k2)" unfolding k2_def by (rule program)
  have c2: "cur_proc k2 = Some 1" "length (proc k2) = PROC_MAX"
    using len by (simp_all add: k2_def k1_def user_writes_def dispatch_def Let_def switch_to_def)
  have t2: "task k2 i = (if i = 1 then (task sample_kernel 1)\<lparr>state := TASK_RUNNING\<rparr>
      else if i = 0 then (task sample_kernel 0)\<lparr>state := TASK_RUNABLE\<rparr> else task sample_kernel i)" if "i < PROC_MAX" for i
    using dispatch_task [OF len, of 1 i] that by (simp add: k2_def k1_def user_writes_def PROC_MAX_def task_def)
  have cb: "callback (task k2 1) = 0" by (simp add: t2 sample_task zero_task_def PROC_MAX_def)
  define k2' where "k2' = k2\<lparr>ticks := ticks k2 + 1\<rparr>"
  obtain k3 where k3: "yield k2' = Inr k3" using c2 by (simp add: yield_def my_proc_def k2'_def Let_def)
  have "timer_handler ?h k2 = Inr k3"
    using k3 cb by (simp add: timer_handler_def Let_def my_proc_def c2(1) k2'_def)
  then have "trap_handler ?env 0 ?h TI_VEC TI_VEC k2 = Some (Inr (Resched, k3))"
    by (simp add: trap_handler_def TI_VEC_def HWI_VEC_def)
  note s3 = trap [OF this]
  have f3: "cur_proc k3 = Some 1" "length (proc k3) = PROC_MAX" using yield_frame [OF _ k3] c2 by (simp_all add: k2'_def)
  have t3: "task k3 i = (if i = 0 then (task k2 0)\<lparr>state := TASK_RUNNING\<rparr>
      else if i = 1 then (task k2 1)\<lparr>state := TASK_RUNABLE\<rparr> else task k2 i)" if "i < PROC_MAX" for i
    using yield_task [of k2' 1 k3 i] k3 c2 that by (simp add: k2'_def t2 PROC_MAX_def)
  have "runnable k3 i \<longleftrightarrow> i = 1 \<or> i = 2" if "i < PROC_MAX" for i
    using that by (auto simp: runnable_def t3 t2 sample_task zero_task_def PROC_MAX_def)
  then have r3: "find (runnable k3) [2..<PROC_MAX] = Some 2"
    by (auto simp: find_upt_from PROC_MAX_def)
  have s4: "?step (Sched False 2 True, k3) (User, dispatch 2 k3)"
    by (rule switch [of _ _ _ 2]) (simp add: scheduler_eq r3)
  have "?step\<^sup>*\<^sup>* (Sched False 0 False, sample_kernel) (User, dispatch 2 k3)"
    using s1 s2 s3 s4 f3(1) by (auto intro: rtranclp.rtrancl_into_rtrancl simp: numeral_2_eq_2)
  note R = this
  have "kernel_inv True (Sched False 0 False, sample_kernel)" using sample_kernel_inv by simp
  from running_task_exclusive [OF this R] obtain c where "cur_proc (dispatch 2 k3) = Some c"
    "\<forall>i<PROC_MAX. allocs (task (dispatch 2 k3) i) = USED \<and> state (task (dispatch 2 k3) i) = TASK_RUNNING \<longrightarrow> i = c" by auto
  moreover have "cur_proc (dispatch 2 k3) = Some 2" by (simp add: dispatch_def Let_def switch_to_def)
  ultimately show ?thesis using R by (intro exI [of _ "dispatch 2 k3"]) simp
qed

text \<open>
  The interrupt before the first switch: the kernel task and the new task are both marked running while the new one runs.
\<close>

theorem early_interrupt_marks_two:
  assumes "table_ok {0} k" "cur_proc k = Some 0" "callback (task k 0) = 0" "fst (scheduler 0 False k) = Some j"
  shows "\<exists>k'. (kernel_step env buf sighandler)\<^sup>*\<^sup>* (Sched True 0 False, k) (User, k') \<and> cur_proc k' = Some j \<and> j \<noteq> 0 \<and>
    state (task k' 0) = TASK_RUNNING \<and> state (task k' j) = TASK_RUNNING"
proof -
  let ?step = "kernel_step env buf sighandler"
  note len = table_ok_length [OF assms(1)]
  have j: "j < PROC_MAX" "runnable k j" using assms(4) by (auto simp: scheduler_eq find_upt_from split: option.splits if_splits)
  then have j0: "j \<noteq> 0" by (rule dispatch_ok(1) [OF assms(1), rotated])
  have z: "0 < PROC_MAX" by (simp add: PROC_MAX_def)
  define k1 where "k1 = set_task 0 ((task k 0)\<lparr>state := TASK_RUNABLE\<rparr>) k"
  define k2 where "k2 = set_task j ((task k1 j)\<lparr>state := TASK_RUNNING\<rparr>) k1"
  have t2: "length (proc k2) = PROC_MAX" "cur_proc k2 = Some 0" "state (task k2 j) = TASK_RUNNING" "state (task k2 0) = TASK_RUNABLE" "callback (task k2 0) = 0"
    using len j(1) j0 z assms(2,3) by (simp_all add: k1_def k2_def)
  define k3 where "k3 = set_task 0 ((task k2 0)\<lparr>state := TASK_RUNNING\<rparr>) (k2\<lparr>ticks := ticks k2 + 1\<rparr>)"
  have t3: "timer_handler sighandler k2 = Inr k3" using t2 by (simp add: timer_handler_def my_proc_def yield_def Let_def k3_def task_def)
  have "?step\<^sup>*\<^sup>* (Sched True 0 False, k) (Picked 0 j, k)" by (rule r_into_rtranclp, rule pick [OF assms(4)])
  also have "?step\<^sup>*\<^sup>* (Picked 0 j, k) (Picked 1 j, k1)" unfolding k1_def by (rule r_into_rtranclp, rule free_kernel)
  also have "?step\<^sup>*\<^sup>* (Picked 1 j, k1) (Picked 2 j, k2)" unfolding k2_def by (rule r_into_rtranclp, rule mark_task)
  also have "?step\<^sup>*\<^sup>* (Picked 2 j, k2) (Picked 2 j, k3)" by (rule r_into_rtranclp, rule early_timer [OF t3]) simp
  also have "?step\<^sup>*\<^sup>* (Picked 2 j, k3) (User, switch_to j k3)" by (rule r_into_rtranclp, rule first_switch)
  finally have "?step\<^sup>*\<^sup>* (Sched True 0 False, k) (User, switch_to j k3)" .
  moreover have "state (task (switch_to j k3) 0) = TASK_RUNNING" "state (task (switch_to j k3) j) = TASK_RUNNING"
    using t2 j0 z by (simp_all add: switch_to_def k3_def task_def set_task_def)
  ultimately show ?thesis using j0 by (intro exI [of _ "switch_to j k3"]) (simp add: switch_to_def)
qed


end
