(* ===== verification/Machine.thy ===== *)
theory Machine
  imports Syscall
begin

text \<open>
  The processor as the kernel programs it: the control registers of include/asm/cpu.h with the interrupt switch, the
  windows and walk parameters that mm/mm.c and mm/n_vm.c set up, the refill handler mm/tlb_entry.s, the context
  switch core/swtch.s and the trap entry and exit core/trap_entry.s. The instructions of the assembly files
  are modelled as docs/loongarch/mm.md and the architecture describe them. The theory shows that the hardware walk
  finds the entry that the software tables hold, that a task which is switched away continues with its registers,
  and with which registers a program continues behind a system call.
\<close>

section \<open>Definitions\<close>

text \<open>
  The control registers the kernel writes, and the buffer of translations: one entry for a pair of
  pages, under the number of the pair.
\<close>

record csrs =
  crmd :: u32
  euen :: u32
  trap_regs :: trap_csrs
  dmw0 :: u64
  dmw1 :: u64
  dmw2 :: u64
  stlbps :: u32
  asid :: u32
  pwcl :: u64
  pwch :: u64
  pgdl :: u64
  pgdh :: u64
  tlb :: "nat \<rightharpoonup> u64 \<times> u64"

subsection \<open>Interrupts\<close>

definition CSR_CRMD_IE :: u32 where "CSR_CRMD_IE = push_bit 2 1"

definition intr_get :: "csrs \<Rightarrow> bool" where
  "intr_get c \<longleftrightarrow> crmd c AND CSR_CRMD_IE \<noteq> 0"

definition intr_on :: "csrs \<Rightarrow> csrs" where
  "intr_on c = c\<lparr>crmd := crmd c OR CSR_CRMD_IE\<rparr>"

definition intr_off :: "csrs \<Rightarrow> csrs" where
  "intr_off c = c\<lparr>crmd := crmd c AND NOT CSR_CRMD_IE\<rparr>"

subsection \<open>Windows and translation parameters\<close>

definition VALEN :: nat where "VALEN = 48"
definition PALEN :: nat where "PALEN = 48"
definition UNCACHED_MEMORY_ADDR :: u64 where "UNCACHED_MEMORY_ADDR = 0x8000000000000000"

definition PHYS_TO_UNCACHED :: "u64 \<Rightarrow> u64" where
  "PHYS_TO_UNCACHED a = UNCACHED_MEMORY_ADDR OR a"

definition PHYS_TO_MAIN :: "u64 \<Rightarrow> u64" where
  "PHYS_TO_MAIN a = MAIN_KERNEL_DMW OR a"

definition MAT_SUC :: u8 where "MAT_SUC = 0"
definition MAT_CC :: u8 where "MAT_CC = 1"

definition DMW_PLV0 :: u8 where "DMW_PLV0 = 0x1"
definition DMW_PLV1 :: u8 where "DMW_PLV1 = 0x2"
definition DMW_PLV2 :: u8 where "DMW_PLV2 = 0x4"
definition DMW_PLV3 :: u8 where "DMW_PLV3 = 0x8"

definition get_dmw_data :: "u32 \<Rightarrow> u8 \<Rightarrow> u8 \<Rightarrow> u64" where
  "get_dmw_data base mat plv = push_bit VALEN (ucast base) OR push_bit 4 (ucast mat) OR ucast plv"

definition dmw_init :: "csrs \<Rightarrow> csrs" where
  "dmw_init c =
     (let plv = DMW_PLV0 OR DMW_PLV1 OR DMW_PLV2 OR DMW_PLV3 in
      c\<lparr>dmw0 := get_dmw_data 0x9000 MAT_CC plv, dmw1 := get_dmw_data 0xA000 MAT_CC plv, dmw2 := get_dmw_data 0x8000 MAT_SUC plv\<rparr>)"

definition invtlb_all :: "csrs \<Rightarrow> csrs" where
  "invtlb_all c = c\<lparr>tlb := Map.empty\<rparr>"

definition tlb_init :: "csrs \<Rightarrow> csrs" where
  "tlb_init c = (invtlb_all (c\<lparr>stlbps := 0xE\<rparr>))\<lparr>asid := 0\<rparr>"

definition DIR1BASE :: u64 where "DIR1BASE = 25"
definition DIR1WIDTH :: u64 where "DIR1WIDTH = 11"
definition DIR3BASE :: u64 where "DIR3BASE = 36"
definition DIR3WIDTH :: u64 where "DIR3WIDTH = 11"
definition PTBASE :: u64 where "PTBASE = 14"
definition PTWIDTH :: u64 where "PTWIDTH = 11"
definition DIR2BASE :: u64 where "DIR2BASE = 0"
definition DIR2WIDTH :: u64 where "DIR2WIDTH = 0"
definition DIR4WIDTH :: u64 where "DIR4WIDTH = 0"
definition PTEWIDTH :: u64 where "PTEWIDTH = 0"

lemmas walk_params = DIR1BASE_def DIR1WIDTH_def DIR3BASE_def DIR3WIDTH_def PTBASE_def PTWIDTH_def
  DIR2BASE_def DIR2WIDTH_def DIR4WIDTH_def PTEWIDTH_def

definition vm_init :: "csrs \<Rightarrow> csrs" where
  "vm_init c = c\<lparr>
     pwcl := push_bit 30 PTEWIDTH OR push_bit 25 DIR2WIDTH OR push_bit 20 DIR2BASE OR push_bit 15 DIR1WIDTH OR
       push_bit 10 DIR1BASE OR push_bit 5 PTWIDTH OR push_bit 0 PTBASE,
     pwch := push_bit 18 DIR4WIDTH OR push_bit 6 DIR3WIDTH OR push_bit 0 DIR3BASE\<rparr>"

text \<open>The registers that \<open>switch_to\<close> writes before it calls \<open>swtch\<close>.\<close>

definition switch_csrs :: "u64 \<Rightarrow> csrs \<Rightarrow> csrs" where
  "switch_csrs pt c = invtlb_all (c\<lparr>pgdl := pt\<rparr>)"

subsection \<open>Translation\<close>

text \<open>
  \<open>field\<close> reads a field of a parameter register. A physical address is the lower \<open>PALEN\<close> bits; kernel memory is
  named by its address in the first window. \<open>lddir\<close> takes the index of directory 1 or 3 from the address that missed, \<open>ldpte\<close> the
  index of the last level with the lowest bit replaced by \<open>seq\<close>. Large pages, which no entry of this kernel
  asks for, are left out.
\<close>

definition field :: "u64 \<Rightarrow> nat \<Rightarrow> nat \<Rightarrow> nat" where
  "field x pos width = unat (take_bit width (drop_bit pos x))"

definition va_index :: "u64 \<Rightarrow> nat \<Rightarrow> nat \<Rightarrow> u64" where
  "va_index va base width = take_bit width (drop_bit base va)"

definition phys_at :: "u64 \<Rightarrow> u64" where
  "phys_at p = PHYS_TO_MAIN (take_bit PALEN p)"

definition lddir :: "csrs \<Rightarrow> mem \<Rightarrow> u64 \<Rightarrow> u64 \<Rightarrow> nat \<Rightarrow> u64" where
  "lddir c m badv rj level =
     (let i = if level = 1 then va_index badv (field (pwcl c) 10 5) (field (pwcl c) 15 5)
              else va_index badv (field (pwch c) 0 6) (field (pwch c) 6 6) in
      load64 m (phys_at rj + 8 * i))"

definition ldpte :: "csrs \<Rightarrow> mem \<Rightarrow> u64 \<Rightarrow> u64 \<Rightarrow> nat \<Rightarrow> u64" where
  "ldpte c m badv rj seq =
     (let i = va_index badv (field (pwcl c) 0 5) (field (pwcl c) 5 5) in
      load64 m (phys_at rj + 8 * ((i AND NOT 1) OR of_nat seq)))"

definition va_pair :: "u64 \<Rightarrow> nat" where
  "va_pair va = unat (drop_bit 15 va)"

definition handle_tlbr :: "mem \<Rightarrow> u64 \<Rightarrow> csrs \<Rightarrow> csrs" where
  "handle_tlbr m badv c =
     (let pgd = if bit badv (VALEN - 1) then pgdh c else pgdl c;
          dir = lddir c m badv (lddir c m badv pgd 3) 1 in
      c\<lparr>tlb := (tlb c)(va_pair badv \<mapsto> (ldpte c m badv dir 0, ldpte c m badv dir 1))\<rparr>)"

text \<open>The entry that an access to \<open>va\<close> finds; without one in the buffer the refill handler runs first.\<close>

definition tlb_entry :: "csrs \<Rightarrow> u64 \<Rightarrow> u64 option" where
  "tlb_entry c va = map_option (\<lambda>(e0, e1). if bit va 14 then e1 else e0) (tlb c (va_pair va))"

definition access :: "mem \<Rightarrow> u64 \<Rightarrow> csrs \<Rightarrow> csrs" where
  "access m va c = (if tlb c (va_pair va) = None then handle_tlbr m va c else c)"

subsection \<open>Registers\<close>

type_synonym regs = "string \<Rightarrow> u64"

primrec save_regs :: "string list \<Rightarrow> u64 \<Rightarrow> regs \<Rightarrow> mem \<Rightarrow> mem" where
  "save_regs [] base g m = m"
| "save_regs (r # rs) base g m = save_regs rs base g (store64 m (base + place r) (g r))"

text \<open>A sequence of loads through the register \<open>b\<close>, which may be one of those that are loaded.\<close>

primrec load_regs :: "string list \<Rightarrow> string \<Rightarrow> mem \<Rightarrow> regs \<Rightarrow> regs" where
  "load_regs [] b m g = g"
| "load_regs (r # rs) b m g = load_regs rs b m (g(r := load64 m (g b + place r)))"

definition swtch :: "regs \<Rightarrow> mem \<Rightarrow> regs \<times> mem" where
  "swtch g m =
     (let m1 = save_regs context_regs (g ''a0'') g m in
      (load_regs (remove1 ''a1'' context_regs @ [''a1'']) ''a1'' m1 g, m1))"

text \<open>The registers of a trap: the general ones, and the two control registers that are saved with them.\<close>

record cpu =
  gpr :: regs
  prmd :: u64
  era :: u64

definition trap_entry :: "u64 \<Rightarrow> cpu \<Rightarrow> kernel \<Rightarrow> cpu \<times> kernel" where
  "trap_entry cur_sp_addr c k =
     (let sp = gpr c ''sp'' - 320;
          m1 = save_regs (remove1 ''sp'' context_regs) sp (gpr c) (kmem k);
          m2 = store64 m1 (sp + place ''prmd'') (prmd c);
          m3 = store64 m2 (sp + place ''era'') (era c);
          m4 = store64 m3 (sp + place ''sp'') (sp + 320) in
      (c\<lparr>gpr := (gpr c)(''sp'' := sp, ''t0'' := era c, ''a0'' := cur_sp_addr)\<rparr>,
       k\<lparr>heap := (heap k)\<lparr>hmm := (hmm (heap k))\<lparr>mem := m4\<rparr>\<rparr>, cur_sp := sp\<rparr>))"

definition trap_exit :: "cpu \<Rightarrow> kernel \<Rightarrow> cpu" where
  "trap_exit c k =
     (let sp = gpr c ''sp'' in
      c\<lparr>prmd := load64 (kmem k) (sp + place ''prmd''), era := load64 (kmem k) (sp + place ''era''),
        gpr := load_regs (remove1 ''sp'' (remove1 ''tp'' context_regs) @ [''sp'']) ''sp'' (kmem k) (gpr c)\<rparr>)"

subsection \<open>Power\<close>

definition PMC_BASE :: u64 where "PMC_BASE = PHYS_TO_UNCACHED 0x1fe27000"
definition POWEROFF_ADDR :: u64 where "POWEROFF_ADDR = PMC_BASE + 0x14"
definition POWEROFF_MASK :: nat where "POWEROFF_MASK = 0x3c00"

text \<open>\<open>shutdown\<close>: the 16 bits it writes to the power controller.\<close>

definition shutdown :: "mem \<Rightarrow> mem" where
  "shutdown m = write_bytes m POWEROFF_ADDR (le_bytes 2 POWEROFF_MASK)"

text \<open>A processor after reset.\<close>

definition reset_csrs :: csrs where
  "reset_csrs = \<lparr>crmd = 8, euen = 0, trap_regs = \<lparr>csr_ecfg = 0, csr_eentry = 0, csr_tlbrentry = 0, csr_tcfg = 0\<rparr>, dmw0 = 0, dmw1 = 0,
     dmw2 = 0, stlbps = 0, asid = 0, pwcl = 0, pwch = 0, pgdl = 0, pgdh = 0, tlb = Map.empty\<rparr>"

section \<open>Saved registers\<close>

lemma word_slot:
  assumes "in_region (base + of_nat (8 * i)) 8 x" "i < 1000"
  shows "unat (x - base) div 8 = i"
proof -
  let ?e = "unat (x - (base + of_nat (8 * i)))"
  have e: "?e < 8" using assms(1) by (simp add: in_region_def)
  have "of_nat (8 * i + ?e) = (of_nat (8 * i) :: u64) + of_nat ?e" by (rule of_nat_add)
  also have "\<dots> = x - base" by (simp only: of_nat_unat ucast_id) simp
  finally have "x - base = of_nat (8 * i + ?e)" by simp
  then have "unat (x - base) = 8 * i + ?e" using e assms(2) by (simp only: unat_of_nat_64)
  then show ?thesis using e by simp
qed

definition reg_no :: "string \<Rightarrow> nat" where
  "reg_no r = length (takeWhile (\<lambda>x. x \<noteq> r) trapframe_regs)"

lemma place_reg_no: "place r = of_nat (8 * reg_no r)"
  by (simp add: place_def reg_no_def)

lemma reg_no_lt: "reg_no r < 1000"
  using length_takeWhile_le [of "\<lambda>x. x \<noteq> r" trapframe_regs] by (simp add: reg_no_def trapframe_regs_def context_regs_def)

lemma reg_no_nth: "r \<in> set trapframe_regs \<Longrightarrow> trapframe_regs ! reg_no r = r"
proof -
  assume "r \<in> set trapframe_regs"
  then have "takeWhile (\<lambda>x. x \<noteq> r) trapframe_regs \<noteq> trapframe_regs" by (auto simp: takeWhile_eq_all_conv)
  then have "reg_no r < length trapframe_regs"
    unfolding reg_no_def by (metis length_takeWhile_le nat_less_le takeWhile_eq_take take_all_iff)
  then show ?thesis using nth_length_takeWhile [of "\<lambda>x. x \<noteq> r" trapframe_regs] by (simp add: reg_no_def)
qed

lemma reg_no_context: "r \<in> set context_regs \<Longrightarrow> reg_no r < 31"
proof -
  assume "r \<in> set context_regs"
  then have "takeWhile (\<lambda>x. x \<noteq> r) trapframe_regs = takeWhile (\<lambda>x. x \<noteq> r) context_regs"
    unfolding trapframe_regs_def by (intro takeWhile_append1) auto
  moreover have "length (takeWhile (\<lambda>x. x \<noteq> r) context_regs) < length context_regs"
  proof -
    have "takeWhile (\<lambda>x. x \<noteq> r) context_regs \<noteq> context_regs" using \<open>r \<in> set context_regs\<close> by (auto simp: takeWhile_eq_all_conv)
    then show ?thesis by (metis length_takeWhile_le nat_less_le takeWhile_eq_take take_all_iff)
  qed
  moreover have "length context_regs = 31" by (simp add: context_regs_def)
  ultimately show ?thesis by (simp add: reg_no_def)
qed

lemma load_store_reg:
  assumes "r \<in> set trapframe_regs" "r' \<in> set trapframe_regs"
  shows "load64 (store64 m (base + place r') v) (base + place r) = (if r = r' then v else load64 m (base + place r))"
proof (cases "r = r'")
  case False
  have "reg_no r \<noteq> reg_no r'" using reg_no_nth assms False by metis
  then have "load64 (store64 m (base + place r') v) (base + place r) = load64 m (base + place r)"
    by (intro load64_store64_disjoint) (metis place_reg_no reg_no_lt word_slot)
  then show ?thesis using False by simp
qed simp

lemma load_save_regs:
  assumes "r \<in> set trapframe_regs" "set rs \<subseteq> set trapframe_regs"
  shows "load64 (save_regs rs base g m) (base + place r) = (if r \<in> set rs then g r else load64 m (base + place r))"
  using assms(2)
proof (induction rs arbitrary: m)
  case (Cons q rs)
  then show ?case by (simp add: load_store_reg assms(1))
qed simp

lemma save_regs_out:
  assumes "set rs \<subseteq> set context_regs" "\<not> in_region base 248 x"
  shows "save_regs rs base g m x = m x"
  using assms(1)
proof (induction rs arbitrary: m)
  case (Cons q rs)
  have "\<not> in_region (base + place q) 8 x"
  proof
    assume a: "in_region (base + place q) 8 x"
    have "unat (x - base) div 8 = reg_no q" by (rule word_slot) (use a place_reg_no reg_no_lt in metis)+
    then have "unat (x - base) div 8 < 31" using reg_no_context Cons.prems by simp
    then show False using assms(2) by (simp add: in_region_def)
  qed
  then show ?case using Cons by (simp add: store64_out)
qed simp

lemma load_regs_other: "r \<notin> set rs \<Longrightarrow> load_regs rs b m g r = g r"
  by (induction rs arbitrary: g) auto

lemma load_regs_eq:
  assumes "b \<notin> set rs"
  shows "load_regs (rs @ [b]) b m g r = (if r \<in> set rs \<or> r = b then load64 m (g b + place r) else g r)"
  using assms
proof (induction rs arbitrary: g)
  case (Cons q rs)
  then show ?case by simp
qed simp

lemma context_regs_distinct: "distinct context_regs" by (simp add: context_regs_def)

lemma set_remove1_context: "set (remove1 r context_regs) = set context_regs - {r}"
  by (rule set_remove1_eq [OF context_regs_distinct])

lemma context_in_trapframe: "set context_regs \<subseteq> set trapframe_regs"
  by (auto simp: trapframe_regs_def)

lemma swtch_saves:
  assumes "swtch g m = (g1, m1)"
  shows "r \<in> set context_regs \<Longrightarrow> load64 m1 (g ''a0'' + place r) = g r"
    and "r \<in> set context_regs \<Longrightarrow> g1 r = load64 m1 (g ''a1'' + place r)"
    and "\<not> in_region (g ''a0'') 248 x \<Longrightarrow> m1 x = m x"
proof -
  have m1: "m1 = save_regs context_regs (g ''a0'') g m"
    and g1: "g1 = load_regs (remove1 ''a1'' context_regs @ [''a1'']) ''a1'' m1 g"
    using assms by (auto simp: swtch_def Let_def)
  show "load64 m1 (g ''a0'' + place r) = g r" if "r \<in> set context_regs"
    using that load_save_regs [OF subsetD [OF context_in_trapframe that] context_in_trapframe] by (simp add: m1)
  have "''a1'' \<notin> set (remove1 ''a1'' context_regs)" by (simp add: set_remove1_context)
  from load_regs_eq [OF this] show "g1 r = load64 m1 (g ''a1'' + place r)" if "r \<in> set context_regs"
    using that by (auto simp: g1 set_remove1_context)
  show "m1 x = m x" if "\<not> in_region (g ''a0'') 248 x" using that by (simp add: m1 save_regs_out)
qed

lemma in_context:
  assumes "in_region (base + place r) 8 x" "r \<in> set context_regs"
  shows "in_region base 248 x"
proof -
  have "unat (x - base) div 8 = reg_no r" by (rule word_slot) (use assms place_reg_no reg_no_lt in metis)+
  then show ?thesis using reg_no_context [OF assms(2)] by (simp add: in_region_def)
qed

text \<open>The frame that a trap leaves on the stack, and what the way out makes of it.\<close>

lemma kmem_store64: "kmem (poke a (le_bytes 8 (unat v)) k) = store64 (kmem k) a v"
  by (simp add: kmem_poke store64_def)

lemma special_places: "''prmd'' \<in> set trapframe_regs" "''era'' \<in> set trapframe_regs" "''sp'' \<in> set trapframe_regs" "''a0'' \<in> set trapframe_regs"
    "''prmd'' \<notin> set context_regs" "''era'' \<notin> set context_regs" "''sp'' \<in> set context_regs"
  by (simp_all add: trapframe_regs_def context_regs_def)

lemma trap_entry_frame:
  assumes "trap_entry a c k = (c1, k1)"
  shows "cur_sp k1 = gpr c1 ''sp''"
    and "r \<in> set context_regs \<Longrightarrow> load64 (kmem k1) (cur_sp k1 + place r) = gpr c r"
    and "load64 (kmem k1) (cur_sp k1 + place ''prmd'') = prmd c"
    and "load64 (kmem k1) (cur_sp k1 + place ''era'') = era c"
proof -
  let ?sp = "gpr c ''sp'' - 320"
  have k1: "cur_sp k1 = ?sp" "kmem k1 = store64 (store64 (store64 (save_regs (remove1 ''sp'' context_regs) ?sp (gpr c) (kmem k))
      (?sp + place ''prmd'') (prmd c)) (?sp + place ''era'') (era c)) (?sp + place ''sp'') (?sp + 320)"
    and c1: "gpr c1 ''sp'' = ?sp"
    using assms by (auto simp: trap_entry_def Let_def kmem_def)
  show "cur_sp k1 = gpr c1 ''sp''" by (simp add: k1 c1)
  have sub: "set (remove1 ''sp'' context_regs) \<subseteq> set trapframe_regs" using context_in_trapframe by (auto simp: set_remove1_context)
  note frame = load_store_reg load_save_regs [OF _ sub] special_places
  show "load64 (kmem k1) (cur_sp k1 + place r) = gpr c r" if "r \<in> set context_regs"
    using that subsetD [OF context_in_trapframe that] special_places by (auto simp: k1 frame set_remove1_context simp del: place_simps)
  show "load64 (kmem k1) (cur_sp k1 + place ''prmd'') = prmd c" "load64 (kmem k1) (cur_sp k1 + place ''era'') = era c"
    by (simp_all add: k1 frame del: place_simps)
qed

lemma trap_exit_regs:
  "r \<in> set context_regs - {''tp''} \<Longrightarrow> gpr (trap_exit c k) r = load64 (kmem k) (gpr c ''sp'' + place r)"
proof -
  assume r: "r \<in> set context_regs - {''tp''}"
  let ?rs = "remove1 ''sp'' (remove1 ''tp'' context_regs)"
  have "set ?rs = set context_regs - {''tp'', ''sp''}"
    using set_remove1_eq [of "remove1 ''tp'' context_regs"] context_regs_distinct by (auto simp: set_remove1_context)
  then show ?thesis using r load_regs_eq [of "''sp''" ?rs] by (auto simp: trap_exit_def Let_def)
qed

lemma frame_cong:
  assumes "\<forall>x. in_region base 264 x \<longrightarrow> m x = m' x" "r \<in> set trapframe_regs"
  shows "load64 m (base + place r) = load64 m' (base + place r)"
proof (rule load64_cong)
  fix x assume a: "in_region (base + place r) 8 x"
  have "unat (x - base) div 8 = reg_no r" by (rule word_slot) (use a place_reg_no reg_no_lt in metis)+
  moreover have "reg_no r < 33"
    using reg_no_context assms(2) by (auto simp: trapframe_regs_def reg_no_def context_regs_def)
  ultimately show "m x = m' x" using assms(1) by (simp add: in_region_def)
qed

section \<open>The walk of the hardware\<close>

lemma walk_index:
  "field (pwcl (vm_init c)) 0 5 = 14" "field (pwcl (vm_init c)) 5 5 = 11"
  "field (pwcl (vm_init c)) 10 5 = 25" "field (pwcl (vm_init c)) 15 5 = 11"
  "field (pwch (vm_init c)) 0 6 = 36" "field (pwch (vm_init c)) 6 6 = 11"
  by (simp_all add: vm_init_def field_def walk_params)

lemma va_index_PX: "va_index va (PXSHIFT l) 11 = PX l va"
  by (simp add: va_index_def PX_def take_bit_eq_mask mask_eq_exp_minus_1)

text \<open>Kernel pages lie in the first window, below the end of memory.\<close>

lemma phys_at_kernel:
  assumes "KERNBASE \<le> t" "t < PHYSTOP"
  shows "phys_at t = t"
proof -
  have b: "unat KERNBASE \<le> unat t" "unat t < unat PHYSTOP" using assms by (simp_all add: word_le_nat_alt word_less_nat_alt)
  have n: "9 * 2 ^ 60 \<le> unat t" "unat t < 9 * 2 ^ 60 + 2 ^ 48"
    using b by (simp_all add: KERNBASE_def PHYSTOP_def KMEMSIZE_def)
  define x where "x = unat t - 9 * 2 ^ 60"
  have x: "unat t = 9 * 2 ^ 60 + x" "x < 2 ^ 48" using n by (simp_all add: x_def)
  have t: "t = MAIN_KERNEL_DMW + of_nat x"
    by (rule word_unat_eq_iff [THEN iffD2]) (use x in \<open>simp add: MAIN_KERNEL_DMW_def unat_word_ariths\<close>)
  have "unat t = x + 36864 * 2 ^ 48" using x(1) by simp
  then have "unat t mod 2 ^ 48 = x" using x(2) by (metis mod_less mod_mult_self1)
  then have "unat (take_bit 48 t) = x" by (simp add: unsigned_take_bit_eq take_bit_nat_def)
  then have tb: "take_bit 48 t = of_nat x" by (metis of_nat_unat ucast_id)
  have "bit MAIN_KERNEL_DMW j \<Longrightarrow> \<not> bit (take_bit 48 t) j" for j
  proof
    assume a: "bit MAIN_KERNEL_DMW j" "bit (take_bit 48 t) j"
    have "MAIN_KERNEL_DMW = push_bit 60 9" by (simp add: MAIN_KERNEL_DMW_def)
    then have "bit (push_bit 60 9 :: u64) j" using a(1) by metis
    then have "60 \<le> j" unfolding bit_push_bit_iff by blast
    then show False using a(2) by (simp add: bit_simps)
  qed
  then have "MAIN_KERNEL_DMW AND take_bit 48 t = 0" by (intro bit_word_eqI) (auto simp: bit_and_iff)
  then have "MAIN_KERNEL_DMW OR take_bit 48 t = MAIN_KERNEL_DMW + take_bit 48 t" by (rule disjunctive_add_eq_or [symmetric])
  then show ?thesis unfolding phys_at_def PHYS_TO_MAIN_def PALEN_def using tb t by metis
qed

text \<open>Addresses of one pair of pages agree above the lowest bit of the page number.\<close>

lemma va_pair_bit: "va_pair v = va_pair va \<Longrightarrow> 15 \<le> n \<Longrightarrow> bit v n = bit va n"
proof -
  assume p: "va_pair v = va_pair va" and n: "15 \<le> n"
  then have "drop_bit 15 v = drop_bit 15 va" by (simp add: va_pair_def word_unat_eq_iff)
  then have "bit (drop_bit 15 v) (n - 15) = bit (drop_bit 15 va) (n - 15)" by simp
  then show ?thesis using n by (simp add: bit_simps)
qed

lemma va_pair_PX:
  assumes "va_pair v = va_pair va"
  shows "0 < l \<Longrightarrow> PX l v = PX l va"
    and "(PX 0 v AND NOT 1) OR of_nat (if bit va 14 then 1 else 0) = PX 0 va"
proof -
  show "PX l v = PX l va" if "0 < l"
    by (rule bit_word_eqI) (use that va_pair_bit [OF assms] in \<open>auto simp: va_index_PX [symmetric] va_index_def bit_simps PXSHIFT_def\<close>)
  show "(PX 0 v AND NOT 1) OR of_nat (if bit va 14 then 1 else 0) = PX 0 va"
  proof (rule bit_word_eqI)
    fix n assume "n < LENGTH(64)"
    show "bit ((PX 0 v AND NOT 1) OR of_nat (if bit va 14 then 1 else 0)) n = bit (PX 0 va) n"
      using va_pair_bit [OF assms, of "14 + n"]
      by (cases n) (auto simp: va_index_PX [symmetric] va_index_def bit_simps PXSHIFT_def bit_1_iff)
  qed
qed

text \<open>The buffer holds only what the tables hold, as far as their directories reach.\<close>

definition tlb_ok :: "csrs \<Rightarrow> mem \<Rightarrow> u64 \<Rightarrow> pt_tree \<Rightarrow> bool" where
  "tlb_ok c m r T \<longleftrightarrow> pgdl c = r \<and> pwcl c = pwcl (vm_init c) \<and> pwch c = pwch (vm_init c) \<and>
     (\<forall>va < MAXVA. vpath 2 va \<in> dom T \<longrightarrow> tlb_entry c va = None \<or> tlb_entry c va = Some (pte_of m T va))"

lemma refill_loads:
  assumes "pt_wf m r T" "\<forall>t\<in>ran T. KERNBASE \<le> t \<and> t < PHYSTOP"
    and c: "pgdl c = r" "pwcl c = pwcl (vm_init c)" "pwch c = pwch (vm_init c)"
    and va: "va < MAXVA" "vpath 2 va \<in> dom T" "va_pair v = va_pair va"
  shows "tlb_entry (handle_tlbr m v c) va = Some (pte_of m T va)"
proof -
  obtain t where t: "T [idx 2 va, idx 1 va] = Some t" using va(2) by (auto simp: numeral_2_eq_2)
  obtain d where d: "T [idx 2 va] = Some d"
    using pt_wfD(2) [OF assms(1), of "[idx 2 va]" "idx 1 va" t] t by auto
  have r: "T [] = Some r" by (rule pt_wfD(1) [OF assms(1)])
  have k: "phys_at u = u" if "T p = Some u" for p u
    by (rule phys_at_kernel) (use that assms(2) ranI in \<open>metis (no_types)\<close>)+
  have l2: "load64 m (ent r (idx 2 va)) = d" using pt_wfD(5) [OF assms(1) r, of "idx 2 va"] d by simp
  have l1: "load64 m (ent d (idx 1 va)) = t" using pt_wfD(5) [OF assms(1) d, of "idx 1 va"] t by simp
  have "unat va < 2 ^ 47" using va(1) by (simp add: MAXVA_def word_less_nat_alt)
  then have "\<not> bit (unat va) 47" by (simp add: bit_nat_def)
  then have hi: "\<not> bit v (VALEN - 1)" using va_pair_bit [OF va(3), of 47] by (simp add: VALEN_def bit_unsigned_iff)
  have px: "va_index v 36 11 = PX 2 va" "va_index v 25 11 = PX 1 va" "va_index v 14 11 = PX 0 v"
    using va_index_PX [of v 2] va_index_PX [of v 1] va_index_PX [of v 0] va_pair_PX(1) [OF va(3)] by (simp_all add: PXSHIFT_def)
  have "lddir c m v (lddir c m v (if bit v (VALEN - 1) then pgdh c else pgdl c) 3) 1 = t"
    using l1 l2 hi by (simp add: lddir_def c walk_index px k [OF r] k [OF d] entry_addr)
  moreover have "ldpte c m v t (if bit va 14 then 1 else 0) = load64 m (ent t (idx 0 va))"
    by (simp only: ldpte_def c walk_index px k [OF t] Let_def va_pair_PX(2) [OF va(3)] entry_addr)
  ultimately show ?thesis using t va(3)
    by (cases "bit va 14") (simp_all add: tlb_entry_def handle_tlbr_def Let_def pte_of_def numeral_2_eq_2)
qed

lemma access_regs [simp]: "pgdl (access m v c) = pgdl c" "pwcl (access m v c) = pwcl c" "pwch (access m v c) = pwch c"
  by (simp_all add: access_def handle_tlbr_def Let_def)

lemma access_keeps:
  assumes "pt_wf m r T" "\<forall>t\<in>ran T. KERNBASE \<le> t \<and> t < PHYSTOP" "tlb_ok c m r T"
  shows "tlb_ok (access m v c) m r T"
    and "va < MAXVA \<Longrightarrow> vpath 2 va \<in> dom T \<Longrightarrow> tlb_entry (access m va c) va = Some (pte_of m T va)"
proof -
  have c: "pgdl c = r" "pwcl c = pwcl (vm_init c)" "pwch c = pwch (vm_init c)" using assms(3) by (simp_all add: tlb_ok_def)
  note refill = refill_loads [OF assms(1,2) c]
  have old: "tlb_entry c va = None \<or> tlb_entry c va = Some (pte_of m T va)" if "va < MAXVA" "vpath 2 va \<in> dom T" for va
    using that assms(3) by (simp add: tlb_ok_def)
  have p: "pwcl (vm_init d) = pwcl (vm_init c)" "pwch (vm_init d) = pwch (vm_init c)" for d by (simp_all add: vm_init_def)
  have "tlb_entry (access m v c) va = None \<or> tlb_entry (access m v c) va = Some (pte_of m T va)"
    if "va < MAXVA" "vpath 2 va \<in> dom T" for va
  proof (cases "tlb c (va_pair v) = None \<and> va_pair v = va_pair va")
    case True
    then have "tlb c (va_pair v) = None" "va_pair v = va_pair va" by blast+
    then show ?thesis using refill [OF that, of v] unfolding access_def by metis
  next
    case False
    then have "tlb_entry (access m v c) va = tlb_entry c va"
      by (auto simp: access_def handle_tlbr_def Let_def tlb_entry_def)
    then show ?thesis using old [OF that] by simp
  qed
  then show "tlb_ok (access m v c) m r T" unfolding tlb_ok_def access_regs using c p by metis
  show "tlb_entry (access m va c) va = Some (pte_of m T va)" if "va < MAXVA" "vpath 2 va \<in> dom T"
  proof (cases "tlb c (va_pair va)")
    case None
    then show ?thesis using refill [OF that refl] by (simp add: access_def)
  next
    case (Some e)
    then show ?thesis using old [OF that] by (simp add: access_def tlb_entry_def)
  qed
qed

lemma switched_tlb_ok: "tlb_ok (switch_csrs r (vm_init c)) m r T"
  by (simp add: tlb_ok_def switch_csrs_def invtlb_all_def tlb_entry_def vm_init_def)

lemma accesses_keep:
  assumes "pt_wf m r T" "\<forall>t\<in>ran T. KERNBASE \<le> t \<and> t < PHYSTOP" "tlb_ok c m r T"
  shows "tlb_ok (fold (access m) vs c) m r T"
  using assms(3) by (induction vs arbitrary: c) (simp_all add: access_keeps(1) [OF assms(1,2)])

lemma aligned_add_less:
  fixes n k p :: nat
  assumes "n < p" "n mod 16384 = 0" "p mod 16384 = 0" "k < 16384"
  shows "n + k < p"
proof -
  obtain i j where "n = 16384 * i" "p = 16384 * j" using assms(2,3) by (meson dvd_def mod_0_imp_dvd)
  then show ?thesis using assms(1,4) by simp
qed

text \<open>A page of the allocator, as the entry of a table and through the window of the kernel.\<close>

lemma phys_at_frame:
  assumes "dmw_page f" "KERNBASE \<le> f" "f < PHYSTOP" "x < PGSIZE"
  shows "phys_at (PTE2PA f + x) = f + x" "in_page f (f + x)"
proof -
  note D = dmw_pageD [OF assms(1)]
  have "PA2VA (PTE2PA f) = PTE2PA f + MAIN_KERNEL_DMW" by (rule PA2VA_add(1)) (use PTE2PA_unat [of f] in simp_all)
  then have f: "f = PTE2PA f + MAIN_KERNEL_DMW" using D(2) by simp
  have "take_bit 48 (y + MAIN_KERNEL_DMW) = take_bit 48 y" for y :: u64
  proof (rule word_unat_eq_iff [THEN iffD2])
    have "(unat y + 36864 * 2 ^ 48) mod 2 ^ 64 mod 2 ^ 48 = unat y mod (2 ^ 48 :: nat)"
      by (simp only: mod_mod_cancel le_imp_power_dvd mod_mult_self1)
    then show "unat (take_bit 48 (y + MAIN_KERNEL_DMW)) = unat (take_bit 48 y)"
      by (simp add: unsigned_take_bit_eq take_bit_nat_def unat_word_ariths MAIN_KERNEL_DMW_def)
  qed
  from this [of "PTE2PA f + x"] have "take_bit 48 (PTE2PA f + x) = take_bit 48 (f + x)" by (subst (2) f) (simp add: ac_simps)
  then have p: "phys_at (PTE2PA f + x) = phys_at (f + x)" by (simp add: phys_at_def PALEN_def)
  have o: "unat x < 16384" using assms(4) by (simp add: PGSIZE_def word_less_nat_alt)
  have P: "unat PHYSTOP mod 16384 = 0" "unat PHYSTOP + 16384 < 2 ^ 64" by (simp_all add: PHYSTOP_def KERNBASE_def KMEMSIZE_def)
  have "unat f < unat PHYSTOP" "unat f mod 16384 = 0" using assms(3) D(1) by (simp_all add: word_less_nat_alt page_aligned_def)
  then have lt: "unat f + unat x < unat PHYSTOP" using P(1) o by (rule aligned_add_less)
  then have "unat (f + x) = unat f + unat x" using P(2) by (subst unat_plus_64) simp_all
  then have "KERNBASE \<le> f + x" "f + x < PHYSTOP" using lt assms(2) by (simp_all add: word_le_nat_alt word_less_nat_alt)
  then show "phys_at (PTE2PA f + x) = f + x" using p phys_at_kernel by simp
  show "in_page f (f + x)" using o by (simp add: in_page_def in_region_def)
qed

text \<open>A table with one page mapped, whose neighbour is free.\<close>

lemma sample_mapped:
  obtains s T xs where "as_inv s (KERNBASE + 98304) T xs" "2 \<le> length xs" "\<forall>t\<in>ran T. KERNBASE \<le> t \<and> t < PHYSTOP"
    "vpath 2 0xC000 \<in> dom T" "pte_of (mem s) T 0xC000 = 0" "pte_of (mem s) T 0x8000 = 0x80001"
proof -
  let ?r = "KERNBASE + 98304" and ?xs = "rev (page_run KERNBASE 6)"
  obtain s where s: "as_inv s ?r [[] \<mapsto> ?r] ?xs" "\<forall>va. pte_of (mem s) [[] \<mapsto> ?r] va = 0"
    using sample_table [of 6] by auto
  have l: "length ?xs = 6" by (simp add: page_run_def)
  then have "2 \<le> length ?xs" by simp
  from map_single_page_ok [OF s(1) this, of "0x8000" "0x80000" 1]
  obtain s' T' zs where M: "as_inv s' ?r T' (drop (length zs) ?xs)" "zs = take (length zs) ?xs" "length zs \<le> 2"
    "ran T' = ran ([[] \<mapsto> ?r] :: pt_tree) \<union> set zs"
    "\<forall>va'. pte_of (mem s') T' va' = (if vpn va' = vpn 0x8000 then PA2PTE 0x80000 OR PTE_FLAGS 0 OR 1 else 0)"
    unfolding s(2) [rule_format] by (elim exE conjE) (rule that)
  have p: "pte_of (mem s') T' 0xC000 = 0" "pte_of (mem s') T' 0x8000 = 0x80001"
    using M(5) by (simp_all add: vpn_def PA2PTE_def PTE_FLAGS_def PAMASK_def)
  have "vpath 2 0xC000 = vpath 2 0x8000" by (simp add: vpath_2 idx_eq PXSHIFT_def)
  then have d: "vpath 2 0xC000 \<in> dom T'" using p(2) by (auto simp: pte_of_def split: option.splits)
  have "KERNBASE \<le> t \<and> t < PHYSTOP" if "t \<in> ran T'" for t
  proof -
    have "t = ?r \<or> t \<in> set ?xs" using that M(2,4) in_set_takeD [of t "length zs" ?xs] by auto
    then show ?thesis
      by (auto simp: page_run_def KERNBASE_def PHYSTOP_def KMEMSIZE_def word_le_nat_alt word_less_nat_alt upt_rec)
  qed
  then show thesis using that [OF M(1) _ _ d p] l M(3) by simp
qed

section \<open>Properties\<close>

text \<open>
  C10: the walk parameters that \<open>vm_init\<close> sets make the hardware read the tables as the kernel does: after a switch to a task, whatever addresses
  it has touched before, an access to an address whose directories exist finds the entry from which \<open>va_to_pa\<close> computes its result.
\<close>

theorem hardware_sees_tables:
  assumes "as_inv s r T xs" and "\<forall>t\<in>ran T. KERNBASE \<le> t \<and> t < PHYSTOP" and "va < MAXVA" and "vpath 2 va \<in> dom T"
  shows "\<exists>e. tlb_entry (access (mem s) va (fold (access (mem s)) vs (switch_csrs r (vm_init c)))) va = Some e \<and>
    va_to_pa r va s = Inr (if e AND PTE_V = 0 then 0 else PTE2PA e + va mod PGSIZE)"
proof -
  note wf = as_invD(2) [OF assms(1)]
  have "tlb_entry (access (mem s) va (fold (access (mem s)) vs (switch_csrs r (vm_init c)))) va = Some (pte_of (mem s) T va)"
    by (rule access_keeps(2) [OF wf assms(2) accesses_keep [OF wf assms(2) switched_tlb_ok] assms(3,4)])
  then show ?thesis using user_va [OF assms(3)] by (simp add: va_to_pa_eq [OF wf])
qed

theorem hardware_sees_tables_witness:
  "\<exists>s e. tlb_entry (access (mem s) 0x8010 (fold (access (mem s)) [0x123456, 0xC000] (switch_csrs (KERNBASE + 98304) (vm_init reset_csrs)))) 0x8010 =
       Some e \<and> PTE2PA e = 0x80000 \<and> va_to_pa (KERNBASE + 98304) 0x8010 s = Inr 0x80010"
proof -
  obtain s T xs where s: "as_inv s (KERNBASE + 98304) T xs" "\<forall>t\<in>ran T. KERNBASE \<le> t \<and> t < PHYSTOP"
    "vpath 2 0xC000 \<in> dom T" "pte_of (mem s) T 0x8000 = 0x80001"
    by (rule sample_mapped)
  have v: "vpath 2 0xC000 = vpath 2 0x8010" "vpath 2 0x8000 = vpath 2 0x8010" "idx 0 0x8000 = idx 0 0x8010"
    by (simp_all add: vpath_2 idx_eq PXSHIFT_def)
  have mx: "(0x8010 :: u64) < MAXVA" by (simp add: MAXVA_def)
  have "pte_of (mem s) T 0x8010 = 0x80001" using s(4) unfolding pte_of_def v(2) v(3) [symmetric] .
  then have p: "va_to_pa (KERNBASE + 98304) 0x8010 s = Inr 0x80010"
    using user_va [OF mx] by (simp add: va_to_pa_eq [OF as_invD(2) [OF s(1)]] PTE_V_def PTE2PA_def PAMASK_def PGSIZE_def)
  have "vpath 2 0x8010 \<in> dom T" using s(3) v(1) by metis
  from hardware_sees_tables [OF s(1,2) mx this, of "[0x123456, 0xC000]" reset_csrs]
  obtain e where e: "tlb_entry (access (mem s) 0x8010 (fold (access (mem s)) [0x123456, 0xC000] (switch_csrs (KERNBASE + 98304) (vm_init reset_csrs)))) 0x8010 =
       Some e" "va_to_pa (KERNBASE + 98304) 0x8010 s = Inr (if e AND PTE_V = 0 then 0 else PTE2PA e + 0x8010 mod PGSIZE)"
    by blast
  have "PTE2PA e + 16 = 0x80000 + 16" using e(2) p by (auto simp: PGSIZE_def split: if_splits)
  then show ?thesis using e(1) p by (metis add_right_imp_eq)
qed

text \<open>
  C34: mapping a page does not reach a program that has touched the neighbouring page: the buffer keeps the invalid entry of the pair, although
  the tables translate the page.
\<close>

theorem cached_pair_hides_mapping:
  assumes "as_inv s r T xs" and "\<forall>t\<in>ran T. KERNBASE \<le> t \<and> t < PHYSTOP" and "2 \<le> length xs"
    and "va < MAXVA" and "vpath 2 va \<in> dom T" and "pte_of (mem s) T va AND PTE_V = 0"
    and "va_pair va0 = va_pair va" and "perm AND PAMASK = 0" and "perm AND PTE_V \<noteq> 0"
  shows "\<exists>s' e. map_single_page r va pa perm s = Inr (0, s') \<and> va_to_pa r va s' = Inr (PTE2PA pa + va mod PGSIZE) \<and>
    tlb_entry (access (mem s') va (access (mem s) va0 (switch_csrs r (vm_init c)))) va = Some e \<and> e AND PTE_V = 0"
proof -
  note wf = as_invD(2) [OF assms(1)]
  let ?c = "switch_csrs r (vm_init c)"
  obtain s' T' and zs :: "u64 list" where M: "map_single_page r va pa perm s = Inr (0, s')" "as_inv s' r T' (drop (length zs) xs)"
    "\<forall>va'. pte_of (mem s') T' va' = (if vpn va' = vpn va
       then PA2PTE pa OR PTE_FLAGS (pte_of (mem s) T va) OR perm else pte_of (mem s) T va')"
    using map_single_page_ok [OF assms(1,3), of va pa perm] by blast
  have "va_to_pa r va s' = Inr (PTE2PA pa + va mod PGSIZE)"
    using new_pte [OF assms(8,9)] user_va [OF assms(4)] by (simp add: va_to_pa_eq [OF as_invD(2) [OF M(2)]] M(3))
  moreover have "tlb ?c (va_pair va0) = None" by (simp add: switch_csrs_def invtlb_all_def)
  then have "tlb_entry (access (mem s) va0 ?c) va = Some (pte_of (mem s) T va)"
    using refill_loads [OF wf assms(2) _ _ _ assms(4,5,7), of ?c] switched_tlb_ok [of r c "mem s" T]
    by (simp add: access_def tlb_ok_def)
  then have "tlb_entry (access m va (access (mem s) va0 ?c)) va = Some (pte_of (mem s) T va)" for m
    by (auto simp: access_def [of m] tlb_entry_def)
  ultimately show ?thesis using M(1) assms(6) by blast
qed

theorem cached_pair_hides_mapping_witness:
  "\<exists>s s' e. map_single_page (KERNBASE + 98304) 0xC000 0x90000 1 s = Inr (0, s') \<and> va_to_pa (KERNBASE + 98304) 0xC000 s' = Inr 0x90000 \<and>
    tlb_entry (access (mem s') 0xC000 (access (mem s) 0x8000 (switch_csrs (KERNBASE + 98304) (vm_init reset_csrs)))) 0xC000 = Some e \<and> e AND PTE_V = 0"
proof -
  obtain s T xs where s: "as_inv s (KERNBASE + 98304) T xs" "\<forall>t\<in>ran T. KERNBASE \<le> t \<and> t < PHYSTOP" "2 \<le> length xs"
    "vpath 2 0xC000 \<in> dom T" "pte_of (mem s) T 0xC000 = 0"
    by (rule sample_mapped)
  have "(0xC000 :: u64) < MAXVA" "pte_of (mem s) T 0xC000 AND PTE_V = 0" "va_pair 0x8000 = va_pair 0xC000"
    "(1 :: u64) AND PAMASK = 0" "(1 :: u64) AND PTE_V \<noteq> 0"
    by (simp_all add: MAXVA_def s(5) va_pair_def PAMASK_def PTE_V_def)
  from cached_pair_hides_mapping [OF s(1-3) this(1) s(4) this(2-), of "0x90000" reset_csrs] show ?thesis
    by (auto simp: PTE2PA_def PAMASK_def PGSIZE_def)
qed

text \<open>
  C20: a task that was switched away by \<open>swtch\<close> continues with all its registers when another call switches back to its context, whatever
  ran in between, as long as nobody wrote to the saved context; the second switch writes to the context of its own caller only.
\<close>

theorem swtch_resumes:
  assumes "swtch g m = (g1, m1)" and "swtch g2 m2 = (g3, m3)" and "g2 ''a1'' = g ''a0''"
    and "\<forall>x. in_region (g ''a0'') 248 x \<longrightarrow> m2 x = m1 x \<and> \<not> in_region (g2 ''a0'') 248 x"
  shows "(\<forall>r\<in>set context_regs. g3 r = g r) \<and> (\<forall>x. \<not> in_region (g2 ''a0'') 248 x \<longrightarrow> m3 x = m2 x)"
proof (intro conjI ballI allI impI)
  fix r assume r: "r \<in> set context_regs"
  have "load64 m3 (g ''a0'' + place r) = load64 m1 (g ''a0'' + place r)"
  proof (rule load64_cong)
    fix x assume "in_region (g ''a0'' + place r) 8 x"
    then have "in_region (g ''a0'') 248 x" by (rule in_context [OF _ r])
    then show "m3 x = m1 x" using assms(4) swtch_saves(3) [OF assms(2)] by metis
  qed
  then show "g3 r = g r" using swtch_saves(1) [OF assms(1) r] swtch_saves(2) [OF assms(2) r] assms(3) by metis
next
  fix x assume "\<not> in_region (g2 ''a0'') 248 x"
  then show "m3 x = m2 x" by (rule swtch_saves(3) [OF assms(2)])
qed

text \<open>Two contexts of the sample, and a processor with a different value in every register.\<close>

definition sample_regs :: "u64 \<Rightarrow> u64 \<Rightarrow> regs" where
  "sample_regs old new = (\<lambda>r. if r = ''a0'' then old else if r = ''a1'' then new else place r + old)"

theorem swtch_resumes_witness:
  "let g = sample_regs 0x1000 0x2000; (g1, m1) = swtch g (\<lambda>_. 0); (g3, m3) = swtch (sample_regs 0x2000 0x1000) m1 in
   g3 ''s0'' = g ''s0'' \<and> g3 ''ra'' = 0x1000 \<and> g1 ''ra'' = 0"
proof -
  let ?g = "sample_regs 0x1000 0x2000" and ?h = "sample_regs 0x2000 0x1000"
  obtain g1 m1 g3 m3 where s: "swtch ?g (\<lambda>_. 0) = (g1, m1)" "swtch ?h m1 = (g3, m3)" by (metis surj_pair)
  have a: "?h ''a1'' = ?g ''a0''" "?g ''a0'' = 0x1000" "?h ''a0'' = 0x2000" by (simp_all add: sample_regs_def)
  have out: "\<not> in_region 0x2000 248 x" if "in_region 0x1000 248 x" for x :: u64
  proof -
    define n where "n = unat (x - 0x1000)"
    have n: "n < 248" using that by (simp add: in_region_def n_def)
    have "x - 0x2000 = of_nat n - of_nat 4096" by (simp add: n_def)
    also have "\<dots> = of_nat (18446744073709551616 - 4096 + n)" by simp
    finally have "unat (x - 0x2000) = 18446744073709551616 - 4096 + n" using n by (simp only: unat_of_nat_64)
    then show ?thesis by (simp add: in_region_def)
  qed
  have "\<forall>x. in_region (?g ''a0'') 248 x \<longrightarrow> m1 x = m1 x \<and> \<not> in_region (?h ''a0'') 248 x" using out by (simp add: a)
  from swtch_resumes [OF s a(1) this] have g3: "g3 ''s0'' = ?g ''s0''" "g3 ''ra'' = ?g ''ra''" by (simp_all add: context_regs_def)
  have ra: "''ra'' \<in> set context_regs" by (simp add: context_regs_def)
  have "g1 ''ra'' = load64 m1 0x2000" using swtch_saves(2) [OF s(1) ra] by (simp add: sample_regs_def)
  also have "\<dots> = load64 (\<lambda>_. 0) 0x2000"
  proof (rule load64_cong)
    fix x :: u64 assume "in_region 0x2000 8 x"
    then have "\<not> in_region 0x1000 248 x" using out [of x] by (auto simp: in_region_def)
    then show "m1 x = 0" using swtch_saves(3) [OF s(1)] by (simp add: a)
  qed
  finally have "g1 ''ra'' = 0" by (simp add: load64_def read_bytes_def upt_rec)
  moreover have "?g ''ra'' = 0x1000" by (simp add: sample_regs_def)
  ultimately show ?thesis using g3 by (simp add: s)
qed

text \<open>
  C19: a system call that returns takes the program up behind its instruction: the result is in \<open>a0\<close>, every other register except
  \<open>tp\<close> and the saved mode are as they were at the trap, and the program counter is one instruction further. The call is taken to
  leave the frame on the stack alone, and the C code to give back the stack pointer.
\<close>

theorem syscall_returns_to_program:
  assumes "trap_entry a c k = (c1, k1)" and "trap_handler env buf sighandler estat ecfg k1 = Some (Inr (Return v, k2))"
    and "estat AND ecfg AND HWI_VEC = 0" and "estat AND ecfg AND TI_VEC = 0" and "drop_bit 16 (estat AND CSR_ESTAT_ECODE) = E_SYS"
    and "\<forall>w k'. select_syscall env buf (as_int (gpr c ''a7'')) (w_trap_era (era c + 4) k1) = Some (Inr (w, k')) \<longrightarrow>
      (\<forall>x. in_region (cur_sp k1) 264 x \<longrightarrow> kmem k' x = kmem (w_trap_era (era c + 4) k1) x)"
    and "gpr c2 ''sp'' = gpr c1 ''sp''"
  shows "(\<forall>r\<in>set context_regs - {''tp''}. gpr (trap_exit c2 k2) r = (if r = ''a0'' then v else gpr c r)) \<and>
    era (trap_exit c2 k2) = era c + 4 \<and> prmd (trap_exit c2 k2) = prmd c"
proof -
  note f = trap_entry_frame [OF assms(1)]
  let ?k = "w_trap_era (era c + 4) k1" and ?tf = "cur_sp k1"
  have km: "kmem ?k = store64 (kmem k1) (?tf + place ''era'') (era c + 4)" by (simp add: w_trap_era_def kmem_store64)
  have sp: "cur_sp ?k = ?tf" by (simp add: w_trap_era_def poke_def)
  have fr: "load64 (kmem ?k) (?tf + place r) = (if r = ''era'' then era c + 4 else load64 (kmem k1) (?tf + place r))"
    if "r \<in> set trapframe_regs" for r
    unfolding km by (rule load_store_reg [OF that special_places(2)])
  have "''a7'' \<in> set context_regs" by (simp add: context_regs_def)
  then have a7: "load64 (kmem ?k) (?tf + place ''a7'') = gpr c ''a7''"
    using f(2) fr subsetD [OF context_in_trapframe] special_places(6) by metis
  have "trap_handler env buf sighandler estat ecfg k1 = obind (Some (my_proc ?k)) (\<lambda>p. syscall_handler env buf ?k)"
    using assms(3-5) f(4) by (simp add: trap_handler_def Let_def r_trap_era_def del: place_simps)
  then have "syscall_handler env buf ?k = Some (Inr (Return v, k2))"
    using assms(2) by (auto simp: obind_def split: sum.splits)
  then obtain k' where k': "select_syscall env buf (as_int (gpr c ''a7'')) ?k = Some (Inr (Return v, k'))"
    "k2 = poke (?tf + place ''a0'') (le_bytes 8 (unat v)) k'"
    unfolding syscall_handler_def Let_def sp a7
    by (auto simp: obind_def split: option.splits sum.splits sysres.splits simp del: place_simps)
  have "load64 (kmem k') (?tf + place r) = load64 (kmem ?k) (?tf + place r)" if "r \<in> set trapframe_regs" for r
    by (rule frame_cong [OF _ that]) (use assms(6) k'(1) in blast)
  then have end2: "load64 (kmem k2) (?tf + place r) = (if r = ''a0'' then v else if r = ''era'' then era c + 4 else load64 (kmem k1) (?tf + place r))"
    if "r \<in> set trapframe_regs" for r
    using that fr unfolding k'(2) kmem_store64 load_store_reg [OF that special_places(4)] by simp
  have "gpr (trap_exit c2 k2) r = (if r = ''a0'' then v else gpr c r)" if r: "r \<in> set context_regs - {''tp''}" for r
  proof -
    have "r \<in> set trapframe_regs" "r \<noteq> ''era''" using r context_in_trapframe special_places(6) by auto
    then show ?thesis using r end2 f(1,2) trap_exit_regs [OF r, of c2 k2] assms(7) by simp
  qed
  moreover have "era (trap_exit c2 k2) = era c + 4" "prmd (trap_exit c2 k2) = prmd c"
    using end2 [OF special_places(2)] end2 [OF special_places(1)] f(1,3) assms(7)
    by (simp_all add: trap_exit_def Let_def del: place_simps)
  ultimately show ?thesis by blast
qed

theorem syscall_returns_to_program_witness:
  "\<exists>c1 k1 k2. trap_entry 0 \<lparr>gpr = (sample_regs 7 8)(''sp'' := 0x8000, ''a7'' := 172), prmd = 3, era = 0x4000\<rparr> (sample_kernel\<lparr>cur_proc := Some 1\<rparr>) = (c1, k1) \<and>
     trap_handler \<lparr>fsenv = sample_env, elf_buf = 0, exec_helper = 0, kword = 0\<rparr> 0 (\<lambda>cb n k. Inr k) 0xB0000 0 k1 = Some (Inr (Return 1, k2)) \<and>
     gpr (trap_exit c1 k2) ''a0'' = 1 \<and> gpr (trap_exit c1 k2) ''s0'' = gpr c1 ''s0'' \<and> gpr (trap_exit c1 k2) ''sp'' = 0x8000 \<and> era (trap_exit c1 k2) = 0x4004"
proof -
  let ?c = "\<lparr>gpr = (sample_regs 7 8)(''sp'' := 0x8000, ''a7'' := 172), prmd = 3, era = 0x4000\<rparr>" and ?k = "sample_kernel\<lparr>cur_proc := Some 1\<rparr>"
  let ?env = "\<lparr>fsenv = sample_env, elf_buf = 0, exec_helper = 0, kword = 0\<rparr>"
  obtain c1 k1 where t: "trap_entry 0 ?c ?k = (c1, k1)" by (metis surj_pair)
  then have k1: "cur_proc k1 = Some 1" "proc k1 = proc sample_kernel" and s0: "gpr c1 ''s0'' = gpr ?c ''s0''"
    by (auto simp: trap_entry_def Let_def)
  note f = trap_entry_frame [OF t]
  have "map_of (syscalls ?env 0) 172 = Some sys_get_proc_id" by (simp add: syscalls_def SYS_defs)
  moreover have "as_int 172 = 172" by (simp add: as_int_def)
  ultimately have sel: "select_syscall ?env 0 (as_int 172) = sys_get_proc_id" by (simp add: select_syscall_def)
  let ?k3 = "w_trap_era 0x4004 k1"
  have mp: "my_proc ?k3 = Inr 1" by (simp add: my_proc_def k1 w_trap_era_def poke_def)
  have "task ?k3 1 = task sample_kernel 1" using k1(2) by (simp add: w_trap_era_def poke_def task_def)
  then have "pid (task ?k3 1) = 1" by (simp add: sample_task PROC_MAX_def)
  then have run: "sys_get_proc_id ?k3 = Some (Inr (Return 1, ?k3))"
    by (simp add: sys_get_proc_id_def get_proc_id_def mp ret_int_def done_with_def)
  have km: "kmem ?k3 = store64 (kmem k1) (cur_sp k1 + place ''era'') 0x4004"
    unfolding w_trap_era_def by (rule kmem_store64)
  have a7: "''a7'' \<in> set context_regs" "''a7'' \<noteq> ''era''" by (simp_all add: context_regs_def)
  have "load64 (kmem ?k3) (cur_sp k1 + place ''a7'') = 172"
    unfolding km load_store_reg [OF subsetD [OF context_in_trapframe a7(1)] special_places(2)] using f(2) [OF a7(1)] a7(2) by simp
  then have "syscall_handler ?env 0 ?k3 = Some (Inr (Return 1, poke (cur_sp k1 + place ''a0'') (le_bytes 8 1) ?k3))"
    using run sel by (simp add: syscall_handler_def Let_def obind_def w_trap_era_def poke_def del: place_simps)
  moreover have "r_trap_era k1 + 4 = 0x4004" using f(4) by (simp add: r_trap_era_def del: place_simps)
  ultimately obtain k2 where h: "trap_handler ?env 0 (\<lambda>cb n k. Inr k) 0xB0000 0 k1 = Some (Inr (Return 1, k2))"
    using mp by (simp add: trap_handler_def Let_def obind_def HWI_VEC_def TI_VEC_def CSR_ESTAT_ECODE_def E_SYS_def del: place_simps)
  have q: "(0xB0000 :: u32) AND 0 AND HWI_VEC = 0" "(0xB0000 :: u32) AND 0 AND TI_VEC = 0"
    "drop_bit 16 (0xB0000 AND CSR_ESTAT_ECODE) = E_SYS"
    by (simp_all add: CSR_ESTAT_ECODE_def E_SYS_def)
  have fr: "\<forall>w k'. select_syscall ?env 0 (as_int (gpr ?c ''a7'')) (w_trap_era (era ?c + 4) k1) = Some (Inr (w, k')) \<longrightarrow>
      (\<forall>x. in_region (cur_sp k1) 264 x \<longrightarrow> kmem k' x = kmem (w_trap_era (era ?c + 4) k1) x)"
    using sel run by simp
  have r: "''a0'' \<in> set context_regs - {''tp''}" "''s0'' \<in> set context_regs - {''tp''}" "''sp'' \<in> set context_regs - {''tp''}"
    by (simp_all add: context_regs_def)
  from syscall_returns_to_program [OF t h q fr refl] show ?thesis using r t h s0 by auto
qed

end
