(* ===== verification/Disk.thy ===== *)
theory Disk
  imports Ahci Ext2 Machine
begin

text \<open>
  The disk under the file system: \<open>read_block\<close> of fs/ext2.c on top of the driver of driver/ahci.c, and driver/disk.c. What a drive
  does with a read command is a parameter; \<open>carries_out_reads\<close> states what the ATA and AHCI documents
  promise of it. The interface between the file system and the disk is the locale \<open>block_device\<close>: it is interpreted on the block reads of
  theory Ext2, and the driver is shown to meet it too. The theory shows that the driver delivers the blocks of the drive, what happens when it does not, and
  which drives are mounted.
\<close>

section \<open>Definitions\<close>

text \<open>
  \<open>read_block\<close>: the result of \<open>ahci_read\<close> is dropped.
\<close>

definition driver_read_block :: "u64 \<Rightarrow> hba \<Rightarrow> (hba_cmd \<Rightarrow> mem \<Rightarrow> mem) \<Rightarrow> u32 \<Rightarrow> u64 \<Rightarrow> mem \<Rightarrow> (i32 \<times> mem) kres option" where
  "driver_read_block ahci_buf h drive block_offset buf m =
     map_option (\<lambda>r. kbind r (\<lambda>(ret, m1). Inr (0, m1))) (ahci_read ahci_buf h drive (ucast (block_offset * 2)) 2 buf m)"

text \<open>\<open>ramdisk\<close> is an array of one byte.\<close>

definition ramdisk_read :: "u8 \<Rightarrow> u64 \<Rightarrow> nat \<Rightarrow> nat \<Rightarrow> mem \<Rightarrow> (nat \<times> mem) kres" where
  "ramdisk_read ramdisk buf off n m =
     (if off + n \<le> 1 then Inr (n, write_bytes m buf (take n [ramdisk])) else Inl (BadAccess ''ramdisk''))"

definition ramdisk_write :: "u8 \<Rightarrow> u64 \<Rightarrow> nat \<Rightarrow> nat \<Rightarrow> mem \<Rightarrow> (nat \<times> u8) kres" where
  "ramdisk_write ramdisk buf off n m =
     (if off + n \<le> 1 then Inr (n, if n = 1 then m buf else ramdisk) else Inl (BadAccess ''ramdisk''))"

text \<open>
  \<open>disk_init\<close> with the status of the ports, what the driver reads from the port it finds, and the array \<open>buf\<close> of 8192 bytes on the kernel stack.
\<close>

definition disk_init ::
    "u64 \<Rightarrow> u32 \<Rightarrow> u32 list \<Rightarrow> (nat \<Rightarrow> hba) \<Rightarrow> (hba_cmd \<Rightarrow> mem \<Rightarrow> mem) \<Rightarrow> disk \<Rightarrow> ext2_inode \<Rightarrow> ext2_fs \<Rightarrow> u64 \<Rightarrow> mm \<Rightarrow> (ext2_fs \<times> mm) kres option" where
  "disk_init ahci_buf pi ports hbas drive d junk_inode fs buf s =
     (let port_num = ahic_probe_port pi ports in
      if port_num < 0 then Some (Inl (BadAccess ''ports''))
      else obind (ahci_read ahci_buf (hbas (nat port_num)) drive 0 8 buf (mem s)) (\<lambda>(ret, m).
        if ext2_check (read_bytes m buf 8192) then
          Some (kbind (ext2_init d junk_inode fs 0 (s\<lparr>mem := m\<rparr>)) (\<lambda>(r, fs1, s1). Inr (fs1, s1)))
        else Some (Inl (Panic ''unknown fs''))))"

section \<open>The interface\<close>

text \<open>Reading blocks one behind the other.\<close>

primrec read_run :: "(u32 \<Rightarrow> u64 \<Rightarrow> mem \<Rightarrow> mem) \<Rightarrow> u32 list \<Rightarrow> u64 \<Rightarrow> mem \<Rightarrow> mem" where
  "read_run rd [] buf m = m"
| "read_run rd (b # bs) buf m = read_run rd bs (buf + 1024) (rd b buf m)"

text \<open>
  A device delivers the 1024 bytes of a block into the buffer and leaves the rest of memory alone, apart from its own
  \<open>scratch\<close> memory.
\<close>

locale block_device =
  fixes rd :: "u32 \<Rightarrow> u64 \<Rightarrow> mem \<Rightarrow> mem" and blk :: "u32 \<Rightarrow> bytes" and scratch :: "u64 \<Rightarrow> bool"
  assumes length_blk: "length (blk b) = 1024"
    and rd_eq: "\<not> scratch x \<Longrightarrow> rd b buf m x = write_bytes m buf (blk b) x"
begin

lemma rd_in: "\<not> scratch x \<Longrightarrow> in_region buf 1024 x \<Longrightarrow> rd b buf m x = blk b ! unat (x - buf)"
  by (simp add: rd_eq write_bytes_in length_blk)

lemma rd_out: "\<not> scratch x \<Longrightarrow> \<not> in_region buf 1024 x \<Longrightarrow> rd b buf m x = m x"
  by (simp add: rd_eq write_bytes_out length_blk)

lemma run_out:
  assumes "\<not> scratch x" "1024 * length bs \<le> unat (x - buf)"
  shows "read_run rd bs buf m x = m x"
  using assms(2)
proof (induction bs arbitrary: buf m)
  case (Cons b bs)
  have "x - (buf + 1024) = (x - buf) - 1024" by simp
  then have "unat (x - (buf + 1024)) = unat (x - buf) - 1024" using Cons.prems by (simp only:) (simp add: word_sub_unat)
  then have "read_run rd bs (buf + 1024) (rd b buf m) x = rd b buf m x" using Cons by simp
  moreover have "\<not> in_region buf 1024 x" using Cons.prems by (simp add: in_region_def)
  ultimately show ?case using assms(1) by (simp add: rd_out)
qed simp

text \<open>A client gets the blocks one behind the other.\<close>

lemma run_delivers:
  assumes "\<And>x. in_region buf (1024 * length bs) x \<Longrightarrow> \<not> scratch x" "1024 * length bs < 2 ^ 63"
  shows "read_bytes (read_run rd bs buf m) buf (1024 * length bs) = concat (map blk bs)"
  using assms
proof (induction bs arbitrary: buf m)
  case (Cons b bs)
  let ?m = "rd b buf m" and ?n = "1024 * length bs"
  have sc: "\<not> scratch x" if "unat (x - buf) < 1024 + ?n" for x using Cons.prems(1) that by (simp add: in_region_def)
  have off: "unat (x - buf) = unat (x - (buf + 1024)) + 1024" if "in_region (buf + 1024) ?n x" for x
  proof -
    have "x - buf = (x - (buf + 1024)) + 1024" by simp
    also have "unat \<dots> = unat (x - (buf + 1024)) + 1024"
      using that Cons.prems(2) by (subst unat_plus_64) (simp_all add: in_region_def)
    finally show ?thesis .
  qed
  have tl: "read_bytes (read_run rd bs (buf + 1024) ?m) (buf + 1024) ?n = concat (map blk bs)"
    by (rule Cons.IH) (use sc off Cons.prems(2) in \<open>auto simp: in_region_def\<close>)
  have hd: "read_bytes (read_run rd bs (buf + 1024) ?m) buf 1024 = blk b"
  proof (rule nth_equalityI)
    fix i assume "i < length (read_bytes (read_run rd bs (buf + 1024) ?m) buf 1024)"
    then have i: "i < 1024" by simp
    let ?x = "buf + of_nat i :: u64"
    have "?x - (buf + 1024) = of_nat i - of_nat 1024" by simp
    also have "\<dots> = of_nat (18446744073709551616 - 1024 + i)" by simp
    finally have "unat (?x - (buf + 1024)) = 18446744073709551616 - 1024 + i" using i by (simp only: unat_of_nat_64)
    then have "read_run rd bs (buf + 1024) ?m ?x = ?m ?x"
      using i Cons.prems(2) by (intro run_out sc) simp_all
    also have "\<dots> = blk b ! i" using i by (subst rd_in) (simp_all add: sc in_region_def)
    finally show "read_bytes (read_run rd bs (buf + 1024) ?m) buf 1024 ! i = blk b ! i" using i by simp
  qed (simp add: length_blk)
  show ?case using hd tl by (simp add: read_bytes_append)
qed simp

end

text \<open>The block reads of the file system.\<close>

interpretation e2: block_device "read_block d" "disk_block d" "\<lambda>x. False" for d
  by unfold_locales (simp_all add: disk_block_def read_block_def)

section \<open>The driver\<close>

text \<open>
  What a drive does with a command to read into one region that is as long as its sectors: it stores the sectors at the physical address of the
  region. A drive answers when a slot is free, it is not busy for ever, and it completes the
  command without reporting an error.
\<close>

definition cmd_lba :: "hba_cmd \<Rightarrow> nat" where
  "cmd_lba c = (let f = cfis c in le_nat [lba0 f, lba1 f, lba2 f, lba3 f, lba4 f, lba5 f])"

definition cmd_sectors :: "hba_cmd \<Rightarrow> nat" where
  "cmd_sectors c = le_nat [countl (cfis c), counth (cfis c)]"

definition region_addr :: "prdt_entry \<Rightarrow> u64" where
  "region_addr e = PHYS_TO_MAIN (push_bit 32 (ucast (dbau e)) OR ucast (dba e))"

definition sectors_at :: "disk \<Rightarrow> nat \<Rightarrow> nat \<Rightarrow> bytes" where
  "sectors_at d lba n = map (\<lambda>i. d (lba * 512 + i)) [0..<n * 512]"

definition carries_out_reads :: "disk \<Rightarrow> (hba_cmd \<Rightarrow> mem \<Rightarrow> mem) \<Rightarrow> bool" where
  "carries_out_reads d drive \<longleftrightarrow> (\<forall>c e m. command (cfis c) = ATA_CMD_READ_DMA_EXT \<and> \<not> w c \<and> prdt c = [e] \<and>
     unat (dbc e) + 1 = cmd_sectors c * 512 \<longrightarrow> drive c m = write_bytes m (region_addr e) (sectors_at d (cmd_lba c) (cmd_sectors c)))"

definition answers :: "hba \<Rightarrow> bool" where
  "answers h \<longleftrightarrow> (\<exists>slot n. find_cmdslot h = Some slot \<and> ready_loop (tfd h) 0 \<noteq> 1000000 \<and>
     ci_after h n AND push_bit slot 1 = 0 \<and> (\<forall>j\<le>Suc n. p_is h j AND HBA_PxIS_TFES = 0))"

text \<open>The transfer buffer lies in the first window, below 4 GiB.\<close>

definition low_buffer :: "u64 \<Rightarrow> bool" where
  "low_buffer a \<longleftrightarrow> PHYS_TO_MAIN (ucast (ucast a :: u32)) = a"

lemma complete_loop_released:
  assumes "ci_after h n AND push_bit slot 1 = 0" "\<forall>j\<le>n. p_is h j AND HBA_PxIS_TFES = 0" "i \<le> n"
  shows "\<exists>n'\<le>n. complete_loop h slot i = Some (True, n')"
  using assms(3)
proof (induction "n - i" arbitrary: i)
  case 0
  then show ?case using assms(1) by (subst complete_loop.simps) auto
next
  case (Suc k)
  then have "\<exists>n'\<le>n. complete_loop h slot (Suc i) = Some (True, n')" by (intro Suc.hyps(1)) linarith+
  then show ?case using assms(2) Suc.prems by (subst complete_loop.simps) auto
qed

lemma do_ahci_answers:
  assumes "answers h"
  shows "\<exists>slot. do_ahci cmd h start count buf = Some (0, Some (slot, build_cmd cmd start count buf))"
proof -
  obtain slot n where a: "find_cmdslot h = Some slot" "ready_loop (tfd h) 0 \<noteq> 1000000" "ci_after h n AND push_bit slot 1 = 0"
    "\<forall>j\<le>Suc n. p_is h j AND HBA_PxIS_TFES = 0"
    using assms unfolding answers_def by blast
  obtain n' where n': "n' \<le> n" "complete_loop h slot 0 = Some (True, n')"
    using complete_loop_released [OF a(3), of 0] a(4) by auto
  have "p_is h (Suc n') AND HBA_PxIS_TFES = 0" using a(4) n'(1) by simp
  then show ?thesis by (simp add: do_ahci_def a(1,2) n'(2) Let_def)
qed

text \<open>Up to 16 sectors arrive in the buffer of the driver and are copied on.\<close>

lemma ahci_read_delivers:
  assumes "carries_out_reads d drive" "answers h" "low_buffer ahci_buf" "1 \<le> unat count" "unat count \<le> 16"
  shows "ahci_read ahci_buf h drive start count buf m = Some (Inr (0,
    write_bytes (write_bytes m ahci_buf (sectors_at d (unat start mod 2 ^ 48) (unat count))) buf
      (sectors_at d (unat start mod 2 ^ 48) (unat count))))"
proof -
  let ?c = "build_cmd ATA_CMD_READ_DMA_EXT start count ahci_buf" and ?bs = "sectors_at d (unat start mod 2 ^ 48) (unat count)"
  obtain e where e: "prdt ?c = [e]" "dba e = ucast ahci_buf" "dbau e = 0" "unat (dbc e) + 1 = unat count * 512"
    "cmd_lba ?c = unat start mod 2 ^ 48" "cmd_sectors ?c = unat count" "command (cfis ?c) = ATA_CMD_READ_DMA_EXT"
    using build_cmd_describes [OF assms(4,5), of ATA_CMD_READ_DMA_EXT start ahci_buf] by (auto simp: cmd_lba_def cmd_sectors_def Let_def)
  have "\<not> w ?c" by (simp add: build_cmd_def Let_def split: prod.split)
  then have "drive ?c m = write_bytes m (region_addr e) ?bs"
    using assms(1) e unfolding carries_out_reads_def by metis
  moreover have "region_addr e = ahci_buf" using assms(3) by (simp add: region_addr_def e low_buffer_def)
  ultimately have dr: "drive ?c m = write_bytes m ahci_buf ?bs" by simp
  have l: "length ?bs = unat count * 512" by (simp add: sectors_at_def)
  have c: "unat (count * 512) = unat count * 512" using assms(5) by (simp add: unat_word_ariths)
  have "read_bytes (write_bytes m ahci_buf ?bs) ahci_buf (unat count * 512) = ?bs"
    using read_write_same [of ?bs m ahci_buf, unfolded l] assms(5) by simp
  moreover obtain slot where "do_ahci_read h start count ahci_buf = Some (0, Some (slot, ?c))"
    using do_ahci_answers [OF assms(2), of ATA_CMD_READ_DMA_EXT start count ahci_buf] unfolding do_ahci_read_def by blast
  ultimately show ?thesis using assms(5) by (simp add: ahci_read_def c dr Let_def)
qed

definition driver_rd :: "u64 \<Rightarrow> hba \<Rightarrow> (hba_cmd \<Rightarrow> mem \<Rightarrow> mem) \<Rightarrow> u32 \<Rightarrow> u64 \<Rightarrow> mem \<Rightarrow> mem" where
  "driver_rd ahci_buf h drive b buf m = (case driver_read_block ahci_buf h drive b buf m of Some (Inr (r, m')) \<Rightarrow> m' | _ \<Rightarrow> m)"

lemma sectors_disk_block: "sectors_at d (unat (ucast (b * 2 :: u32) :: u64) mod 2 ^ 48) 2 = disk_block d b"
proof -
  have "unat (b * 2) < 4294967296" by (rule unat_lt_32)
  then have "unat (b * 2) < 18446744073709551616" "unat (b * 2) < 281474976710656" by linarith+
  then have "unat (ucast (b * 2) :: u64) mod 2 ^ 48 = unat (b * 2)"
    by (simp only: unsigned_ucast_eq take_bit_nat_def) simp
  then show ?thesis unfolding sectors_at_def disk_block_def by simp
qed

lemma driver_read_block_eq:
  assumes "carries_out_reads d drive" "answers h" "low_buffer ahci_buf"
  shows "driver_read_block ahci_buf h drive b buf m =
    Some (Inr (0, write_bytes (write_bytes m ahci_buf (disk_block d b)) buf (disk_block d b)))"
  using ahci_read_delivers [OF assms, of 2] sectors_disk_block [of d b] by (simp add: driver_read_block_def)

lemma driver_block_device:
  assumes "carries_out_reads d drive" "answers h" "low_buffer ahci_buf"
  shows "block_device (driver_rd ahci_buf h drive) (disk_block d) (in_region ahci_buf 1024)"
proof unfold_locales
  show l: "length (disk_block d b) = 1024" for b by (simp add: disk_block_def)
  show "driver_rd ahci_buf h drive b buf m x = write_bytes m buf (disk_block d b) x" if "\<not> in_region ahci_buf 1024 x" for x b buf m
    using that write_bytes_out [of ahci_buf "disk_block d b" x m]
    by (simp add: driver_rd_def driver_read_block_eq [OF assms] write_bytes_def l in_region_def)
qed

text \<open>Which drives are mounted.\<close>

lemma check_sectors:
  assumes "read_bytes m buf 4096 = sectors_at d 0 8"
  shows "ext2_check (read_bytes m buf 8192) \<longleftrightarrow> get16 (disk_block d 1) 56 = EXT2_SIGNATURE"
proof -
  have "read_bytes m buf 8192 = sectors_at d 0 8 @ read_bytes m (buf + 4096) 4096"
    using read_bytes_append [of m buf 4096 4096] assms by simp
  moreover have "length (sectors_at d 0 8) = 4096" "take 2 (drop 1080 (sectors_at d 0 8)) = take 2 (drop 56 (disk_block d 1))"
    by (simp_all add: sectors_at_def disk_block_def list_eq_iff_nth_eq)
  ultimately have "get16 (drop 1024 (read_bytes m buf 8192)) 56 = get16 (disk_block d 1) 56" by (simp add: get16_def)
  then show ?thesis by (simp add: ext2_check_def decode_superblock_def)
qed

lemma disk_init_eq:
  assumes "carries_out_reads d drive" "answers (hbas p)" "low_buffer ahci_buf" "ahic_probe_port pi ports = int p"
  shows "disk_init ahci_buf pi ports hbas drive d junk_inode fs buf s =
    (if get16 (disk_block d 1) 56 = EXT2_SIGNATURE then
       Some (kbind (ext2_init d junk_inode fs 0 (s\<lparr>mem := write_bytes (write_bytes (mem s) ahci_buf (sectors_at d 0 8)) buf (sectors_at d 0 8)\<rparr>))
         (\<lambda>(r, fs1, s1). Inr (fs1, s1)))
     else Some (Inl (Panic ''unknown fs'')))"
proof -
  let ?bs = "sectors_at d 0 8"
  let ?m = "write_bytes (write_bytes (mem s) ahci_buf ?bs) buf ?bs"
  have l: "length ?bs = 4096" by (simp add: sectors_at_def)
  have "read_bytes ?m buf 4096 = ?bs" using read_write_same [of ?bs "write_bytes (mem s) ahci_buf ?bs" buf, unfolded l] by simp
  moreover have "ahci_read ahci_buf (hbas p) drive 0 8 buf (mem s) = Some (Inr (0, ?m))"
    using ahci_read_delivers [OF assms(1-3), of 8 0] by simp
  ultimately show ?thesis using check_sectors by (simp add: disk_init_def assms(4) obind_def)
qed

lemma ext2_init_superblock:
  assumes "ext2_init d junk_inode fs 0 s = Inr (r, fs1, s1)"
  shows "sb fs1 = decode_superblock (disk_block d 1)"
proof -
  have rd: "read_bytes (read_block d 1 buf m) buf 1024 = disk_block d 1" for buf m
    using e2.run_delivers [of buf "[1]" d m] by simp
  obtain r2 fs2 s2 where sp: "ext2_read_superblock d fs 1 s = Inr (r2, fs2, s2)" "sb fs1 = sb fs2"
    using assms by (auto simp: ext2_init_def ext2_read_group_desc_def kres_simps Let_def split: if_splits)
  have "sb fs2 = decode_superblock (disk_block d 1)"
    using sp(1) by (auto simp: ext2_read_superblock_def kres_simps Let_def rd split: if_splits)
  then show ?thesis using sp(2) by simp
qed

section \<open>Properties\<close>

text \<open>
  C18: with a drive that carries out the commands it is given, \<open>read_block\<close> ends, reports success and does what the block read of theory Ext2 does, outside the
  transfer buffer of the driver; reading a sequence of blocks puts the blocks of the drive one behind the other.
\<close>

theorem driver_delivers_blocks:
  assumes "carries_out_reads d drive" and "answers h" and "low_buffer ahci_buf"
    and "\<forall>x. in_region buf (1024 * length bs) x \<longrightarrow> \<not> in_region ahci_buf 1024 x" and "1024 * length bs < 2 ^ 63"
  shows "(\<exists>m'. driver_read_block ahci_buf h drive b a m = Some (Inr (0, m')) \<and>
      (\<forall>x. \<not> in_region ahci_buf 1024 x \<longrightarrow> m' x = read_block d b a m x)) \<and>
    read_bytes (read_run (driver_rd ahci_buf h drive) bs buf m) buf (1024 * length bs) = concat (map (disk_block d) bs)"
proof
  note dev = driver_block_device [OF assms(1-3)]
  show "\<exists>m'. driver_read_block ahci_buf h drive b a m = Some (Inr (0, m')) \<and>
      (\<forall>x. \<not> in_region ahci_buf 1024 x \<longrightarrow> m' x = read_block d b a m x)"
    using block_device.rd_eq [OF dev, of _ b a m] by (simp add: driver_rd_def driver_read_block_eq [OF assms(1-3)] read_block_def)
  show "read_bytes (read_run (driver_rd ahci_buf h drive) bs buf m) buf (1024 * length bs) = concat (map (disk_block d) bs)"
    by (rule block_device.run_delivers [OF dev]) (use assms(4,5) in auto)
qed

text \<open>A drive that does what it is asked, and a port whose drive is ready.\<close>

definition ata_drive :: "disk \<Rightarrow> hba_cmd \<Rightarrow> mem \<Rightarrow> mem" where
  "ata_drive d c m =
     (case prdt c of [e] \<Rightarrow> write_bytes m (region_addr e) (sectors_at d (cmd_lba c) (cmd_sectors c)) | _ \<Rightarrow> m)"

definition ready_port :: hba where
  "ready_port = \<lparr>cap = 0xF00, sact = 1, ci = 2, tfd = \<lambda>i. 0, ci_after = \<lambda>i. if i = 3 then 0 else 4, p_is = \<lambda>i. 0\<rparr>"

lemma ata_drive_reads: "carries_out_reads d (ata_drive d)"
  by (simp add: carries_out_reads_def ata_drive_def)

lemma ready_port_answers: "answers ready_port"
proof -
  have "unat (get_bits_range (ucast (cap ready_port)) 8 4) = 15" by (simp add: get_bits_range_def ready_port_def)
  then have "find_cmdslot ready_port = Some 2" by (simp add: find_cmdslot_eq ready_port_def upt_rec bit_iff_odd)
  moreover have "ready_loop (tfd ready_port) 0 = 0" by (simp add: ready_loop.simps ready_port_def)
  ultimately show ?thesis unfolding answers_def
    by (intro exI [of _ 2] exI [of _ 3]) (simp add: ready_port_def)
qed

theorem driver_delivers_blocks_witness:
  "read_bytes (read_run (driver_rd 0x9000000090100000 ready_port (ata_drive (\<lambda>i. of_nat i))) [7, 1] 0x9000000090200000 (\<lambda>_. 0)) 0x9000000090200000 2048 =
     disk_block (\<lambda>i. of_nat i) 7 @ disk_block (\<lambda>i. of_nat i) 1"
proof -
  have "low_buffer 0x9000000090100000"
    by (simp add: low_buffer_def PHYS_TO_MAIN_def MAIN_KERNEL_DMW_def ucast_eq)
  moreover have "\<not> in_region 0x9000000090100000 1024 x" if "in_region 0x9000000090200000 2048 x" for x :: u64
  proof -
    have "x - 0x9000000090100000 = (x - 0x9000000090200000) + 0x100000" by simp
    also have "unat \<dots> = unat (x - 0x9000000090200000) + 0x100000"
      using that by (subst unat_plus_64) (simp_all add: in_region_def)
    finally show ?thesis by (simp add: in_region_def)
  qed
  ultimately show ?thesis
    using driver_delivers_blocks [OF ata_drive_reads ready_port_answers, of "0x9000000090100000" "0x9000000090200000" "[7, 1]" "\<lambda>i. of_nat i"]
    by simp
qed

text \<open>
  C35: a read that the driver could not even start is reported as a success: the caller gets whatever the transfer buffer held from the
  transfer before.
\<close>

theorem failed_read_unnoticed:
  assumes "find_cmdslot h = None \<or> ready_loop (tfd h) 0 = 1000000"
  shows "driver_read_block ahci_buf h drive b buf m = Some (Inr (0, write_bytes m buf (read_bytes m ahci_buf 1024)))"
  using assms by (auto simp: driver_read_block_def ahci_read_def do_ahci_read_def do_ahci_def Let_def split: option.split)

theorem failed_read_unnoticed_witness:
  "driver_read_block 0 (ready_port\<lparr>cap := 0\<rparr>) (ata_drive (\<lambda>i. 9)) 5 0x1000 (\<lambda>x. 7) =
     Some (Inr (0, write_bytes (\<lambda>x. 7) 0x1000 (replicate 1024 7)))"
proof -
  have "find_cmdslot (ready_port\<lparr>cap := 0\<rparr>) = None" by (simp add: find_cmdslot_def get_bits_range_def)
  moreover have "read_bytes (\<lambda>x. 7) 0 1024 = replicate 1024 7" by (rule nth_equalityI) simp_all
  ultimately show ?thesis
    using failed_read_unnoticed [of "ready_port\<lparr>cap := 0\<rparr>" 0 "ata_drive (\<lambda>i. 9)" 5 "0x1000" "\<lambda>x. 7"] by simp
qed

end
