(* ===== verification/Boot.thy ===== *)
theory Boot
  imports Kernel Disk
begin

text \<open>
  The way from the first instruction to the scheduler: \<open>_start\<close> of core/_start.c and \<open>kmain\<close> of core/kmain.c, which call the
  initialisation of every other part. The theory shows that the part up to the first task
  always succeeds and leaves the tables, the free list and the translation registers as the other theories
  assume them, and that \<open>kmain\<close> enters the scheduler with its invariant in place.
\<close>

section \<open>Definitions\<close>

text \<open>
  What \<open>kmain\<close> finds around it: the addresses the linker gives, the ports and the drive, the arrays on its
  stack, and what the calls of the first program need. The register file of the disk is the one of each port.
\<close>

record boot_env =
  b_exec :: exec_env
  b_trap_entry :: u64
  b_handle_tlbr :: u64
  b_kernel_end :: u64
  b_ahci_buf :: u64
  b_pi :: u32
  b_ports :: "u32 list"
  b_hbas :: "nat \<Rightarrow> hba"
  b_drive :: "hba_cmd \<Rightarrow> mem \<Rightarrow> mem"
  b_buf :: u64
  b_argv :: u64
  b_envp :: u64

text \<open>\<open>_start\<close>: interrupts off, and the bytes between \<open>_bss_start\<close> and \<open>_bss_end\<close> set to 0.\<close>

definition start :: "u64 \<Rightarrow> u64 \<Rightarrow> csrs \<Rightarrow> mem \<Rightarrow> csrs \<times> mem" where
  "start bss_start bss_end c m = (intr_off c, fst (memset m bss_start 0 (bss_end - bss_start)))"

text \<open>The variables of the kernel as \<open>_start\<close> leaves them.\<close>

definition bss_kernel :: "mem \<Rightarrow> console \<Rightarrow> kernel" where
  "bss_kernel m con = \<lparr>proc = replicate PROC_MAX zero_task, cur_proc = None, last_pid = 0, lists = \<lparr>nxt = id, prv = id\<rparr>,
     heap = heap_boot \<lparr>mem = m, freelist = 0\<rparr>, tables = (\<lambda>_. []), files = replicate MAX_FILES zero_file, tty = con,
     ticks = 0, tick = 0, seed = 1, cur_sp = 0\<rparr>"

definition init_files :: "kernel \<Rightarrow> kernel" where
  "init_files k = k\<lparr>files := fds (fs_init \<lparr>fds = files k, fdt = [], fmm = hmm (heap k), cons = tty k\<rparr>)\<rparr>"

text \<open>\<open>kmain\<close> up to \<open>proc_init\<close>.\<close>

definition kmain_setup :: "boot_env \<Rightarrow> csrs \<Rightarrow> kernel \<Rightarrow> (csrs \<times> kernel) kres option" where
  "kmain_setup b c k =
     (let c1 = dmw_init (c\<lparr>euen := 1\<rparr>);
          (t, k1) = trap_init (b_trap_entry b) (b_handle_tlbr b) k;
          c2 = vm_init (tlb_init (c1\<lparr>trap_regs := t\<rparr>)) in
      case pmm_init (b_kernel_end b) (hmm (heap k1)) of
        None \<Rightarrow> None
      | Some s \<Rightarrow> Some (kbind (proc_init (init_files (k1\<lparr>heap := (heap k1)\<lparr>hmm := s\<rparr>\<rparr>))) (\<lambda>k2. Inr (c2, k2))))"

text \<open>The whole of \<open>kmain\<close> before it calls \<open>scheduler\<close>; \<open>disk_init\<close> fills the variable \<open>e2fs\<close>.\<close>

definition kmain :: "boot_env \<Rightarrow> csrs \<Rightarrow> kernel \<Rightarrow> (csrs \<times> exec_env \<times> kernel) kres option" where
  "kmain b c k =
     obind (kmain_setup b c k) (\<lambda>(c1, k1).
       let env = b_exec b; fe = fsenv env in
       obind (disk_init (b_ahci_buf b) (b_pi b) (b_ports b) (b_hbas b) (b_drive b) (e_disk fe) (e_junk_inode fe) (e2fs fe) (b_buf b) (hmm (heap k1)))
         (\<lambda>(fs, s).
         let env1 = env\<lparr>fsenv := fe\<lparr>e2fs := fs\<rparr>\<rparr> in
         obind (user_init env1 (b_argv b) (b_envp b) (k1\<lparr>heap := (heap k1)\<lparr>hmm := s\<rparr>\<rparr>)) (\<lambda>k2.
           Some (Inr (intr_on c1, env1, k2)))))"

section \<open>The first pages\<close>

text \<open>A page of the free list that is written to keeps the rest of the list.\<close>

lemma kmalloc_write:
  assumes "mm_inv s (x # xs)" "sint sz \<le> 16384"
  shows "\<exists>s'. kmalloc sz s = Inr (x, s') \<and> x \<noteq> 0 \<and> mm_inv s' xs \<and>
    (\<forall>m. (\<forall>a. \<not> in_page x a \<longrightarrow> m a = mem s' a) \<longrightarrow> mm_inv (s'\<lparr>mem := m\<rparr>) xs)"
proof -
  obtain s' where s': "kmalloc sz s = Inr (x, s')" "mm_inv s' xs"
    using kalloc_Cons [OF assms(1)] assms(2) by (auto simp: kmalloc_def)
  have ok: "page_aligned y" if "y \<in> set (x # xs)" for y using kp.pages_ok [OF assms(1)] that by blast
  have d: "x \<notin> set xs" "x \<noteq> 0" using kp.pages_ok [OF assms(1)] by auto
  have "mm_inv (s'\<lparr>mem := m\<rparr>) xs" if m: "\<forall>a. \<not> in_page x a \<longrightarrow> m a = mem s' a" for m
    by (rule mm_inv_frame [OF s'(2)]) (metis m d(1) ok in_page_unique list.set_intros)
  then show ?thesis using s' d(2) by blast
qed

lemma in_page_store:
  assumes "n + 8 \<le> 16384" "\<not> in_page p a"
  shows "store64 m (p + of_nat n) v a = m a"
proof (rule store64_out)
  have "\<not> in_region (p + of_nat n) 8 a"
  proof
    assume i: "in_region (p + of_nat n) 8 a"
    have "a - p = (a - (p + of_nat n)) + of_nat n" by simp
    also have "unat \<dots> = unat (a - (p + of_nat n)) + n"
      using i assms(1) by (subst unat_plus_64) (simp_all add: in_region_def)
    finally show False using i assms by (simp add: in_region_def in_page_def)
  qed
  then show "\<not> in_region (p + of_nat n) 8 a" .
qed

lemma new_fdtable_first:
  assumes "mm_inv (hmm (heap k)) (x # xs)"
  shows "\<exists>s. new_fdtable k = Inr (x, k\<lparr>heap := (heap k)\<lparr>hmm := s\<rparr>, tables := (tables k)(x := std_fdtable)\<rparr>) \<and> mm_inv s xs"
  using kmalloc_write [OF assms, of 16384] by (auto simp: new_fdtable_def fdtable_alloc_def memset_page)

lemma pgtbl_create_first:
  assumes "mm_inv (hmm (heap k)) (x # xs)"
  shows "\<exists>s. in_heap (in_mm pgtbl_create) k = Inr (x, k\<lparr>heap := (heap k)\<lparr>hmm := s\<rparr>\<rparr>) \<and> mm_inv s xs"
  using kmalloc_write [OF assms, of 16384] by (auto simp: in_heap_def in_mm_def pgtbl_create_def memset_page)

text \<open>The first block of the heap is cut from a new page.\<close>

lemma mlist_init_first:
  assumes "mm_inv (hmm h) (x # xs)" "fastbin h = replicate 11 0" "p_start h = 0" "p_end h = 0"
  shows "\<exists>h'. mlist_init h = Inr (x + 16, h') \<and> mm_inv (hmm h') xs"
proof -
  obtain s where s: "kmalloc 16384 (hmm h) = Inr (x, s)" "x \<noteq> 0"
    "\<And>m. (\<forall>a. \<not> in_page x a \<longrightarrow> m a = mem s a) \<Longrightarrow> mm_inv (s\<lparr>mem := m\<rparr>) xs"
    using kmalloc_write [OF assms(1), of 16384] by auto
  let ?h = "h\<lparr>hmm := s, p_start := x + 32, p_end := x + PGSIZE\<rparr>"
  have "apply_alloc 32 h = Inr (x, ?h)"
    using s(1) assms(3,4) by (simp add: apply_alloc_def PGSIZE_def)
  then have m: "malloc 16 h = Inr (x + 16, put64 (x + 8) 16 ?h)"
    using s(2) assms(2) by (simp add: malloc_def)
  let ?m = "store64 (store64 (store64 (mem s) (x + 8) 16) (x + 16) 0) (x + 24) 0"
  have "\<forall>a. \<not> in_page x a \<longrightarrow> ?m a = mem s a"
    using in_page_store [of 24 x] in_page_store [of 16 x] in_page_store [of 8 x] by simp
  from s(3) [OF this] show ?thesis by (simp add: mlist_init_def m put64_def add.assoc)
qed

lemma files_set_task [simp]: "files (set_task i t k) = files k" "tables (set_task i t k) = tables k"
  by (simp_all add: set_task_def)

lemma proc_alloc_first:
  assumes "mm_inv (hmm (heap k)) (x # y # z # xs)" "fastbin (heap k) = replicate 11 0" "p_start (heap k) = 0" "p_end (heap k) = 0"
    and "find (\<lambda>i. allocs (task k i) = UNUSED) [0..<PROC_MAX] = Some i"
  shows "\<exists>k'. proc_alloc k = Inr (i, k') \<and> mm_inv (hmm (heap k')) xs \<and> files k' = files k \<and> last_pid k' = last_pid k + 1"
proof -
  let ?k1 = "set_task i ((task k i)\<lparr>p_context := 0, p_trapframe := 0\<rparr>) k"
  obtain s1 where s1: "new_fdtable ?k1 = Inr (x, ?k1\<lparr>heap := (heap k)\<lparr>hmm := s1\<rparr>, tables := (tables ?k1)(x := std_fdtable)\<rparr>)"
    "mm_inv s1 (y # z # xs)"
    using new_fdtable_first [of ?k1 x "y # z # xs"] assms(1) by auto
  let ?k2 = "?k1\<lparr>heap := (heap k)\<lparr>hmm := s1\<rparr>, tables := (tables ?k1)(x := std_fdtable)\<rparr>"
  let ?k3 = "(set_task i ((task ?k2 i)\<lparr>p_fdtable := x, pid := last_pid ?k2, allocs := USED, bss := 0\<rparr>) ?k2)\<lparr>last_pid := last_pid ?k2 + 1\<rparr>"
  obtain s2 where s2: "in_heap (in_mm pgtbl_create) ?k3 = Inr (y, ?k3\<lparr>heap := (heap k)\<lparr>hmm := s2\<rparr>\<rparr>)" "mm_inv s2 (z # xs)"
    using pgtbl_create_first [of ?k3 y "z # xs"] s1(2) by auto
  let ?h = "(heap k)\<lparr>hmm := s2\<rparr>"
  obtain h where h: "mlist_init ?h = Inr (z + 16, h)" "mm_inv (hmm h) xs"
    using mlist_init_first [of ?h z xs] s2(2) assms(2-4) by auto
  show ?thesis
    using assms(5) s1(1) s2(1) h by (simp add: proc_alloc_def Let_def in_heap_def)
qed

lemma proc_init_first:
  assumes "mm_inv (hmm (heap k)) (x # y # z # u # v # xs)" "fastbin (heap k) = replicate 11 0" "p_start (heap k) = 0" "p_end (heap k) = 0"
    and "last_pid k = 0"
  shows "\<exists>k'. proc_init k = Inr k' \<and> mm_inv (hmm (heap k')) xs \<and> files k' = files k \<and> tables k' (p_fdtable (task k' 0)) = std_fdtable"
proof -
  let ?k0 = "k\<lparr>proc := replicate PROC_MAX (zero_task\<lparr>cwd := [47]\<rparr>)\<rparr>"
  have f: "find (\<lambda>i. allocs (task ?k0 i) = UNUSED) [0..<PROC_MAX] = Some 0"
    by (simp add: PROC_MAX_def upt_rec task_def zero_task_def)
  obtain k1 where k1: "proc_alloc ?k0 = Inr (0, k1)" "mm_inv (hmm (heap k1)) (u # v # xs)" "files k1 = files k" "last_pid k1 = 1"
    using proc_alloc_first [of ?k0 x y z "u # v # xs", OF _ _ _ _ f] assms by auto
  have len: "length (proc k1) = PROC_MAX" using proc_alloc_effect(4) [OF k1(1)] by auto
  let ?k2 = "set_task 0 ((task k1 0)\<lparr>name := [107], pid := 0, state := TASK_RUNNING\<rparr>)
    (k1\<lparr>lists := init_list_head (Tasks 0) (init_list_head (Children 0) (lists k1))\<rparr>)"
  obtain s where s: "kmalloc 248 (hmm (heap k1)) = Inr (u, s)" "mm_inv s (v # xs)"
    using kmalloc_write [OF k1(2), of 248] by auto
  let ?k3 = "?k2\<lparr>heap := (heap k1)\<lparr>hmm := s\<rparr>\<rparr>"
  let ?k4 = "set_task 0 ((task ?k3 0)\<lparr>p_context := u\<rparr>) ?k3"
  obtain s' where s': "new_fdtable ?k4 = Inr (v, ?k4\<lparr>heap := (heap ?k4)\<lparr>hmm := s'\<rparr>, tables := (tables ?k4)(v := std_fdtable)\<rparr>)" "mm_inv s' xs"
    using new_fdtable_first [of ?k4 v xs] s(2) by auto
  have "0 < length (proc k1)" using len by (simp add: PROC_MAX_def)
  then show ?thesis
    using k1 s(1) s' by (simp add: proc_init_def kernel_proc_init_def Let_def in_heap_def in_mm_def)
qed

section \<open>The first program\<close>

lemma user_init_first:
  assumes "proc_init k0 = Inr k1" "obs k2 = obs k1" "user_init env argv envp k2 = Some (Inr k)"
  shows "kernel_inv False (Init, k)" "cur_proc k = Some 0" "fst (scheduler 0 False k) = Some 1" "pid (task k 1) = 1"
    "cwd (task k 1) = [47, 98, 105, 110]"
proof -
  note T = proc_init_table [OF assms(1)]
  have ok2: "table_ok {0} k2" using proc_init_inv [OF assms(1)] table_ok_obs [OF assms(2)] by simp
  have c2: "cur_proc k2 = Some 0" using obs_other(1) [OF assms(2)] T(2) by simp
  have "kernel_step env buf (\<lambda>cb n k. Inr k) (Init, k2) (Init, k)" for buf by (rule first_program [OF assms(3)])
  then show inv: "kernel_inv False (Init, k)" by (rule kernel_step_inv) (use ok2 c2 in simp_all)
  obtain n k3 where X: "exec env [47, 98, 105, 110, 47, 98, 117, 115, 121, 98, 111, 120] argv envp k2 = Some (Inr (Some n, k3))"
    and k: "k = set_task n ((task k3 n)\<lparr>cwd := [47, 98, 105, 110]\<rparr>) k3"
    using assms(3) by (auto simp: user_init_def obind_eq_iff split: option.splits)
  note len = table_ok_length [OF ok2]
  obtain k4 t where A: "proc_alloc k2 = Inr (n, k4)" "pid t = pid (task k4 n)" "state t = TASK_RUNABLE"
    "obs k3 = obs (set_task n t k4)" "allocs t = allocs (task k4 n)"
    using exec_obs [OF X len] by blast
  note E = proc_alloc_effect [OF A(1) len]
  have u: "allocs (task k2 0) = USED" "allocs (task k2 1) = UNUSED" "last_pid k2 = 1"
    using obs_task [OF assms(2), unfolded T(1)] obs_other [OF assms(2)] T(3,4) T(7) [of 1] by (simp_all add: PROC_MAX_def zero_task_def)
  have n: "n = 1"
  proof (rule ccontr)
    assume "n \<noteq> 1"
    moreover have "n \<noteq> 0" using E(2) u(1) by (cases n) auto
    ultimately have "1 < n" by linarith
    then show False using E(3) u(2) by auto
  qed
  obtain v where "proc k4 = (proc k2)[n := v]" "pid v = last_pid k2" "allocs v = USED" using E(4) by auto
  then have p4: "length (proc k4) = PROC_MAX" "pid (task k4 1) = 1" "allocs (task k4 1) = USED"
    using len u(3) by (simp_all add: task_def n PROC_MAX_def)
  have l4: "length (proc (set_task n t k4)) = PROC_MAX" "1 < PROC_MAX" using p4 by (simp_all add: PROC_MAX_def)
  note O = obs_task [OF A(4), unfolded l4(1), OF l4(2)]
  have l3: "length (proc k3) = PROC_MAX" using obs_other(3) [OF A(4)] l4(1) by simp
  have t1: "task k 1 = (task k3 1)\<lparr>cwd := [47, 98, 105, 110]\<rparr>" using l3 l4(2) by (simp add: k n)
  then show p1: "pid (task k 1) = 1" and "cwd (task k 1) = [47, 98, 105, 110]"
    using O(1) p4 l4 A(2) by (simp_all add: n)
  have r1: "runnable k 1" using O p1 p4 l4 A(3,5) t1 by (simp add: runnable_def n)
  have r0: "\<not> runnable k 0" using inv by (simp add: table_ok_def runnable_def)
  have "find (runnable k) [0..<PROC_MAX] = Some 1" using r0 r1 by (simp add: PROC_MAX_def upt_rec)
  then show "fst (scheduler 0 False k) = Some 1" by (simp add: scheduler_eq)
  show "cur_proc k = Some 0" using exec_ok(2) [OF ok2 X] obs_other(1) [OF assms(2)] T(2) by (simp add: k)
qed

lemma kmain_setup_eq:
  "kmain_setup b c (bss_kernel m con) =
     (case pmm_init (b_kernel_end b) \<lparr>mem = m, freelist = 0\<rparr> of None \<Rightarrow> None
      | Some s \<Rightarrow> Some (kbind (proc_init (init_files ((bss_kernel m con)\<lparr>heap := heap_boot s\<rparr>)))
          (\<lambda>k2. Inr (vm_init (tlb_init ((dmw_init (c\<lparr>euen := 1\<rparr>))\<lparr>trap_regs := fst (trap_init (b_trap_entry b) (b_handle_tlbr b) (bss_kernel m con))\<rparr>)), k2))))"
  by (simp add: kmain_setup_def trap_init_def timer_init_def bss_kernel_def heap_boot_def split: option.split)

text \<open>
  When \<open>kmain\<close> reaches the scheduler, the disk it has mounted carries the signature of ext2, interrupts are on, the scheduler switches to the first
  program, task number 1 with the working directory \<open>/bin\<close>, and every state that the kernel
  reaches from there keeps the invariant of the task table.
\<close>

lemma boot_reaches_scheduler:
  assumes "kmain b c (bss_kernel m con) = Some (Inr (c', env, k))"
    and "carries_out_reads (e_disk (fsenv (b_exec b))) (b_drive b)" and "\<forall>p. answers (b_hbas b p)" and "low_buffer (b_ahci_buf b)"
    and "(kernel_step env buf sighandler)\<^sup>*\<^sup>* (Sched True 0 False, k) s"
    and "\<forall>cb n k k'. sighandler cb n k = Inr k' \<longrightarrow> proc k' = proc k \<and> cur_proc k' = cur_proc k \<and> last_pid k' = last_pid k"
  shows "s_magic (sb (e2fs (fsenv env))) = EXT2_SIGNATURE \<and> intr_get c' \<and> fst (scheduler 0 False k) = Some 1 \<and> pid (task k 1) = 1 \<and>
    cwd (task k 1) = [47, 98, 105, 110] \<and> kernel_inv False s"
proof -
  let ?fe = "fsenv (b_exec b)"
  obtain c1 k1 fs s1 where S: "kmain_setup b c (bss_kernel m con) = Some (Inr (c1, k1))"
    and D: "disk_init (b_ahci_buf b) (b_pi b) (b_ports b) (b_hbas b) (b_drive b) (e_disk ?fe) (e_junk_inode ?fe) (e2fs ?fe) (b_buf b) (hmm (heap k1)) =
        Some (Inr (fs, s1))"
    and U: "user_init env (b_argv b) (b_envp b) (k1\<lparr>heap := (heap k1)\<lparr>hmm := s1\<rparr>\<rparr>) = Some (Inr k)"
    and e: "env = (b_exec b)\<lparr>fsenv := ?fe\<lparr>e2fs := fs\<rparr>\<rparr>" and c: "c' = intr_on c1"
    using assms(1) by (auto simp: kmain_def obind_eq_iff Let_def)
  obtain k0 where P: "proc_init k0 = Inr k1"
    using S by (auto simp: kmain_setup_eq kres_simps split: option.splits)
  have "obs (k1\<lparr>heap := (heap k1)\<lparr>hmm := s1\<rparr>\<rparr>) = obs k1" by (simp add: obs_def)
  note F = user_init_first [OF P this U]
  have "kernel_inv False (Sched True 0 False, k)" using F(1) by simp
  then have "kernel_inv False s" by (rule kernel_steps_inv [OF assms(5)]) (use assms(6) in \<open>simp add: obs_def\<close>)
  moreover have "0 \<le> ahic_probe_port (b_pi b) (b_ports b)" using D by (auto simp: disk_init_def Let_def split: if_splits)
  then obtain p where p: "ahic_probe_port (b_pi b) (b_ports b) = int p" by (metis nonneg_int_cases)
  have sg: "get16 (disk_block (e_disk ?fe) 1) 56 = EXT2_SIGNATURE" and "sb fs = decode_superblock (disk_block (e_disk ?fe) 1)"
    using D disk_init_eq [where hbas = "b_hbas b", OF assms(2) _ assms(4) p] assms(3) ext2_init_superblock
    by (auto simp: kres_simps split: if_splits)
  then have "s_magic (sb (e2fs (fsenv env))) = EXT2_SIGNATURE" by (simp add: e decode_superblock_def)
  moreover have "intr_get c'" by (simp add: c intr_get_def intr_on_def CSR_CRMD_IE_def bit.conj_disj_distrib2)
  ultimately show ?thesis using F(3-5) by simp
qed

section \<open>Properties\<close>

text \<open>The pages behind the kernel image.\<close>

definition boot_pages :: "u64 \<Rightarrow> u64 list" where
  "boot_pages kernel_end = rev (page_run (PGROUNDUP kernel_end) ((unat PHYSTOP - unat (PGROUNDUP kernel_end)) div 16384))"

text \<open>
  C17: \<open>kmain\<close> gets as far as the kernel task whatever memory held before, if six pages are free behind the kernel image, and the state it has set up
  is the one the other parts rely on: the task table satisfies the invariant of the scheduler, the descriptors of the kernel
  task lead to files, all free pages but the five it used are on the free list,
  the buffer of translations is empty and walks the tables as \<open>va_to_pa\<close> does. The invariant of the task table also holds in every state that
  the kernel reaches from there, whatever the initialisation of the disk does to memory first and whenever the timer interrupts the first pass of the
  scheduler; for the descriptors, the free list and the translations only the state after the set-up is stated.
\<close>

theorem boot_state_well_formed:
  assumes "unat KERNBASE \<le> unat (b_kernel_end b)" and "unat (b_kernel_end b) + 6 * 16384 \<le> unat PHYSTOP"
    and "\<forall>cb n k k'. sighandler cb n k = Inr k' \<longrightarrow> proc k' = proc k \<and> cur_proc k' = cur_proc k \<and> last_pid k' = last_pid k"
  shows "\<exists>c' k'. kmain_setup b c (bss_kernel m con) = Some (Inr (c', k')) \<and> kernel_inv False (Init, k') \<and> fs_wf (fs_of 0 k') \<and>
    mm_inv (hmm (heap k')) (drop 5 (boot_pages (b_kernel_end b))) \<and> tlb_ok (c'\<lparr>pgdl := r\<rparr>) m' r T \<and>
    (\<forall>h s. (kernel_step env buf sighandler)\<^sup>*\<^sup>* (Init, k'\<lparr>heap := h\<rparr>) s \<longrightarrow> kernel_inv False s)"
proof -
  let ?ps = "boot_pages (b_kernel_end b)" and ?ke = "b_kernel_end b"
  have le: "unat ?ke \<le> unat PHYSTOP" using assms(2) by linarith
  obtain s where s: "pmm_init ?ke \<lparr>mem = m, freelist = 0\<rparr> = Some s" "mm_inv s ?ps"
    using kinit_pages [OF assms(1) le] unfolding pmm_init_def boot_pages_def by blast
  have "unat (PGROUNDUP ?ke) \<le> unat ?ke + 16383"
    using assms(2) by (subst PGROUNDUP_unat) (simp_all add: PHYSTOP_def KERNBASE_def KMEMSIZE_def)
  then have "5 * 16384 \<le> unat PHYSTOP - unat (PGROUNDUP ?ke)" using assms(2) by linarith
  then have "5 \<le> length ?ps" by (simp add: boot_pages_def page_run_def less_eq_div_iff_mult_less_eq)
  then obtain x y z u v where ps: "?ps = x # y # z # u # v # drop 5 ?ps"
    by (auto simp: numeral_eq_Suc Suc_le_length_iff)
  let ?k = "init_files ((bss_kernel m con)\<lparr>heap := heap_boot s\<rparr>)"
  have k: "hmm (heap ?k) = s" "fastbin (heap ?k) = replicate 11 0" "p_start (heap ?k) = 0" "p_end (heap ?k) = 0" "last_pid ?k = 0"
    by (simp_all add: init_files_def heap_boot_def bss_kernel_def)
  obtain k' where k': "proc_init ?k = Inr k'" "mm_inv (hmm (heap k')) (drop 5 ?ps)" "files k' = files ?k"
    "tables k' (p_fdtable (task k' 0)) = std_fdtable"
    using proc_init_first [of ?k x y z u v "drop 5 ?ps"] s(2) ps k by metis
  have "fs_of 0 k' = fs_init (\<lparr>fds = [], fdt = [], fmm = hmm (heap k'), cons = tty k'\<rparr>\<lparr>fdt := std_fdtable\<rparr>)"
    using k'(3,4) by (simp add: fs_of_def init_files_def fs_init_def)
  then have wf: "fs_wf (fs_of 0 k')" using boot_wf by metis
  have inv: "kernel_inv False (Init, k'\<lparr>heap := h\<rparr>)" for h
    using proc_init_inv [OF k'(1)] table_ok_obs [of "k'\<lparr>heap := h\<rparr>" k' "{0}"] by (simp add: obs_def)
  have "kernel_inv False t" if "(kernel_step env buf sighandler)\<^sup>*\<^sup>* (Init, k'\<lparr>heap := h\<rparr>) t" for h t
    by (rule kernel_steps_inv [OF that inv]) (use assms(3) in \<open>simp add: obs_def\<close>)
  then show ?thesis
    using k'(1,2) wf proc_init_inv [OF k'(1)] s(1)
    by (simp add: kmain_setup_eq tlb_ok_def tlb_init_def invtlb_all_def vm_init_def tlb_entry_def)
qed

definition sample_boot :: boot_env where
  "sample_boot = \<lparr>b_exec = \<lparr>fsenv = sample_env, elf_buf = 0, exec_helper = 0, kword = 0\<rparr>, b_trap_entry = 0x9000000090004000, b_handle_tlbr = 0x90005000,
     b_kernel_end = 0x9000000090100000, b_ahci_buf = 0x90000000900F0000, b_pi = 1, b_ports = [0x113, 0x113], b_hbas = \<lambda>_. ready_port,
     b_drive = ata_drive (e_disk sample_env), b_buf = 0x90000000900E0000, b_argv = 0, b_envp = 0\<rparr>"

theorem boot_state_well_formed_witness:
  "\<exists>c k. kmain_setup sample_boot reset_csrs (bss_kernel (\<lambda>_. 0xAA) \<lparr>keys = [], sent = []\<rparr>) = Some (Inr (c, k)) \<and>
     kernel_inv False (Init, k) \<and> fs_wf (fs_of 0 k)"
proof -
  have "unat KERNBASE \<le> unat (b_kernel_end sample_boot)" "unat (b_kernel_end sample_boot) + 6 * 16384 \<le> unat PHYSTOP"
    by (simp_all add: sample_boot_def KERNBASE_def PHYSTOP_def KMEMSIZE_def)
  from boot_state_well_formed [OF this, of "\<lambda>cb n k. Inr k"] show ?thesis by blast
qed

end
