(* ===== verification/HeapSpace.thy ===== *)
theory HeapSpace
  imports Vm
begin

text \<open>
  Which memory the kernel heap and the page allocator may still hand out. Everything outside of it belongs to somebody: to the blocks
  in use, to page tables, to user pages. An operation that \<open>evolves\<close> the heap with the addresses \<open>W\<close> writes only to memory
  that was available and to \<open>W\<close>, so that a component knows what it keeps from the footprints alone. The interface \<open>block_heap\<close> states
  what \<open>malloc\<close> and \<open>free\<close> promise for the block sizes that the kernel gives back.
\<close>

section \<open>Available memory\<close>

definition pages :: "u64 set \<Rightarrow> u64 set" where
  "pages P = {a. \<exists>p\<in>P. in_page p a}"

text \<open>
  The size of the blocks in a bin. The kernel gives back elements of lists (24 bytes) and mappings (32 bytes); a block from one of their bins
  serves requests up to that size. In the other bins a block would have to serve every request.
\<close>

definition room :: "nat \<Rightarrow> nat" where
  "room i = (if i = 1 then 24 else if i = 2 then 32 else 15 * i + 14)"

definition free_mem :: "kheap \<Rightarrow> u64 set" where
  "free_mem h = window h \<union>
     {a. \<exists>i<11. \<exists>cs. bin_chain (mem (hmm h)) (fastbin h ! i) cs \<and> (\<exists>c\<in>set cs. a \<in> reg c (16 + room i))}"

definition avail :: "kheap \<Rightarrow> u64 list \<Rightarrow> u64 set" where
  "avail h xs = free_mem h \<union> pages (set xs)"

text \<open>The bins and what is left of the current page do not overlap.\<close>

definition bins :: "kheap \<Rightarrow> (nat \<Rightarrow> u64 list) \<Rightarrow> bool" where
  "bins h B \<longleftrightarrow> length (fastbin h) = 11 \<and> (\<forall>i<11. bin_chain (mem (hmm h)) (fastbin h ! i) (B i) \<and> distinct (B i)) \<and>
     (\<forall>i<11. \<forall>c\<in>set (B i). c + 16 \<noteq> 0 \<and> reg c (16 + room i) \<inter> window h = {}) \<and>
     (\<forall>i<11. \<forall>j<11. \<forall>c\<in>set (B i). \<forall>d\<in>set (B j). (i, c) \<noteq> (j, d) \<longrightarrow> reg c (16 + room i) \<inter> reg d (16 + room j) = {})"

definition heap_ok :: "kheap \<Rightarrow> u64 list \<Rightarrow> bool" where
  "heap_ok h xs \<longleftrightarrow> mm_inv (hmm h) xs \<and> window_ok h \<and> (\<exists>B. bins h B) \<and> free_mem h \<inter> pages (set xs) = {}"

definition evolves :: "kheap \<Rightarrow> u64 list \<Rightarrow> u64 set \<Rightarrow> kheap \<Rightarrow> u64 list \<Rightarrow> bool" where
  "evolves h xs W h' ys \<longleftrightarrow> heap_ok h' ys \<and> avail h' ys \<subseteq> avail h xs \<union> W \<and> (\<forall>a. a \<notin> avail h xs \<union> W \<longrightarrow> mem (hmm h') a = mem (hmm h) a)"

lemma evolvesD:
  assumes "evolves h xs W h' ys"
  shows "heap_ok h' ys" "avail h' ys \<subseteq> avail h xs \<union> W" "\<And>a. a \<notin> avail h xs \<union> W \<Longrightarrow> mem (hmm h') a = mem (hmm h) a"
  using assms by (simp_all add: evolves_def)

lemma evolves_refl: "heap_ok h xs \<Longrightarrow> evolves h xs W h xs"
  by (simp add: evolves_def)

lemma evolves_trans:
  assumes "evolves h xs W h1 ys" "evolves h1 ys V h2 zs" "V \<subseteq> avail h xs \<union> W"
  shows "evolves h xs W h2 zs"
proof -
  have "mem (hmm h2) a = mem (hmm h) a" if "a \<notin> avail h xs \<union> W" for a
  proof -
    have "a \<notin> avail h1 ys \<union> V" using that evolvesD(2) [OF assms(1)] assms(3) by blast
    then show ?thesis using evolvesD(3) [OF assms(1)] evolvesD(3) [OF assms(2)] that by simp
  qed
  then show ?thesis using evolvesD(1,2) [OF assms(2)] evolvesD(2) [OF assms(1)] assms(3) unfolding evolves_def by blast
qed

lemma evolves_mono: "evolves h xs V h' ys \<Longrightarrow> V \<subseteq> avail h xs \<union> W \<Longrightarrow> evolves h xs W h' ys"
  unfolding evolves_def by (metis (no_types) Un_iff Un_subset_iff order_trans subset_iff sup.cobounded1)

text \<open>What lies outside is kept, with what it holds.\<close>

lemma evolves_keeps:
  assumes "evolves h xs W h' ys" "A \<inter> avail h xs = {}" "A \<inter> W = {}"
  shows "A \<inter> avail h' ys = {}" "\<And>a. a \<in> A \<Longrightarrow> mem (hmm h') a = mem (hmm h) a"
  using assms evolvesD(2,3) [OF assms(1)] by blast+

text \<open>How many free pages an operation uses up.\<close>

definition takes :: "nat \<Rightarrow> u64 list \<Rightarrow> u64 list \<Rightarrow> bool" where
  "takes n xs ys \<longleftrightarrow> (\<exists>k\<le>n. ys = drop k xs)"

lemma takes_refl [simp]: "takes n xs xs"
  unfolding takes_def by (intro exI [of _ 0]) simp

lemma takes_trans: "takes m xs ys \<Longrightarrow> takes n ys zs \<Longrightarrow> takes (m + n) xs zs"
  unfolding takes_def by (metis add_mono drop_drop add.commute)

lemma takes_mono: "takes m xs ys \<Longrightarrow> m \<le> n \<Longrightarrow> takes n xs ys"
  unfolding takes_def using le_trans by blast

lemma takes_tl: "takes 1 (x # xs) xs"
  unfolding takes_def by (rule exI [of _ 1]) simp

lemma takes_length: "takes n xs ys \<Longrightarrow> length xs \<le> length ys + n"
  by (auto simp: takes_def)

lemma takes_set: "takes n xs ys \<Longrightarrow> set ys \<subseteq> set xs"
  by (auto simp: takes_def dest: in_set_dropD)

section \<open>Pages and bins\<close>

lemma pages_Un [simp]: "pages (P \<union> Q) = pages P \<union> pages Q"
  by (auto simp: pages_def)

lemma pages_mono: "P \<subseteq> Q \<Longrightarrow> pages P \<subseteq> pages Q"
  by (auto simp: pages_def)

lemma pages_empty [simp]: "pages {} = {}"
  by (simp add: pages_def)

lemma pages_insert: "pages (insert p P) = pages {p} \<union> pages P"
  by (auto simp: pages_def)

lemma reg_page: "reg x 16384 = pages {x}"
  by (auto simp: reg_def pages_def in_page_def)

lemma pages_apart:
  assumes "P \<inter> Q = {}" "\<And>p. p \<in> P \<union> Q \<Longrightarrow> page_aligned p"
  shows "pages P \<inter> pages Q = {}"
  using assms in_page_unique unfolding pages_def by fastforce

lemma page_in_pages: "p \<in> P \<Longrightarrow> p \<in> pages P"
  unfolding pages_def by (auto intro!: bexI [of _ p] simp: in_page_def in_region_def)

lemma bin_chain_unique: "bin_chain m p cs \<Longrightarrow> bin_chain m p ds \<Longrightarrow> cs = ds"
proof (induction cs arbitrary: p ds)
  case Nil
  then show ?case by (cases ds) auto
next
  case (Cons c cs)
  then show ?case by (cases ds) auto
qed

lemma free_mem_bins:
  assumes "bins h B"
  shows "free_mem h = window h \<union> (\<Union>i<11. \<Union>c\<in>set (B i). reg c (16 + room i))"
proof -
  have "bin_chain (mem (hmm h)) (fastbin h ! i) cs \<longleftrightarrow> cs = B i" if "i < 11" for i cs
    using assms that bin_chain_unique by (auto simp: bins_def)
  then show ?thesis by (auto simp: free_mem_def)
qed

lemma free_mem_iff:
  "bins h B \<Longrightarrow> a \<in> free_mem h \<longleftrightarrow> a \<in> window h \<or> (\<exists>i<11. \<exists>c\<in>set (B i). a \<in> reg c (16 + room i))"
  by (auto simp: free_mem_bins)

lemma window_free: "window h \<subseteq> free_mem h"
  by (simp add: free_mem_def)

lemma heap_okD:
  assumes "heap_ok h xs"
  shows "mm_inv (hmm h) xs" "window_ok h" "free_mem h \<inter> pages (set xs) = {}" "length (fastbin h) = 11"
  using assms by (auto simp: heap_ok_def bins_def)

lemma heap_ok_aligned: "heap_ok h xs \<Longrightarrow> x \<in> set xs \<Longrightarrow> page_aligned x \<and> x \<noteq> 0"
  using kp.pages_ok heap_okD(1) by blast

text \<open>The heap as \<open>malloc\<close> finds it the first time.\<close>

lemma heap_boot_ok:
  assumes "mm_inv s xs"
  shows "heap_ok (heap_boot s) xs" "avail (heap_boot s) xs = pages (set xs)"
proof -
  have b: "bins (heap_boot s) (\<lambda>_. [])" by (simp add: bins_def heap_boot_def)
  have "window (heap_boot s) = {}" "window_ok (heap_boot s)" "hmm (heap_boot s) = s"
    by (simp_all add: heap_boot_def window_def window_ok_def)
  then show "heap_ok (heap_boot s) xs" "avail (heap_boot s) xs = pages (set xs)"
    using assms b by (auto simp: heap_ok_def avail_def free_mem_bins [OF b])
qed

text \<open>Bins whose chunks keep their headers.\<close>

lemma bins_frame:
  assumes "bins h B" "fastbin h' = fastbin h" "window h' \<inter> (\<Union>i<11. \<Union>c\<in>set (B i). reg c (16 + room i)) = {}"
    "\<And>a. a \<in> free_mem h - window h \<Longrightarrow> mem (hmm h') a = mem (hmm h) a"
  shows "bins h' B" "free_mem h' = window h' \<union> (free_mem h - window h)"
proof -
  have "mem (hmm h') a = mem (hmm h) a" if "i < 11" "c \<in> set (B i)" "a \<in> reg c 16" for i c a
  proof (rule assms(4))
    have r: "a \<in> reg c (16 + room i)" using that(3) reg16 by blast
    then have "a \<notin> window h" using assms(1) that(1,2) by (auto simp: bins_def)
    then show "a \<in> free_mem h - window h" using r that(1,2) by (auto simp: free_mem_bins [OF assms(1)])
  qed
  then have "bin_chain (mem (hmm h')) (fastbin h ! i) (B i) = bin_chain (mem (hmm h)) (fastbin h ! i) (B i)" if "i < 11" for i
    using that by (intro bin_chain_cong) blast
  then show b: "bins h' B" using assms(1-3) unfolding bins_def by fastforce
  show "free_mem h' = window h' \<union> (free_mem h - window h)"
    using assms(1) unfolding free_mem_bins [OF b] free_mem_bins [OF assms(1)] by (auto simp: bins_def)
qed

text \<open>Writing outside of what is available.\<close>

lemma write_evolves:
  assumes "heap_ok h xs" "A \<inter> avail h xs = {}" "\<And>a. a \<notin> A \<Longrightarrow> m a = mem (hmm h) a"
  shows "evolves h xs A (h\<lparr>hmm := (hmm h)\<lparr>mem := m\<rparr>\<rparr>) xs" "avail (h\<lparr>hmm := (hmm h)\<lparr>mem := m\<rparr>\<rparr>) xs = avail h xs"
proof -
  let ?h = "h\<lparr>hmm := (hmm h)\<lparr>mem := m\<rparr>\<rparr>"
  note H = heap_okD [OF assms(1)]
  obtain B where B: "bins h B" using assms(1) by (auto simp: heap_ok_def)
  have w [simp]: "window ?h = window h" "window_ok ?h = window_ok h" by (simp_all add: window_def window_ok_def)
  have "window ?h \<inter> (\<Union>i<11. \<Union>c\<in>set (B i). reg c (16 + room i)) = {}" using B by (auto simp: bins_def)
  moreover have "mem (hmm ?h) a = mem (hmm h) a" if "a \<in> free_mem h - window h" for a
    using that assms(2,3) by (simp add: avail_def) blast
  ultimately have F: "bins ?h B" "free_mem ?h = free_mem h"
    using bins_frame [OF B, of ?h] window_free [of h] by auto
  have "m a = mem (hmm h) a" if "x \<in> set xs" "in_page x a" for x a
    using that assms(2) by (intro assms(3)) (auto simp: avail_def pages_def)
  then have "mm_inv (hmm ?h) xs" using mm_inv_frame [OF H(1)] by simp
  then have "heap_ok ?h xs" using H F unfolding heap_ok_def by auto
  then show "evolves h xs A ?h xs" "avail ?h xs = avail h xs" using F(2) assms(3) by (simp_all add: evolves_def avail_def)
qed

lemma put64_evolves:
  assumes "heap_ok h xs" "reg a 8 \<inter> avail h xs = {}"
  shows "evolves h xs (reg a 8) (put64 a v h) xs" "avail (put64 a v h) xs = avail h xs"
  unfolding put64_def by (rule write_evolves [OF assms], erule store64_reg)+

section \<open>Blocks\<close>

text \<open>A block of \<open>malloc\<close>: the 16 bytes in front of it hold its size.\<close>

definition mblock :: "kheap \<Rightarrow> u64 list \<Rightarrow> u64 \<Rightarrow> u64 \<Rightarrow> bool" where
  "mblock h xs p sz \<longleftrightarrow> p \<noteq> 0 \<and> p - 16 \<noteq> 0 \<and> reg (p - 16) (16 + unat sz) \<inter> avail h xs = {} \<and> chunk_size h (p - 16) = sz"

lemma mblock_keeps:
  assumes "mblock h xs p sz" "evolves h xs W h' ys" "reg (p - 16) (16 + unat sz) \<inter> W = {}"
  shows "mblock h' ys p sz"
proof -
  note K = evolves_keeps [OF assms(2) _ assms(3)]
  have "chunk_size h' (p - 16) = chunk_size h (p - 16)"
    by (rule chunk_size_same) (use K(2) assms(1) reg16 in \<open>auto simp: mblock_def\<close>)
  then show ?thesis using assms(1) K(1) by (simp add: mblock_def)
qed

text \<open>A new current page, or less of the old one.\<close>

lemma window_evolves:
  assumes "heap_ok h xs" "mm_inv (hmm h') ys" "set ys \<subseteq> set xs" "window_ok h'" "fastbin h' = fastbin h"
    and "window h' \<subseteq> window h \<union> pages (set xs)" "window h' \<inter> pages (set ys) = {}"
    and "\<And>a. a \<notin> pages (set xs) \<Longrightarrow> mem (hmm h') a = mem (hmm h) a"
  shows "evolves h xs {} h' ys" "free_mem h' \<subseteq> window h' \<union> (free_mem h - window h)"
proof -
  note H = heap_okD [OF assms(1)]
  obtain B where B: "bins h B" using assms(1) by (auto simp: heap_ok_def)
  let ?R = "\<Union>i<11. \<Union>c\<in>set (B i). reg c (16 + room i)"
  have R: "?R = free_mem h - window h" using B unfolding free_mem_bins [OF B] by (auto simp: bins_def)
  have "window h' \<inter> ?R = {}" unfolding R using assms(6) H(3) by blast
  moreover have "mem (hmm h') a = mem (hmm h) a" if "a \<in> free_mem h - window h" for a
    using that H(3) by (intro assms(8)) blast
  ultimately have F: "bins h' B" "free_mem h' = window h' \<union> (free_mem h - window h)"
    using bins_frame [OF B assms(5)] by blast+
  have p: "pages (set ys) \<subseteq> pages (set xs)" by (rule pages_mono [OF assms(3)])
  have "free_mem h' \<inter> pages (set ys) = {}" unfolding F(2) using assms(7) H(3) p by blast
  then have "heap_ok h' ys" using assms(2,4) F(1) by (auto simp: heap_ok_def)
  moreover have "avail h' ys \<subseteq> avail h xs" unfolding avail_def F(2) using assms(6) p window_free [of h] by blast
  moreover have "mem (hmm h') a = mem (hmm h) a" if "a \<notin> avail h xs" for a
    using that by (intro assms(8)) (simp add: avail_def)
  ultimately show "evolves h xs {} h' ys" by (simp add: evolves_def)
  show "free_mem h' \<subseteq> window h' \<union> (free_mem h - window h)" by (simp add: F(2))
qed

lemma apply_alloc_evolves:
  assumes "heap_ok h (x # xs)" "0 < unat n" "unat n \<le> 1024"
  shows "\<exists>c h' ys. apply_alloc n h = Inr (c, h') \<and> evolves h (x # xs) {} h' ys \<and> takes 1 (x # xs) ys \<and> c \<noteq> 0 \<and>
    0 \<notin> reg c (unat n) \<and> reg c (unat n) \<subseteq> avail h (x # xs) \<and> reg c (unat n) \<inter> avail h' ys = {}"
proof (cases "p_start h + n \<ge> p_end h")
  case False
  note H = heap_okD [OF assms(1)]
  note L = apply_alloc_old [OF H(2) assms(2,3) False]
  let ?h = "h\<lparr>p_start := p_start h + n\<rparr>"
  have w: "window ?h \<inter> pages (set (x # xs)) = {}" using L(5) H(3) window_free by blast
  note E = window_evolves [OF assms(1), of ?h "x # xs", OF _ _ L(2) _ _ w]
  have e: "evolves h (x # xs) {} ?h (x # xs)" "free_mem ?h \<subseteq> window ?h \<union> (free_mem h - window h)"
    using E H(1) L(5) by auto
  have "0 \<notin> window h" using L(3) by (auto simp: window_def)
  moreover have "reg (p_start h) (unat n) \<inter> avail ?h (x # xs) = {}"
    using e(2) L(4,6) H(3) window_free [of h] unfolding avail_def by blast
  ultimately show ?thesis using L(1,3,4) e(1) window_free [of h]
    by (intro exI [of _ "p_start h"] exI [of _ ?h] exI [of _ "x # xs"]) (auto simp: avail_def)
next
  case True
  note H = heap_okD [OF assms(1)]
  obtain m where A: "apply_alloc n h = Inr (x, h\<lparr>hmm := m, p_start := x + n, p_end := x + PGSIZE\<rparr>)" "mm_inv m xs"
    "\<And>a. a \<notin> pages {x} \<Longrightarrow> mem m a = mem (hmm h) a" "window_ok (h\<lparr>hmm := m, p_start := x + n, p_end := x + PGSIZE\<rparr>)" "x \<noteq> 0"
    "reg x (unat n) \<subseteq> pages {x}" "window (h\<lparr>hmm := m, p_start := x + n, p_end := x + PGSIZE\<rparr>) \<subseteq> pages {x}"
    "reg x (unat n) \<inter> window (h\<lparr>hmm := m, p_start := x + n, p_end := x + PGSIZE\<rparr>) = {}"
    using apply_alloc_new [OF H(1) assms(2,3) True] unfolding reg_page by blast
  let ?h = "h\<lparr>hmm := m, p_start := x + n, p_end := x + PGSIZE\<rparr>"
  have x: "page_aligned x" "x \<notin> set xs" "\<And>y. y \<in> set xs \<Longrightarrow> page_aligned y"
    using kp.pages_ok [OF H(1)] by auto
  have px: "pages {x} \<inter> pages (set xs) = {}" using x by (intro pages_apart) auto
  have p: "pages (set (x # xs)) = pages {x} \<union> pages (set xs)" by (simp add: pages_insert [of x "set xs"])
  have e: "evolves h (x # xs) {} ?h xs" "free_mem ?h \<subseteq> window ?h \<union> (free_mem h - window h)"
    using window_evolves [OF assms(1), of ?h xs] A(2-4,7) px unfolding p by auto
  have "0 \<notin> pages {x}"
  proof
    assume "0 \<in> pages {x}"
    then have "x = 0" using in_page_unique [OF x(1), of 0 0] by (simp add: pages_def page_aligned_def in_page_def in_region_def)
    then show False using A(5) by simp
  qed
  then have "0 \<notin> reg x (unat n)" using A(6) by blast
  moreover have "reg x (unat n) \<subseteq> avail h (x # xs)" using A(6) unfolding avail_def p by blast
  moreover have "reg x (unat n) \<inter> avail ?h xs = {}" using A(6,8) e(2) H(3) px unfolding avail_def p by blast
  moreover have "takes 1 (x # xs) xs" unfolding takes_def by (intro exI [of _ 1]) simp
  ultimately show ?thesis using A(1,5) e(1) by blast
qed

text \<open>The first block of a bin is taken, and a block is put in front of one.\<close>

lemma bin_take_evolves:
  assumes "heap_ok h xs" "i < 11" "fastbin h ! i = c" "c \<noteq> 0"
  shows "evolves h xs {} (h\<lparr>fastbin := (fastbin h)[i := chunk_next h c]\<rparr>) xs" "c + 16 \<noteq> 0"
    and "reg c (16 + room i) \<subseteq> avail h xs" "reg c (16 + room i) \<inter> avail (h\<lparr>fastbin := (fastbin h)[i := chunk_next h c]\<rparr>) xs = {}"
proof -
  let ?h = "h\<lparr>fastbin := (fastbin h)[i := chunk_next h c]\<rparr>"
  note H = heap_okD [OF assms(1)]
  obtain B where B: "bins h B" using assms(1) by (auto simp: heap_ok_def)
  obtain cs where cs: "B i = c # cs" "bin_chain (mem (hmm h)) (chunk_next h c) cs" "c \<notin> set cs" "distinct cs"
    using B assms(2-4) by (cases "B i") (auto simp: bins_def chunk_next_def)
  have w: "window ?h = window h" "window_ok ?h = window_ok h" by (simp_all add: window_def window_ok_def)
  let ?B = "B(i := cs)"
  have sub: "set (?B j) \<subseteq> set (B j)" for j using cs(1) by auto
  have b: "bins ?h ?B"
    unfolding bins_def w
  proof (intro conjI allI impI ballI)
    show "length (fastbin ?h) = 11" using H(4) by simp
    show "bin_chain (mem (hmm ?h)) (fastbin ?h ! j) (?B j)" "distinct (?B j)" if "j < 11" for j
      using B cs that assms(2) H(4) by (auto simp: bins_def)
    show "d + 16 \<noteq> 0" "reg d (16 + room j) \<inter> window h = {}" if "j < 11" "d \<in> set (?B j)" for j d
      using B that sub unfolding bins_def by blast+
    show "reg d (16 + room j) \<inter> reg d' (16 + room j') = {}"
      if "j < 11" "j' < 11" "d \<in> set (?B j)" "d' \<in> set (?B j')" "(j, d) \<noteq> (j', d')" for j j' d d'
      using B that sub unfolding bins_def by blast
  qed
  have c: "c \<in> set (B i)" by (simp add: cs(1))
  show "c + 16 \<noteq> 0" using B c assms(2) by (auto simp: bins_def)
  have r: "reg c (16 + room i) \<subseteq> free_mem h" using c assms(2) unfolding free_mem_bins [OF B] by blast
  then show "reg c (16 + room i) \<subseteq> avail h xs" by (auto simp: avail_def)
  have out: "reg c (16 + room i) \<inter> reg d (16 + room j) = {}" if "j < 11" "d \<in> set (?B j)" for j d
  proof -
    have "(i, c) \<noteq> (j, d)" using that cs(3) by auto
    moreover have "d \<in> set (B j)" using that(2) sub by blast
    ultimately show ?thesis using B c assms(2) that(1) unfolding bins_def by blast
  qed
  have "reg c (16 + room i) \<inter> window h = {}" using B c assms(2) unfolding bins_def by blast
  then have f: "a \<notin> free_mem ?h" if "a \<in> reg c (16 + room i)" for a
    using that out unfolding free_mem_iff [OF b] w by blast
  have m: "a \<in> free_mem h" if "a \<in> free_mem ?h" for a
  proof -
    have "a \<in> window h \<or> (\<exists>j<11. \<exists>d\<in>set (?B j). a \<in> reg d (16 + room j))" using that unfolding free_mem_iff [OF b] w .
    then show ?thesis using sub unfolding free_mem_iff [OF B] by blast
  qed
  show "reg c (16 + room i) \<inter> avail ?h xs = {}" using f r H(3) unfolding avail_def disjoint_iff by (metis UnE subsetD)
  have "heap_ok ?h xs" using H b m unfolding heap_ok_def w by auto
  then show "evolves h xs {} ?h xs" using m by (auto simp: evolves_def avail_def)
qed

lemma bin_put_evolves:
  assumes "heap_ok h xs" "i < 11" "c \<noteq> 0" "c + 16 \<noteq> 0" "reg c (16 + room i) \<inter> avail h xs = {}"
  shows "evolves h xs (reg c (16 + room i)) ((put64 c (fastbin h ! i) h)\<lparr>fastbin := (fastbin h)[i := c]\<rparr>) xs"
proof -
  let ?h1 = "put64 c (fastbin h ! i) h"
  let ?h = "?h1\<lparr>fastbin := (fastbin h)[i := c]\<rparr>" and ?R = "reg c (16 + room i)"
  have r: "reg c 8 \<subseteq> ?R" by (rule reg_mono) simp
  then have "reg c 8 \<inter> avail h xs = {}" using assms(5) by blast
  note E = put64_evolves(1) [OF assms(1) this, of "fastbin h ! i"]
  note H = heap_okD [OF assms(1)]
  obtain B where B: "bins h B" using assms(1) by (auto simp: heap_ok_def)
  have R: "?R \<inter> free_mem h = {}" "?R \<inter> pages (set xs) = {}" using assms(5) by (auto simp: avail_def)
  have out: "mem (hmm ?h1) a = mem (hmm h) a" if "a \<notin> ?R" for a
  proof -
    have "a \<notin> reg c 8" using that r by blast
    then show ?thesis by (simp add: store64_reg)
  qed
  have "mem (hmm ?h1) a = mem (hmm h) a" if "a \<in> free_mem h - window h" for a using that R(1) by (intro out) blast
  moreover have "window ?h1 \<inter> (\<Union>i<11. \<Union>c\<in>set (B i). reg c (16 + room i)) = {}" using B by (auto simp: bins_def)
  ultimately have b1: "bins ?h1 B" "free_mem ?h1 = free_mem h"
    using bins_frame [OF B, of ?h1] window_free [of h] by auto
  have w: "window ?h = window h" "window_ok ?h = window_ok h" by (simp_all add: window_def window_ok_def put64_def)
  let ?B = "B(i := c # B i)"
  have free: "reg d (16 + room j) \<subseteq> free_mem h" if "j < 11" "d \<in> set (B j)" for j d
    using that unfolding free_mem_bins [OF B] by blast
  have new: "?R \<inter> reg d (16 + room j) = {}" if "j < 11" "d \<in> set (B j)" for j d using free [OF that] R(1) by blast
  have ci: "c \<notin> set (B i)" using new [OF assms(2), of c] reg_self [of "16 + room i" c] by auto
  have b: "bins ?h ?B"
    unfolding bins_def w
  proof (intro conjI allI impI ballI)
    show "length (fastbin ?h) = 11" using H(4) by simp
    show "bin_chain (mem (hmm ?h)) (fastbin ?h ! j) (?B j)" "distinct (?B j)" if "j < 11" for j
      using b1(1) that assms(2,3) H(4) ci by (auto simp: bins_def)
    show "d + 16 \<noteq> 0" "reg d (16 + room j) \<inter> window h = {}" if "j < 11" "d \<in> set (?B j)" for j d
    proof -
      have "?R \<inter> window h = {}" using R(1) window_free [of h] by blast
      moreover have "d + 16 \<noteq> 0 \<and> reg d (16 + room j) \<inter> window h = {}" if "d \<in> set (B j)"
        using B that \<open>j < 11\<close> by (simp add: bins_def)
      ultimately show "d + 16 \<noteq> 0" "reg d (16 + room j) \<inter> window h = {}" using that(2) assms(4) by (simp_all split: if_splits) blast+
    qed
    show "reg d (16 + room j) \<inter> reg d' (16 + room j') = {}"
      if "j < 11" "j' < 11" "d \<in> set (?B j)" "d' \<in> set (?B j')" "(j, d) \<noteq> (j', d')" for j j' d d'
    proof (cases "(j, d) = (i, c) \<or> (j', d') = (i, c)")
      case True
      then show ?thesis using that new by (auto split: if_splits)
    next
      case False
      then have "d \<in> set (B j)" "d' \<in> set (B j')" using that(3,4) by (auto split: if_splits)
      then show ?thesis using B that unfolding bins_def by blast
    qed
  qed
  have m: "a \<in> free_mem h \<union> ?R" if "a \<in> free_mem ?h" for a
    using that unfolding Un_iff free_mem_iff [OF b] w free_mem_iff [OF B] by (auto split: if_splits)
  have "mm_inv (hmm ?h) xs" using heap_okD(1) [OF evolvesD(1) [OF E]] by simp
  then have "heap_ok ?h xs" using H(2,3) b m R(2) unfolding heap_ok_def w disjoint_iff by (metis UnE)
  moreover have "mem (hmm ?h) a = mem (hmm h) a" if "a \<notin> avail h xs \<union> ?R" for a using out [of a] that by simp
  ultimately show ?thesis using m by (auto simp: evolves_def avail_def)
qed

definition serves :: "u64 \<Rightarrow> bool" where
  "serves sz \<longleftrightarrow> sz < 0xa0 \<and> unat sz \<le> room (unat sz div 15)"

definition recycles :: "u64 \<Rightarrow> bool" where
  "recycles sz \<longleftrightarrow> sz < 0xa0 \<and> room (unat sz div 15) \<le> unat sz"

lemma kernel_sizes [simp]: "serves 16" "serves 24" "serves 32" "recycles 24" "recycles 32"
  by (simp_all add: serves_def recycles_def room_def)

lemma block_header: "c + 16 \<in> reg c (16 + k)" if "0 < k" "k < 2 ^ 32" for c :: u64
  using that by (simp add: reg_def in_region_def)

lemma size_word: "reg (c + 8) 8 \<subseteq> reg c (16 + k)"
  using reg_header(2) [of c] reg16 [of c k] by (auto simp: reg_def)

lemma malloc_evolves:
  assumes "heap_ok h xs" "xs \<noteq> []" "serves sz" "0 < unat sz"
  shows "\<exists>p h' ys. malloc sz h = Inr (p, h') \<and> evolves h xs {} h' ys \<and> takes 1 xs ys \<and> mblock h' ys p sz \<and>
    reg (p - 16) (16 + unat sz) \<subseteq> avail h xs"
proof -
  let ?i = "unat (sz div 0xF)"
  have sz: "sz < 0xa0" "\<not> sz \<ge> 0xa0" "unat sz \<le> room ?i" using assms(3) by (auto simp: serves_def unat_div)
  note i = bin_index [OF sz(1)]
  have "\<exists>c h1 ys. malloc sz h = Inr (c + 16, put64 (c + 8) sz h1) \<and> evolves h xs {} h1 ys \<and> takes 1 xs ys \<and> c + 16 \<noteq> 0 \<and> c \<noteq> 0 \<and>
    reg c (16 + unat sz) \<subseteq> avail h xs \<and> reg c (16 + unat sz) \<inter> avail h1 ys = {}"
  proof (cases "fastbin h ! ?i = 0")
    case False
    note T = bin_take_evolves [OF assms(1) i refl False]
    have "reg (fastbin h ! ?i) (16 + unat sz) \<subseteq> reg (fastbin h ! ?i) (16 + room ?i)" by (rule reg_mono) (use sz(3) in simp)
    moreover have "malloc sz h = Inr (fastbin h ! ?i + 16, put64 (fastbin h ! ?i + 8) sz
        (h\<lparr>fastbin := (fastbin h)[?i := chunk_next h (fastbin h ! ?i)]\<rparr>))"
      using False sz(2) by (simp add: malloc_def Let_def)
    ultimately show ?thesis using T takes_refl False by blast
  next
    case True
    let ?n = "((sz + 0xF) AND NOT 0xF) + 16"
    obtain x xs' where x: "xs = x # xs'" using assms(2) by (cases xs) auto
    note F = fix_size [OF sz(1)]
    have n: "0 < unat ?n" "unat ?n \<le> 1024" "16 + unat sz \<le> unat ?n" using F by linarith+
    have "unat sz < 2 ^ 32" using F by simp
    note n = n this
    obtain c h' ys where A: "apply_alloc ?n h = Inr (c, h')" "evolves h xs {} h' ys" "takes 1 xs ys" "c \<noteq> 0"
      "0 \<notin> reg c (unat ?n)" "reg c (unat ?n) \<subseteq> avail h xs" "reg c (unat ?n) \<inter> avail h' ys = {}"
      using apply_alloc_evolves [OF assms(1) [unfolded x] n(1,2)] unfolding x [symmetric] by blast
    have r: "reg c (16 + unat sz) \<subseteq> reg c (unat ?n)" by (rule reg_mono [OF n(3)])
    moreover have "c + 16 \<in> reg c (16 + unat sz)" by (rule block_header [OF assms(4) n(4)])
    ultimately have "c + 16 \<noteq> 0" using A(5) by auto
    moreover have "malloc sz h = Inr (c + 16, put64 (c + 8) sz h')" using True sz(2) A(1,4) by (simp add: malloc_def Let_def)
    ultimately show ?thesis using A(2-4,6,7) r by blast
  qed
  then obtain c h1 ys where C: "malloc sz h = Inr (c + 16, put64 (c + 8) sz h1)" "evolves h xs {} h1 ys" "takes 1 xs ys" "c + 16 \<noteq> 0 \<and> c \<noteq> 0"
    "reg c (16 + unat sz) \<subseteq> avail h xs" "reg c (16 + unat sz) \<inter> avail h1 ys = {}" by blast
  have r: "reg (c + 8) 8 \<subseteq> reg c (16 + unat sz)" by (rule size_word)
  then have "reg (c + 8) 8 \<inter> avail h1 ys = {}" using C(6) by blast
  note P = put64_evolves [OF evolvesD(1) [OF C(2)] this, of sz]
  have "mblock (put64 (c + 8) sz h1) ys (c + 16) sz" using C(4,6) by (simp add: mblock_def chunk_size_put P(2))
  moreover have "evolves h xs {} (put64 (c + 8) sz h1) ys" by (rule evolves_trans [OF C(2) P(1)]) (use r C(5) in blast)
  ultimately show ?thesis using C(1,3,5) by (intro exI [of _ "c + 16"] exI [of _ "put64 (c + 8) sz h1"] exI [of _ ys]) simp
qed

lemma free_evolves:
  assumes "heap_ok h xs" "mblock h xs p sz" "recycles sz"
  shows "evolves h xs (reg (p - 16) (16 + unat sz)) (free p h) xs"
proof -
  let ?c = "p - 16" and ?i = "unat (sz div 0xF)"
  have sz: "sz < 0xa0" "\<not> sz \<ge> 0xa0" "room ?i \<le> unat sz" using assms(3) by (auto simp: recycles_def unat_div)
  have b: "chunk_size h ?c = sz" "p \<noteq> 0" "?c \<noteq> 0" "reg ?c (16 + unat sz) \<inter> avail h xs = {}" using assms(2) by (auto simp: mblock_def)
  have r: "reg ?c (16 + room ?i) \<subseteq> reg ?c (16 + unat sz)" by (rule reg_mono) (use sz(3) in simp)
  have f: "free p h = (put64 ?c (fastbin h ! ?i) h)\<lparr>fastbin := (fastbin h)[?i := ?c]\<rparr>"
    using sz(2) by (simp add: free_def Let_def b(1))
  have "reg ?c (16 + room ?i) \<inter> avail h xs = {}" using b(4) r by blast
  moreover have "?c + 16 \<noteq> 0" using b(2) by simp
  ultimately have "evolves h xs (reg ?c (16 + room ?i)) (free p h) xs"
    unfolding f by (intro bin_put_evolves [OF assms(1) bin_index [OF sz(1)] b(3)])
  then show ?thesis by (rule evolves_mono) (rule le_supI2 [OF r])
qed

text \<open>Pages for other uses.\<close>

lemma kmalloc_evolves:
  assumes "heap_ok h (f # xs)"
  shows "\<exists>h1. in_mm (kmalloc 16384) h = Inr (f, h1) \<and> evolves h (f # xs) {} h1 xs \<and> pages {f} \<inter> avail h1 xs = {} \<and> f \<noteq> 0 \<and> page_aligned f \<and>
    (\<forall>a. \<not> in_page f a \<longrightarrow> mem (hmm h1) a = mem (hmm h) a)"
proof -
  note H = heap_okD [OF assms]
  obtain s where s: "kmalloc 16384 (hmm h) = Inr (f, s)" "mm_inv s xs" "\<forall>a. \<not> in_page f a \<longrightarrow> mem s a = mem (hmm h) a"
    using kp.alloc_some [OF H(1)] by blast
  have f: "page_aligned f" "f \<noteq> 0" "f \<notin> set xs" "\<And>y. y \<in> set xs \<Longrightarrow> page_aligned y" using kp.pages_ok [OF H(1)] by auto
  let ?h = "h\<lparr>hmm := s\<rparr>"
  have p: "pages (set (f # xs)) = pages {f} \<union> pages (set xs)" by (simp add: pages_insert [of f "set xs"])
  have fx: "pages {f} \<inter> pages (set xs) = {}" using f by (intro pages_apart) auto
  have w: "window ?h = window h" "window_ok ?h = window_ok h" by (simp_all add: window_def window_ok_def)
  have "window h \<inter> pages (set xs) = {}" using H(3) window_free [of h] unfolding p by blast
  moreover have "mem s a = mem (hmm h) a" if "a \<notin> pages (set (f # xs))" for a using s(3) that by (auto simp: pages_def)
  ultimately have E: "evolves h (f # xs) {} ?h xs" "free_mem ?h \<subseteq> window h \<union> (free_mem h - window h)"
    using window_evolves [OF assms, of ?h xs] s(2) H(2) unfolding w by auto
  have "pages {f} \<inter> avail ?h xs = {}" using E(2) H(3) fx window_free [of h] unfolding avail_def p by blast
  then show ?thesis using s(1,3) E(1) f(1,2) by (intro exI [of _ ?h]) (simp add: in_mm_def)
qed

lemma give_back_evolves:
  assumes "heap_ok h xs" "mm_inv m ys" "set ys = P \<union> set xs" "pages P \<inter> avail h xs = {}" "\<And>a. a \<notin> pages P \<Longrightarrow> mem m a = mem (hmm h) a"
  shows "evolves h xs (pages P) (h\<lparr>hmm := m\<rparr>) ys"
proof -
  note H = heap_okD [OF assms(1)]
  let ?h = "h\<lparr>hmm := m\<rparr>"
  have p: "pages (set ys) = pages P \<union> pages (set xs)" by (simp add: assms(3))
  have w: "window ?h = window h" "window_ok ?h = window_ok h" by (simp_all add: window_def window_ok_def)
  obtain B where B: "bins h B" using assms(1) by (auto simp: heap_ok_def)
  have ff: "pages P \<inter> free_mem h = {}" using assms(4) by (auto simp: avail_def)
  have "window ?h \<inter> (\<Union>i<11. \<Union>c\<in>set (B i). reg c (16 + room i)) = {}" unfolding w using B by (auto simp: bins_def)
  moreover have "mem (hmm ?h) a = mem (hmm h) a" if "a \<in> free_mem h - window h" for a
    using that ff assms(5) [of a] by auto
  ultimately have F: "bins ?h B" "free_mem ?h = free_mem h" using bins_frame [OF B, of ?h] window_free [of h] unfolding w by auto
  have "heap_ok ?h ys" using assms(2) F H(2,3) ff unfolding heap_ok_def w p by auto
  then show ?thesis using assms(5) unfolding evolves_def avail_def p F(2) by auto
qed

lemma kfree_evolves:
  assumes "heap_ok h xs" "page_aligned f" "f \<noteq> 0" "pages {f} \<inter> avail h xs = {}"
  shows "\<exists>m. kfree f (hmm h) = Inr m \<and> evolves h xs (pages {f}) (h\<lparr>hmm := m\<rparr>) (f # xs)"
proof -
  have "f \<in> pages {f}" by (rule page_in_pages) simp
  then have "f \<notin> set xs" using assms(4) page_in_pages [of f "set xs"] by (auto simp: avail_def)
  then obtain m where m: "kfree f (hmm h) = Inr m" "mm_inv m (f # xs)" "\<forall>a. \<not> in_page f a \<longrightarrow> mem m a = mem (hmm h) a"
    using kfree_inv [OF heap_okD(1) [OF assms(1)] assms(2,3)] by blast
  have "evolves h xs (pages {f}) (h\<lparr>hmm := m\<rparr>) (f # xs)"
    by (rule give_back_evolves [OF assms(1) m(2) _ assms(4)]) (use m(3) in \<open>auto simp: pages_def\<close>)
  then show ?thesis using m(1) by blast
qed

lemma payload_offset:
  assumes "serves sz" "x \<in> reg p (unat sz)"
  shows "unat (x - (p - 16)) = unat (x - p) + 16"
proof -
  have "x - (p - 16) = (x - p) + 16" by simp
  moreover have "unat ((x - p) + 16) = unat (x - p) + 16"
    using assms by (subst unat_plus_64) (simp_all add: reg_def in_region_def serves_def word_less_nat_alt)
  ultimately show ?thesis by (rule ssubst)
qed

lemma payload: "serves sz \<Longrightarrow> reg p (unat sz) \<subseteq> reg (p - 16) (16 + unat sz)"
proof
  fix x assume s: "serves sz" and x: "x \<in> reg p (unat sz)"
  then show "x \<in> reg (p - 16) (16 + unat sz)" using payload_offset [OF s x] by (simp add: reg_def in_region_def)
qed

lemma header_payload: "serves sz \<Longrightarrow> reg (p - 16) 16 \<inter> reg p (unat sz) = {}"
proof -
  assume s: "serves sz"
  have "x \<notin> reg (p - 16) 16" if "x \<in> reg p (unat sz)" for x
    using payload_offset [OF s that] by (simp add: reg_def in_region_def)
  then show ?thesis by blast
qed

section \<open>The interface\<close>

text \<open>
  What a client may rely on: \<open>ev\<close> says how the heap may change, \<open>blk\<close> that a block belongs to the client. From the laws follow what the
  clients need of a block that is filled at once, and that a block taken and given back leaves everything else as it was.
\<close>

locale block_heap =
  fixes ok :: "'h \<Rightarrow> u64 list \<Rightarrow> bool" and av :: "'h \<Rightarrow> u64 list \<Rightarrow> u64 set" and con :: "'h \<Rightarrow> mem"
    and ev :: "'h \<Rightarrow> u64 list \<Rightarrow> u64 set \<Rightarrow> 'h \<Rightarrow> u64 list \<Rightarrow> bool" and blk :: "'h \<Rightarrow> u64 list \<Rightarrow> u64 \<Rightarrow> u64 \<Rightarrow> bool"
    and alloc :: "u64 \<Rightarrow> 'h \<Rightarrow> (u64 \<times> 'h) kres" and release :: "u64 \<Rightarrow> 'h \<Rightarrow> 'h" and put :: "u64 \<Rightarrow> u64 \<Rightarrow> 'h \<Rightarrow> 'h"
  assumes ev_refl: "ok h xs \<Longrightarrow> ev h xs W h xs"
    and ev_trans: "ev h xs W h1 ys \<Longrightarrow> ev h1 ys V h2 zs \<Longrightarrow> V \<subseteq> av h xs \<union> W \<Longrightarrow> ev h xs W h2 zs"
    and ev_ok: "ev h xs W h' ys \<Longrightarrow> ok h' ys" and ev_av: "ev h xs W h' ys \<Longrightarrow> av h' ys \<subseteq> av h xs \<union> W"
    and blk_keeps: "blk h xs p sz \<Longrightarrow> ev h xs W h' ys \<Longrightarrow> reg (p - 16) (16 + unat sz) \<inter> W = {} \<Longrightarrow> blk h' ys p sz"
    and blk_av: "blk h xs p sz \<Longrightarrow> reg (p - 16) (16 + unat sz) \<inter> av h xs = {}"
    and alloc_blk: "ok h xs \<Longrightarrow> xs \<noteq> [] \<Longrightarrow> serves sz \<Longrightarrow> 0 < unat sz \<Longrightarrow>
      \<exists>p h' ys. alloc sz h = Inr (p, h') \<and> ev h xs {} h' ys \<and> takes 1 xs ys \<and> blk h' ys p sz \<and> reg (p - 16) (16 + unat sz) \<subseteq> av h xs"
    and release_blk: "ok h xs \<Longrightarrow> blk h xs p sz \<Longrightarrow> recycles sz \<Longrightarrow> ev h xs (reg (p - 16) (16 + unat sz)) (release p h) xs"
    and put_ev: "ok h xs \<Longrightarrow> reg a 8 \<inter> av h xs = {} \<Longrightarrow> ev h xs (reg a 8) (put a v h) xs \<and> av (put a v h) xs = av h xs"
    and put_blk: "blk h xs p sz \<Longrightarrow> ok h xs \<Longrightarrow> serves sz \<Longrightarrow> reg a 8 \<subseteq> reg p (unat sz) \<Longrightarrow> blk (put a v h) xs p sz"
begin

definition puts :: "(u64 \<times> u64) list \<Rightarrow> 'h \<Rightarrow> 'h" where
  "puts vs h = fold (\<lambda>(a, v). put a v) vs h"

lemma puts_simps [simp]: "puts [] h = h" "puts ((a, v) # vs) h = puts vs (put a v h)"
  by (simp_all add: puts_def)

lemma puts_ev:
  assumes "ok h xs" "A \<inter> av h xs = {}" "\<forall>(a, v)\<in>set vs. reg a 8 \<subseteq> A"
  shows "ev h xs A (puts vs h) xs" "av (puts vs h) xs = av h xs"
proof -
  have "ev h xs A (puts vs h) xs \<and> av (puts vs h) xs = av h xs"
    using assms
  proof (induction vs arbitrary: h)
    case Nil
    then show ?case by (simp add: ev_refl)
  next
    case (Cons w vs)
    obtain a v where w: "w = (a, v)" by (cases w)
    have a: "reg a 8 \<subseteq> A" "reg a 8 \<inter> av h xs = {}" using Cons.prems by (auto simp: w)
    have P: "ev h xs (reg a 8) (put a v h) xs" "av (put a v h) xs = av h xs" using put_ev [OF Cons.prems(1) a(2)] by blast+
    have E: "ev h xs A (put a v h) xs" by (rule ev_trans [OF ev_refl [OF Cons.prems(1)] P(1)]) (use a(1) in blast)
    have "ev (put a v h) xs A (puts vs (put a v h)) xs \<and> av (puts vs (put a v h)) xs = av (put a v h) xs"
      by (rule Cons.IH [OF ev_ok [OF E]]) (use Cons.prems P(2) in auto)
    then show ?case using ev_trans [OF E, of A] P(2) by (simp add: w)
  qed
  then show "ev h xs A (puts vs h) xs" "av (puts vs h) xs = av h xs" by simp_all
qed

lemma puts_blk:
  assumes "blk h xs p sz" "ok h xs" "serves sz" "\<forall>(a, v)\<in>set vs. reg a 8 \<subseteq> reg p (unat sz)"
  shows "blk (puts vs h) xs p sz"
  using assms
proof (induction vs arbitrary: h)
  case (Cons w vs)
  obtain a v where w: "w = (a, v)" by (cases w)
  have a: "reg a 8 \<subseteq> reg p (unat sz)" using Cons.prems(4) by (simp add: w)
  then have "reg a 8 \<inter> av h xs = {}" using blk_av [OF Cons.prems(1)] payload [OF Cons.prems(3), of p] by blast
  then have "ok (put a v h) xs" using put_ev [OF Cons.prems(2)] ev_ok by blast
  then show ?case using Cons.IH [OF put_blk [OF Cons.prems(1-3) a]] Cons.prems(3,4) by (simp add: w)
qed simp

lemma alloc_filled:
  assumes "ok h xs" "xs \<noteq> []" "serves sz" "0 < unat sz"
  shows "\<exists>p h1 ys. alloc sz h = Inr (p, h1) \<and> takes 1 xs ys \<and> reg (p - 16) (16 + unat sz) \<subseteq> av h xs \<and>
    (\<forall>vs. (\<forall>(a, v)\<in>set vs. reg a 8 \<subseteq> reg p (unat sz)) \<longrightarrow> ev h xs {} (puts vs h1) ys \<and> blk (puts vs h1) ys p sz)"
proof -
  obtain p h1 ys where A: "alloc sz h = Inr (p, h1)" "ev h xs {} h1 ys" "takes 1 xs ys" "blk h1 ys p sz" "reg (p - 16) (16 + unat sz) \<subseteq> av h xs"
    using alloc_blk [OF assms] by blast
  note r = payload [OF assms(3), of p]
  have "ev h xs {} (puts vs h1) ys" if "\<forall>(a, v)\<in>set vs. reg a 8 \<subseteq> reg p (unat sz)" for vs
  proof (rule ev_trans [OF A(2) puts_ev(1) [OF ev_ok [OF A(2)] _ that]])
    show "reg p (unat sz) \<inter> av h1 ys = {}" using blk_av [OF A(4)] r by blast
    show "reg p (unat sz) \<subseteq> av h xs \<union> {}" using A(5) r by blast
  qed
  then show ?thesis using A(1,3,5) puts_blk [OF A(4) ev_ok [OF A(2)] assms(3)] by blast
qed

lemma alloc_release:
  assumes "ok h xs" "xs \<noteq> []" "serves sz" "recycles sz" "0 < unat sz"
  shows "\<exists>p h1 ys. alloc sz h = Inr (p, h1) \<and> ev h xs {} (release p h1) ys"
proof -
  obtain p h1 ys where A: "alloc sz h = Inr (p, h1)" "ev h xs {} h1 ys" "blk h1 ys p sz" "reg (p - 16) (16 + unat sz) \<subseteq> av h xs"
    using alloc_blk [OF assms(1-3,5)] by blast
  have "ev h xs {} (release p h1) ys" by (rule ev_trans [OF A(2) release_blk [OF ev_ok [OF A(2)] A(3) assms(4)]]) (use A(4) in blast)
  then show ?thesis using A(1) by blast
qed

end

interpretation kh: block_heap heap_ok avail "\<lambda>h. mem (hmm h)" evolves mblock malloc free put64
proof unfold_locales
  show "mblock (put64 a v h) xs p sz"
    if "mblock h xs p sz" "heap_ok h xs" "serves sz" "reg a 8 \<subseteq> reg p (unat sz)" for h xs p sz a v
  proof -
    have b: "reg (p - 16) (16 + unat sz) \<inter> avail h xs = {}" using that(1) by (simp add: mblock_def)
    have "reg a 8 \<inter> avail h xs = {}" using that(4) b payload [OF that(3), of p] by blast
    note P = put64_evolves [OF that(2) this, of v]
    have "chunk_size (put64 a v h) (p - 16) = chunk_size h (p - 16)"
    proof (rule chunk_size_same)
      fix x assume "x \<in> reg (p - 16) 16"
      then have "x \<notin> reg a 8" using that(4) header_payload [OF that(3), of p] by blast
      then show "mem (hmm (put64 a v h)) x = mem (hmm h) x" by (simp add: store64_reg)
    qed
    then show ?thesis using that(1) by (simp add: mblock_def P(2))
  qed
  show "\<exists>p h' ys. malloc sz h = Inr (p, h') \<and> evolves h xs {} h' ys \<and> takes 1 xs ys \<and> mblock h' ys p sz \<and>
      reg (p - 16) (16 + unat sz) \<subseteq> avail h xs" if "heap_ok h xs" "xs \<noteq> []" "serves sz" "0 < unat sz" for h xs sz
    by (rule malloc_evolves [OF that])
  show "evolves h xs (reg a 8) (put64 a v h) xs \<and> avail (put64 a v h) xs = avail h xs" if "heap_ok h xs" "reg a 8 \<inter> avail h xs = {}" for h xs a v
    using put64_evolves [OF that] by blast
  show "reg (p - 16) (16 + unat sz) \<inter> avail h xs = {}" if "mblock h xs p sz" for h xs p sz using that by (simp add: mblock_def)
qed (fact evolves_refl evolves_trans evolvesD(1) evolvesD(2) mblock_keeps free_evolves)+

end
