(* ===== verification/AddrSpace.thy ===== *)
theory AddrSpace
  imports HeapSpace
begin

text \<open>
  Growing an address space: \<open>alloc_vm\<close> of mm/n_vm.c with everything it calls, the page allocator, the page tables, the kernel heap and the
  list of mappings. Each page of the range translates to a page of its own that is all zero, the list of mappings records it, and the rest of the
  address space is as before.
\<close>

section \<open>Page tables beside the heap\<close>

definition space :: "kheap \<Rightarrow> u64 \<Rightarrow> pt_tree \<Rightarrow> u64 list \<Rightarrow> bool" where
  "space h r T xs \<longleftrightarrow> as_inv (hmm h) r T xs \<and> heap_ok h xs \<and> pages (ran T) \<inter> avail h xs = {}"

lemma spaceD:
  assumes "space h r T xs"
  shows "as_inv (hmm h) r T xs" "heap_ok h xs" "pages (ran T) \<inter> avail h xs = {}" "pt_wf (mem (hmm h)) r T"
    "\<And>x. x \<in> set xs \<Longrightarrow> dmw_page x" "\<And>t. t \<in> ran T \<Longrightarrow> page_aligned t"
  using assms as_invD [of "hmm h" r T xs] by (auto simp: space_def pt_wf_def dmw_page_def)

lemma table_keeps:
  assumes "pt_wf (mem (hmm h)) r T" "pages (ran T) \<inter> avail h xs = {}" "evolves h xs W h' ys" "pages (ran T) \<inter> W = {}"
  shows "pt_wf (mem (hmm h')) r T" "pte_of (mem (hmm h')) T va = pte_of (mem (hmm h)) T va" "pages (ran T) \<inter> avail h' ys = {}"
proof -
  note K = evolves_keeps [OF assms(3,2,4)]
  have "mem (hmm h') a = mem (hmm h) a" if "u \<in> ran T" "in_page u a" for u a
    using that by (intro K(2)) (auto simp: pages_def)
  then show "pt_wf (mem (hmm h')) r T" "pte_of (mem (hmm h')) T va = pte_of (mem (hmm h)) T va"
    using pt_wf_frame [OF assms(1), of "mem (hmm h')"] by auto
  show "pages (ran T) \<inter> avail h' ys = {}" by (rule K(1))
qed

lemma space_keeps_dmw:
  assumes "space h r T xs" "evolves h xs W h' ys" "pages (ran T) \<inter> W = {}" "\<And>y. y \<in> set ys \<Longrightarrow> dmw_page y"
  shows "space h' r T ys" "pte_of (mem (hmm h')) T va = pte_of (mem (hmm h)) T va"
proof -
  note D = spaceD [OF assms(1)]
  note K = table_keeps [OF D(4,3) assms(2,3)]
  show "pte_of (mem (hmm h')) T va = pte_of (mem (hmm h)) T va" by (rule K(2))
  have "ran T \<inter> set ys = {}" using K(3) page_in_pages [of _ "ran T"] page_in_pages [of _ "set ys"] by (auto simp: avail_def)
  then have "as_inv (hmm h') r T ys"
    using heap_okD(1) [OF evolvesD(1) [OF assms(2)]] K(1) assms(4) by (simp add: as_inv_def)
  then show "space h' r T ys" using K(3) evolvesD(1) [OF assms(2)] by (simp add: space_def)
qed

lemma space_keeps:
  assumes "space h r T xs" "evolves h xs W h' ys" "pages (ran T) \<inter> W = {}" "set ys \<subseteq> set xs"
  shows "space h' r T ys" "pte_of (mem (hmm h')) T va = pte_of (mem (hmm h)) T va"
  using space_keeps_dmw [OF assms(1-3)] spaceD(5) [OF assms(1)] assms(4) by blast+

lemma map_evolves:
  assumes "space h r T xs" "2 \<le> length xs"
  shows "\<exists>h' T' ys. in_mm (map_single_page r va pa perm) h = Inr (0, h') \<and> space h' r T' ys \<and> takes 2 xs ys \<and> T \<subseteq>\<^sub>m T' \<and>
    evolves h xs (pages (ran T)) h' ys \<and> pages (ran T') \<subseteq> pages (ran T) \<union> avail h xs \<and> ran T' \<subseteq> ran T \<union> set xs \<and>
    (\<forall>va'. pte_of (mem (hmm h')) T' va' =
       (if vpn va' = vpn va then PA2PTE pa OR PTE_FLAGS (pte_of (mem (hmm h)) T va) OR perm else pte_of (mem (hmm h)) T va'))"
proof -
  note D = spaceD [OF assms(1)]
  obtain s' T' zs where M: "map_single_page r va pa perm (hmm h) = Inr (0, s')" "as_inv s' r T' (drop (length zs) xs)" "zs = take (length zs) xs"
    "length zs \<le> 2" "T \<subseteq>\<^sub>m T'" "ran T' = ran T \<union> set zs"
    "\<forall>va'. pte_of (mem s') T' va' = (if vpn va' = vpn va then PA2PTE pa OR PTE_FLAGS (pte_of (mem (hmm h)) T va) OR perm else pte_of (mem (hmm h)) T va')"
    "\<forall>a. (\<forall>u\<in>ran T'. \<not> in_page u a) \<longrightarrow> mem s' a = mem (hmm h) a"
    using map_single_page_ok [OF D(1) assms(2), of va pa perm] by (elim exE conjE) (rule that)
  let ?h = "h\<lparr>hmm := s'\<rparr>" and ?ys = "drop (length zs) xs"
  have zs: "set zs \<subseteq> set xs" by (subst M(3)) (rule set_take_subset)
  have ys: "set ?ys \<subseteq> set xs" by (rule set_drop_subset)
  note H = heap_okD [OF D(2)]
  have pt: "pages (ran T') \<subseteq> pages (ran T) \<union> avail h xs" using pages_mono [OF zs] by (auto simp: M(6) avail_def)
  have out: "mem s' a = mem (hmm h) a" if "a \<notin> pages (ran T')" for a using M(8) that by (auto simp: pages_def)
  have w: "window ?h = window h" "window_ok ?h = window_ok h" by (simp_all add: window_def window_ok_def)
  obtain B where B: "bins h B" using D(2) by (auto simp: heap_ok_def)
  have tf: "pages (ran T') \<inter> free_mem h = {}"
    using D(3) H(3) pages_mono [OF zs] unfolding M(6) pages_Un avail_def by blast
  have "window ?h \<inter> (\<Union>i<11. \<Union>c\<in>set (B i). reg c (16 + room i)) = {}" unfolding w using B by (auto simp: bins_def)
  moreover have "mem (hmm ?h) a = mem (hmm h) a" if "a \<in> free_mem h - window h" for a
    using that tf out [of a] by auto
  ultimately have F: "bins ?h B" "free_mem ?h = free_mem h" using bins_frame [OF B, of ?h] window_free [of h] unfolding w by auto
  have "free_mem h \<inter> pages (set ?ys) = {}" using H(3) pages_mono [OF ys] by blast
  then have ok: "heap_ok ?h ?ys" using as_invD(1) [OF M(2)] H(2) F unfolding heap_ok_def w by auto
  have av: "avail ?h ?ys \<subseteq> avail h xs" using pages_mono [OF ys] unfolding avail_def F(2) by blast
  then have E: "evolves h xs (pages (ran T)) ?h ?ys" using ok out pt unfolding evolves_def by auto
  have al: "page_aligned p" if "p \<in> ran T' \<union> set ?ys" for p
    using that as_invD(2,4) [OF M(2)] by (auto simp: pt_wf_def dmw_page_def)
  have "pages (ran T') \<inter> pages (set ?ys) = {}" by (rule pages_apart) (use as_invD(3) [OF M(2)] al in auto)
  then have "space ?h r T' ?ys" using M(2) ok tf unfolding space_def avail_def F(2) by auto
  moreover have "takes 2 xs ?ys" using M(4) by (auto simp: takes_def)
  ultimately show ?thesis using M(1,5,7) E pt M(6) zs
    by (intro exI [of _ ?h] exI [of _ T'] exI [of _ ?ys]) (auto simp: in_mm_def)
qed

section \<open>The list of mappings\<close>

type_synonym mapping = "u64 \<times> u64 \<times> u64"

text \<open>A mapping of the page of \<open>va\<close> to \<open>pa\<close> in a block of 32 bytes.\<close>

definition mapping_at :: "kheap \<Rightarrow> u64 list \<Rightarrow> u64 \<Rightarrow> mapping \<Rightarrow> bool" where
  "mapping_at h xs d m \<longleftrightarrow> (case m of (va, pa, perm) \<Rightarrow>
     mblock h xs d 32 \<and> ld64 d h = pa \<and> ld64 (d + 8) h = va \<and> ld64 (d + 16) h = PGSIZE \<and> ld64 (d + 24) h = perm)"

fun apart :: "u64 set list \<Rightarrow> bool" where
  "apart [] \<longleftrightarrow> True"
| "apart (A # As) \<longleftrightarrow> A \<inter> \<Union>(set As) = {} \<and> apart As"

text \<open>The header of the list, and the blocks of its elements and mappings.\<close>

definition cells :: "(u64 \<times> u64) list \<Rightarrow> u64 set list" where
  "cells es = concat (map (\<lambda>(e, d). [reg (e - 16) 40, reg (d - 16) 48]) es)"

lemma cells_simps [simp]: "cells [] = []" "cells ((e, d) # es) = reg (e - 16) 40 # reg (d - 16) 48 # cells es"
  by (simp_all add: cells_def)

text \<open>The list \<open>l\<close> with the elements \<open>es\<close> holds the mappings \<open>ms\<close>; together they occupy \<open>area l es\<close>.\<close>

definition area :: "u64 \<Rightarrow> (u64 \<times> u64) list \<Rightarrow> u64 set" where
  "area l es = \<Union>(set (reg l 16 # cells es))"

definition cells_ok :: "kheap \<Rightarrow> u64 list \<Rightarrow> (u64 \<times> u64) list \<Rightarrow> mapping list \<Rightarrow> bool" where
  "cells_ok h xs = list_all2 (\<lambda>(e, d) m. mblock h xs e 24 \<and> mapping_at h xs d m)"

definition recorded :: "kheap \<Rightarrow> u64 list \<Rightarrow> u64 \<Rightarrow> (u64 \<times> u64) list \<Rightarrow> mapping list \<Rightarrow> bool" where
  "recorded h xs l es ms \<longleftrightarrow> mlist_at h l es \<and> cells_ok h xs es ms \<and>
     reg l 16 \<inter> avail h xs = {} \<and> apart (reg l 16 # cells es)"

definition maplist :: "kheap \<Rightarrow> u64 list \<Rightarrow> u64 \<Rightarrow> mapping list \<Rightarrow> u64 set \<Rightarrow> bool" where
  "maplist h xs l ms R \<longleftrightarrow> (\<exists>es. recorded h xs l es ms \<and> R = area l es)"

lemma area_simps [simp]: "area l [] = reg l 16" "area l ((e, d) # es) = reg (e - 16) 40 \<union> reg (d - 16) 48 \<union> area l es"
  by (auto simp: area_def)

lemma area_cells: "apart (reg l 16 # cells ((e, d) # es)) \<longleftrightarrow>
    reg (e - 16) 40 \<inter> reg (d - 16) 48 = {} \<and> reg (e - 16) 40 \<inter> area l es = {} \<and> reg (d - 16) 48 \<inter> area l es = {} \<and> apart (reg l 16 # cells es)"
  unfolding area_def by (simp only: cells_simps apart.simps list.set Union_insert) blast

lemma block_parts: "reg e 24 \<subseteq> reg (e - 16) 40" "reg d 32 \<subseteq> reg (d - 16) 48" "reg (e - 16) 8 \<inter> reg e 24 = {}"
proof -
  show "reg e 24 \<subseteq> reg (e - 16) 40" "reg d 32 \<subseteq> reg (d - 16) 48" using payload [of 24 e] payload [of 32 d] by simp_all
  have "reg (e - 16) 8 \<subseteq> reg (e - 16) 16" by (rule reg_mono) simp
  then show "reg (e - 16) 8 \<inter> reg e 24 = {}" using header_payload [of 24 e] by auto
qed

lemma cells_elem: "(e, d) \<in> set es \<Longrightarrow> reg (e - 16) 40 \<in> set (cells es) \<and> reg (d - 16) 48 \<in> set (cells es)"
  by (auto simp: cells_def intro!: bexI [of _ "(e, d)"])

lemma cells_space: "mlist_space l es \<subseteq> area l es"
proof -
  have "reg e 24 \<subseteq> \<Union>(set (cells es))" if "(e, d) \<in> set es" for e d
    using cells_elem [OF that] block_parts(1) [of e] by blast
  then show ?thesis by (auto simp: mlist_space_def area_def) blast
qed

lemma cells_sep: "apart (reg l 16 # cells es) \<Longrightarrow> mlist_sep l es"
proof (induction es)
  case Nil
  then show ?case by (simp add: mlist_sep_def)
next
  case (Cons ed es)
  obtain e d where ed: "ed = (e, d)" by (cases ed)
  have A: "apart (reg l 16 # cells es)" "reg l 16 \<inter> reg (e - 16) 40 = {}" "reg (e - 16) 40 \<inter> \<Union>(set (cells es)) = {}"
    using Cons.prems by (auto simp: ed)
  have "reg e 24 \<inter> reg e' 24 = {} \<and> reg e' 24 \<inter> reg e 24 = {}" if e': "e' \<in> fst ` set es" for e'
  proof -
    obtain d' where "(e', d') \<in> set es" using e' by auto
    then have "reg (e' - 16) 40 \<subseteq> \<Union>(set (cells es))" using cells_elem by blast
    then show ?thesis using A(3) block_parts(1) [of e] block_parts(1) [of e'] by blast
  qed
  moreover have "reg l 16 \<inter> reg e 24 = {}" using A(2) block_parts(1) by blast
  ultimately show ?case using Cons.IH [OF A(1)] unfolding mlist_sep_def ed by (simp del: disjoint_iff)
qed

lemma cells_ok_simps [simp]: "cells_ok h xs [] ms \<longleftrightarrow> ms = []" "cells_ok h xs es [] \<longleftrightarrow> es = []"
    "cells_ok h xs ((e, d) # es) (m # ms) \<longleftrightarrow> mblock h xs e 24 \<and> mapping_at h xs d m \<and> cells_ok h xs es ms"
  by (simp_all add: cells_ok_def)

lemma cells_avail: "cells_ok h xs es ms \<Longrightarrow> \<Union>(set (cells es)) \<inter> avail h xs = {}"
  unfolding cells_ok_def
proof (induction es ms rule: list_all2_induct)
  case (Cons ed es m ms)
  obtain e d where ed: "ed = (e, d)" by (cases ed)
  have "reg (e - 16) 40 \<inter> avail h xs = {}" "reg (d - 16) 48 \<inter> avail h xs = {}"
    using Cons.hyps(1) by (simp_all add: ed mblock_def mapping_at_def split: prod.splits)
  then show ?case using Cons.IH by (simp add: ed Int_Un_distrib2)
qed simp

lemma recorded_avail: "recorded h xs l es ms \<Longrightarrow> area l es \<inter> avail h xs = {}"
  using cells_avail [of h xs es ms] unfolding recorded_def area_def by (elim conjE) (simp add: Int_Un_distrib2)

lemma maplist_avail: "maplist h xs l ms R \<Longrightarrow> R \<inter> avail h xs = {}"
  unfolding maplist_def using recorded_avail by blast

lemma mapping_keeps:
  assumes "mapping_at h xs d m" "evolves h xs W h' ys" "reg (d - 16) 48 \<inter> W = {}"
  shows "mapping_at h' ys d m"
proof -
  obtain va pa perm where m: "m = (va, pa, perm)" by (cases m) auto
  have b: "mblock h xs d 32" using assms(1) by (simp add: mapping_at_def m)
  then have "reg (d - 16) 48 \<inter> avail h xs = {}" by (simp add: mblock_def)
  note K = evolves_keeps(2) [OF assms(2) this assms(3)]
  have ld: "ld64 (d + of_nat k) h' = ld64 (d + of_nat k) h" if "k + 8 \<le> 32" for k
    using K reg_field [OF that, of d] block_parts(2) [of d] by (intro ld64_cong) auto
  have "mblock h' ys d 32" by (rule mblock_keeps [OF b assms(2)]) (use assms(3) in simp)
  then show ?thesis using assms(1) ld [of 0] ld [of 8] ld [of 16] ld [of 24] by (simp add: mapping_at_def m)
qed

lemma cells_keeps:
  assumes "cells_ok h xs es ms" "evolves h xs W h' ys" "\<Union>(set (cells es)) \<inter> W = {}"
  shows "cells_ok h' ys es ms"
  unfolding cells_ok_def
proof (rule list.rel_mono_strong [OF assms(1) [unfolded cells_ok_def]], clarify)
  fix e d m assume m: "(e, d) \<in> set es" "mblock h xs e 24" "mapping_at h xs d m"
  have "reg (e - 16) 40 \<inter> W = {}" "reg (d - 16) 48 \<inter> W = {}" using cells_elem [OF m(1)] assms(3) by auto
  then show "mblock h' ys e 24 \<and> mapping_at h' ys d m"
    using mblock_keeps [OF m(2) assms(2)] mapping_keeps [OF m(3) assms(2)] by simp
qed

lemma recorded_keeps:
  assumes "recorded h xs l es ms" "evolves h xs W h' ys" "area l es \<inter> W = {}"
  shows "recorded h' ys l es ms"
proof -
  have es: "mlist_at h l es" "cells_ok h xs es ms" "apart (reg l 16 # cells es)" using assms(1) by (simp_all add: recorded_def)
  note K = evolves_keeps [OF assms(2) recorded_avail [OF assms(1)] assms(3)]
  have "mlist_at h' l es" using es(1) mlist_at_cong [of l es h' h] K(2) cells_space [of l es] by blast
  moreover have "cells_ok h' ys es ms" by (rule cells_keeps [OF es(2) assms(2)]) (use assms(3) in \<open>auto simp: area_def\<close>)
  moreover have "reg l 16 \<inter> avail h' ys = {}" using K(1) unfolding area_def by auto
  ultimately show ?thesis using es(3) by (simp add: recorded_def)
qed

lemma maplist_keeps: "maplist h xs l ms R \<Longrightarrow> evolves h xs W h' ys \<Longrightarrow> R \<inter> W = {} \<Longrightarrow> maplist h' ys l ms R"
  using recorded_keeps unfolding maplist_def by blast

lemma maplist_empty: "maplist h xs l ms R \<Longrightarrow> mlist_is_empty l h = Inr (ms = [])"
proof -
  assume "maplist h xs l ms R"
  then obtain es where "mlist_at h l es" "cells_ok h xs es ms" by (auto simp: maplist_def recorded_def)
  then show ?thesis by (cases es; cases ms) (auto simp: mlist_at_def mlist_is_empty_def)
qed

lemma new_maplist:
  assumes "heap_ok h xs" "xs \<noteq> []"
  shows "\<exists>l h' ys. mlist_init h = Inr (l, h') \<and> evolves h xs {} h' ys \<and> takes 1 xs ys \<and> maplist h' ys l [] (reg l 16) \<and> reg l 16 \<subseteq> avail h xs"
proof -
  obtain l h1 ys where A: "malloc 16 h = Inr (l, h1)" "takes 1 xs ys" "reg (l - 16) 32 \<subseteq> avail h xs"
    "\<forall>vs. (\<forall>(a, v)\<in>set vs. reg a 8 \<subseteq> reg l 16) \<longrightarrow> evolves h xs {} (kh.puts vs h1) ys \<and> mblock (kh.puts vs h1) ys l 16"
    using kh.alloc_filled [OF assms, of 16] by auto
  let ?h = "kh.puts [(l, 0), (l + 8, 0)] h1"
  have E: "evolves h xs {} ?h ys" "mblock ?h ys l 16" using spec [OF A(4), of "[(l, 0), (l + 8, 0)]"] list_fields [of l] by auto
  have r: "reg l 16 \<subseteq> reg (l - 16) 32" using payload [of 16 l] by simp
  have "reg l 16 \<inter> avail ?h ys = {}" "l \<noteq> 0" using E(2) r by (auto simp: mblock_def)
  moreover have "ld64 l ?h = 0" using list_split [of l] by (simp add: ld64_put64_out)
  ultimately have "recorded ?h ys l [] []" by (simp add: recorded_def mlist_at_def)
  then have "maplist ?h ys l [] (reg l 16)" by (auto simp: maplist_def)
  moreover have "mlist_init h = Inr (l, ?h)" using A(1) by (simp add: mlist_init_def)
  ultimately show ?thesis using E(1) A(2,3) r by blast
qed

lemma mblock_written:
  assumes "mblock h xs p sz" "avail h' ys = avail h xs" "\<And>a. a \<in> reg (p - 16) 16 \<Longrightarrow> mem (hmm h') a = mem (hmm h) a"
  shows "mblock h' ys p sz"
  using assms chunk_size_same [of "p - 16" h' h] by (simp add: mblock_def)

lemma block_header_in: "reg (e - 16) 16 \<subseteq> reg (e - 16) 40"
  by (rule reg_mono) simp

text \<open>Writing to the list and to the fields of its first element.\<close>

lemma head_written:
  assumes R: "recorded h xs l es ms" and P: "evolves h xs W h' xs" "avail h' xs = avail h xs"
    and W: "W \<subseteq> reg l 16 \<union> A \<union> reg (ld64 l h) 24" "A \<inter> area l es = {}"
  shows "cells_ok h' xs es ms"
proof (cases es)
  case (Cons ed es0)
  let ?e = "ld64 l h"
  obtain d where ed: "es = (?e, d) # es0" using R Cons by (cases ed) (auto simp: recorded_def mlist_at_def)
  obtain m ms0 where ms: "ms = m # ms0" using R by (cases ms) (auto simp: recorded_def ed)
  have C: "mblock h xs ?e 24" "mapping_at h xs d m" "cells_ok h xs es0 ms0" "apart (reg l 16 # cells es)"
    using R by (auto simp: recorded_def ed ms)
  have S: "reg (?e - 16) 40 \<inter> reg (d - 16) 48 = {}" "reg (?e - 16) 40 \<inter> area l es0 = {}" "reg (d - 16) 48 \<inter> area l es0 = {}"
    "apart (reg l 16 # cells es0)" using C(4) unfolding ed area_cells by simp_all
  have sub: "area l es = reg (?e - 16) 40 \<union> reg (d - 16) 48 \<union> area l es0" "reg l 16 \<subseteq> area l es0" "\<Union>(set (cells es0)) \<subseteq> area l es0"
    by (auto simp: ed area_def)
  note e24 = block_parts(1) [of ?e] and e16 = block_header_in [of ?e]
  have "reg (?e - 16) 16 \<inter> reg ?e 24 = {}" using header_payload [of 24 ?e] by simp
  then have "reg (?e - 16) 16 \<inter> W = {}" using W sub(1,2) e16 S(2) by blast
  moreover have "reg (?e - 16) 16 \<inter> avail h xs = {}" using C(1) e16 by (auto simp: mblock_def)
  ultimately have "mblock h' xs ?e 24" using evolves_keeps(2) [OF P(1)] by (intro mblock_written [OF C(1) P(2)]) blast
  moreover have "mapping_at h' xs d m" by (rule mapping_keeps [OF C(2) P(1)]) (use W sub(1,2) e24 S in blast)
  moreover have "cells_ok h' xs es0 ms0"
  proof (rule cells_keeps [OF C(3) P(1)])
    have "reg l 16 \<inter> \<Union>(set (cells es0)) = {}" using S(4) by simp
    then show "\<Union>(set (cells es0)) \<inter> W = {}" using W sub(1,3) e24 S(2) by blast
  qed
  ultimately show ?thesis by (simp add: ed ms)
qed (use R in \<open>simp add: recorded_def\<close>)

text \<open>A mapping at the head of the list.\<close>

lemma push_evolves:
  assumes "recorded h xs l es ms" "heap_ok h xs" "xs \<noteq> []" "mapping_at h xs d m" "reg (d - 16) 48 \<inter> area l es = {}"
  shows "\<exists>e h' ys. mlist_push l d h = Inr h' \<and> evolves h xs (area l es) h' ys \<and> takes 1 xs ys \<and> recorded h' ys l ((e, d) # es) (m # ms) \<and>
    reg (e - 16) 40 \<subseteq> avail h xs"
proof -
  have D: "mlist_at h l es" "mlist_sep l es" "apart (reg l 16 # cells es)"
    using assms(1) cells_sep by (auto simp: recorded_def)
  obtain e h1 ys where A: "malloc 24 h = Inr (e, h1)" "takes 1 xs ys" "reg (e - 16) 40 \<subseteq> avail h xs"
    "\<forall>vs. (\<forall>(a, v)\<in>set vs. reg a 8 \<subseteq> reg e 24) \<longrightarrow> evolves h xs {} (kh.puts vs h1) ys \<and> mblock (kh.puts vs h1) ys e 24"
    using kh.alloc_filled [OF assms(2,3), of 24] by auto
  have E1: "evolves h xs {} h1 ys" using spec [OF A(4), of "[]"] by simp
  define h2 where "h2 = kh.puts [(e, 0), (e + 8, 0), (e + 16, d)] h1"
  have E: "evolves h xs {} h2 ys" "mblock h2 ys e 24"
    using spec [OF A(4), of "[(e, 0), (e + 8, 0), (e + 16, d)]"] elem_fields [of e] unfolding h2_def by auto
  note av = recorded_avail [OF assms(1)]
  have dv: "reg (d - 16) 48 \<inter> avail h xs = {}" using assms(4) by (auto simp: mapping_at_def mblock_def split: prod.splits)
  have ap: "reg (e - 16) 40 \<inter> area l es = {}" "reg (e - 16) 40 \<inter> reg (d - 16) 48 = {}" "e \<noteq> 0"
    using A(3) av dv E(2) by (auto simp: mblock_def)
  note e24 = block_parts(1) [of e]
  obtain h3 where h3: "mlist_push l d h = Inr h3" "mlist_at h3 l ((e, d) # es)"
  proof -
    have "mem (hmm h1) x = mem (hmm h) x" if "x \<in> mlist_space l es" for x
      using evolves_keeps(2) [OF E1 av] that cells_space [of l es] by blast
    moreover have "reg e 24 \<inter> mlist_space l es = {}" using ap(1) e24 cells_space [of l es] by blast
    ultimately show ?thesis using mlist_push_ok [OF D(1,2) A(1) ap(3)] that by blast
  qed
  have R: "recorded h2 ys l es ms" and M: "mapping_at h2 ys d m"
    using recorded_keeps [OF assms(1) E(1)] mapping_keeps [OF assms(4) E(1)] by simp_all
  let ?hd = "ld64 l h2"
  define vs where "vs = (if ?hd = 0 then [(l + 8, e), (l, e)] else [(e + 8, ?hd), (?hd, e), (l, e)])"
  have l0: "l \<noteq> 0" using D(1) by (simp add: mlist_at_def)
  have push: "mlist_push l d h = Inr (kh.puts vs h2)"
    using l0 A(1) by (simp add: vs_def h2_def mlist_push_def new_mlist_elem_def mlist_is_empty_def Let_def)
  then have h3e: "h3 = kh.puts vs h2" using h3(1) by simp
  have hd: "?hd = 0 \<or> (\<exists>d0 es0. es = (?hd, d0) # es0)" using R by (cases es) (auto simp: recorded_def mlist_at_def)
  define W where "W = reg l 16 \<union> reg e 24 \<union> (if ?hd = 0 then {} else reg ?hd 24)"
  have vW: "\<forall>(a, v)\<in>set vs. reg a 8 \<subseteq> W" using list_fields [of l] elem_fields [of e] elem_fields [of ?hd] by (auto simp: vs_def W_def)
  have hdW: "?hd \<noteq> 0 \<Longrightarrow> reg ?hd 24 \<subseteq> area l es" using hd block_parts(1) [of ?hd] by auto
  have lW: "reg l 16 \<subseteq> area l es" by (auto simp: area_def)
  have Wa: "W \<subseteq> area l es \<union> reg e 24" using hdW lW by (auto simp: W_def)
  have "W \<inter> avail h2 ys = {}" using Wa recorded_avail [OF R] E(2) e24 by (auto simp: mblock_def)
  note P = kh.puts_ev [OF evolvesD(1) [OF E(1)] this vW, folded h3e]
  have ev: "evolves h xs (area l es) h3 ys"
  proof (rule evolves_trans [OF _ P(1)])
    show "evolves h xs (area l es) h2 ys" by (rule evolves_mono [OF E(1)]) simp
    show "W \<subseteq> avail h xs \<union> area l es" using Wa A(3) e24 by blast
  qed
  have keep: "mem (hmm h3) a = mem (hmm h2) a" if "a \<in> area l es \<union> reg (e - 16) 40" "a \<notin> W" for a
    using evolvesD(3) [OF P(1)] that recorded_avail [OF R] E(2) by (auto simp: mblock_def)
  have "reg (e - 16) 16 \<inter> W = {}" using Wa block_header_in [of e] ap(1) header_payload [of 24 e] by auto
  then have Me: "mblock h3 ys e 24" using block_header_in [of e] by (intro mblock_written [OF E(2) P(2)] keep) blast+
  have Md: "mapping_at h3 ys d m" by (rule mapping_keeps [OF M P(1)]) (use Wa assms(5) ap(2) e24 in blast)
  have "W \<subseteq> reg l 16 \<union> reg e 24 \<union> reg ?hd 24" by (auto simp: W_def)
  then have "cells_ok h3 ys es ms" using ap(1) e24 by (intro head_written [OF R P]) blast+
  moreover have "reg l 16 \<inter> avail h3 ys = {}" unfolding P(2) using R by (simp add: recorded_def)
  moreover have "apart (reg l 16 # cells ((e, d) # es))" unfolding area_cells using D(3) ap(1,2) assms(5) by simp
  ultimately have "recorded h3 ys l ((e, d) # es) (m # ms)" using h3(2) Me Md by (simp only: recorded_def cells_ok_simps simp_thms)
  then show ?thesis using h3(1) ev A(2,3) by blast
qed

text \<open>\<open>proc_add_mapping\<close>.\<close>

lemma add_mapping:
  assumes "heap_ok h xs" "2 \<le> length xs" "maplist h xs l ms R"
  shows "\<exists>h' ys R'. proc_add_mapping l pa va PGSIZE perm h = Inr h' \<and> evolves h xs R h' ys \<and> takes 2 xs ys \<and>
    maplist h' ys l ((va, pa, perm) # ms) R' \<and> R \<subseteq> R' \<and> R' \<subseteq> R \<union> avail h xs"
proof -
  obtain es where es: "recorded h xs l es ms" "R = area l es" using assms(3) by (auto simp: maplist_def)
  have "xs \<noteq> []" using assms(2) by auto
  from kh.alloc_filled [OF assms(1) this, of 32] obtain d h1 ys where A: "malloc 32 h = Inr (d, h1)" "takes 1 xs ys" "reg (d - 16) 48 \<subseteq> avail h xs"
    "\<forall>vs. (\<forall>(a, v)\<in>set vs. reg a 8 \<subseteq> reg d 32) \<longrightarrow> evolves h xs {} (kh.puts vs h1) ys \<and> mblock (kh.puts vs h1) ys d 32" by auto
  define h2 where "h2 = kh.puts [(d, pa), (d + 8, va), (d + 16, PGSIZE), (d + 24, perm)] h1"
  have f: "reg d 8 \<subseteq> reg d 32" "reg (d + 8) 8 \<subseteq> reg d 32" "reg (d + 16) 8 \<subseteq> reg d 32" "reg (d + 24) 8 \<subseteq> reg d 32"
    using reg_field [of 0 32 d] reg_field [of 8 32 d] reg_field [of 16 32 d] reg_field [of 24 32 d] by simp_all
  have E: "evolves h xs {} h2 ys" "mblock h2 ys d 32"
    using spec [OF A(4), of "[(d, pa), (d + 8, va), (d + 16, PGSIZE), (d + 24, perm)]"] f unfolding h2_def by auto
  have "mapping_at h2 ys d (va, pa, perm)"
    using E(2) by (simp add: mapping_at_def h2_def ld64_def load64_store64_apart)
  moreover have "recorded h2 ys l es ms" using recorded_keeps [OF es(1) E(1)] by simp
  moreover have "ys \<noteq> []" using takes_length [OF A(2)] assms(2) by auto
  moreover have "reg (d - 16) 48 \<inter> area l es = {}" using A(3) recorded_avail [OF es(1)] by blast
  ultimately obtain e h3 zs where P: "mlist_push l d h2 = Inr h3" "evolves h2 ys (area l es) h3 zs" "takes 1 ys zs"
    "recorded h3 zs l ((e, d) # es) ((va, pa, perm) # ms)" "reg (e - 16) 40 \<subseteq> avail h2 ys"
    using push_evolves [OF _ evolvesD(1) [OF E(1)]] by blast
  have "proc_add_mapping l pa va PGSIZE perm h = Inr h3" using A(1) P(1) by (simp add: proc_add_mapping_def h2_def)
  moreover have "evolves h xs R h3 zs"
    by (rule evolves_trans [OF evolves_mono [OF E(1)] P(2)]) (auto simp: es(2))
  moreover have "takes 2 xs zs" using takes_trans [OF A(2) P(3)] by (simp add: numeral_2_eq_2)
  moreover have "maplist h3 zs l ((va, pa, perm) # ms) (area l ((e, d) # es))" using P(4) by (auto simp: maplist_def)
  moreover have "area l ((e, d) # es) \<subseteq> R \<union> avail h xs" using A(3) P(5) evolvesD(2) [OF E(1)] by (auto simp: es(2))
  moreover have "R \<subseteq> area l ((e, d) # es)" by (auto simp: es(2))
  ultimately show ?thesis by blast
qed

text \<open>\<open>mlist_pop\<close>: the element goes back to the heap, its mapping to the caller.\<close>

lemma pop_evolves:
  assumes "heap_ok h xs" "maplist h xs l (m # ms) R"
  shows "\<exists>d h' V R'. mlist_pop l h = Inr (d, h') \<and> evolves h xs V h' xs \<and> mapping_at h' xs d m \<and> maplist h' xs l ms R' \<and>
    V \<subseteq> R \<and> R' \<subseteq> R \<and> reg (d - 16) 48 \<subseteq> R \<and> reg (d - 16) 48 \<inter> R' = {}"
proof -
  obtain e d es where es: "recorded h xs l ((e, d) # es) (m # ms)" "R = area l ((e, d) # es)"
  proof -
    obtain es where "recorded h xs l es (m # ms)" "R = area l es" using assms(2) by (auto simp: maplist_def)
    then show ?thesis using that by (cases es) (auto simp: recorded_def)
  qed
  have D: "mlist_at h l ((e, d) # es)" "mblock h xs e 24" "mapping_at h xs d m" "cells_ok h xs es ms" "reg l 16 \<inter> avail h xs = {}"
    "apart (reg l 16 # cells ((e, d) # es))" using es(1) by (auto simp: recorded_def)
  have S: "reg (e - 16) 40 \<inter> reg (d - 16) 48 = {}" "reg (e - 16) 40 \<inter> area l es = {}" "reg (d - 16) 48 \<inter> area l es = {}"
    "apart (reg l 16 # cells es)" using D(6) unfolding area_cells by simp_all
  have lA: "reg l 16 \<subseteq> area l es" "\<Union>(set (cells es)) \<subseteq> area l es" by (auto simp: area_def)
  have "reg (e - 16) 8 \<subseteq> reg (e - 16) 40" by (rule reg_mono) simp
  then have "reg (e - 16) 8 \<inter> mlist_space l es = {}" using S(2) cells_space [of l es] by blast
  from mlist_pop_ok [OF D(1) cells_sep [OF D(6)] this] obtain h' where h': "mlist_pop l h = Inr (d, h')" "mlist_at h' l es" by blast
  define vs where "vs = (if ld64 l h = ld64 (l + 8) h then [(l + 8, 0), (l, 0)] else [(l, ld64 (e + 8) h)])"
  have hd: "ld64 l h = e" "e \<noteq> 0" "l \<noteq> 0" using D(1) by (auto simp: mlist_at_def)
  then have pop: "h' = free e (kh.puts vs h)" using h'(1) by (simp add: mlist_pop_def mlist_is_empty_def Let_def vs_def split: if_splits)
  have "\<forall>(a, v)\<in>set vs. reg a 8 \<subseteq> reg l 16" using list_fields [of l] by (auto simp: vs_def)
  note P = kh.puts_ev [OF assms(1) D(5) this]
  have "mblock (kh.puts vs h) xs e 24" by (rule mblock_keeps [OF D(2) P(1)]) (use S(2) lA(1) in auto)
  from free_evolves [OF evolvesD(1) [OF P(1)] this] have F: "evolves (kh.puts vs h) xs (reg (e - 16) 40) h' xs" by (simp add: pop)
  let ?V = "reg l 16 \<union> reg (e - 16) 40"
  have E: "evolves h xs ?V h' xs" by (rule evolves_trans [OF evolves_mono [OF P(1)] F]) auto
  have "mapping_at h' xs d m" by (rule mapping_keeps [OF D(3) E]) (use S lA in blast)
  moreover have "cells_ok h' xs es ms"
  proof (rule cells_keeps [OF D(4) E])
    have "reg l 16 \<inter> \<Union>(set (cells es)) = {}" using S(4) by simp
    then show "\<Union>(set (cells es)) \<inter> ?V = {}" using S(2) lA(2) by blast
  qed
  moreover have "reg l 16 \<inter> avail h' xs = {}" using evolvesD(2) [OF F] P(2) D(5) S(2) lA(1) by blast
  ultimately have "maplist h' xs l ms (area l es)" "mapping_at h' xs d m" using h'(2) S(4) by (auto simp: maplist_def recorded_def)
  then show ?thesis using h'(1) E S(3) lA(1) unfolding es(2)
    by - (rule exI [of _ d], rule exI [of _ h'], rule exI [of _ ?V], rule exI [of _ "area l es"], auto)
qed

section \<open>Growing an address space\<close>

text \<open>A page table and a list of mappings beside each other.\<close>

definition vspace :: "kheap \<Rightarrow> u64 list \<Rightarrow> u64 \<Rightarrow> pt_tree \<Rightarrow> u64 \<Rightarrow> mapping list \<Rightarrow> u64 set \<Rightarrow> bool" where
  "vspace h xs r T l ms R \<longleftrightarrow> space h r T xs \<and> maplist h xs l ms R \<and> pages (ran T) \<inter> R = {}"

lemma vspaceD:
  assumes "vspace h xs r T l ms R"
  shows "space h r T xs" "maplist h xs l ms R" "pages (ran T) \<inter> R = {}" "heap_ok h xs" "(pages (ran T) \<union> R) \<inter> avail h xs = {}"
  using assms spaceD(2,3) [of h r T xs] maplist_avail [of h xs l ms R] by (simp_all add: vspace_def Int_Un_distrib2)

lemma vspace_keeps_dmw:
  assumes "vspace h xs r T l ms R" "evolves h xs W h' ys" "(pages (ran T) \<union> R) \<inter> W = {}" "\<And>y. y \<in> set ys \<Longrightarrow> dmw_page y"
  shows "vspace h' ys r T l ms R" "pte_of (mem (hmm h')) T va = pte_of (mem (hmm h)) T va"
proof -
  note D = vspaceD [OF assms(1)]
  have W: "pages (ran T) \<inter> W = {}" "R \<inter> W = {}" using assms(3) by blast+
  show "vspace h' ys r T l ms R" "pte_of (mem (hmm h')) T va = pte_of (mem (hmm h)) T va"
    using space_keeps_dmw [OF D(1) assms(2) W(1) assms(4)] maplist_keeps [OF D(2) assms(2) W(2)] D(3) by (simp_all add: vspace_def)
qed

lemma vspace_keeps:
  assumes "vspace h xs r T l ms R" "evolves h xs W h' ys" "(pages (ran T) \<union> R) \<inter> W = {}" "set ys \<subseteq> set xs"
  shows "vspace h' ys r T l ms R" "pte_of (mem (hmm h')) T va = pte_of (mem (hmm h)) T va"
  using vspace_keeps_dmw [OF assms(1-3)] spaceD(5) [OF vspaceD(1) [OF assms(1)]] assms(4) by blast+

text \<open>A zeroed page leaves the free list.\<close>

lemma kmalloc_clear:
  assumes "heap_ok h (f # xs)"
  shows "\<exists>h0. in_mm (kmalloc 16384) h = Inr (f, h0) \<and> evolves h (f # xs) {} h0 xs \<and> evolves h (f # xs) {} (clear_page f h0) xs \<and> f \<noteq> 0 \<and> page_aligned f \<and>
    pages {f} \<inter> avail (clear_page f h0) xs = {} \<and> (\<forall>a. mem (hmm (clear_page f h0)) a = (if in_page f a then 0 else mem (hmm h) a))"
proof -
  obtain h0 where K: "in_mm (kmalloc 16384) h = Inr (f, h0)" "evolves h (f # xs) {} h0 xs" "pages {f} \<inter> avail h0 xs = {}" "f \<noteq> 0" "page_aligned f"
    "\<forall>a. \<not> in_page f a \<longrightarrow> mem (hmm h0) a = mem (hmm h) a"
    using kmalloc_evolves [OF assms] by blast
  let ?m = "fst (memset (mem (hmm h0)) f 0 PGSIZE)"
  have m: "?m a = (if in_page f a then 0 else mem (hmm h) a)" for a using K(6) by (simp add: memset_page)
  have "?m a = mem (hmm h0) a" if "a \<notin> pages {f}" for a using that by (simp add: memset_page pages_def)
  note W = write_evolves [OF evolvesD(1) [OF K(2)] K(3) this, folded clear_page_def]
  have "evolves h (f # xs) {} (clear_page f h0) xs"
    by (rule evolves_trans [OF K(2) W(1)]) (auto simp: avail_def pages_def)
  moreover have "mem (hmm (clear_page f h0)) a = (if in_page f a then 0 else mem (hmm h) a)" for a using m by (simp add: clear_page_def)
  ultimately show ?thesis using K(1-5) W(2) by blast
qed

text \<open>One round: the first free page becomes the frame of the page of \<open>caddr\<close>.\<close>

lemma alloc_round:
  assumes "vspace h (f # xs) r T l ms R" "4 \<le> length xs" "caddr < PGROUNDUP e"
  shows "\<exists>h' T' ys R'. alloc_vm_loop r l caddr e perm h = alloc_vm_loop r l (caddr + PGSIZE) e perm h' \<and>
    vspace h' ys r T' l ((caddr, f, perm) # ms) R' \<and> takes 5 (f # xs) ys \<and> evolves h (f # xs) (pages (ran T) \<union> R) h' ys \<and>
    pages (ran T') \<union> R' \<subseteq> pages (ran T) \<union> R \<union> avail h (f # xs) \<and> ran T' \<subseteq> ran T \<union> set xs \<and>
    pages {f} \<inter> (avail h' ys \<union> pages (ran T') \<union> R') = {} \<and> (\<forall>a. in_page f a \<longrightarrow> mem (hmm h') a = 0) \<and>
    (\<forall>va'. pte_of (mem (hmm h')) T' va' =
       (if vpn va' = vpn caddr then PA2PTE f OR PTE_FLAGS (pte_of (mem (hmm h)) T caddr) OR perm else pte_of (mem (hmm h)) T va'))"
proof -
  note V = vspaceD [OF assms(1)]
  obtain h0 where C: "in_mm (kmalloc 16384) h = Inr (f, h0)" "evolves h (f # xs) {} (clear_page f h0) xs" "f \<noteq> 0"
    "pages {f} \<inter> avail (clear_page f h0) xs = {}" "\<forall>a. mem (hmm (clear_page f h0)) a = (if in_page f a then 0 else mem (hmm h) a)"
    using kmalloc_clear [OF V(4)] by blast
  define h1 where "h1 = clear_page f h0"
  note C = C [folded h1_def]
  have V1: "vspace h1 xs r T l ms R" and p1: "\<And>va. pte_of (mem (hmm h1)) T va = pte_of (mem (hmm h)) T va"
    using vspace_keeps [OF assms(1) C(2)] by auto
  note V1 = vspaceD [OF V1]
  have "2 \<le> length xs" using assms(2) by simp
  from map_evolves [OF V1(1) this, of caddr f perm] obtain h2 T' ys where M: "in_mm (map_single_page r caddr f perm) h1 = Inr (0, h2)"
    "space h2 r T' ys" "takes 2 xs ys" "T \<subseteq>\<^sub>m T'" "evolves h1 xs (pages (ran T)) h2 ys" "pages (ran T') \<subseteq> pages (ran T) \<union> avail h1 xs"
    "ran T' \<subseteq> ran T \<union> set xs" "\<forall>va'. pte_of (mem (hmm h2)) T' va' =
       (if vpn va' = vpn caddr then PA2PTE f OR PTE_FLAGS (pte_of (mem (hmm h1)) T caddr) OR perm else pte_of (mem (hmm h1)) T va')"
    by (elim exE conjE) (rule that)
  have L2: "maplist h2 ys l ms R" by (rule maplist_keeps [OF V1(2) M(5)]) (use V1(3) in blast)
  have "pages (ran T') \<inter> R = {}" using M(6) V1(3,5) by blast
  then have V2: "vspace h2 ys r T' l ms R" using M(2) L2 by (simp add: vspace_def)
  note V2 = vspaceD [OF V2]
  have "2 \<le> length ys" using takes_length [OF M(3)] assms(2) by simp
  from add_mapping [OF V2(4) this V2(2), of f caddr perm] obtain h3 zs R' where G: "proc_add_mapping l f caddr PGSIZE perm h2 = Inr h3"
    "evolves h2 ys R h3 zs" "takes 2 ys zs" "maplist h3 zs l ((caddr, f, perm) # ms) R'" "R \<subseteq> R'" "R' \<subseteq> R \<union> avail h2 ys"
    by (elim exE conjE) (rule that)
  note S3 = space_keeps [OF V2(1) G(2) V2(3) takes_set [OF G(3)]]
  have "pages (ran T') \<inter> R' = {}" using G(6) V2(3,5) by blast
  then have V3: "vspace h3 zs r T' l ((caddr, f, perm) # ms) R'" using S3(1) G(4) by (simp add: vspace_def)
  note av1 = evolvesD(2) [OF C(2)] and av2 = evolvesD(2) [OF M(5)] and av3 = evolvesD(2) [OF G(2)]
  have ft: "pages {f} \<inter> (pages (ran T) \<union> R) = {}" using V(5) by (auto simp: avail_def pages_def)
  have f2: "pages {f} \<inter> avail h2 ys = {}" using av2 C(4) ft by blast
  have f3: "pages {f} \<inter> (avail h3 zs \<union> pages (ran T') \<union> R') = {}" using av3 f2 G(6) M(6) C(4) ft by blast
  have E: "evolves h (f # xs) (pages (ran T) \<union> R) h3 zs"
  proof (rule evolves_trans [OF _ G(2)])
    show "evolves h (f # xs) (pages (ran T) \<union> R) h2 ys" by (rule evolves_trans [OF evolves_mono [OF C(2)] M(5)]) auto
  qed auto
  have zero: "mem (hmm h3) a = 0" if "in_page f a" for a
  proof -
    have a: "a \<in> pages {f}" using that by (simp add: pages_def)
    have "mem (hmm h3) a = mem (hmm h2) a" using evolves_keeps(2) [OF G(2) f2 _ a] ft by blast
    also have "\<dots> = mem (hmm h1) a" using evolves_keeps(2) [OF M(5) C(4) _ a] ft by blast
    finally show ?thesis using C(5) that by simp
  qed
  have "alloc_vm_loop r l caddr e perm h = alloc_vm_loop r l (caddr + PGSIZE) e perm h3"
    using assms(3) C(1,3) M(1) G(1) by (subst alloc_vm_loop.simps) (simp add: h1_def)
  moreover have "takes 5 (f # xs) zs" using takes_trans [OF takes_trans [OF takes_tl M(3)] G(3), of f] by (simp add: eval_nat_numeral)
  moreover have "pages (ran T') \<union> R' \<subseteq> pages (ran T) \<union> R \<union> avail h (f # xs)" using M(6) G(6) av1 av2 by blast
  ultimately show ?thesis using V3 E M(7,8) f3 zero S3(2) p1
    by - (rule exI [of _ h3], rule exI [of _ T'], rule exI [of _ zs], rule exI [of _ R'], simp del: alloc_vm_loop.simps)
qed

text \<open>The whole loop over \<open>n\<close> pages; \<open>fs\<close> are their frames.\<close>

definition frames_for :: "u64 list \<Rightarrow> u64 \<Rightarrow> u64 \<Rightarrow> mem \<Rightarrow> pt_tree \<Rightarrow> mem \<Rightarrow> pt_tree \<Rightarrow> bool" where
  "frames_for fs caddr perm m T m' T' \<longleftrightarrow>
     (\<forall>va<MAXVA. pte_of m' T' va = (if pg caddr \<le> pg va \<and> pg va < pg caddr + length fs
        then PA2PTE (fs ! (pg va - pg caddr)) OR PTE_FLAGS (pte_of m T va) OR perm else pte_of m T va)) \<and>
     (\<forall>f\<in>set fs. \<forall>a. in_page f a \<longrightarrow> m' a = 0)"

lemma frames_for_Cons:
  assumes "\<forall>va'. pte_of m1 T1 va' = (if vpn va' = vpn caddr then PA2PTE f OR PTE_FLAGS (pte_of m T caddr) OR perm else pte_of m T va')"
    and "frames_for fs (caddr + PGSIZE) perm m1 T1 m' T'" "caddr < MAXVA" "\<forall>a. in_page f a \<longrightarrow> m' a = 0"
  shows "frames_for (f # fs) caddr perm m T m' T'"
proof -
  have "unat (caddr + PGSIZE) = unat caddr + 16384"
    using assms(3) by (subst unat_plus_64) (simp_all add: PGSIZE_def word_less_nat_alt MAXVA_unat)
  then have pg: "pg (caddr + PGSIZE) = Suc (pg caddr)" by (simp add: pg_def)
  have "pte_of m' T' va = (if pg caddr \<le> pg va \<and> pg va < pg caddr + length (f # fs)
        then PA2PTE ((f # fs) ! (pg va - pg caddr)) OR PTE_FLAGS (pte_of m T va) OR perm else pte_of m T va)" if va: "va < MAXVA" for va
  proof -
    have I: "pte_of m' T' va = (if Suc (pg caddr) \<le> pg va \<and> pg va < Suc (pg caddr) + length fs
        then PA2PTE (fs ! (pg va - Suc (pg caddr))) OR PTE_FLAGS (pte_of m1 T1 va) OR perm else pte_of m1 T1 va)"
      using assms(2) va by (simp add: frames_for_def pg)
    have v: "vpn va = vpn caddr \<longleftrightarrow> pg va = pg caddr" using va assms(3) by (simp add: vpn_pg)
    show ?thesis
    proof (cases "pg va = pg caddr")
      case True
      then have "pte_of m T caddr = pte_of m T va" using v by (intro pte_of_vpn) simp
      then show ?thesis using I assms(1) True v by simp
    next
      case False
      then have "pte_of m1 T1 va = pte_of m T va" using assms(1) v by simp
      moreover have "pg caddr \<le> pg va \<longleftrightarrow> Suc (pg caddr) \<le> pg va" using False by linarith
      ultimately show ?thesis using I by (simp add: nth_Cons')
    qed
  qed
  then show ?thesis using assms(2,4) by (simp add: frames_for_def)
qed


text \<open>What \<open>alloc_vm\<close> records, page by page.\<close>

fun page_maps :: "u64 \<Rightarrow> u64 \<Rightarrow> u64 list \<Rightarrow> mapping list" where
  "page_maps va perm [] = []"
| "page_maps va perm (f # fs) = (va, f, perm) # page_maps (va + PGSIZE) perm fs"

lemma alloc_vm_loop_ok:
  assumes "vspace h xs r T l ms R" "5 * n \<le> length xs"
    and "unat caddr mod 16384 = 0" "unat (PGROUNDUP e) = unat caddr + 16384 * n" "PGROUNDUP e \<le> MAXVA"
  shows "\<exists>h' T' ys R' fs. alloc_vm_loop r l caddr e perm h = Inr h' \<and> vspace h' ys r T' l (rev (page_maps caddr perm fs) @ ms) R' \<and>
    takes (5 * n) xs ys \<and> length fs = n \<and> distinct fs \<and> set fs \<subseteq> set xs \<and> evolves h xs (pages (ran T) \<union> R) h' ys \<and>
    pages (ran T') \<union> R' \<subseteq> pages (ran T) \<union> R \<union> avail h xs \<and> ran T' \<subseteq> ran T \<union> set xs \<and>
    pages (set fs) \<inter> (avail h' ys \<union> pages (ran T') \<union> R') = {} \<and> frames_for fs caddr perm (mem (hmm h)) T (mem (hmm h')) T'"
  using assms
proof (induction n arbitrary: h T xs R ms caddr)
  case 0
  have "\<not> caddr < PGROUNDUP e" using "0.prems"(4) by (simp add: word_less_nat_alt)
  then have "alloc_vm_loop r l caddr e perm h = Inr h" by (subst alloc_vm_loop.simps) simp
  moreover have nil: "frames_for [] caddr perm (mem (hmm h)) T (mem (hmm h)) T" by (auto simp: frames_for_def)
  ultimately show ?case using "0.prems"(1) evolves_refl [OF vspaceD(4)]
    by - (rule exI [of _ h], rule exI [of _ T], rule exI [of _ xs], rule exI [of _ R], rule exI [of _ "[]"], simp add: nil le_supI1 del: alloc_vm_loop.simps)
next
  case (Suc n)
  obtain f zs where xs: "xs = f # zs" "4 \<le> length zs" using Suc.prems(2) by (cases xs) auto
  have lt: "caddr < PGROUNDUP e" using Suc.prems(4) by (simp add: word_less_nat_alt)
  then have va: "caddr < MAXVA" using Suc.prems(5) by simp
  then have up: "unat (caddr + PGSIZE) = unat caddr + 16384"
    by (subst unat_plus_64) (simp_all add: PGSIZE_def word_less_nat_alt MAXVA_unat)
  from alloc_round [OF Suc.prems(1) [unfolded xs(1)] xs(2) lt, of perm] obtain h1 T1 ys1 R1 where
    A: "alloc_vm_loop r l caddr e perm h = alloc_vm_loop r l (caddr + PGSIZE) e perm h1" "vspace h1 ys1 r T1 l ((caddr, f, perm) # ms) R1"
      "takes 5 xs ys1" "evolves h xs (pages (ran T) \<union> R) h1 ys1" "pages (ran T1) \<union> R1 \<subseteq> pages (ran T) \<union> R \<union> avail h xs"
      "ran T1 \<subseteq> ran T \<union> set zs" "pages {f} \<inter> (avail h1 ys1 \<union> pages (ran T1) \<union> R1) = {}" "\<forall>a. in_page f a \<longrightarrow> mem (hmm h1) a = 0"
      "\<forall>va'. pte_of (mem (hmm h1)) T1 va' =
         (if vpn va' = vpn caddr then PA2PTE f OR PTE_FLAGS (pte_of (mem (hmm h)) T caddr) OR perm else pte_of (mem (hmm h)) T va')"
    unfolding xs(1) [symmetric] by (elim exE conjE) (rule that)
  have "5 * n \<le> length ys1" "unat (caddr + PGSIZE) mod 16384 = 0" "unat (PGROUNDUP e) = unat (caddr + PGSIZE) + 16384 * n"
    using takes_length [OF A(3)] Suc.prems(2-4) up by auto
  from Suc.IH [OF A(2) this Suc.prems(5)] obtain h' T' ys R' fs where
    I: "alloc_vm_loop r l (caddr + PGSIZE) e perm h1 = Inr h'"
      "vspace h' ys r T' l (rev (page_maps (caddr + PGSIZE) perm fs) @ (caddr, f, perm) # ms) R'" "takes (5 * n) ys1 ys" "length fs = n" "distinct fs"
      "set fs \<subseteq> set ys1" "evolves h1 ys1 (pages (ran T1) \<union> R1) h' ys" "pages (ran T') \<union> R' \<subseteq> pages (ran T1) \<union> R1 \<union> avail h1 ys1"
      "ran T' \<subseteq> ran T1 \<union> set ys1" "pages (set fs) \<inter> (avail h' ys \<union> pages (ran T') \<union> R') = {}"
      "frames_for fs (caddr + PGSIZE) perm (mem (hmm h1)) T1 (mem (hmm h')) T'"
    by (elim exE conjE) (rule that)
  note av1 = evolvesD(2) [OF A(4)] and av2 = evolvesD(2) [OF I(7)] and ys1 = takes_set [OF A(3)]
  have "mem (hmm h') a = 0" if "in_page f a" for a
    using evolves_keeps(2) [OF I(7), of "pages {f}" a] A(7,8) that by (auto simp: pages_def)
  then have F: "frames_for (f # fs) caddr perm (mem (hmm h)) T (mem (hmm h')) T'" using frames_for_Cons [OF A(9) I(11) va] by blast
  have f: "f \<notin> set ys1" using A(7) page_in_pages [of f "{f}"] page_in_pages [of f "set ys1"] by (auto simp: avail_def)
  have "pages {f} \<inter> (avail h' ys \<union> pages (ran T') \<union> R') = {}" using A(7) I(8) av2 by blast
  then have sep: "pages (set (f # fs)) \<inter> (avail h' ys \<union> pages (ran T') \<union> R') = {}" using I(10) pages_insert [of f "set fs"] by auto
  have E: "evolves h xs (pages (ran T) \<union> R) h' ys" by (rule evolves_trans [OF A(4) I(7)]) (use A(5) in blast)
  have t: "takes (5 * Suc n) xs ys" using takes_trans [OF A(3) I(3)] by simp
  have "pages (ran T') \<union> R' \<subseteq> pages (ran T) \<union> R \<union> avail h xs" "ran T' \<subseteq> ran T \<union> set xs" "set (f # fs) \<subseteq> set xs" "distinct (f # fs)"
    using I(5,6,8,9) A(5,6) av1 ys1 f by (auto simp: xs(1))
  then show ?case using A(1) I(1,2,4) t F E sep
    by - (rule exI [of _ h'], rule exI [of _ T'], rule exI [of _ ys], rule exI [of _ R'], rule exI [of _ "f # fs"], simp del: alloc_vm_loop.simps)
qed

lemma alloc_vm_ok:
  assumes "vspace h xs r T l ms R" "page_aligned start" "start \<le> PGROUNDUP e" "PGROUNDUP e \<le> MAXVA"
    and "5 * (pg (PGROUNDUP e) - pg start) \<le> length xs"
  obtains h' T' ys R' fs where "alloc_vm r l start e perm h = Inr (0, h')" "vspace h' ys r T' l (rev (page_maps start perm fs) @ ms) R'"
    "length fs = pg (PGROUNDUP e) - pg start" "distinct fs" "set fs \<subseteq> set xs" "takes (5 * length fs) xs ys"
    "evolves h xs (pages (ran T) \<union> R) h' ys" "pages (ran T') \<union> R' \<subseteq> pages (ran T) \<union> R \<union> avail h xs" "ran T' \<subseteq> ran T \<union> set xs"
    "pages (set fs) \<inter> (avail h' ys \<union> pages (ran T') \<union> R') = {}" "frames_for fs start perm (mem (hmm h)) T (mem (hmm h')) T'"
proof -
  let ?n = "pg (PGROUNDUP e) - pg start"
  have "PGROUNDUP e = PGROUNDDOWN (e + PGSIZE - 1)" by (simp add: PGROUNDUP_def PGROUNDDOWN_def)
  then have "16384 dvd unat (PGROUNDUP e)" "16384 dvd unat start" "unat start \<le> unat (PGROUNDUP e)"
    using assms(2,3) PGROUNDDOWN_unat [of "e + PGSIZE - 1"] by (simp_all add: page_aligned_def dvd_minus_mod word_le_nat_alt mod_0_imp_dvd)
  then have n: "unat (PGROUNDUP e) = unat start + 16384 * ?n" "unat start mod 16384 = 0"
    by (auto simp: pg_def diff_mult_distrib2)
  from alloc_vm_loop_ok [OF assms(1,5) n(2,1) assms(4), of perm] obtain h' T' ys R' fs where
    A: "alloc_vm_loop r l start e perm h = Inr h'" "vspace h' ys r T' l (rev (page_maps start perm fs) @ ms) R'" "takes (5 * ?n) xs ys"
      "length fs = ?n" "distinct fs" "set fs \<subseteq> set xs" "evolves h xs (pages (ran T) \<union> R) h' ys"
      "pages (ran T') \<union> R' \<subseteq> pages (ran T) \<union> R \<union> avail h xs" "ran T' \<subseteq> ran T \<union> set xs"
      "pages (set fs) \<inter> (avail h' ys \<union> pages (ran T') \<union> R') = {}" "frames_for fs start perm (mem (hmm h)) T (mem (hmm h')) T'"
    by (elim exE conjE) (rule that)
  have "alloc_vm r l start e perm h = Inr (0, h')" using A(1) by (simp add: alloc_vm_def del: alloc_vm_loop.simps)
  moreover have "takes (5 * length fs) xs ys" using A(3,4) by simp
  ultimately show ?thesis using A by (intro that)
qed

text \<open>A new page table and a new list.\<close>

lemma pgtbl_create_space:
  assumes "heap_ok h (x # xs)" "\<And>y. y \<in> set (x # xs) \<Longrightarrow> dmw_page y"
  shows "\<exists>h'. in_mm pgtbl_create h = Inr (x, h') \<and> evolves h (x # xs) {} h' xs \<and> space h' x [[] \<mapsto> x] xs \<and>
    (\<forall>va. pte_of (mem (hmm h')) [[] \<mapsto> x] va = 0) \<and> pages {x} \<inter> avail h' xs = {}"
proof -
  obtain h0 where K: "in_mm (kmalloc 16384) h = Inr (x, h0)" "evolves h (x # xs) {} (clear_page x h0) xs" "x \<noteq> 0"
    "pages {x} \<inter> avail (clear_page x h0) xs = {}" "\<forall>a. mem (hmm (clear_page x h0)) a = (if in_page x a then 0 else mem (hmm h) a)"
    using kmalloc_clear [OF assms(1)] by blast
  let ?h = "clear_page x h0" and ?T = "[[] \<mapsto> x] :: pt_tree"
  obtain s where s: "kmalloc 16384 (hmm h) = Inr (x, s)" "h0 = h\<lparr>hmm := s\<rparr>"
    using K(1) unfolding in_mm_def by (auto simp: kres_simps)
  have c: "pgtbl_create (hmm h) = Inr (x, hmm ?h)" using s K(3) by (simp add: pgtbl_create_def clear_page_def)
  have I: "mm_inv (hmm h) (x # xs)" using heap_okD(1) [OF assms(1)] .
  have "as_inv (hmm ?h) x ?T xs \<and> (\<forall>va. pte_of (mem (hmm ?h)) ?T va = 0)"
    using pgtbl_create_ok [OF I] assms(2) c by auto
  moreover have "in_mm pgtbl_create h = Inr (x, ?h)" using c s(2) by (simp add: in_mm_def clear_page_def)
  ultimately show ?thesis using K(2,4) evolvesD(1) [OF K(2)] by (intro exI [of _ ?h]) (simp add: space_def)
qed

text \<open>The page table and the list of a new process.\<close>

lemma new_vspace:
  assumes "space h r T xs" "xs \<noteq> []"
  shows "\<exists>l h' ys R. mlist_init h = Inr (l, h') \<and> vspace h' ys r T l [] R \<and> takes 1 xs ys \<and> evolves h xs {} h' ys \<and> R \<subseteq> avail h xs \<and>
    (\<forall>va. pte_of (mem (hmm h')) T va = pte_of (mem (hmm h)) T va)"
proof -
  note D = spaceD [OF assms(1)]
  obtain l h' ys where L: "mlist_init h = Inr (l, h')" "evolves h xs {} h' ys" "takes 1 xs ys" "maplist h' ys l [] (reg l 16)"
    "reg l 16 \<subseteq> avail h xs"
    using new_maplist [OF D(2) assms(2)] by blast
  note K = space_keeps [OF assms(1) L(2) _ takes_set [OF L(3)]]
  have "pages (ran T) \<inter> reg l 16 = {}" using D(3) L(5) by blast
  then have "vspace h' ys r T l [] (reg l 16)" using K(1) L(4) by (simp add: vspace_def)
  then show ?thesis using L(1-3,5) K(2) by blast
qed

text \<open>A page table, a list of mappings and eleven free pages, made by the code itself.\<close>

lemma sample_space:
  assumes "0 < n" "n < 8192" "r = KERNBASE + of_nat (n * 16384)" "m = Suc n"
  obtains s l h R ys where "pgtbl_create (sample_heap m) = Inr (r, s)" "mlist_init (heap_boot s) = Inr (l, h)"
    "vspace h ys r [[] \<mapsto> r] l [] R" "n \<le> Suc (length ys)" "set ys \<subseteq> set (page_run KERNBASE n)" "\<forall>va. pte_of (mem (hmm h)) [[] \<mapsto> r] va = 0"
    "pages {r} \<union> R \<union> avail h ys \<subseteq> pages (set (page_run KERNBASE m))"
proof -
  let ?r = "KERNBASE + of_nat (n * 16384)" and ?xs = "rev (page_run KERNBASE n)"
  let ?T = "[[] \<mapsto> ?r] :: pt_tree"
  obtain s where s: "pgtbl_create (sample_heap (Suc n)) = Inr (?r, s)" "as_inv s ?r ?T ?xs" "\<forall>va. pte_of (mem s) ?T va = 0"
    using sample_table [OF assms(2)] by blast
  note A = as_invD [OF s(2)]
  have h: "hmm (heap_boot s) = s" by (simp add: heap_boot_def)
  have "pages (ran ?T) \<inter> pages (set ?xs) = {}"
    by (rule pages_apart) (use A(2-4) in \<open>auto simp: pt_wf_def dmw_page_def\<close>)
  then have S: "space (heap_boot s) ?r ?T ?xs" "?xs \<noteq> []"
    using s(2) heap_boot_ok [OF A(1)] assms(1) by (simp_all add: space_def h page_run_def)
  from new_vspace [OF S] obtain l h' ys R where L: "mlist_init (heap_boot s) = Inr (l, h')" "vspace h' ys ?r ?T l [] R" "takes 1 ?xs ys"
    "\<forall>va. pte_of (mem (hmm h')) ?T va = pte_of (mem (hmm (heap_boot s))) ?T va" "evolves (heap_boot s) ?xs {} h' ys" "R \<subseteq> avail (heap_boot s) ?xs"
    by (elim exE conjE) (rule that)
  have "set (page_run KERNBASE (Suc n)) = {?r} \<union> set (page_run KERNBASE n)" by (auto simp: page_run_def)
  then have "pages (set (page_run KERNBASE (Suc n))) = pages {?r} \<union> pages (set ?xs)" by (simp only: pages_Un set_rev)
  then have "pages {?r} \<union> R \<union> avail h' ys \<subseteq> pages (set (page_run KERNBASE (Suc n)))"
    using L(6) evolvesD(2) [OF L(5)] heap_boot_ok(2) [OF A(1)] by blast
  moreover have "n \<le> Suc (length ys)" using takes_length [OF L(3)] by (simp add: page_run_def)
  moreover have "set ys \<subseteq> set (page_run KERNBASE n)" using takes_set [OF L(3)] by simp
  ultimately show ?thesis using s(1,3) L(1,2,4) unfolding h assms(3,4) [symmetric] by (intro that) auto
qed

section \<open>Properties\<close>

text \<open>
  C11: growing a process over the pages from \<open>start\<close> up to \<open>e\<close> rounded up to a page ends and returns 0 when five free pages per new page are at
  hand. Each page of the range then translates to a frame of its own, taken from the free pages and all zero, each other user page translates as before,
  and the list of mappings has the new pages in front of the old ones. The frames are apart from the page table, from the list and from what the
  heap and the page allocator still hand out; memory that belonged to nobody of these is not written.
\<close>

theorem alloc_vm_maps_zero_pages:
  assumes "vspace h xs r T l ms R" "page_aligned start" "start \<le> PGROUNDUP e" "PGROUNDUP e \<le> MAXVA"
    and "5 * (pg (PGROUNDUP e) - pg start) \<le> length xs" "perm AND PAMASK = 0" "perm AND PTE_V \<noteq> 0"
  shows "\<exists>h' fs T' ys R'. alloc_vm r l start e perm h = Inr (0, h') \<and> vspace h' ys r T' l (rev (page_maps start perm fs) @ ms) R' \<and>
    length fs = pg (PGROUNDUP e) - pg start \<and> distinct fs \<and> set fs \<subseteq> set xs \<and> pages (set fs) \<inter> (avail h' ys \<union> pages (ran T') \<union> R') = {} \<and>
    (\<forall>f\<in>set fs. \<forall>a. in_page f a \<longrightarrow> mem (hmm h') a = 0) \<and>
    (\<forall>a. a \<notin> avail h xs \<union> pages (ran T) \<union> R \<longrightarrow> mem (hmm h') a = mem (hmm h) a) \<and>
    (\<forall>va<MAXVA. va_to_pa r va (hmm h') =
       (if pg start \<le> pg va \<and> pg va < pg start + length fs then Inr (PTE2PA (fs ! (pg va - pg start)) + va mod PGSIZE)
        else va_to_pa r va (hmm h)))"
proof -
  obtain h' T' ys R' fs where
    A: "alloc_vm r l start e perm h = Inr (0, h')" "vspace h' ys r T' l (rev (page_maps start perm fs) @ ms) R'"
      "length fs = pg (PGROUNDUP e) - pg start" "distinct fs" "set fs \<subseteq> set xs" "pages (set fs) \<inter> (avail h' ys \<union> pages (ran T') \<union> R') = {}"
      "evolves h xs (pages (ran T) \<union> R) h' ys" "frames_for fs start perm (mem (hmm h)) T (mem (hmm h')) T'"
    by (rule alloc_vm_ok [OF assms(1-5), of perm])
  note wf = spaceD(4) [OF vspaceD(1) [OF assms(1)]] spaceD(4) [OF vspaceD(1) [OF A(2)]]
  have "va_to_pa r va (hmm h') =
       (if pg start \<le> pg va \<and> pg va < pg start + length fs then Inr (PTE2PA (fs ! (pg va - pg start)) + va mod PGSIZE)
        else va_to_pa r va (hmm h))" if "va < MAXVA" for va
    using A(8) that by (simp add: frames_for_def va_to_pa_eq [OF wf(1)] va_to_pa_eq [OF wf(2)] user_va new_pte [OF assms(6,7)])
  moreover have "\<forall>f\<in>set fs. \<forall>a. in_page f a \<longrightarrow> mem (hmm h') a = 0" using A(8) by (simp add: frames_for_def)
  moreover have "mem (hmm h') a = mem (hmm h) a" if "a \<notin> avail h xs \<union> pages (ran T) \<union> R" for a using evolvesD(3) [OF A(7)] that by simp
  ultimately show ?thesis using A(1-6)
    by - (rule exI [of _ h'], rule exI [of _ fs], rule exI [of _ T'], rule exI [of _ ys], rule exI [of _ R'], simp)
qed

theorem alloc_vm_maps_zero_pages_witness:
  "\<exists>s l h h' f. pgtbl_create (sample_heap 12) = Inr (KERNBASE + 180224, s) \<and> mlist_init (heap_boot s) = Inr (l, h) \<and>
    alloc_vm (KERNBASE + 180224) l 0x10000 0x14001 7 h = Inr (0, h') \<and>
    va_to_pa (KERNBASE + 180224) 0x14010 (hmm h') = Inr (PTE2PA f + 0x10) \<and> (\<forall>a. in_page f a \<longrightarrow> mem (hmm h') a = 0) \<and>
    va_to_pa (KERNBASE + 180224) 0x20000 (hmm h') = Inr 0"
proof -
  let ?r = "KERNBASE + 180224"
  obtain s l h R ys where s: "pgtbl_create (sample_heap 12) = Inr (?r, s)" and
    l: "mlist_init (heap_boot s) = Inr (l, h)" "vspace h ys ?r [[] \<mapsto> ?r] l [] R" "11 \<le> Suc (length ys)"
      "set ys \<subseteq> set (page_run KERNBASE 11)" "\<forall>va. pte_of (mem (hmm h)) [[] \<mapsto> ?r] va = 0"
    by (rule sample_space [of 11 ?r 12]) (simp_all del: sample_heap.simps)
  have g: "PGROUNDUP 0x14001 = (0x18000 :: u64)" by (simp add: PGROUNDUP_def PGSIZE_def)
  have "page_aligned 0x10000" "(0x10000 :: u64) \<le> PGROUNDUP 0x14001" "PGROUNDUP 0x14001 \<le> MAXVA"
    "5 * (pg (PGROUNDUP 0x14001) - pg 0x10000) \<le> length ys" "(7 :: u64) AND PAMASK = 0" "(7 :: u64) AND PTE_V \<noteq> 0"
    using l(3) by (simp_all add: g page_aligned_def MAXVA_def pg_def PAMASK_def PTE_V_def)
  from alloc_vm_maps_zero_pages [OF l(2) this] obtain h' fs where A: "alloc_vm ?r l 0x10000 0x14001 7 h = Inr (0, h')"
    "length fs = pg (PGROUNDUP 0x14001) - pg 0x10000" "\<forall>f\<in>set fs. \<forall>a. in_page f a \<longrightarrow> mem (hmm h') a = 0"
    "\<forall>va<MAXVA. va_to_pa ?r va (hmm h') =
       (if pg 0x10000 \<le> pg va \<and> pg va < pg 0x10000 + length fs then Inr (PTE2PA (fs ! (pg va - pg 0x10000)) + va mod PGSIZE)
        else va_to_pa ?r va (hmm h))"
    by (elim exE conjE) (rule that)
  have n: "length fs = 2" using A(2) by (simp add: g pg_def)
  then have f: "fs ! 1 \<in> set fs" by simp
  have "va_to_pa ?r 0x14010 (hmm h') = Inr (PTE2PA (fs ! 1) + 0x10)" "va_to_pa ?r 0x20000 (hmm h') = va_to_pa ?r 0x20000 (hmm h)"
    using A(4) n by (simp_all add: MAXVA_def pg_def PGSIZE_def)
  moreover have "va_to_pa ?r 0x20000 (hmm h) = Inr 0"
    using l(5) by (simp add: va_to_pa_eq [OF spaceD(4) [OF vspaceD(1) [OF l(2)]]])
  ultimately show ?thesis using s l(1) A(1,3) f
    by - (rule exI [of _ s], rule exI [of _ l], rule exI [of _ h], rule exI [of _ h'], rule exI [of _ "fs ! 1"], simp)
qed

end
