(* ===== verification/Fork.thy ===== *)
theory Fork
  imports AddrSpace "HOL-Library.Multiset"
begin

text \<open>
  Copying and giving back a whole address space: \<open>copy_pagetable\<close> and \<open>pgtbl_free\<close> of mm/n_vm.c over the page tables, the
  lists of mappings, the page allocator and the heap. Each of these parts has a footprint of its own in memory; an operation on one part keeps
  the others, so that the child of \<open>fork\<close> gets frames of its own with the contents of its parent's pages, and all that a dead
  process had is free again.
\<close>

section \<open>Footprints\<close>

text \<open>Parts of memory that do not overlap, and of which nothing is available.\<close>

definition owned :: "kheap \<Rightarrow> u64 list \<Rightarrow> u64 set list \<Rightarrow> bool" where
  "owned h xs Xs \<longleftrightarrow> apart Xs \<and> \<Union>(set Xs) \<inter> avail h xs = {}"

lemma owned_Cons: "owned h xs (X # Xs) \<longleftrightarrow> X \<inter> \<Union>(set Xs) = {} \<and> X \<inter> avail h xs = {} \<and> owned h xs Xs"
  by (auto simp: owned_def Int_Un_distrib2)

lemma apart_nth: "apart Xs \<longleftrightarrow> (\<forall>i<length Xs. \<forall>j<length Xs. i \<noteq> j \<longrightarrow> Xs ! i \<inter> Xs ! j = {})"
proof (induction Xs)
  case (Cons X Xs)
  have "X \<inter> \<Union>(set Xs) = {} \<longleftrightarrow> (\<forall>j<length Xs. X \<inter> Xs ! j = {})" by (fastforce simp: in_set_conv_nth)
  then show ?case unfolding apart.simps Cons.IH length_Cons All_less_Suc2 nth_Cons_0 nth_Cons_Suc by (simp add: Int_commute [of _ X] all_conj_distrib imp_conjR)
qed simp

lemma ownedD:
  assumes "owned h xs Xs" "i < length Xs"
  shows "Xs ! i \<inter> avail h xs = {}" "j < length Xs \<Longrightarrow> i \<noteq> j \<Longrightarrow> Xs ! i \<inter> Xs ! j = {}"
proof -
  have "Xs ! i \<subseteq> \<Union>(set Xs)" using assms(2) by (meson Sup_upper nth_mem)
  then show "Xs ! i \<inter> avail h xs = {}" using assms(1) by (auto simp: owned_def)
  show "j < length Xs \<Longrightarrow> i \<noteq> j \<Longrightarrow> Xs ! i \<inter> Xs ! j = {}" using assms by (simp add: owned_def apart_nth)
qed

lemma ownedI:
  assumes "\<And>i. i < length Xs \<Longrightarrow> Xs ! i \<inter> avail h xs = {}" "\<And>i j. i < length Xs \<Longrightarrow> j < length Xs \<Longrightarrow> i \<noteq> j \<Longrightarrow> Xs ! i \<inter> Xs ! j = {}"
  shows "owned h xs Xs"
  using assms by (fastforce simp: owned_def apart_nth in_set_conv_nth)

text \<open>The order of the parts does not matter.\<close>

lemma apart_mid: "apart (As @ X # Bs) \<longleftrightarrow> X \<inter> \<Union>(set (As @ Bs)) = {} \<and> apart (As @ Bs)"
  by (induction As) auto

lemma apart_perm: "mset Xs = mset Ys \<Longrightarrow> apart Xs \<Longrightarrow> apart Ys"
proof (induction Ys arbitrary: Xs)
  case (Cons Y Ys)
  have "Y \<in> set Xs" using Cons.prems(1) by (metis list.set_intros(1) set_mset_mset)
  then obtain As Bs where Xs: "Xs = As @ Y # Bs" by (meson split_list)
  then have m: "mset (As @ Bs) = mset Ys" using Cons.prems(1) by simp
  then have "set (As @ Bs) = set Ys" by (metis set_mset_mset)
  then show ?case using Cons.IH [OF m] Cons.prems(2) unfolding Xs apart_mid by simp
qed simp

lemma owned_perm: "owned h xs Xs \<Longrightarrow> mset Xs = mset Ys \<Longrightarrow> owned h xs Ys"
  unfolding owned_def using apart_perm by (metis set_mset_mset)

text \<open>A step of the part \<open>i\<close>.\<close>

lemma owned_step:
  assumes "owned h xs Xs" "evolves h xs (Xs ! i) h' ys" "i < length Xs" "A \<subseteq> Xs ! i \<union> avail h xs" "A \<inter> avail h' ys = {}"
  shows "owned h' ys (Xs[i := A])"
proof -
  note av = evolvesD(2) [OF assms(2)]
  have k: "Xs ! k \<inter> avail h' ys = {}" "Xs ! k \<inter> A = {}" "A \<inter> Xs ! k = {}" if "k < length Xs" "i \<noteq> k" for k
    using ownedD(1) [OF assms(1) that(1)] ownedD(2) [OF assms(1) that(1) assms(3)] that(2) av assms(4) by blast+
  have "Xs[i := A] ! j \<inter> avail h' ys = {}" if "j < length (Xs[i := A])" for j
    using that k(1) [of j] assms(5) by (cases "i = j") simp_all
  moreover have "Xs[i := A] ! j \<inter> Xs[i := A] ! k = {}" if "j < length (Xs[i := A])" "k < length (Xs[i := A])" "j \<noteq> k" for j k
    using that k(2) [of j] k(3) [of k] ownedD(2) [OF assms(1), of j k] by (cases "i = j"; cases "i = k") simp_all
  ultimately show ?thesis by (rule ownedI)
qed

lemma owned_kept:
  assumes "owned h xs Xs" "evolves h xs (Xs ! i) h' ys" "i < length Xs" "Xs ! i \<inter> avail h' ys = {}"
  shows "owned h' ys Xs"
  using owned_step [OF assms(1-3) _ assms(4)] by simp

lemma owned_keeps:
  assumes "owned h xs Xs" "evolves h xs (Xs ! i) h' ys" "i < length Xs" "j < length Xs" "i \<noteq> j" "a \<in> Xs ! j"
  shows "mem (hmm h') a = mem (hmm h) a"
proof -
  have "a \<notin> Xs ! i" "a \<notin> avail h xs" using ownedD [OF assms(1,4)] assms(3,5,6) by auto
  then show ?thesis using evolvesD(3) [OF assms(2)] by simp
qed

text \<open>A part made from memory that was available.\<close>

lemma owned_new:
  assumes "owned h xs Xs" "evolves h xs {} h' ys" "A \<subseteq> avail h xs" "A \<inter> avail h' ys = {}"
  shows "owned h' ys (A # Xs)"
proof -
  have "avail h' ys \<subseteq> avail h xs" using evolvesD(2) [OF assms(2)] by simp
  then have "\<Union>(set Xs) \<inter> avail h' ys = {}" "A \<inter> \<Union>(set Xs) = {}" using assms(1,3) unfolding owned_def by blast+
  then show ?thesis using assms(1,4) by (simp add: owned_def Int_Un_distrib2)
qed

lemma owned_merge: "owned h xs (A # F # G # Xs) \<Longrightarrow> owned h xs (F # (G \<union> A) # Xs)"
  unfolding owned_def by (simp only: apart.simps list.set Union_insert) blast

section \<open>What a list of mappings means\<close>

text \<open>The entries that the pages of a list of mappings have in the page table.\<close>

definition entries :: "mapping list \<Rightarrow> nat \<Rightarrow> u64 option" where
  "entries ms = map_of (map (\<lambda>(va, pa, perm). (pg va, PA2PTE pa OR perm)) ms)"

definition frames_in :: "mapping list \<Rightarrow> u64 list" where
  "frames_in ms = map (\<lambda>(va, pa, perm). pa) ms"

definition pages_in :: "mapping list \<Rightarrow> nat list" where
  "pages_in ms = map (\<lambda>(va, pa, perm). pg va) ms"

text \<open>A user page with a frame in the window of the kernel and flags that mark it valid.\<close>

definition good_map :: "mapping \<Rightarrow> bool" where
  "good_map m \<longleftrightarrow> (case m of (va, pa, perm) \<Rightarrow> page_aligned va \<and> va < MAXVA \<and> dmw_page pa \<and> PTE2PA pa \<noteq> 0 \<and>
     perm AND PAMASK = 0 \<and> perm AND PTE_V \<noteq> 0)"

lemma entries_simps [simp]: "entries [] = Map.empty" "entries ((va, pa, perm) # ms) = (entries ms)(pg va \<mapsto> PA2PTE pa OR perm)"
  by (simp_all add: entries_def)

lemma frames_in_simps [simp]: "frames_in [] = []" "frames_in ((va, pa, perm) # ms) = pa # frames_in ms"
    "frames_in (ms @ ns) = frames_in ms @ frames_in ns" "frames_in (rev ms) = rev (frames_in ms)"
  by (simp_all add: frames_in_def rev_map)

lemma pages_in_simps [simp]: "pages_in [] = []" "pages_in ((va, pa, perm) # ms) = pg va # pages_in ms"
    "pages_in (ms @ ns) = pages_in ms @ pages_in ns" "pages_in (rev ms) = rev (pages_in ms)"
  by (simp_all add: pages_in_def rev_map)

lemma entries_dom: "entries ms n = None \<longleftrightarrow> n \<notin> set (pages_in ms)"
  by (induction ms) (auto split: if_splits)

lemma entries_rev: "distinct (pages_in ms) \<Longrightarrow> entries (rev ms) = entries ms"
  unfolding entries_def pages_in_def by (subst map_of_inject_set) (simp_all add: comp_def case_prod_unfold rev_map [symmetric])

lemma PTE_FLAGS_0 [simp]: "PTE_FLAGS 0 = 0"
  by (simp add: PTE_FLAGS_def)

lemma good_mapD:
  assumes "good_map (va, pa, perm)"
  shows "page_aligned va" "va < MAXVA" "dmw_page pa" "PTE2PA pa \<noteq> 0" "perm AND PAMASK = 0" "perm AND PTE_V \<noteq> 0"
    "page_aligned pa" "pa \<noteq> 0" "PTE2PA (PA2PTE pa OR perm) = PTE2PA pa" "(PA2PTE pa OR perm) AND PTE_V \<noteq> 0" "PA2VA pa = pa"
proof -
  show g: "page_aligned va" "va < MAXVA" "dmw_page pa" "PTE2PA pa \<noteq> 0" "perm AND PAMASK = 0" "perm AND PTE_V \<noteq> 0"
    using assms by (simp_all add: good_map_def)
  show "page_aligned pa" "pa \<noteq> 0" using g(3,4) by (auto simp: dmw_page_def PTE2PA_def)
  show "PTE2PA (PA2PTE pa OR perm) = PTE2PA pa" "(PA2PTE pa OR perm) AND PTE_V \<noteq> 0"
    using new_pte [OF g(5,6), of pa 0] by simp_all
  have "PA2VA (PTE2PA pa) = pa" using g(3) by (simp add: dmw_page_def)
  then show "PA2VA pa = pa" by (metis PA2VA_def or.assoc or.idem)
qed

lemma frames_good:
  assumes "f \<in> set (frames_in ms)" "\<forall>mp\<in>set ms. good_map mp"
  shows "page_aligned f" "dmw_page f"
proof -
  obtain va perm where "(va, f, perm) \<in> set ms" using assms(1) by (auto simp: frames_in_def)
  then have "good_map (va, f, perm)" using assms(2) by blast
  then show "page_aligned f" "dmw_page f" using good_mapD(3,7) by blast+
qed

section \<open>Copying one page\<close>

lemma in_user_page:
  assumes "page_aligned va" "va < MAXVA" "i < 16384"
  shows "unat (va + of_nat i) = unat va + i" "va + of_nat i < MAXVA" "pg (va + of_nat i) = pg va" "(va + of_nat i) mod PGSIZE = of_nat i"
proof -
  obtain k where k: "unat va = 16384 * k" "k < 1125899906842624" using assms(1) by (rule page_alignedE)
  have lt: "16384 * k < 140737488355328" using assms(2) k(1) by (simp add: word_less_nat_alt MAXVA_unat)
  have i: "unat (of_nat i :: u64) = i" using assms(3) by (intro unat_of_nat_64) simp
  show u: "unat (va + of_nat i) = unat va + i" using lt k(1) assms(3) i by (subst unat_plus_64) simp_all
  have "k < 8589934592" using lt by simp
  then have "16384 * k + i < 140737488355328" using assms(3) by linarith
  then show "va + of_nat i < MAXVA" using u k(1) by (simp add: word_less_nat_alt MAXVA_unat)
  show "pg (va + of_nat i) = pg va" using u k(1) assms(3) by (simp add: pg_def)
  have "unat ((va + of_nat i) mod PGSIZE) = i" using u k(1) assms(3) by (simp add: unat_mod PGSIZE_def)
  then show "(va + of_nat i) mod PGSIZE = of_nat i" using i by (simp add: word_unat_eq_iff)
qed

lemma copy_page:
  assumes "pt_wf (mem s) r T" "good_map (va, pa, perm)" "pte_of (mem s) T va = PA2PTE pa OR perm" "page_aligned f"
    and "pages {f} \<inter> pages (ran T) = {}" "pages {f} \<inter> pages {pa} = {}" "pa \<notin> ran T"
  shows "\<exists>m. copy_from_va r f va PGSIZE s = Inr (0, s\<lparr>mem := m\<rparr>) \<and> (\<forall>a. a \<notin> pages {f} \<longrightarrow> m a = mem s a) \<and>
    (\<forall>i<16384. m (f + of_nat i) = mem s (pa + of_nat i))"
proof -
  note G = good_mapD [OF assms(2)]
  note U = in_user_page [OF G(1,2)]
  have n: "unat PGSIZE = 16384" by (simp add: PGSIZE_def)
  have pte: "pte_of (mem s) T (va + of_nat i) = PA2PTE pa OR perm" if "i < 16384" for i
    using assms(3) U(2,3) [OF that] G(2) by (subst pte_of_vpn [of _ va]) (simp_all add: vpn_pg)
  have fr: "frame (mem s) T (va + of_nat i) = pa" if "i < 16384" for i
    using pte [OF that] G(3,9) by (simp add: frame_def dmw_page_def)
  have lc: "loc (mem s) T (va + of_nat i) = pa + of_nat i" if "i < 16384" for i
    using fr [OF that] U(4) [OF that] by (simp add: loc_def)
  have fi: "f + of_nat i \<in> pages {f}" if "i < 16384" for i
    using that by (simp add: pages_def in_page_def in_region_def unat_of_nat_64)
  obtain k where k: "unat va = 16384 * k" "k < 1125899906842624" using G(1) by (rule page_alignedE)
  have "k < 8589934592" using G(2) k(1) by (simp add: word_less_nat_alt MAXVA_unat)
  then have "unat va + 16384 \<le> 140737488355328" using k(1) by linarith
  then have "user_range (mem s) T va (unat PGSIZE)"
    using pte fr G(4,9,10) assms(7) by (simp add: user_range_def user_page_def n)
  moreover have "kernel_buffer (mem s) T va (unat PGSIZE) f (unat PGSIZE)"
    using fi fr assms(5,6) unfolding kernel_buffer_def outside_frames_def n by (auto simp: pages_def)
  moreover obtain j where "unat f = 16384 * j" "j < 1125899906842624" using assms(4) by (rule page_alignedE)
  then have "unat f + unat PGSIZE \<le> 2 ^ 64" by (simp add: n)
  ultimately have c: "copy_from_va r f va PGSIZE s = Inr (0, s\<lparr>mem := write_bytes (mem s) f (user_bytes (mem s) T va 16384)\<rparr>)"
    using copy_from_va_ok [OF assms(1)] n by metis
  let ?bs = "user_bytes (mem s) T va 16384"
  have l: "length ?bs = 16384" by (simp add: user_bytes_def)
  have "write_bytes (mem s) f ?bs a = mem s a" if "a \<notin> pages {f}" for a
    using that by (simp add: write_bytes_def l pages_def in_page_def in_region_def)
  moreover have "write_bytes (mem s) f ?bs (f + of_nat i) = mem s (pa + of_nat i)" if "i < 16384" for i
    using that lc [OF that] by (simp add: write_bytes_def l unat_of_nat_64 user_bytes_def)
  ultimately show ?thesis using c by blast
qed

lemma map_one_page:
  assumes "page_aligned va" "va < MAXVA" "page_aligned f" "map_single_page r va f perm s = Inr (0, s')"
  shows "map_pages r va PGSIZE f perm s = Some (Inr (0, s'))"
proof -
  have d: "PGROUNDDOWN x = x" if "page_aligned x" for x
    using that PGROUNDDOWN_unat [of x] by (simp add: page_aligned_def word_unat_eq_iff)
  have "va + PGSIZE - 1 = va + of_nat 16383" by (simp add: PGSIZE_def)
  also have "unat \<dots> = unat va + 16383" by (rule in_user_page(1) [OF assms(1,2)]) simp
  finally have u: "unat (va + PGSIZE - 1) = unat va + 16383" .
  have "PGROUNDDOWN (va + PGSIZE - 1) = va"
  proof -
    obtain k where k: "unat va = 16384 * k" "k < 1125899906842624" using assms(1) by (rule page_alignedE)
    have "unat (PGROUNDDOWN (va + PGSIZE - 1)) = unat va" unfolding PGROUNDDOWN_unat u k(1) by simp
    then show ?thesis by (simp add: word_unat_eq_iff)
  qed
  moreover have "\<not> va + PGSIZE \<le> va"
    using assms(2) by (simp add: word_le_nat_alt unat_plus_64 PGSIZE_def word_less_nat_alt MAXVA_unat)
  ultimately show ?thesis using assms(4) d [OF assms(1)] d [OF assms(3)]
    by (simp add: map_pages_def map_pages_loop.simps [of r va] map_pages_loop.simps [of r "va + PGSIZE"])
qed

section \<open>Copying an address space\<close>

text \<open>
  The state of \<open>copy_pagetable\<close>: the tables \<open>T\<close> of the parent and \<open>U\<close> of the child, the mappings \<open>ms\<close> to be copied, and the lists that the parent and
  the child have got so far; \<open>F\<close> and \<open>G\<close> are other memory in use, the frames of the parent and of the child.
\<close>

definition forking :: "kheap \<Rightarrow> u64 list \<Rightarrow> u64 \<Rightarrow> pt_tree \<Rightarrow> u64 \<Rightarrow> pt_tree \<Rightarrow> u64 \<Rightarrow> mapping list \<Rightarrow> u64 \<Rightarrow> mapping list \<Rightarrow> u64 \<Rightarrow>
    mapping list \<Rightarrow> u64 set \<Rightarrow> u64 set \<Rightarrow> u64 set \<Rightarrow> u64 set \<Rightarrow> u64 set \<Rightarrow> bool" where
  "forking h xs r T q U ol ms pl ps nl cs F G Ro Rp Rc \<longleftrightarrow> space h r T xs \<and> space h q U xs \<and>
     maplist h xs ol ms Ro \<and> maplist h xs pl ps Rp \<and> maplist h xs nl cs Rc \<and> owned h xs [F, G, pages (ran T), pages (ran U), Ro, Rp, Rc]"

lemma forkingD:
  assumes "forking h xs r T q U ol ms pl ps nl cs F G Ro Rp Rc"
  shows "space h r T xs" "space h q U xs" "maplist h xs ol ms Ro" "maplist h xs pl ps Rp" "maplist h xs nl cs Rc"
    "owned h xs [F, G, pages (ran T), pages (ran U), Ro, Rp, Rc]" "heap_ok h xs"
  using assms spaceD(2) by (auto simp: forking_def)

lemma owned_less:
  assumes "owned h xs Xs" "i < length Xs" "A \<subseteq> Xs ! i" "heap_ok h xs"
  shows "owned h xs (Xs[i := A])"
  using owned_step [OF assms(1) evolves_refl [OF assms(4)] assms(2), of A] assms(3) ownedD(1) [OF assms(1,2)] by blast

lemma owned_move:
  assumes "owned h xs Xs" "i < length Xs" "j < length Xs" "i \<noteq> j" "A \<union> D \<subseteq> Xs ! i" "A \<inter> D = {}"
  shows "owned h xs (Xs[i := A, j := Xs ! j \<union> D])"
proof (rule ownedI)
  let ?Y = "Xs[i := A, j := Xs ! j \<union> D]"
  have nth: "?Y ! k = (if k = j then Xs ! j \<union> D else if k = i then A else Xs ! k)" for k
    using assms(2-4) by (simp add: nth_list_update)
  note av = ownedD(1) [OF assms(1)] and di = ownedD(2) [OF assms(1)]
  show "?Y ! k \<inter> avail h xs = {}" if "k < length ?Y" for k
    using that av [of k] av [OF assms(2)] av [OF assms(3)] assms(5) unfolding nth by auto
  have other: "Xs ! k \<inter> (Xs ! j \<union> D) = {}" "Xs ! k \<inter> A = {}" if "k < length Xs" "k \<noteq> i" "k \<noteq> j" for k
    using di [OF that(1) assms(2)] di [OF that(1) assms(3)] that(2,3) assms(5) by blast+
  have ij: "A \<inter> (Xs ! j \<union> D) = {}" using di [OF assms(2,3,4)] assms(5,6) by blast
  show "?Y ! k \<inter> ?Y ! l = {}" if "k < length ?Y" "l < length ?Y" "k \<noteq> l" for k l
    using that other [of k] other [of l] ij di [of k l] unfolding nth
    by (cases "k = j"; cases "k = i"; cases "l = j"; cases "l = i") (simp_all add: Int_commute)
qed

text \<open>A mapping leaves the list, and the page is copied to a fresh frame.\<close>

lemma pop_copy:
  assumes fk: "forking h (f # xs) r T q U ol ((va, pa, perm) # ms) pl ps nl cs F G Ro Rp Rc" and g: "good_map (va, pa, perm)"
    and pte: "pte_of (mem (hmm h)) T va = PA2PTE pa OR perm" and pF: "pages {pa} \<subseteq> F"
  shows "\<exists>d h' Ro'. kbind (mlist_pop ol h) (\<lambda>(info, h1).
        kbind (in_mm (kmalloc 16384) h1) (\<lambda>(new_mem, h2).
          kbind (in_mm (copy_from_va r new_mem (ld64 (info + 8) h2) PGSIZE) (clear_page new_mem h2)) (\<lambda>(r, h3).
            Inr (info, new_mem, h3)))) = Inr (d, f, h') \<and>
    evolves h (f # xs) Ro h' xs \<and> mapping_at h' xs d (va, pa, perm) \<and> Ro' \<subseteq> Ro \<and> page_aligned f \<and>
    forking h' xs r T q U ol ms pl ps nl cs (F \<union> reg (d - 16) 48) (G \<union> pages {f}) Ro' Rp Rc \<and>
    (\<forall>i<16384. mem (hmm h') (f + of_nat i) = mem (hmm h) (pa + of_nat i))"
proof -
  note D = forkingD [OF fk] and o = forkingD(6) [OF fk]
  let ?xs = "f # xs"
  obtain d h1 V Ro' where P: "mlist_pop ol h = Inr (d, h1)" "evolves h ?xs V h1 ?xs" "mapping_at h1 ?xs d (va, pa, perm)" "maplist h1 ?xs ol ms Ro'"
    "V \<subseteq> Ro" "Ro' \<subseteq> Ro" "reg (d - 16) 48 \<subseteq> Ro" "reg (d - 16) 48 \<inter> Ro' = {}"
    using pop_evolves [OF D(7,3)] by blast
  let ?D = "reg (d - 16) 48"
  have E1: "evolves h ?xs Ro h1 ?xs" by (rule evolves_mono [OF P(2)]) (use P(5) in blast)
  have s: "pages (ran T) \<inter> Ro = {}" "pages (ran U) \<inter> Ro = {}" "Rp \<inter> Ro = {}" "Rc \<inter> Ro = {}" "F \<inter> Ro = {}" "F \<inter> pages (ran T) = {}"
    using o by (auto simp: owned_def)
  have S1: "space h1 r T ?xs" "space h1 q U ?xs" "maplist h1 ?xs pl ps Rp" "maplist h1 ?xs nl cs Rc"
    "\<And>v. pte_of (mem (hmm h1)) T v = pte_of (mem (hmm h)) T v"
    using space_keeps [OF D(1) E1 s(1)] space_keeps [OF D(2) E1 s(2)] maplist_keeps [OF D(4) E1 s(3)] maplist_keeps [OF D(5) E1 s(4)] by simp_all
  have Dv: "?D \<inter> avail h1 ?xs = {}" using P(3) by (simp add: mapping_at_def mblock_def)
  have "owned h1 ?xs ([F, G, pages (ran T), pages (ran U), Ro, Rp, Rc][4 := Ro' \<union> ?D])"
    by (rule owned_step [OF o]) (use E1 P(6,7) maplist_avail [OF P(4)] Dv in auto)
  then have O1: "owned h1 ?xs [F \<union> ?D, G, pages (ran T), pages (ran U), Ro', Rp, Rc]"
    using owned_move [of h1 ?xs _ 4 0 Ro' ?D] P(8) by (fastforce simp: Int_commute)
  obtain h0 where K: "in_mm (kmalloc 16384) h1 = Inr (f, h0)" "evolves h1 ?xs {} h0 xs" "evolves h1 ?xs {} (clear_page f h0) xs"
    "page_aligned f" "pages {f} \<inter> avail (clear_page f h0) xs = {}"
    using kmalloc_clear [OF evolvesD(1) [OF E1]] by blast
  let ?h2 = "clear_page f h0"
  have fa: "pages {f} \<subseteq> avail h1 ?xs" by (auto simp: avail_def pages_def)
  have F1: "F \<inter> avail h1 ?xs = {}" using ownedD(1) [OF O1, of 0] by auto
  have sub: "set xs \<subseteq> set ?xs" by auto
  have T2: "space ?h2 r T xs" "pte_of (mem (hmm ?h2)) T va = PA2PTE pa OR perm"
    using space_keeps [OF S1(1) K(3) _ sub] S1(5) pte by simp_all
  have "pages {f} \<inter> pages (ran T) = {}" "pages {f} \<inter> pages {pa} = {}" "pa \<notin> ran T"
    using fa spaceD(3) [OF S1(1)] F1 pF s(6) page_in_pages [of pa "{pa}"] page_in_pages [of pa "ran T"] by blast+
  from copy_page [OF spaceD(4) [OF T2(1)] g T2(2) K(4) this] obtain m where
    M: "copy_from_va r f va PGSIZE (hmm ?h2) = Inr (0, (hmm ?h2)\<lparr>mem := m\<rparr>)" "\<And>a. a \<notin> pages {f} \<Longrightarrow> m a = mem (hmm ?h2) a"
      "\<And>i. i < 16384 \<Longrightarrow> m (f + of_nat i) = mem (hmm ?h2) (pa + of_nat i)" by blast
  let ?h3 = "?h2\<lparr>hmm := (hmm ?h2)\<lparr>mem := m\<rparr>\<rparr>"
  note W = write_evolves [OF evolvesD(1) [OF K(3)] K(5) M(2)]
  have E3: "evolves h1 ?xs {} ?h3 xs" by (rule evolves_trans [OF K(3) W(1)]) (use fa in auto)
  have "owned ?h3 xs (pages {f} # [F \<union> ?D, G, pages (ran T), pages (ran U), Ro', Rp, Rc])"
    by (rule owned_new [OF O1 E3 fa]) (use K(5) W(2) in simp)
  then have "forking ?h3 xs r T q U ol ms pl ps nl cs (F \<union> ?D) (G \<union> pages {f}) Ro' Rp Rc"
    using space_keeps(1) [OF S1(1) E3 _ sub] space_keeps(1) [OF S1(2) E3 _ sub] maplist_keeps [OF P(4) E3] maplist_keeps [OF S1(3) E3]
      maplist_keeps [OF S1(4) E3] owned_merge by (simp add: forking_def)
  moreover have "mapping_at ?h3 xs d (va, pa, perm)" by (rule mapping_keeps [OF P(3) E3]) simp
  moreover have "evolves h ?xs Ro ?h3 xs" by (rule evolves_trans [OF E1 E3]) simp
  moreover have "mem (hmm ?h3) (f + of_nat i) = mem (hmm h) (pa + of_nat i)" if "i < 16384" for i
  proof -
    have "pa + of_nat i \<in> F" using pF that by (auto simp: pages_def in_page_def in_region_def unat_of_nat_64)
    then have "mem (hmm ?h2) (pa + of_nat i) = mem (hmm h) (pa + of_nat i)"
      using evolves_keeps(2) [OF K(3) F1] evolves_keeps(2) [OF E1 _ s(5)] ownedD(1) [OF o, of 0] by auto
    then show ?thesis using M(3) [OF that] by simp
  qed
  moreover have "ld64 (d + 8) h0 = va" using mapping_keeps [OF P(3) K(2)] by (simp add: mapping_at_def)
  then have "kbind (mlist_pop ol h) (\<lambda>(info, h1).
        kbind (in_mm (kmalloc 16384) h1) (\<lambda>(new_mem, h2).
          kbind (in_mm (copy_from_va r new_mem (ld64 (info + 8) h2) PGSIZE) (clear_page new_mem h2)) (\<lambda>(r, h3).
            Inr (info, new_mem, h3)))) = Inr (d, f, ?h3)"
    using P(1) K(1) M(1) by (simp add: in_mm_def)
  ultimately show ?thesis using P(6) K(4)
    by - (rule exI [of _ d], rule exI [of _ ?h3], rule exI [of _ Ro'], simp)
qed

text \<open>A step of one part keeps the others.\<close>

lemma forking_apart:
  assumes "forking h xs r T q U ol ms pl ps nl cs F G Ro Rp Rc"
  shows "F \<inter> pages (ran U) = {}" "F \<inter> Rp = {}" "F \<inter> Rc = {}" "F \<inter> avail h xs = {}"
    "G \<inter> pages (ran U) = {}" "G \<inter> Ro = {}" "G \<inter> Rp = {}" "G \<inter> Rc = {}" "G \<inter> avail h xs = {}" "F \<inter> Ro = {}"
  using assms by (auto simp: forking_def owned_def)

lemma forking_map:
  assumes "forking h xs r T q U ol ms pl ps nl cs F G Ro Rp Rc" "evolves h xs (pages (ran U)) h' ys" "space h' q U' ys"
    "pages (ran U') \<subseteq> pages (ran U) \<union> avail h xs" "set ys \<subseteq> set xs"
  shows "forking h' ys r T q U' ol ms pl ps nl cs F G Ro Rp Rc" "pte_of (mem (hmm h')) T va = pte_of (mem (hmm h)) T va"
proof -
  note D = forkingD [OF assms(1)]
  let ?Xs = "[F, G, pages (ran T), pages (ran U), Ro, Rp, Rc]"
  have di: "pages (ran T) \<inter> pages (ran U) = {}" "Ro \<inter> pages (ran U) = {}" "Rp \<inter> pages (ran U) = {}" "Rc \<inter> pages (ran U) = {}"
    using D(6) by (auto simp: owned_def)
  have "owned h' ys (?Xs[3 := pages (ran U')])"
    by (rule owned_step [OF D(6)]) (use assms(2,4) spaceD(3) [OF assms(3)] in simp_all)
  then show "forking h' ys r T q U' ol ms pl ps nl cs F G Ro Rp Rc" "pte_of (mem (hmm h')) T va = pte_of (mem (hmm h)) T va"
    using space_keeps [OF D(1) assms(2) di(1) assms(5)] maplist_keeps [OF D(3) assms(2) di(2)] maplist_keeps [OF D(4) assms(2) di(3)]
      maplist_keeps [OF D(5) assms(2) di(4)] assms(3) by (simp_all add: forking_def)
qed

lemma forking_parent:
  assumes "forking h xs r T q U ol ms pl ps nl cs F G Ro Rp Rc" "evolves h xs Rp h' ys" "maplist h' ys pl ps' Rp'"
    "Rp' \<subseteq> Rp \<union> avail h xs" "set ys \<subseteq> set xs"
  shows "forking h' ys r T q U ol ms pl ps' nl cs F G Ro Rp' Rc" "pte_of (mem (hmm h')) U va = pte_of (mem (hmm h)) U va"
proof -
  note D = forkingD [OF assms(1)]
  let ?Xs = "[F, G, pages (ran T), pages (ran U), Ro, Rp, Rc]"
  have di: "pages (ran T) \<inter> Rp = {}" "pages (ran U) \<inter> Rp = {}" "Ro \<inter> Rp = {}" "Rc \<inter> Rp = {}"
    using D(6) by (auto simp: owned_def)
  have "owned h' ys (?Xs[5 := Rp'])"
    by (rule owned_step [OF D(6)]) (use assms(2,4) maplist_avail [OF assms(3)] in simp_all)
  then show "forking h' ys r T q U ol ms pl ps' nl cs F G Ro Rp' Rc" "pte_of (mem (hmm h')) U va = pte_of (mem (hmm h)) U va"
    using space_keeps [OF D(1) assms(2) di(1) assms(5)] space_keeps [OF D(2) assms(2) di(2) assms(5)] maplist_keeps [OF D(3) assms(2) di(3)]
      maplist_keeps [OF D(5) assms(2) di(4)] assms(3) by (simp_all add: forking_def)
qed

lemma forking_child:
  assumes "forking h xs r T q U ol ms pl ps nl cs F G Ro Rp Rc" "evolves h xs Rc h' ys" "maplist h' ys nl cs' Rc'"
    "Rc' \<subseteq> Rc \<union> avail h xs" "set ys \<subseteq> set xs"
  shows "forking h' ys r T q U ol ms pl ps nl cs' F G Ro Rp Rc'" "pte_of (mem (hmm h')) U va = pte_of (mem (hmm h)) U va"
proof -
  note D = forkingD [OF assms(1)]
  let ?Xs = "[F, G, pages (ran T), pages (ran U), Ro, Rp, Rc]"
  have di: "pages (ran T) \<inter> Rc = {}" "pages (ran U) \<inter> Rc = {}" "Ro \<inter> Rc = {}" "Rp \<inter> Rc = {}"
    using D(6) by (auto simp: owned_def)
  have "owned h' ys (?Xs[6 := Rc'])"
    by (rule owned_step [OF D(6)]) (use assms(2,4) maplist_avail [OF assms(3)] in simp_all)
  then show "forking h' ys r T q U ol ms pl ps nl cs' F G Ro Rp Rc'" "pte_of (mem (hmm h')) U va = pte_of (mem (hmm h)) U va"
    using space_keeps [OF D(1) assms(2) di(1) assms(5)] space_keeps [OF D(2) assms(2) di(2) assms(5)] maplist_keeps [OF D(3) assms(2) di(3)]
      maplist_keeps [OF D(4) assms(2) di(4)] assms(3) by (simp_all add: forking_def)
qed

text \<open>The frame is mapped in the child and entered in both lists.\<close>

lemma enter_page:
  assumes fk: "forking h xs r T q U ol ms pl ps nl cs F G Ro Rp Rc" and len: "6 \<le> length xs" and g: "good_map (va, pa, perm)"
    and f: "page_aligned f" "dmw_page f" and d: "mapping_at h xs d (va, pa, perm)" "reg (d - 16) 48 \<subseteq> F" and new: "pte_of (mem (hmm h)) U va = 0"
  shows "\<exists>m U' h' ys Rp' Rc'. map_pages q (ld64 (d + 8) h) (ld64 (d + 16) h) f (ld64 (d + 24) h) (hmm h) = Some (Inr (0, m)) \<and>
    kbind (va_to_pa q (ld64 (d + 8) (h\<lparr>hmm := m\<rparr>)) m) (\<lambda>pa'.
      kbind (proc_add_mapping pl (ld64 d (h\<lparr>hmm := m\<rparr>)) (ld64 (d + 8) (h\<lparr>hmm := m\<rparr>)) PGSIZE (ld64 (d + 24) (h\<lparr>hmm := m\<rparr>)) (h\<lparr>hmm := m\<rparr>)) (\<lambda>h5.
        proc_add_mapping nl (PA2VA pa') (ld64 (d + 8) h5) PGSIZE (ld64 (d + 24) h5) h5)) = Inr h' \<and>
    evolves h xs (pages (ran U) \<union> Rp \<union> Rc) h' ys \<and> takes 6 xs ys \<and>
    forking h' ys r T q U' ol ms pl ((va, pa, perm) # ps) nl ((va, f, perm) # cs) F G Ro Rp' Rc' \<and>
    pages (ran U') \<union> Rp' \<union> Rc' \<subseteq> pages (ran U) \<union> Rp \<union> Rc \<union> avail h xs \<and> ran U' \<subseteq> ran U \<union> set xs \<and>
    (\<forall>v<MAXVA. pte_of (mem (hmm h')) U' v = (if pg v = pg va then PA2PTE f OR perm else pte_of (mem (hmm h)) U v))"
proof -
  note D = forkingD [OF fk] and G = good_mapD [OF g]
  note A = forking_apart [OF fk]
  have "2 \<le> length xs" using len by simp
  from map_evolves [OF D(2) this, of va f perm] obtain h1 U' ys where M: "in_mm (map_single_page q va f perm) h = Inr (0, h1)"
    "space h1 q U' ys" "takes 2 xs ys" "evolves h xs (pages (ran U)) h1 ys" "pages (ran U') \<subseteq> pages (ran U) \<union> avail h xs" "ran U' \<subseteq> ran U \<union> set xs"
    "\<forall>v. pte_of (mem (hmm h1)) U' v =
       (if vpn v = vpn va then PA2PTE f OR PTE_FLAGS (pte_of (mem (hmm h)) U va) OR perm else pte_of (mem (hmm h)) U v)"
    by (elim exE conjE) (rule that)
  obtain m where m: "map_single_page q va f perm (hmm h) = Inr (0, m)" "h1 = h\<lparr>hmm := m\<rparr>"
    using M(1) unfolding in_mm_def by (auto simp: kres_simps)
  have ld: "ld64 d h = pa" "ld64 (d + 8) h = va" "ld64 (d + 16) h = PGSIZE" "ld64 (d + 24) h = perm" using d(1) by (simp_all add: mapping_at_def)
  have mp: "map_pages q (ld64 (d + 8) h) (ld64 (d + 16) h) f (ld64 (d + 24) h) (hmm h) = Some (Inr (0, m))"
    unfolding ld by (rule map_one_page [OF G(1,2) f(1) m(1)])
  note K1 = forking_map [OF fk M(4,2,5) takes_set [OF M(3)]]
  note D1 = forkingD [OF K1(1)]
  have d1: "mapping_at h1 ys d (va, pa, perm)" by (rule mapping_keeps [OF d(1) M(4)]) (use d(2) A(1) in blast)
  have pte1: "pte_of (mem (hmm h1)) U' v = (if pg v = pg va then PA2PTE f OR perm else pte_of (mem (hmm h)) U v)" if "v < MAXVA" for v
    using M(7) new that G(2) by (simp add: vpn_pg)
  have "PTE2PA (PA2PTE f OR perm) = PTE2PA f" "(PA2PTE f OR perm) AND PTE_V \<noteq> 0" using new_pte [OF G(5,6), of f 0] by simp_all
  moreover have "va mod PGSIZE = 0" using G(1) by (simp add: kfree_aligned)
  ultimately have tr: "va_to_pa q va (hmm h1) = Inr (PTE2PA f)"
    using pte1 [OF G(2)] G(2) by (simp add: va_to_pa_eq [OF spaceD(4) [OF M(2)]] user_va)
  have "2 \<le> length ys" using takes_length [OF M(3)] len by simp
  from add_mapping [OF D1(7) this D1(4), of pa va perm] obtain h2 zs Rp' where P: "proc_add_mapping pl pa va PGSIZE perm h1 = Inr h2"
    "evolves h1 ys Rp h2 zs" "takes 2 ys zs" "maplist h2 zs pl ((va, pa, perm) # ps) Rp'" "Rp' \<subseteq> Rp \<union> avail h1 ys"
    by (elim exE conjE) (rule that)
  note K2 = forking_parent [OF K1(1) P(2,4,5) takes_set [OF P(3)]]
  note D2 = forkingD [OF K2(1)]
  have d2: "mapping_at h2 zs d (va, pa, perm)" by (rule mapping_keeps [OF d1 P(2)]) (use d(2) A(2) in blast)
  have "2 \<le> length zs" using takes_length [OF M(3)] takes_length [OF P(3)] len by simp
  from add_mapping [OF D2(7) this D2(5), of f va perm] obtain h3 ws Rc' where Q: "proc_add_mapping nl f va PGSIZE perm h2 = Inr h3"
    "evolves h2 zs Rc h3 ws" "takes 2 zs ws" "maplist h3 ws nl ((va, f, perm) # cs) Rc'" "Rc' \<subseteq> Rc \<union> avail h2 zs"
    by (elim exE conjE) (rule that)
  note K3 = forking_child [OF K2(1) Q(2,4,5) takes_set [OF Q(3)]]
  have all: "kbind (va_to_pa q (ld64 (d + 8) (h\<lparr>hmm := m\<rparr>)) m) (\<lambda>pa'.
      kbind (proc_add_mapping pl (ld64 d (h\<lparr>hmm := m\<rparr>)) (ld64 (d + 8) (h\<lparr>hmm := m\<rparr>)) PGSIZE (ld64 (d + 24) (h\<lparr>hmm := m\<rparr>)) (h\<lparr>hmm := m\<rparr>)) (\<lambda>h5.
        proc_add_mapping nl (PA2VA pa') (ld64 (d + 8) h5) PGSIZE (ld64 (d + 24) h5) h5)) = Inr h3"
  proof -
    have "ld64 d h1 = pa" "ld64 (d + 8) h1 = va" "ld64 (d + 24) h1 = perm" "ld64 (d + 8) h2 = va" "ld64 (d + 24) h2 = perm"
      using d1 d2 by (simp_all add: mapping_at_def)
    moreover have "PA2VA (PTE2PA f) = f" "hmm h1 = m" using f(2) m(2) by (simp_all add: dmw_page_def)
    ultimately show ?thesis using P(1) Q(1) tr unfolding m(2) [symmetric] by simp
  qed
  let ?W = "pages (ran U) \<union> Rp \<union> Rc"
  have E2: "evolves h xs ?W h2 zs" by (rule evolves_trans [OF evolves_mono [OF M(4)] P(2)]) auto
  have E3: "evolves h xs ?W h3 ws" by (rule evolves_trans [OF E2 Q(2)]) auto
  have "pages (ran U') \<union> Rp' \<union> Rc' \<subseteq> ?W \<union> avail h xs" using M(5) P(5) Q(5) evolvesD(2) [OF M(4)] evolvesD(2) [OF E2] by blast
  moreover have "takes 6 xs ws" using takes_trans [OF M(3) takes_trans [OF P(3) Q(3)]] by simp
  moreover have "pte_of (mem (hmm h3)) U' v = (if pg v = pg va then PA2PTE f OR perm else pte_of (mem (hmm h)) U v)" if "v < MAXVA" for v
    using K3(2) K2(2) pte1 [OF that] by simp
  ultimately show ?thesis using mp all E3 K3(1) M(6)
    by - (rule exI [of _ m], rule exI [of _ U'], rule exI [of _ h3], rule exI [of _ ws], rule exI [of _ Rp'], rule exI [of _ Rc'], simp)
qed

lemma forking_frames:
  assumes "forking h xs r T q U ol ms pl ps nl cs F G Ro Rp Rc" "heap_ok h xs" "A \<subseteq> F"
  shows "forking h xs r T q U ol ms pl ps nl cs A G Ro Rp Rc"
proof -
  have "owned h xs ([F, G, pages (ran T), pages (ran U), Ro, Rp, Rc][0 := A])"
    by (rule owned_less [OF forkingD(6) [OF assms(1)]]) (use assms(2,3) in simp_all)
  then show ?thesis using assms(1) by (simp add: forking_def)
qed

lemma copy_mapping_ok:
  assumes fk: "forking h (f # xs) r T q U ol ((va, pa, perm) # ms) pl ps nl cs F G Ro Rp Rc" and g: "good_map (va, pa, perm)" and len: "6 \<le> length xs"
    and pte: "pte_of (mem (hmm h)) T va = PA2PTE pa OR perm" "pte_of (mem (hmm h)) U va = 0" and pF: "pages {pa} \<subseteq> F"
  shows "\<exists>h' ys U' Ro' Rp' Rc'. copy_mapping r pl q nl ol h = Some (Inr h') \<and>
    evolves h (f # xs) (pages (ran U) \<union> Ro \<union> Rp \<union> Rc) h' ys \<and> takes 7 (f # xs) ys \<and>
    forking h' ys r T q U' ol ms pl ((va, pa, perm) # ps) nl ((va, f, perm) # cs) F (G \<union> pages {f}) Ro' Rp' Rc' \<and>
    pages (ran U') \<union> Ro' \<union> Rp' \<union> Rc' \<subseteq> pages (ran U) \<union> Ro \<union> Rp \<union> Rc \<union> avail h (f # xs) \<and> ran U' \<subseteq> ran U \<union> set xs \<and>
    (\<forall>i<16384. mem (hmm h') (f + of_nat i) = mem (hmm h) (pa + of_nat i)) \<and>
    (\<forall>v<MAXVA. pte_of (mem (hmm h')) U' v = (if pg v = pg va then PA2PTE f OR perm else pte_of (mem (hmm h)) U v))"
proof -
  obtain d h1 Ro' where P: "kbind (mlist_pop ol h) (\<lambda>(info, h1).
        kbind (in_mm (kmalloc 16384) h1) (\<lambda>(new_mem, h2).
          kbind (in_mm (copy_from_va r new_mem (ld64 (info + 8) h2) PGSIZE) (clear_page new_mem h2)) (\<lambda>(r, h3).
            Inr (info, new_mem, h3)))) = Inr (d, f, h1)"
    "evolves h (f # xs) Ro h1 xs" "mapping_at h1 xs d (va, pa, perm)" "Ro' \<subseteq> Ro" "page_aligned f"
    "forking h1 xs r T q U ol ms pl ps nl cs (F \<union> reg (d - 16) 48) (G \<union> pages {f}) Ro' Rp Rc"
    "\<forall>i<16384. mem (hmm h1) (f + of_nat i) = mem (hmm h) (pa + of_nat i)"
    using pop_copy [OF fk g pte(1) pF] by blast
  have U: "pages (ran U) \<inter> Ro = {}" using forkingD(6) [OF fk] by (auto simp: owned_def)
  have pU: "pte_of (mem (hmm h1)) U v = pte_of (mem (hmm h)) U v" for v
    using space_keeps(2) [OF forkingD(2) [OF fk] P(2) U] by auto
  have dmw: "dmw_page f" using spaceD(5) [OF forkingD(1) [OF fk]] by simp
  have new: "pte_of (mem (hmm h1)) U va = 0" using pU pte(2) by simp
  from enter_page [OF P(6) len g P(5) dmw P(3) Un_upper2 new] obtain m U' h' ys Rp' Rc' where
    E: "map_pages q (ld64 (d + 8) h1) (ld64 (d + 16) h1) f (ld64 (d + 24) h1) (hmm h1) = Some (Inr (0, m))"
    "kbind (va_to_pa q (ld64 (d + 8) (h1\<lparr>hmm := m\<rparr>)) m) (\<lambda>pa'.
      kbind (proc_add_mapping pl (ld64 d (h1\<lparr>hmm := m\<rparr>)) (ld64 (d + 8) (h1\<lparr>hmm := m\<rparr>)) PGSIZE (ld64 (d + 24) (h1\<lparr>hmm := m\<rparr>)) (h1\<lparr>hmm := m\<rparr>)) (\<lambda>h5.
        proc_add_mapping nl (PA2VA pa') (ld64 (d + 8) h5) PGSIZE (ld64 (d + 24) h5) h5)) = Inr h'"
    "evolves h1 xs (pages (ran U) \<union> Rp \<union> Rc) h' ys" "takes 6 xs ys"
    "forking h' ys r T q U' ol ms pl ((va, pa, perm) # ps) nl ((va, f, perm) # cs) (F \<union> reg (d - 16) 48) (G \<union> pages {f}) Ro' Rp' Rc'"
    "pages (ran U') \<union> Rp' \<union> Rc' \<subseteq> pages (ran U) \<union> Rp \<union> Rc \<union> avail h1 xs" "ran U' \<subseteq> ran U \<union> set xs"
    "\<forall>v<MAXVA. pte_of (mem (hmm h')) U' v = (if pg v = pg va then PA2PTE f OR perm else pte_of (mem (hmm h1)) U v)"
    by (elim exE conjE) (rule that)
  let ?W = "pages (ran U) \<union> Ro \<union> Rp \<union> Rc"
  have "copy_mapping r pl q nl ol h = Some (Inr h')"
    unfolding copy_mapping_def P(1) using E(1,2) by (simp add: Let_def)
  moreover have "evolves h (f # xs) ?W h' ys" by (rule evolves_trans [OF evolves_mono [OF P(2)] E(3)]) auto
  moreover have "takes 7 (f # xs) ys" using takes_trans [OF takes_tl E(4)] by simp
  moreover have "forking h' ys r T q U' ol ms pl ((va, pa, perm) # ps) nl ((va, f, perm) # cs) F (G \<union> pages {f}) Ro' Rp' Rc'"
    by (rule forking_frames [OF E(5) forkingD(7) [OF E(5)]]) simp
  moreover have "pages (ran U') \<union> Ro' \<union> Rp' \<union> Rc' \<subseteq> ?W \<union> avail h (f # xs)" using E(6) P(4) evolvesD(2) [OF P(2)] by blast
  moreover have "mem (hmm h') (f + of_nat i) = mem (hmm h) (pa + of_nat i)" if "i < 16384" for i
  proof -
    have "f + of_nat i \<in> pages {f}" using that by (simp add: pages_def in_page_def in_region_def unat_of_nat_64)
    then have "mem (hmm h') (f + of_nat i) = mem (hmm h1) (f + of_nat i)"
      using forking_apart(5-9) [OF P(6)] by (intro evolvesD(3) [OF E(3)]) blast
    then show ?thesis using P(7) that by simp
  qed
  ultimately show ?thesis using E(7,8) pU
    by - (rule exI [of _ h'], rule exI [of _ ys], rule exI [of _ U'], rule exI [of _ Ro'], rule exI [of _ Rp'], rule exI [of _ Rc'], simp)
qed

text \<open>The mappings of the child.\<close>

definition copies :: "mapping list \<Rightarrow> u64 list \<Rightarrow> mapping list" where
  "copies ms gs = map2 (\<lambda>(va, pa, perm) g. (va, g, perm)) ms gs"

lemma copies_simps [simp]: "copies [] gs = []" "copies ms [] = []"
    "copies ((va, pa, perm) # ms) (g # gs) = (va, g, perm) # copies ms gs"
  by (simp_all add: copies_def)

lemma copies_pages: "length gs = length ms \<Longrightarrow> pages_in (copies ms gs) = pages_in ms \<and> frames_in (copies ms gs) = gs"
  by (induction ms gs rule: list_induct2') auto

definition same_page :: "mem \<Rightarrow> u64 \<Rightarrow> mem \<Rightarrow> u64 \<Rightarrow> bool" where
  "same_page m f m' g \<longleftrightarrow> (\<forall>i<16384. m' (g + of_nat i) = m (f + of_nat i))"

lemma page_byte: "i < 16384 \<Longrightarrow> f + of_nat i \<in> pages {f}"
  by (simp add: pages_def in_page_def in_region_def unat_of_nat_64)

lemma same_page_after:
  assumes "same_page m f (mem (hmm h)) g" "evolves h xs W h' ys" "pages {g} \<inter> (avail h xs \<union> W) = {}"
  shows "same_page m f (mem (hmm h')) g"
  unfolding same_page_def
proof (intro allI impI)
  fix i :: nat assume i: "i < 16384"
  then have "g + of_nat i \<notin> avail h xs \<union> W" using page_byte [OF i, of g] assms(3) by blast
  then show "mem (hmm h') (g + of_nat i) = m (f + of_nat i)" using evolvesD(3) [OF assms(2)] assms(1) i by (simp add: same_page_def)
qed

lemma same_page_before:
  assumes "same_page (mem (hmm h')) f m g" "evolves h xs W h' ys" "pages {f} \<inter> (avail h xs \<union> W) = {}"
  shows "same_page (mem (hmm h)) f m g"
  unfolding same_page_def
proof (intro allI impI)
  fix i :: nat assume i: "i < 16384"
  then have "f + of_nat i \<notin> avail h xs \<union> W" using page_byte [OF i, of f] assms(3) by blast
  then show "m (g + of_nat i) = mem (hmm h) (f + of_nat i)" using evolvesD(3) [OF assms(2)] assms(1) i by (simp add: same_page_def)
qed

lemma copy_loop_ok:
  assumes "forking h xs r T q U ol ms pl ps nl cs F G Ro Rp Rc" "7 * length ms \<le> length xs"
    and "\<forall>mp\<in>set ms. good_map mp" "distinct (pages_in ms)" "pages (set (frames_in ms)) \<subseteq> F"
    and "\<forall>(va, pa, perm)\<in>set ms. pte_of (mem (hmm h)) T va = PA2PTE pa OR perm \<and> pte_of (mem (hmm h)) U va = 0"
  shows "\<exists>h' ys U' Ro' Rp' Rc' gs. copy_loop r pl q nl ol h = Some (Inr h') \<and>
    forking h' ys r T q U' ol [] pl (rev ms @ ps) nl (rev (copies ms gs) @ cs) F (G \<union> pages (set gs)) Ro' Rp' Rc' \<and>
    evolves h xs (pages (ran U) \<union> Ro \<union> Rp \<union> Rc) h' ys \<and> takes (7 * length ms) xs ys \<and> ran U' \<subseteq> ran U \<union> set xs \<and>
    pages (ran U') \<union> Ro' \<union> Rp' \<union> Rc' \<subseteq> pages (ran U) \<union> Ro \<union> Rp \<union> Rc \<union> avail h xs \<and>
    length gs = length ms \<and> distinct gs \<and> set gs \<subseteq> set xs \<and>
    list_all2 (\<lambda>f g. same_page (mem (hmm h)) f (mem (hmm h')) g) (frames_in ms) gs \<and>
    (\<forall>va<MAXVA. pte_of (mem (hmm h')) U' va = (case entries (copies ms gs) (pg va) of None \<Rightarrow> pte_of (mem (hmm h)) U va | Some e \<Rightarrow> e))"
  using assms
proof (induction ms arbitrary: h xs U ps cs G Ro Rp Rc)
  case Nil
  then have "copy_loop r pl q nl ol h = Some (Inr h)"
    using maplist_empty [OF forkingD(3) [OF Nil.prems(1)]] by (simp add: copy_loop.simps)
  then show ?case using Nil.prems(1) evolves_refl [OF forkingD(7) [OF Nil.prems(1)]]
    by - (rule exI [of _ h], rule exI [of _ xs], rule exI [of _ U], rule exI [of _ Ro], rule exI [of _ Rp], rule exI [of _ Rc], rule exI [of _ "[]"], simp add: le_supI1)
next
  case (Cons mp ms)
  obtain va pa perm where mp: "mp = (va, pa, perm)" by (cases mp) auto
  obtain f zs where xs: "xs = f # zs" "6 \<le> length zs" using Cons.prems(2) by (cases xs) auto
  have c: "good_map (va, pa, perm)" "pte_of (mem (hmm h)) T va = PA2PTE pa OR perm" "pte_of (mem (hmm h)) U va = 0" "pages {pa} \<subseteq> F"
    "pg va \<notin> set (pages_in ms)" "distinct (pages_in ms)" "pages (set (frames_in ms)) \<subseteq> F"
    using Cons.prems(3-6) pages_insert [of pa "set (frames_in ms)"] by (auto simp: mp)
  from copy_mapping_ok [OF Cons.prems(1) [unfolded xs(1) mp] c(1) xs(2) c(2-4)] obtain h1 ys U1 Ro1 Rp1 Rc1 where
    A: "copy_mapping r pl q nl ol h = Some (Inr h1)" "evolves h xs (pages (ran U) \<union> Ro \<union> Rp \<union> Rc) h1 ys" "takes 7 xs ys"
      "forking h1 ys r T q U1 ol ms pl ((va, pa, perm) # ps) nl ((va, f, perm) # cs) F (G \<union> pages {f}) Ro1 Rp1 Rc1"
      "pages (ran U1) \<union> Ro1 \<union> Rp1 \<union> Rc1 \<subseteq> pages (ran U) \<union> Ro \<union> Rp \<union> Rc \<union> avail h xs" "ran U1 \<subseteq> ran U \<union> set zs"
      "\<forall>i<16384. mem (hmm h1) (f + of_nat i) = mem (hmm h) (pa + of_nat i)"
      "\<forall>v<MAXVA. pte_of (mem (hmm h1)) U1 v = (if pg v = pg va then PA2PTE f OR perm else pte_of (mem (hmm h)) U v)"
    unfolding xs(1) [symmetric] by (elim exE conjE) (rule that)
  note fa = forking_apart [OF Cons.prems(1)] and fb = forking_apart [OF A(4)]
  have "pages (ran T) \<inter> (pages (ran U) \<union> Ro \<union> Rp \<union> Rc) = {}" using forkingD(6) [OF Cons.prems(1)] by (auto simp: owned_def)
  then have T1: "pte_of (mem (hmm h1)) T v = pte_of (mem (hmm h)) T v" for v
    by (rule space_keeps(2) [OF forkingD(1) [OF Cons.prems(1)] A(2) _ takes_set [OF A(3)]])
  have n: "7 * length ms \<le> length ys" "\<forall>mp\<in>set ms. good_map mp" using takes_length [OF A(3)] Cons.prems(2,3) by simp_all
  have "pte_of (mem (hmm h1)) T v = PA2PTE p OR pr \<and> pte_of (mem (hmm h1)) U1 v = 0" if v: "(v, p, pr) \<in> set ms" for v p pr
  proof -
    have "pg v \<noteq> pg va" using v c(5) by (force simp: pages_in_def)
    moreover have "v < MAXVA" using n(2) v good_mapD(2) by blast
    ultimately show ?thesis using A(8) T1 Cons.prems(6) v by auto
  qed
  then have "\<forall>(v, p, pr)\<in>set ms. pte_of (mem (hmm h1)) T v = PA2PTE p OR pr \<and> pte_of (mem (hmm h1)) U1 v = 0" by blast
  from Cons.IH [OF A(4) n c(6,7) this] obtain h' zs' U' Ro' Rp' Rc' gs where I: "copy_loop r pl q nl ol h1 = Some (Inr h')"
    "forking h' zs' r T q U' ol [] pl (rev ms @ (va, pa, perm) # ps) nl (rev (copies ms gs) @ (va, f, perm) # cs) F (G \<union> pages {f} \<union> pages (set gs)) Ro' Rp' Rc'"
    "evolves h1 ys (pages (ran U1) \<union> Ro1 \<union> Rp1 \<union> Rc1) h' zs'" "takes (7 * length ms) ys zs'" "ran U' \<subseteq> ran U1 \<union> set ys"
    "pages (ran U') \<union> Ro' \<union> Rp' \<union> Rc' \<subseteq> pages (ran U1) \<union> Ro1 \<union> Rp1 \<union> Rc1 \<union> avail h1 ys"
    "length gs = length ms" "distinct gs" "set gs \<subseteq> set ys" "list_all2 (\<lambda>f g. same_page (mem (hmm h1)) f (mem (hmm h')) g) (frames_in ms) gs"
    "\<forall>va<MAXVA. pte_of (mem (hmm h')) U' va = (case entries (copies ms gs) (pg va) of None \<Rightarrow> pte_of (mem (hmm h1)) U1 va | Some e \<Rightarrow> e)"
    by (elim exE conjE) (rule that)
  have loop: "copy_loop r pl q nl ol h = Some (Inr h')"
    using maplist_empty [OF forkingD(3) [OF Cons.prems(1)]] A(1) I(1) by (subst copy_loop.simps) (simp add: mp)
  have E: "evolves h xs (pages (ran U) \<union> Ro \<union> Rp \<union> Rc) h' zs'" by (rule evolves_trans [OF A(2) I(3)]) (use A(5) in blast)
  have f: "f \<notin> set gs"
    using fb(9) I(9) page_in_pages [of f "{f}"] page_in_pages [of f "set ys"] by (auto simp: avail_def)
  have "same_page (mem (hmm h)) pa (mem (hmm h1)) f" using A(7) by (simp add: same_page_def)
  then have "same_page (mem (hmm h)) pa (mem (hmm h')) f" by (rule same_page_after [OF _ I(3)]) (use fb(5-9) in blast)
  moreover have "list_all2 (\<lambda>f g. same_page (mem (hmm h)) f (mem (hmm h')) g) (frames_in ms) gs"
  proof (rule list.rel_mono_strong [OF I(10)])
    fix f' g assume "f' \<in> set (frames_in ms)" and s: "same_page (mem (hmm h1)) f' (mem (hmm h')) g"
    then have "pages {f'} \<subseteq> F" using c(7) pages_mono [of "{f'}" "set (frames_in ms)"] by blast
    then show "same_page (mem (hmm h)) f' (mem (hmm h')) g" by (intro same_page_before [OF s A(2)]) (use fa(1-4,10) in blast)
  qed
  ultimately have same: "list_all2 (\<lambda>f g. same_page (mem (hmm h)) f (mem (hmm h')) g) (frames_in (mp # ms)) (f # gs)" by (simp add: mp)
  have dom: "entries (copies ms gs) (pg va) = None" using c(5) copies_pages [OF I(7)] by (simp add: entries_dom)
  have "pte_of (mem (hmm h')) U' v = (case entries (copies (mp # ms) (f # gs)) (pg v) of None \<Rightarrow> pte_of (mem (hmm h)) U v | Some e \<Rightarrow> e)"
    if v: "v < MAXVA" for v
    using I(11) A(8) v dom by (auto simp: mp split: option.splits)
  moreover have "takes (7 * length (mp # ms)) xs zs'" using takes_trans [OF A(3) I(4)] by simp
  moreover have "G \<union> pages {f} \<union> pages (set gs) = G \<union> pages (set (f # gs))" by (simp add: pages_insert [of f "set gs"] Un_assoc)
  moreover have "pages (ran U') \<union> Ro' \<union> Rp' \<union> Rc' \<subseteq> pages (ran U) \<union> Ro \<union> Rp \<union> Rc \<union> avail h xs"
    using I(6) A(5) evolvesD(2) [OF A(2)] by blast
  moreover have "set (f # gs) \<subseteq> set xs" "ran U' \<subseteq> ran U \<union> set xs" using I(5,9) A(6) takes_set [OF A(3)] by (auto simp: xs(1))
  ultimately show ?case using loop I(2,7,8) E f same
    by - (rule exI [of _ h'], rule exI [of _ zs'], rule exI [of _ U'], rule exI [of _ Ro'], rule exI [of _ Rp'], rule exI [of _ Rc'],
        rule exI [of _ "f # gs"], simp add: mp)
qed

section \<open>The memory of a process\<close>

text \<open>
  The page table and the list of mappings of a process agree: a user page is valid exactly when the list has a mapping for it, and then
  it translates to the frame of that mapping. No frame is in the list twice, and the frames are apart from the table, the list and what is available.
\<close>

definition uspace :: "kheap \<Rightarrow> u64 list \<Rightarrow> u64 \<Rightarrow> pt_tree \<Rightarrow> u64 \<Rightarrow> mapping list \<Rightarrow> u64 set \<Rightarrow> bool" where
  "uspace h xs r T l ms R \<longleftrightarrow> vspace h xs r T l ms R \<and> (\<forall>mp\<in>set ms. good_map mp) \<and> distinct (pages_in ms) \<and> distinct (frames_in ms) \<and>
     (\<forall>va<MAXVA. pte_of (mem (hmm h)) T va = (case entries ms (pg va) of None \<Rightarrow> 0 | Some e \<Rightarrow> e)) \<and>
     pages (set (frames_in ms)) \<inter> (pages (ran T) \<union> R \<union> avail h xs) = {}"

lemma uspaceD:
  assumes "uspace h xs r T l ms R"
  shows "vspace h xs r T l ms R" "\<And>mp. mp \<in> set ms \<Longrightarrow> good_map mp" "distinct (pages_in ms)" "distinct (frames_in ms)"
    "\<And>va. va < MAXVA \<Longrightarrow> pte_of (mem (hmm h)) T va = (case entries ms (pg va) of None \<Rightarrow> 0 | Some e \<Rightarrow> e)"
    "pages (set (frames_in ms)) \<inter> (pages (ran T) \<union> R \<union> avail h xs) = {}"
  using assms by (simp_all add: uspace_def)

lemma entries_in:
  assumes "distinct (pages_in ms)" "(va, pa, perm) \<in> set ms"
  shows "entries ms (pg va) = Some (PA2PTE pa OR perm)"
proof -
  have "distinct (map fst (map (\<lambda>(va, pa, perm). (pg va, PA2PTE pa OR perm)) ms))"
    using assms(1) by (simp add: pages_in_def comp_def case_prod_unfold)
  moreover have "(pg va, PA2PTE pa OR perm) \<in> set (map (\<lambda>(va, pa, perm). (pg va, PA2PTE pa OR perm)) ms)" using assms(2) by force
  ultimately show ?thesis unfolding entries_def by (rule map_of_is_SomeI)
qed

text \<open>The byte that a process sees.\<close>

lemma uspace_loc:
  assumes "uspace h xs r T l ms R" "(va, pa, perm) \<in> set ms" "v < MAXVA" "pg v = pg va"
  shows "pte_of (mem (hmm h)) T v = PA2PTE pa OR perm" "loc (mem (hmm h)) T v = pa + v mod PGSIZE"
proof -
  note D = uspaceD [OF assms(1)]
  note G = good_mapD [OF D(2) [OF assms(2)]]
  show p: "pte_of (mem (hmm h)) T v = PA2PTE pa OR perm" using D(5) [OF assms(3)] entries_in [OF D(3) assms(2)] assms(4) by simp
  show "loc (mem (hmm h)) T v = pa + v mod PGSIZE" using G(3,9) by (simp add: loc_def frame_def p dmw_page_def)
qed

lemma uspace_valid:
  assumes "uspace h xs r T l ms R" "v < MAXVA" "pte_of (mem (hmm h)) T v AND PTE_V \<noteq> 0"
  obtains va pa perm where "(va, pa, perm) \<in> set ms" "pg v = pg va"
proof -
  have "entries ms (pg v) \<noteq> None" using uspaceD(5) [OF assms(1,2)] assms(3) by (auto split: option.splits)
  then have "pg v \<in> set (pages_in ms)" by (simp add: entries_dom)
  then show ?thesis using that by (auto simp: pages_in_def)
qed

lemma forkingI:
  assumes "space h r T xs" "space h q U xs" "maplist h xs ol ms Ro" "maplist h xs pl ps Rp" "maplist h xs nl cs Rc"
    and "owned h xs (Rp # [F, pages (ran T), Ro, pages (ran U), Rc])"
  shows "forking h xs r T q U ol ms pl ps nl cs F {} Ro Rp Rc"
proof -
  have "owned h xs ({} # Rp # [F, pages (ran T), Ro, pages (ran U), Rc])" using assms(6) by (simp add: owned_def)
  then have "owned h xs [F, {}, pages (ran T), pages (ran U), Ro, Rp, Rc]" by (rule owned_perm) (simp add: add_mset_commute)
  then show ?thesis using assms(1-5) by (simp add: forking_def)
qed

lemma forking_spaces:
  assumes "forking h xs r T q U ol ms pl ps nl cs F G Ro Rp Rc"
  shows "vspace h xs r T pl ps Rp" "vspace h xs q U nl cs Rc" "F \<inter> (pages (ran T) \<union> Rp \<union> avail h xs) = {}"
    "G \<inter> (pages (ran U) \<union> Rc \<union> avail h xs) = {}" "owned h xs [F, G, pages (ran T), pages (ran U), Rp, Rc]"
proof -
  note D = forkingD [OF assms]
  show "F \<inter> (pages (ran T) \<union> Rp \<union> avail h xs) = {}" "G \<inter> (pages (ran U) \<union> Rc \<union> avail h xs) = {}"
    using D(6) by (auto simp: owned_def)
  have "pages (ran T) \<inter> Rp = {}" "pages (ran U) \<inter> Rc = {}" using D(6) by (auto simp: owned_def)
  then show "vspace h xs r T pl ps Rp" "vspace h xs q U nl cs Rc" using D(1-5) by (simp_all add: vspace_def)
  have "owned h xs (Ro # [F, G, pages (ran T), pages (ran U), Rp, Rc])" using D(6) by (rule owned_perm) (simp add: add_mset_commute)
  then show "owned h xs [F, G, pages (ran T), pages (ran U), Rp, Rc]" unfolding owned_Cons [of _ _ Ro] by blast
qed

lemma copies_good:
  assumes "length gs = length ms" "\<And>mp. mp \<in> set ms \<Longrightarrow> good_map mp" "\<And>g. g \<in> set gs \<Longrightarrow> dmw_page g \<and> PTE2PA g \<noteq> 0" "mp \<in> set (copies ms gs)"
  shows "good_map mp"
  using assms(4,2,3) assms(1)
proof (induction ms gs rule: list_induct2')
  case (4 m ms g gs)
  obtain va pa perm where m: "m = (va, pa, perm)" by (cases m) auto
  have "good_map (va, pa, perm)" "dmw_page g" "PTE2PA g \<noteq> 0" using 4(3) [of m] 4(4) [of g] by (simp_all add: m)
  then have "good_map (va, g, perm)" by (simp add: good_map_def)
  then show ?case using 4 by (auto simp: m)
qed auto

lemma copies_nth: "length gs = length ms \<Longrightarrow> (va, pa, perm) \<in> set ms \<Longrightarrow> list_all2 P (frames_in ms) gs \<Longrightarrow> \<exists>g. (va, g, perm) \<in> set (copies ms gs) \<and> P pa g"
  by (induction ms gs rule: list_induct2') (auto simp: frames_in_def)

section \<open>Fork\<close>

lemma copy_pagetable_ok:
  assumes P: "uspace h xs r T l ms R" and C: "uspace h xs q U nl [] Rc"
    and o: "owned h xs [pages (set (frames_in ms)), pages (ran T), R, pages (ran U), Rc]"
    and n: "7 * length ms < length xs" "\<forall>x\<in>set xs. PTE2PA x \<noteq> 0"
  obtains pl h' ys U' Rp Rc' gs where "copy_pagetable r l q nl h = Some (Inr (pl, h'))" "uspace h' ys r T pl (rev ms) Rp"
    "uspace h' ys q U' nl (rev (copies ms gs)) Rc'" "length gs = length ms" "set gs \<subseteq> set xs" "takes (7 * length ms + 1) xs ys"
    "owned h' ys [pages (set (frames_in ms)), pages (set gs), pages (ran T), pages (ran U'), Rp, Rc']"
    "list_all2 (\<lambda>f g. same_page (mem (hmm h)) f (mem (hmm h')) g) (frames_in ms) gs"
    "evolves h xs (R \<union> pages (ran U) \<union> Rc) h' ys" "ran U' \<subseteq> ran U \<union> set xs"
    "pages (ran U') \<union> Rp \<union> Rc' \<subseteq> pages (ran U) \<union> R \<union> Rc \<union> avail h xs"
proof -
  note D = uspaceD [OF P] and E = uspaceD [OF C]
  note V = vspaceD [OF D(1)] and W = vspaceD [OF E(1)]
  let ?F = "pages (set (frames_in ms))"
  have "xs \<noteq> []" using n(1) by auto
  from new_maplist [OF V(4) this] obtain pl h1 ys where L: "mlist_init h = Inr (pl, h1)" "evolves h xs {} h1 ys" "takes 1 xs ys"
    "maplist h1 ys pl [] (reg pl 16)" "reg pl 16 \<subseteq> avail h xs" by blast
  note sub = takes_set [OF L(3)]
  have "owned h1 ys (reg pl 16 # [?F, pages (ran T), R, pages (ran U), Rc])"
    by (rule owned_new [OF o L(2,5)]) (use maplist_avail [OF L(4)] in simp)
  then have fk: "forking h1 ys r T q U l ms pl [] nl [] ?F {} R (reg pl 16) Rc"
    using space_keeps(1) [OF V(1) L(2) _ sub] space_keeps(1) [OF W(1) L(2) _ sub] maplist_keeps [OF V(2) L(2)] maplist_keeps [OF W(2) L(2)] L(4)
    by (intro forkingI) simp_all
  have pT: "pte_of (mem (hmm h1)) T v = pte_of (mem (hmm h)) T v" and pU: "pte_of (mem (hmm h1)) U v = pte_of (mem (hmm h)) U v" for v
    using space_keeps(2) [OF V(1) L(2) _ sub] space_keeps(2) [OF W(1) L(2) _ sub] by simp_all
  have U0: "pte_of (mem (hmm h1)) U v = 0" if "v < MAXVA" for v using E(5) [OF that] pU by simp
  have len: "7 * length ms \<le> length ys" using takes_length [OF L(3)] n(1) by simp
  have good: "\<forall>mp\<in>set ms. good_map mp" using D(2) by blast
  have "pte_of (mem (hmm h1)) T va = PA2PTE pa OR perm \<and> pte_of (mem (hmm h1)) U va = 0" if m: "(va, pa, perm) \<in> set ms" for va pa perm
    using uspace_loc(1) [OF P m] good_mapD(2) [OF D(2) [OF m]] pT U0 by simp
  then have pte: "\<forall>(va, pa, perm)\<in>set ms. pte_of (mem (hmm h1)) T va = PA2PTE pa OR perm \<and> pte_of (mem (hmm h1)) U va = 0" by blast
  from copy_loop_ok [OF fk len good D(3) order_refl pte] obtain h' zs U' Ro' Rp' Rc' gs where
    A: "copy_loop r pl q nl l h1 = Some (Inr h')"
      "forking h' zs r T q U' l [] pl (rev ms @ []) nl (rev (copies ms gs) @ []) ?F ({} \<union> pages (set gs)) Ro' Rp' Rc'"
      "evolves h1 ys (pages (ran U) \<union> R \<union> reg pl 16 \<union> Rc) h' zs" "takes (7 * length ms) ys zs" "ran U' \<subseteq> ran U \<union> set ys"
      "pages (ran U') \<union> Ro' \<union> Rp' \<union> Rc' \<subseteq> pages (ran U) \<union> R \<union> reg pl 16 \<union> Rc \<union> avail h1 ys"
      "length gs = length ms" "distinct gs" "set gs \<subseteq> set ys" "list_all2 (\<lambda>f g. same_page (mem (hmm h1)) f (mem (hmm h')) g) (frames_in ms) gs"
      "\<forall>va<MAXVA. pte_of (mem (hmm h')) U' va = (case entries (copies ms gs) (pg va) of None \<Rightarrow> pte_of (mem (hmm h1)) U va | Some e \<Rightarrow> e)"
    by (elim exE conjE) (rule that)
  note S = forking_spaces [OF A(2), simplified]
  note cp = copies_pages [OF A(7)]
  have "pages (ran T) \<inter> (pages (ran U) \<union> R \<union> reg pl 16 \<union> Rc) = {}" using forkingD(6) [OF fk] by (auto simp: owned_def)
  then have Tk: "pte_of (mem (hmm h')) T v = pte_of (mem (hmm h)) T v" for v
    using space_keeps(2) [OF forkingD(1) [OF fk] A(3) _ takes_set [OF A(4)]] pT by simp
  have up: "uspace h' zs r T pl (rev ms) Rp'"
    unfolding uspace_def using S(1,3) D(2,3,4) by (simp add: Tk D(5) entries_rev [OF D(3)])
  have "dmw_page g \<and> PTE2PA g \<noteq> 0" if "g \<in> set gs" for g using that A(9) sub n(2) spaceD(5) [OF V(1)] by blast
  then have "good_map mp" if "mp \<in> set (copies ms gs)" for mp using copies_good [OF A(7) D(2) _ that] by blast
  then have uc: "uspace h' zs q U' nl (rev (copies ms gs)) Rc'"
    unfolding uspace_def using S(2,4) A(8,11) D(3) U0 entries_rev [of "copies ms gs"] cp by (simp cong: option.case_cong)
  have E': "evolves h xs (R \<union> pages (ran U) \<union> Rc) h' zs"
    by (rule evolves_trans [OF evolves_mono [OF L(2)] A(3)]) (use L(5) in auto)
  have "list_all2 (\<lambda>f g. same_page (mem (hmm h)) f (mem (hmm h')) g) (frames_in ms) gs"
  proof (rule list.rel_mono_strong [OF A(10)])
    fix f g assume "f \<in> set (frames_in ms)" and s: "same_page (mem (hmm h1)) f (mem (hmm h')) g"
    then have "pages {f} \<subseteq> ?F" by (intro pages_mono) simp
    then show "same_page (mem (hmm h)) f (mem (hmm h')) g" using D(6) by (intro same_page_before [OF s L(2)]) blast
  qed
  moreover have "copy_pagetable r l q nl h = Some (Inr (pl, h'))" using L(1) A(1) by (simp add: copy_pagetable_def)
  moreover have "takes (7 * length ms + 1) xs zs" using takes_trans [OF L(3) A(4)] by simp
  moreover have "set gs \<subseteq> set xs" "ran U' \<subseteq> ran U \<union> set xs" using A(5,9) sub by blast+
  moreover have "pages (ran U') \<union> Rp' \<union> Rc' \<subseteq> pages (ran U) \<union> R \<union> Rc \<union> avail h xs" using A(6) L(5) evolvesD(2) [OF L(2)] by blast
  ultimately show ?thesis using up uc A(7) S(5) E' by (intro that)
qed

section \<open>Giving an address space back\<close>

lemma free_mapping_ok:
  assumes "heap_ok h xs" "maplist h xs l ((va, pa, perm) # ms) R" "good_map (va, pa, perm)" "pages {pa} \<inter> (R \<union> avail h xs) = {}"
  shows "\<exists>h' R'. kbind (mlist_pop l h) (\<lambda>(info, h1).
      kbind (kfree (PA2VA (ld64 info h1)) (hmm h1)) (\<lambda>m. Inr (free info (h1\<lparr>hmm := m\<rparr>)))) = Inr h' \<and>
    evolves h xs (R \<union> pages {pa}) h' (pa # xs) \<and> maplist h' (pa # xs) l ms R' \<and> R' \<subseteq> R"
proof -
  note G = good_mapD [OF assms(3)]
  obtain d h1 V R' where P: "mlist_pop l h = Inr (d, h1)" "evolves h xs V h1 xs" "mapping_at h1 xs d (va, pa, perm)" "maplist h1 xs l ms R'"
    "V \<subseteq> R" "R' \<subseteq> R" "reg (d - 16) 48 \<subseteq> R" "reg (d - 16) 48 \<inter> R' = {}"
    using pop_evolves [OF assms(1,2)] by blast
  have "pages {pa} \<inter> avail h1 xs = {}" using assms(4) evolvesD(2) [OF P(2)] P(5) by blast
  from kfree_evolves [OF evolvesD(1) [OF P(2)] G(7,8) this] obtain m where
    K: "kfree pa (hmm h1) = Inr m" "evolves h1 xs (pages {pa}) (h1\<lparr>hmm := m\<rparr>) (pa # xs)" by blast
  let ?h2 = "h1\<lparr>hmm := m\<rparr>"
  have d: "mapping_at ?h2 (pa # xs) d (va, pa, perm)" by (rule mapping_keeps [OF P(3) K(2)]) (use P(7) assms(4) in blast)
  have L: "maplist ?h2 (pa # xs) l ms R'" by (rule maplist_keeps [OF P(4) K(2)]) (use P(6) assms(4) in blast)
  have "mblock ?h2 (pa # xs) d 32" using d by (simp add: mapping_at_def)
  from free_evolves [OF evolvesD(1) [OF K(2)] this] have F: "evolves ?h2 (pa # xs) (reg (d - 16) 48) (free d ?h2) (pa # xs)" by simp
  have "maplist (free d ?h2) (pa # xs) l ms R'" by (rule maplist_keeps [OF L F]) (use P(8) in blast)
  moreover have "evolves h xs (R \<union> pages {pa}) (free d ?h2) (pa # xs)"
  proof (rule evolves_trans [OF _ F])
    show "evolves h xs (R \<union> pages {pa}) ?h2 (pa # xs)" by (rule evolves_trans [OF evolves_mono [OF P(2)] K(2)]) (use P(5) in auto)
  qed (use P(7) in blast)
  moreover have "ld64 d h1 = pa" using P(3) by (simp add: mapping_at_def)
  ultimately show ?thesis using P(1,6) K(1) G(11) by (intro exI [of _ "free d ?h2"] exI [of _ R']) simp
qed

lemma pgtbl_free_loop_ok:
  assumes "heap_ok h xs" "maplist h xs l ms R" "\<forall>mp\<in>set ms. good_map mp" "distinct (frames_in ms)"
    and "pages (set (frames_in ms)) \<inter> (R \<union> avail h xs) = {}"
  shows "\<exists>h' ys. pgtbl_free_loop l h = Some (Inr h') \<and> evolves h xs (R \<union> pages (set (frames_in ms))) h' ys \<and> set ys = set (frames_in ms) \<union> set xs"
  using assms
proof (induction ms arbitrary: h xs R)
  case Nil
  then have "pgtbl_free_loop l h = Some (Inr h)" using maplist_empty [OF Nil.prems(2)] by (simp add: pgtbl_free_loop.simps)
  then show ?case using evolves_refl [OF Nil.prems(1)] by auto
next
  case (Cons mp ms)
  obtain va pa perm where mp: "mp = (va, pa, perm)" by (cases mp) auto
  have p: "pages (set (frames_in (mp # ms))) = pages {pa} \<union> pages (set (frames_in ms))"
    using pages_insert [of pa "set (frames_in ms)"] by (simp add: mp)
  have c: "good_map (va, pa, perm)" "pages {pa} \<inter> (R \<union> avail h xs) = {}" "\<forall>mp\<in>set ms. good_map mp" "distinct (frames_in ms)"
    "pages (set (frames_in ms)) \<inter> (R \<union> avail h xs) = {}"
    using Cons.prems(3-5) unfolding p by (auto simp: mp)
  from free_mapping_ok [OF Cons.prems(1) Cons.prems(2) [unfolded mp] c(1,2)] obtain h1 R' where
    F: "kbind (mlist_pop l h) (\<lambda>(info, h1).
      kbind (kfree (PA2VA (ld64 info h1)) (hmm h1)) (\<lambda>m. Inr (free info (h1\<lparr>hmm := m\<rparr>)))) = Inr h1"
    "evolves h xs (R \<union> pages {pa}) h1 (pa # xs)" "maplist h1 (pa # xs) l ms R'" "R' \<subseteq> R"
    by (elim exE conjE) (rule that)
  have "page_aligned f" if "f \<in> set (frames_in (mp # ms))" for f
    by (rule frames_good(1) [OF that Cons.prems(3)])
  then have "pages {pa} \<inter> pages (set (frames_in ms)) = {}" using Cons.prems(4) by (intro pages_apart) (auto simp: mp)
  then have "pages (set (frames_in ms)) \<inter> (R' \<union> avail h1 (pa # xs)) = {}" using c(5) F(4) evolvesD(2) [OF F(2)] by blast
  from Cons.IH [OF evolvesD(1) [OF F(2)] F(3) c(3,4) this] obtain h' ys where
    I: "pgtbl_free_loop l h1 = Some (Inr h')" "evolves h1 (pa # xs) (R' \<union> pages (set (frames_in ms))) h' ys" "set ys = set (frames_in ms) \<union> set (pa # xs)"
    by blast
  have "pgtbl_free_loop l h = Some (Inr h')"
    using maplist_empty [OF Cons.prems(2)] F(1) I(1) by (subst pgtbl_free_loop.simps) simp
  moreover have "evolves h xs (R \<union> pages (set (frames_in (mp # ms)))) h' ys"
    unfolding p by (rule evolves_trans [OF evolves_mono [OF F(2)] I(2)]) (use F(4) in auto)
  moreover have "set ys = set (frames_in (mp # ms)) \<union> set xs" using I(3) by (auto simp: mp)
  ultimately show ?case by blast
qed

lemma pgtbl_free_ok:
  assumes "uspace h xs r T l ms R"
  obtains h' ys where "pgtbl_free r l h = Some (Inr h')" "evolves h xs (R \<union> pages (ran T) \<union> pages (set (frames_in ms))) h' ys"
    "set ys = set xs \<union> set (frames_in ms) \<union> ran T" "distinct ys"
proof -
  note D = uspaceD [OF assms]
  note V = vspaceD [OF D(1)]
  note S = spaceD [OF V(1)]
  have good: "\<forall>mp\<in>set ms. good_map mp" using D(2) by blast
  have "pages (set (frames_in ms)) \<inter> (R \<union> avail h xs) = {}" using D(6) by blast
  from pgtbl_free_loop_ok [OF V(4,2) good D(4) this] obtain h1 ys where
    L: "pgtbl_free_loop l h = Some (Inr h1)" "evolves h xs (R \<union> pages (set (frames_in ms))) h1 ys" "set ys = set (frames_in ms) \<union> set xs" by blast
  have "pages (ran T) \<inter> (R \<union> pages (set (frames_in ms))) = {}" using V(3) D(6) by blast
  note T1 = table_keeps [OF S(4,3) L(2) this]
  have "ran T \<inter> set ys = {}" using T1(3) page_in_pages [of _ "ran T"] page_in_pages [of _ "set ys"] by (auto simp: avail_def)
  moreover have root: "subtree T [] = ran T" by (auto simp: subtree_def ran_def)
  moreover have "mm_inv (hmm h1) ys" using heap_okD(1) evolvesD(1) [OF L(2)] by blast
  ultimately have "freed (subtree T []) (hmm h1) ys (free_pagetable 2 r (hmm h1))"
    by (intro free_pagetable_ok [OF T1(1) pt_wfD(1) [OF T1(1)]]) simp_all
  then obtain m fs where F: "free_pagetable 2 r (hmm h1) = Inr m" "mm_inv m (fs @ ys)" "set fs = ran T"
    "\<forall>a. (\<forall>u\<in>ran T. \<not> in_page u a) \<longrightarrow> mem m a = mem (hmm h1) a"
    unfolding freed_def root by blast
  have G: "evolves h1 ys (pages (ran T)) (h1\<lparr>hmm := m\<rparr>) (fs @ ys)"
    by (rule give_back_evolves [OF evolvesD(1) [OF L(2)] F(2) _ T1(3)]) (use F(3,4) in \<open>auto simp: pages_def\<close>)
  have "evolves h xs (R \<union> pages (ran T) \<union> pages (set (frames_in ms))) (h1\<lparr>hmm := m\<rparr>) (fs @ ys)"
    by (rule evolves_trans [OF evolves_mono [OF L(2)] G]) auto
  moreover have "pgtbl_free r l h = Some (Inr (h1\<lparr>hmm := m\<rparr>))" using L(1) F(1) by (simp add: pgtbl_free_def)
  moreover have "set (fs @ ys) = set xs \<union> set (frames_in ms) \<union> ran T" "distinct (fs @ ys)"
    using L(3) F(3) kp.pages_ok [OF F(2)] by auto
  ultimately show ?thesis by (intro that)
qed

section \<open>Growing keeps the agreement\<close>

lemma page_maps_ok:
  assumes "page_aligned va" "unat va + 16384 * length fs \<le> unat MAXVA"
  shows "pages_in (page_maps va perm fs) = [pg va..<pg va + length fs]" "frames_in (page_maps va perm fs) = fs"
    "(v, f, p) \<in> set (page_maps va perm fs) \<Longrightarrow> page_aligned v \<and> v < MAXVA \<and> f \<in> set fs \<and> p = perm"
    "entries (page_maps va perm fs) n =
       (if pg va \<le> n \<and> n < pg va + length fs then Some (PA2PTE (fs ! (n - pg va)) OR perm) else None)"
proof -
  have "pages_in (page_maps va perm fs) = [pg va..<pg va + length fs] \<and> frames_in (page_maps va perm fs) = fs \<and>
    (\<forall>(v, f, p)\<in>set (page_maps va perm fs). page_aligned v \<and> v < MAXVA \<and> f \<in> set fs \<and> p = perm) \<and>
    entries (page_maps va perm fs) n =
       (if pg va \<le> n \<and> n < pg va + length fs then Some (PA2PTE (fs ! (n - pg va)) OR perm) else None)"
    using assms
  proof (induction fs arbitrary: va)
    case (Cons f fs)
    have u: "unat (va + PGSIZE) = unat va + 16384"
      using Cons.prems(2) by (subst unat_plus_64) (simp_all add: PGSIZE_def MAXVA_unat)
    then have p: "pg (va + PGSIZE) = Suc (pg va)" by (simp add: pg_def)
    have va: "page_aligned (va + PGSIZE)" "unat (va + PGSIZE) + 16384 * length fs \<le> unat MAXVA" "va < MAXVA"
      using Cons.prems by (simp_all add: page_aligned_def u word_less_nat_alt)
    note I = Cons.IH [OF va(1,2), unfolded p]
    have "[pg va..<pg va + length (f # fs)] = pg va # [Suc (pg va)..<Suc (pg va) + length fs]"
      by (subst upt_conv_Cons) simp_all
    moreover have "entries (page_maps va perm (f # fs)) n =
        (if pg va \<le> n \<and> n < pg va + length (f # fs) then Some (PA2PTE ((f # fs) ! (n - pg va)) OR perm) else None)"
      using I by (cases "n = pg va") (auto simp: nth_Cons')
    ultimately show ?case using I Cons.prems(1) va(3) by (simp add: case_prod_unfold)
  qed simp
  then show "pages_in (page_maps va perm fs) = [pg va..<pg va + length fs]" "frames_in (page_maps va perm fs) = fs"
    "(v, f, p) \<in> set (page_maps va perm fs) \<Longrightarrow> page_aligned v \<and> v < MAXVA \<and> f \<in> set fs \<and> p = perm"
    "entries (page_maps va perm fs) n =
       (if pg va \<le> n \<and> n < pg va + length fs then Some (PA2PTE (fs ! (n - pg va)) OR perm) else None)" by blast+
qed

lemma entries_append: "entries (ms @ ns) n = (case entries ms n of None \<Rightarrow> entries ns n | Some e \<Rightarrow> Some e)"
  by (simp add: entries_def map_add_def split: option.splits)

lemma alloc_vm_uspace:
  assumes "uspace h xs r T l ms R" "page_aligned va0" "va0 \<le> PGROUNDUP e" "PGROUNDUP e \<le> MAXVA"
    and "5 * (pg (PGROUNDUP e) - pg va0) \<le> length xs" "perm AND PAMASK = 0" "perm AND PTE_V \<noteq> 0"
    and "\<forall>n\<in>set (pages_in ms). \<not> (pg va0 \<le> n \<and> n < pg (PGROUNDUP e))" "\<forall>x\<in>set xs. PTE2PA x \<noteq> 0"
  obtains h' T' ys R' fs where "alloc_vm r l va0 e perm h = Inr (0, h')" "uspace h' ys r T' l (rev (page_maps va0 perm fs) @ ms) R'"
    "length fs = pg (PGROUNDUP e) - pg va0" "set fs \<subseteq> set xs" "takes (5 * length fs) xs ys" "evolves h xs (pages (ran T) \<union> R) h' ys"
    "\<forall>f\<in>set fs. \<forall>a. in_page f a \<longrightarrow> mem (hmm h') a = 0" "pages (ran T') \<union> R' \<subseteq> pages (ran T) \<union> R \<union> avail h xs"
proof -
  note D = uspaceD [OF assms(1)]
  note V = vspaceD [OF D(1)]
  obtain h' T' ys R' fs where
    A: "alloc_vm r l va0 e perm h = Inr (0, h')" "vspace h' ys r T' l (rev (page_maps va0 perm fs) @ ms) R'"
      "length fs = pg (PGROUNDUP e) - pg va0" "distinct fs" "set fs \<subseteq> set xs" "takes (5 * length fs) xs ys"
      "evolves h xs (pages (ran T) \<union> R) h' ys" "pages (ran T') \<union> R' \<subseteq> pages (ran T) \<union> R \<union> avail h xs"
      "pages (set fs) \<inter> (avail h' ys \<union> pages (ran T') \<union> R') = {}" "frames_for fs va0 perm (mem (hmm h)) T (mem (hmm h')) T'"
    by (rule alloc_vm_ok [OF D(1) assms(2-5), of perm])
  obtain k where k: "unat va0 = 16384 * k" "k < 1125899906842624" using assms(2) by (rule page_alignedE)
  then have pk: "pg va0 = k" by (simp add: pg_def)
  have le: "unat va0 \<le> unat (PGROUNDUP e)" "unat (PGROUNDUP e) \<le> unat MAXVA" using assms(3,4) by (simp_all add: word_le_nat_alt)
  then have kp: "k \<le> pg (PGROUNDUP e)" "16384 * pg (PGROUNDUP e) \<le> unat (PGROUNDUP e)" using k(1) by (auto simp: pg_def)
  have "unat va0 + 16384 * length fs = 16384 * pg (PGROUNDUP e)" using kp(1) by (simp add: k(1) A(3) pk diff_mult_distrib2)
  then have "unat va0 + 16384 * length fs \<le> unat MAXVA" using kp(2) le(2) by linarith
  note M = page_maps_ok [OF assms(2) this]
  let ?ns = "rev (page_maps va0 perm fs) @ ms"
  have np: "set (pages_in ms) \<inter> {pg va0..<pg va0 + length fs} = {}" using assms(8) A(3) kp(1) pk by auto
  have "set fs \<inter> set (frames_in ms) = {}"
    using A(5) D(6) page_in_pages [of _ "set (frames_in ms)"] page_in_pages [of _ "set xs"] by (auto simp: avail_def)
  then have dist: "distinct (pages_in ?ns)" "distinct (frames_in ?ns)" using np D(3,4) A(4) M(1,2) by auto
  have "good_map (v, f, p)" if "(v, f, p) \<in> set (page_maps va0 perm fs)" for v f p
  proof -
    have m: "page_aligned v" "v < MAXVA" "f \<in> set xs" "p = perm" using M(3) [OF that] A(5) by auto
    then show ?thesis using spaceD(5) [OF V(1) m(3)] assms(6,7,9) by (simp add: good_map_def)
  qed
  then have good: "\<forall>mp\<in>set ?ns. good_map mp" using D(2) by auto
  have pte: "pte_of (mem (hmm h')) T' v = (case entries ?ns (pg v) of None \<Rightarrow> 0 | Some e \<Rightarrow> e)" if v: "v < MAXVA" for v
  proof -
    have "entries (rev (page_maps va0 perm fs)) = entries (page_maps va0 perm fs)" by (rule entries_rev) (simp add: M(1))
    then have e: "entries ?ns (pg v) = (if pg va0 \<le> pg v \<and> pg v < pg va0 + length fs then Some (PA2PTE (fs ! (pg v - pg va0)) OR perm) else entries ms (pg v))"
      by (simp add: entries_append M(4))
    have "pg va0 \<le> pg v \<and> pg v < pg va0 + length fs \<Longrightarrow> pte_of (mem (hmm h)) T v = 0"
      using D(5) [OF v] np entries_dom [of ms "pg v"] by (auto split: option.splits)
    then show ?thesis using A(10) v D(5) [OF v] unfolding e by (simp add: frames_for_def)
  qed
  have "pages (set (frames_in ?ns)) = pages (set fs) \<union> pages (set (frames_in ms))" by (simp add: M(2))
  then have "pages (set (frames_in ?ns)) \<inter> (pages (ran T') \<union> R' \<union> avail h' ys) = {}"
    using A(8,9) D(6) evolvesD(2) [OF A(7)] by blast
  then have "uspace h' ys r T' l ?ns R'" unfolding uspace_def using A(2) good dist pte by blast
  moreover have "\<forall>f\<in>set fs. \<forall>a. in_page f a \<longrightarrow> mem (hmm h') a = 0" using A(10) by (simp add: frames_for_def)
  ultimately show ?thesis using A(1,3,5,6,7,8) by (intro that)
qed

section \<open>Processes beside each other\<close>

lemma uspace_owned: "uspace h xs r T l ms R \<Longrightarrow> owned h xs [pages (set (frames_in ms)), pages (ran T), R]"
  using uspaceD(6) vspaceD(3,5) uspaceD(1) by (fastforce simp: owned_def)

lemma uspace_write:
  assumes "uspace h xs r T l ms R" "evolves h xs W h' ys" "W \<inter> (pages (ran T) \<union> R) = {}" "pages (set (frames_in ms)) \<inter> avail h' ys = {}"
    and "\<And>y. y \<in> set ys \<Longrightarrow> dmw_page y"
  shows "uspace h' ys r T l ms R" "pte_of (mem (hmm h')) T va = pte_of (mem (hmm h)) T va"
proof -
  note D = uspaceD [OF assms(1)]
  have "(pages (ran T) \<union> R) \<inter> W = {}" using assms(3) by blast
  note K = vspace_keeps_dmw [OF D(1) assms(2) this assms(5)]
  show "pte_of (mem (hmm h')) T va = pte_of (mem (hmm h)) T va" by (rule K(2))
  show "uspace h' ys r T l ms R" using D(2-6) K assms(4) by (simp add: uspace_def Int_Un_distrib)
qed

lemma uspace_keeps_dmw:
  assumes "uspace h xs r T l ms R" "evolves h xs W h' ys" "W \<inter> (pages (set (frames_in ms)) \<union> pages (ran T) \<union> R) = {}"
    and "\<And>y. y \<in> set ys \<Longrightarrow> dmw_page y"
  shows "uspace h' ys r T l ms R"
proof -
  have "pages (set (frames_in ms)) \<inter> avail h' ys = {}" using evolvesD(2) [OF assms(2)] uspaceD(6) [OF assms(1)] assms(3) by blast
  moreover have "W \<inter> (pages (ran T) \<union> R) = {}" using assms(3) by blast
  ultimately show ?thesis using uspace_write(1) [OF assms(1,2)] assms(4) by blast
qed

lemma uspace_keeps:
  assumes "uspace h xs r T l ms R" "evolves h xs W h' ys" "W \<inter> (pages (set (frames_in ms)) \<union> pages (ran T) \<union> R) = {}" "set ys \<subseteq> set xs"
  shows "uspace h' ys r T l ms R"
  using uspace_keeps_dmw [OF assms(1-3)] spaceD(5) [OF vspaceD(1) [OF uspaceD(1) [OF assms(1)]]] assms(4) by blast

text \<open>A new process, with a page table and a list of its own.\<close>

lemma new_process:
  assumes "uspace h (q # xs) r T l ms R" "xs \<noteq> []"
  obtains h1 h2 nl ys Rc where "in_mm pgtbl_create h = Inr (q, h1)" "mlist_init h1 = Inr (nl, h2)" "uspace h2 ys r T l ms R"
    "uspace h2 ys q [[] \<mapsto> q] nl [] Rc" "owned h2 ys [pages (set (frames_in ms)), pages (ran T), R, pages {q}, Rc]" "takes 2 (q # xs) ys"
    "evolves h (q # xs) {} h2 ys" "pages {q} \<union> Rc \<subseteq> avail h (q # xs)"
proof -
  note D = uspaceD [OF assms(1)]
  note V = vspaceD [OF D(1)]
  obtain h1 where A: "in_mm pgtbl_create h = Inr (q, h1)" "evolves h (q # xs) {} h1 xs" "space h1 q [[] \<mapsto> q] xs"
    "\<forall>va. pte_of (mem (hmm h1)) [[] \<mapsto> q] va = 0" "pages {q} \<inter> avail h1 xs = {}"
    using pgtbl_create_space [OF V(4) spaceD(5) [OF V(1)]] by blast
  from new_vspace [OF A(3) assms(2)] obtain nl h2 ys Rc where B: "mlist_init h1 = Inr (nl, h2)" "vspace h2 ys q [[] \<mapsto> q] nl [] Rc"
    "takes 1 xs ys" "evolves h1 xs {} h2 ys" "Rc \<subseteq> avail h1 xs" "\<forall>va. pte_of (mem (hmm h2)) [[] \<mapsto> q] va = pte_of (mem (hmm h1)) [[] \<mapsto> q] va"
    by (elim exE conjE) (rule that)
  have qa: "pages {q} \<subseteq> avail h (q # xs)" by (auto simp: avail_def pages_def)
  have "owned h1 xs (pages {q} # [pages (set (frames_in ms)), pages (ran T), R])"
    by (rule owned_new [OF uspace_owned [OF assms(1)] A(2) qa A(5)])
  then have "owned h2 ys (Rc # pages {q} # [pages (set (frames_in ms)), pages (ran T), R])"
    by (rule owned_new [OF _ B(4,5)]) (use vspaceD(5) [OF B(2)] in blast)
  then have o: "owned h2 ys [pages (set (frames_in ms)), pages (ran T), R, pages {q}, Rc]" by (rule owned_perm) (simp add: add_mset_commute)
  have "uspace h1 xs r T l ms R" by (rule uspace_keeps [OF assms(1) A(2)]) auto
  then have "uspace h2 ys r T l ms R" by (rule uspace_keeps [OF _ B(4) _ takes_set [OF B(3)]]) simp
  moreover have "uspace h2 ys q [[] \<mapsto> q] nl [] Rc" using B(2,6) A(4) by (simp add: uspace_def)
  moreover have "takes 2 (q # xs) ys" using takes_trans [OF takes_tl B(3)] by (simp add: numeral_2_eq_2)
  moreover have "evolves h (q # xs) {} h2 ys" by (rule evolves_trans [OF A(2) B(4)]) simp
  moreover have "pages {q} \<union> Rc \<subseteq> avail h (q # xs)" using qa B(5) evolvesD(2) [OF A(2)] by blast
  ultimately show ?thesis using A(1) B(1) o by (intro that)
qed

text \<open>How the page table of a process translates.\<close>

lemma uspace_translate:
  assumes "uspace h xs r T l ms R" "v < MAXVA"
  shows "pg v \<notin> set (pages_in ms) \<Longrightarrow> va_to_pa r v (hmm h) = Inr 0"
    "(va, pa, perm) \<in> set ms \<Longrightarrow> pg v = pg va \<Longrightarrow> va_to_pa r v (hmm h) = Inr (PTE2PA pa + v mod PGSIZE) \<and>
       PTE2PA pa + v mod PGSIZE \<noteq> 0 \<and> PA2VA (PTE2PA pa + v mod PGSIZE) = pa + v mod PGSIZE"
proof -
  note D = uspaceD [OF assms(1)]
  note E = va_to_pa_eq [OF spaceD(4) [OF vspaceD(1) [OF D(1)]], of v]
  show "va_to_pa r v (hmm h) = Inr 0" if "pg v \<notin> set (pages_in ms)"
    using D(5) [OF assms(2)] entries_dom [of ms "pg v"] that E by simp
  assume m: "(va, pa, perm) \<in> set ms" "pg v = pg va"
  note G = good_mapD [OF D(2) [OF m(1)]] and L = uspace_loc [OF assms(1) m(1) assms(2) m(2)]
  have o: "unat (v mod PGSIZE) < 16384" by (simp add: unat_mod PGSIZE_def)
  have u: "unat (PTE2PA pa + v mod PGSIZE) = unat (PTE2PA pa) + unat (v mod PGSIZE)"
    using PTE2PA_unat(2) [of pa] o by (intro unat_plus_64) simp
  have "PTE2PA pa + v mod PGSIZE \<noteq> 0" using u G(4) by (metis add_is_0 unat_0 unat_eq_zero)
  moreover have "PA2VA (PTE2PA pa + v mod PGSIZE) = pa + v mod PGSIZE"
  proof -
    have "PA2VA (PTE2PA pa + v mod PGSIZE) = PA2VA (PTE2PA pa) + v mod PGSIZE"
      using u o PTE2PA_unat(2) [of pa] by (simp add: PA2VA_add)
    then show ?thesis using G(3) by (simp add: dmw_page_def)
  qed
  ultimately show "va_to_pa r v (hmm h) = Inr (PTE2PA pa + v mod PGSIZE) \<and>
       PTE2PA pa + v mod PGSIZE \<noteq> 0 \<and> PA2VA (PTE2PA pa + v mod PGSIZE) = pa + v mod PGSIZE"
    using E L(1) G(9,10) user_va [OF assms(2)] by simp
qed

section \<open>Parts of the kernel's memory\<close>

text \<open>
  What a component may rely on while others work: a part of memory with a footprint of which nothing is available stays as it is when
  an operation keeps to memory outside of the footprint. Page tables, lists of mappings and processes are such parts.
\<close>

locale memory_part =
  fixes ok :: "'p \<Rightarrow> kheap \<Rightarrow> u64 list \<Rightarrow> bool" and foot :: "'p \<Rightarrow> u64 set"
  assumes away: "ok p h xs \<Longrightarrow> foot p \<inter> avail h xs = {}"
    and stays: "ok p h xs \<Longrightarrow> evolves h xs W h' ys \<Longrightarrow> foot p \<inter> W = {} \<Longrightarrow> \<forall>y\<in>set ys. dmw_page y \<Longrightarrow> ok p h' ys"
begin

lemma bytes: "ok p h xs \<Longrightarrow> evolves h xs W h' ys \<Longrightarrow> foot p \<inter> W = {} \<Longrightarrow> a \<in> foot p \<Longrightarrow> mem (hmm h') a = mem (hmm h) a"
  by (rule evolves_keeps(2) [OF _ away])

text \<open>Another part that only grows into memory that was available stays apart.\<close>

lemma beside:
  assumes "ok p h xs" "evolves h xs W h' ys" "foot p \<inter> W = {}" "\<forall>y\<in>set ys. dmw_page y" "V \<subseteq> W \<union> avail h xs"
  shows "ok p h' ys \<and> foot p \<inter> V = {} \<and> (\<forall>a\<in>foot p. mem (hmm h') a = mem (hmm h) a)"
  using stays [OF assms(1-4)] away [OF assms(1)] bytes [OF assms(1-3)] assms(3,5) by blast

end

interpretation tables: memory_part "\<lambda>p h xs. case p of (r, T) \<Rightarrow> space h r T xs" "\<lambda>p. case p of (r, T) \<Rightarrow> pages (ran T)"
proof unfold_locales
  show "(case p of (r, T) \<Rightarrow> pages (ran T)) \<inter> avail h xs = {}" if "case p of (r, T) \<Rightarrow> space h r T xs" for p h xs
    using that spaceD(3) by (cases p) simp
  show "case p of (r, T) \<Rightarrow> space h' r T ys" if "case p of (r, T) \<Rightarrow> space h r T xs" "evolves h xs W h' ys"
    "(case p of (r, T) \<Rightarrow> pages (ran T)) \<inter> W = {}" "\<forall>y\<in>set ys. dmw_page y" for p h xs W h' ys
    using that space_keeps_dmw(1) by (cases p) auto
qed

interpretation maplists: memory_part "\<lambda>p h xs. case p of (l, ms, R) \<Rightarrow> maplist h xs l ms R" "\<lambda>p. case p of (l, ms, R) \<Rightarrow> R"
proof unfold_locales
  show "(case p of (l, ms, R) \<Rightarrow> R) \<inter> avail h xs = {}" if "case p of (l, ms, R) \<Rightarrow> maplist h xs l ms R" for p h xs
    using that maplist_avail by (cases p) simp
  show "case p of (l, ms, R) \<Rightarrow> maplist h' ys l ms R" if "case p of (l, ms, R) \<Rightarrow> maplist h xs l ms R" "evolves h xs W h' ys"
    "(case p of (l, ms, R) \<Rightarrow> R) \<inter> W = {}" "\<forall>y\<in>set ys. dmw_page y" for p h xs W h' ys
    using that maplist_keeps by (cases p) simp
qed

interpretation processes: memory_part "\<lambda>p h xs. case p of (r, T, l, ms, R) \<Rightarrow> uspace h xs r T l ms R"
    "\<lambda>p. case p of (r, T, l, ms, R) \<Rightarrow> pages (set (frames_in ms)) \<union> pages (ran T) \<union> R"
proof unfold_locales
  fix p h xs
  assume "case p of (r, T, l, ms, R) \<Rightarrow> uspace h xs r T l ms R"
  then show "(case p of (r, T, l, ms, R) \<Rightarrow> pages (set (frames_in ms)) \<union> pages (ran T) \<union> R) \<inter> avail h xs = {}"
    using uspace_owned by (cases p) (force simp: owned_def)
next
  fix p h xs W h' ys
  assume "case p of (r, T, l, ms, R) \<Rightarrow> uspace h xs r T l ms R" "evolves h xs W h' ys"
    "(case p of (r, T, l, ms, R) \<Rightarrow> pages (set (frames_in ms)) \<union> pages (ran T) \<union> R) \<inter> W = {}" "\<forall>y\<in>set ys. dmw_page y"
  then show "case p of (r, T, l, ms, R) \<Rightarrow> uspace h' ys r T l ms R"
    by (cases p) (simp add: uspace_keeps_dmw Int_commute)
qed

section \<open>What a process sees\<close>

lemma frame_byte: "(v, pa, perm) \<in> set ms \<Longrightarrow> i < 16384 \<Longrightarrow> pa + of_nat i \<in> pages (set (frames_in ms))"
proof -
  assume "(v, pa, perm) \<in> set ms" and i: "i < 16384"
  then have "pages {pa} \<subseteq> pages (set (frames_in ms))" by (intro pages_mono) (force simp: frames_in_def)
  then show ?thesis using page_byte [OF i] by blast
qed

text \<open>Two processes of which one has copies of the pages of the other.\<close>

lemma copied_view:
  assumes P: "uspace h xs r T l ms R" and C: "uspace h' ys q U nl (rev (copies ms gs)) Rc" and n: "length gs = length ms"
    and same: "list_all2 (\<lambda>f g. same_page (mem (hmm h)) f (mem (hmm h')) g) (frames_in ms) gs" and va: "va < MAXVA"
  shows "\<exists>pa pa'. va_to_pa r va (hmm h) = Inr pa \<and> va_to_pa q va (hmm h') = Inr pa' \<and> (pa = 0 \<longleftrightarrow> pa' = 0) \<and>
    (pa \<noteq> 0 \<longrightarrow> mem (hmm h') (PA2VA pa') = mem (hmm h) (PA2VA pa) \<and> PA2VA pa \<in> pages (set (frames_in ms)) \<and> PA2VA pa' \<in> pages (set gs))"
proof (cases "pg va \<in> set (pages_in ms)")
  case False
  then show ?thesis using uspace_translate(1) [OF P va] uspace_translate(1) [OF C va] copies_pages [OF n] by simp
next
  case True
  then obtain v pa perm where m: "(v, pa, perm) \<in> set ms" "pg va = pg v" by (auto simp: pages_in_def)
  obtain g where g: "(v, g, perm) \<in> set (copies ms gs)" "same_page (mem (hmm h)) pa (mem (hmm h')) g"
    using copies_nth [OF n m(1) same] by blast
  define i where "i = unat (va mod PGSIZE)"
  have i: "i < 16384" "va mod PGSIZE = of_nat i" by (simp add: i_def unat_mod PGSIZE_def) (simp add: i_def)
  have "pa + of_nat i \<in> pages (set (frames_in ms))" "g + of_nat i \<in> pages (set gs)"
    using frame_byte [OF m(1) i(1)] frame_byte [OF g(1) i(1)] copies_pages [OF n] by simp_all
  moreover have "mem (hmm h') (g + of_nat i) = mem (hmm h) (pa + of_nat i)" using g(2) i(1) by (simp add: same_page_def)
  ultimately show ?thesis
    using uspace_translate(2) [OF P va m] uspace_translate(2) [OF C va _ m(2), of g perm] g(1) unfolding i(2) by simp
qed

lemma same_view:
  assumes "uspace h xs r T l ms R" "uspace h' ys r T pl (rev ms) Rp" "va < MAXVA"
  shows "va_to_pa r va (hmm h') = va_to_pa r va (hmm h)"
proof -
  note D = uspaceD [OF assms(1)] and E = uspaceD [OF assms(2)]
  have "pte_of (mem (hmm h')) T va = pte_of (mem (hmm h)) T va" using D(5) [OF assms(3)] E(5) [OF assms(3)] entries_rev [OF D(3)] by simp
  then show ?thesis
    using va_to_pa_eq [OF spaceD(4) [OF vspaceD(1) [OF D(1)]]] va_to_pa_eq [OF spaceD(4) [OF vspaceD(1) [OF E(1)]]] by simp
qed

text \<open>A process with one page, and room for a child.\<close>

lemma sample_frames: "x \<in> set (page_run KERNBASE n) \<Longrightarrow> n \<le> 8192 \<Longrightarrow> PTE2PA x \<noteq> 0"
proof
  assume x: "x \<in> set (page_run KERNBASE n)" and n: "n \<le> 8192" and z: "PTE2PA x = 0"
  obtain i where i: "i < n" "x = KERNBASE + of_nat (i * 16384)" using x by (auto simp: page_run_def simp del: of_nat_mult)
  then have "dmw_page x" "unat x = 10376293543877541888 + i * 16384" using sample_page [of i] n by simp_all
  moreover from this(1) have "x = MAIN_KERNEL_DMW" using z by (simp add: dmw_page_def PA2VA_def)
  ultimately show False by (simp add: MAIN_KERNEL_DMW_def)
qed

lemma sample_page_at:
  assumes "page_aligned v" "v \<le> PGROUNDUP e" "PGROUNDUP e \<le> MAXVA" "pg (PGROUNDUP e) = Suc (pg v)" "perm AND PAMASK = 0" "perm AND PTE_V \<noteq> 0"
  obtains s l h h1 f T ys R where "pgtbl_create (sample_heap 31) = Inr (KERNBASE + 491520, s)" "mlist_init (heap_boot s) = Inr (l, h)"
    "alloc_vm (KERNBASE + 491520) l v e perm h = Inr (0, h1)"
    "uspace h1 ys (KERNBASE + 491520) T l [(v, f, perm)] R" "24 \<le> length ys" "\<forall>x\<in>set ys. PTE2PA x \<noteq> 0"
    "pages {f} \<union> pages (ran T) \<union> R \<union> avail h1 ys \<subseteq> pages (set (page_run KERNBASE 31))"
proof -
  let ?r = "KERNBASE + 491520"
  obtain s l h R ys where s: "pgtbl_create (sample_heap 31) = Inr (?r, s)" and
    l: "mlist_init (heap_boot s) = Inr (l, h)" "vspace h ys ?r [[] \<mapsto> ?r] l [] R" "30 \<le> Suc (length ys)"
      "set ys \<subseteq> set (page_run KERNBASE 30)" "\<forall>va. pte_of (mem (hmm h)) [[] \<mapsto> ?r] va = 0"
      "pages {?r} \<union> R \<union> avail h ys \<subseteq> pages (set (page_run KERNBASE 31))"
    by (rule sample_space [of 30 ?r 31]) (simp_all del: sample_heap.simps)
  have u: "uspace h ys ?r [[] \<mapsto> ?r] l [] R" using l(2,5) by (simp add: uspace_def)
  have fr: "\<forall>x\<in>set ys. PTE2PA x \<noteq> 0" using sample_frames [of _ 30] l(4) by auto
  have a: "5 * (pg (PGROUNDUP e) - pg v) \<le> length ys" "\<forall>n\<in>set (pages_in []). \<not> (pg v \<le> n \<and> n < pg (PGROUNDUP e))"
    using l(3) assms(4) by simp_all
  obtain h' T' ys' R' fs where A: "alloc_vm ?r l v e perm h = Inr (0, h')" "uspace h' ys' ?r T' l (rev (page_maps v perm fs) @ []) R'"
    "length fs = pg (PGROUNDUP e) - pg v" "set fs \<subseteq> set ys" "takes (5 * length fs) ys ys'" "evolves h ys (pages (ran ([[] \<mapsto> ?r] :: pt_tree)) \<union> R) h' ys'"
    "pages (ran T') \<union> R' \<subseteq> pages (ran ([[] \<mapsto> ?r] :: pt_tree)) \<union> R \<union> avail h ys"
    by (rule alloc_vm_uspace [OF u assms(1-3) a(1) assms(5,6) a(2) fr])
  have "length fs = 1" using A(3) assms(4) by simp
  then obtain f where f: "fs = [f]" by (cases fs) auto
  have "24 \<le> length ys'" using takes_length [OF A(5)] l(3) by (simp add: f)
  moreover have "\<forall>x\<in>set ys'. PTE2PA x \<noteq> 0" using fr takes_set [OF A(5)] by blast
  moreover have "pages {f} \<subseteq> avail h ys" using pages_mono [OF A(4)] by (auto simp: f avail_def)
  then have "pages {f} \<union> pages (ran T') \<union> R' \<union> avail h' ys' \<subseteq> pages (set (page_run KERNBASE 31))"
    using A(7) evolvesD(2) [OF A(6)] l(6) by simp blast
  ultimately show ?thesis using s l(1) A(1,2) by (intro that) (simp_all add: f)
qed

lemma sample_process:
  obtains s l h h1 f T ys R where "pgtbl_create (sample_heap 31) = Inr (KERNBASE + 491520, s)" "mlist_init (heap_boot s) = Inr (l, h)"
    "alloc_vm (KERNBASE + 491520) l 0x10000 0x10001 7 h = Inr (0, h1)"
    "uspace h1 ys (KERNBASE + 491520) T l [(0x10000, f, 7)] R" "24 \<le> length ys" "\<forall>x\<in>set ys. PTE2PA x \<noteq> 0"
proof -
  have "PGROUNDUP 0x10001 = (0x14000 :: u64)" by (simp add: PGROUNDUP_def PGSIZE_def)
  then have a: "page_aligned 0x10000" "(0x10000 :: u64) \<le> PGROUNDUP 0x10001" "PGROUNDUP 0x10001 \<le> MAXVA"
    "pg (PGROUNDUP 0x10001) = Suc (pg 0x10000)" "(7 :: u64) AND PAMASK = 0" "(7 :: u64) AND PTE_V \<noteq> 0"
    by (simp_all add: page_aligned_def MAXVA_def pg_def PAMASK_def PTE_V_def)
  show ?thesis by (rule sample_page_at [OF a]) (rule that)
qed

lemma sample_fork:
  obtains s l h h1 q h2 nl h3 f T ys R Rc where "pgtbl_create (sample_heap 31) = Inr (KERNBASE + 491520, s)" "mlist_init (heap_boot s) = Inr (l, h)"
    "alloc_vm (KERNBASE + 491520) l 0x10000 0x10001 7 h = Inr (0, h1)" "in_mm pgtbl_create h1 = Inr (q, h2)" "mlist_init h2 = Inr (nl, h3)"
    "uspace h3 ys (KERNBASE + 491520) T l [(0x10000, f, 7)] R" "uspace h3 ys q [[] \<mapsto> q] nl [] Rc"
    "owned h3 ys [pages (set (frames_in [(0x10000, f, 7)])), pages (ran T), R, pages (ran ([[] \<mapsto> q] :: pt_tree)), Rc]"
    "7 * length [(0x10000 :: u64, f, 7 :: u64)] < length ys" "\<forall>x\<in>set ys. PTE2PA x \<noteq> 0"
proof -
  obtain s l h h1 f T ys R where A: "pgtbl_create (sample_heap 31) = Inr (KERNBASE + 491520, s)" "mlist_init (heap_boot s) = Inr (l, h)"
    "alloc_vm (KERNBASE + 491520) l 0x10000 0x10001 7 h = Inr (0, h1)"
    "uspace h1 ys (KERNBASE + 491520) T l [(0x10000, f, 7)] R" "24 \<le> length ys" "\<forall>x\<in>set ys. PTE2PA x \<noteq> 0"
    by (rule sample_process)
  obtain q xs where ys: "ys = q # xs" using A(5) by (cases ys) auto
  have xs: "xs \<noteq> []" using A(5) by (auto simp: ys)
  obtain h2 h3 nl zs Rc where B: "in_mm pgtbl_create h1 = Inr (q, h2)" "mlist_init h2 = Inr (nl, h3)"
    "uspace h3 zs (KERNBASE + 491520) T l [(0x10000, f, 7)] R" "uspace h3 zs q [[] \<mapsto> q] nl [] Rc"
    "owned h3 zs [pages (set (frames_in [(0x10000, f, 7)])), pages (ran T), R, pages {q}, Rc]" "takes 2 (q # xs) zs"
    by (rule new_process [OF A(4) [unfolded ys] xs])
  have "7 * length [(0x10000 :: u64, f, 7 :: u64)] < length zs" using takes_length [OF B(6)] A(5) by (simp add: ys)
  moreover have "\<forall>x\<in>set zs. PTE2PA x \<noteq> 0" using A(6) takes_set [OF B(6)] unfolding ys by blast
  moreover have "owned h3 zs [pages (set (frames_in [(0x10000, f, 7)])), pages (ran T), R, pages (ran ([[] \<mapsto> q] :: pt_tree)), Rc]" using B(5) by simp
  ultimately show ?thesis using A(1-3) B(1-4) by (intro that)
qed

section \<open>Properties\<close>

text \<open>
  C12: \<open>copy_pagetable\<close> gives a child of \<open>fork\<close> the memory of its parent. With a page table and an empty list for the child and seven free pages per page
  of the parent it ends; afterwards the page table and the list of both processes agree again, the parent translates every user address as before and
  finds the same byte there, the child has exactly the pages of the parent, finds the same bytes, and no byte of it is the same place in memory.
\<close>

theorem fork_copies_memory:
  assumes "uspace h xs r T l ms R" "uspace h xs q U nl [] Rc" "owned h xs [pages (set (frames_in ms)), pages (ran T), R, pages (ran U), Rc]"
    and "7 * length ms < length xs" "\<forall>x\<in>set xs. PTE2PA x \<noteq> 0"
  shows "\<exists>pl h' ys U' Rp Rc' gs. copy_pagetable r l q nl h = Some (Inr (pl, h')) \<and> uspace h' ys r T pl (rev ms) Rp \<and>
    uspace h' ys q U' nl (rev (copies ms gs)) Rc' \<and> length gs = length ms \<and>
    (\<forall>va<MAXVA. \<exists>pa pa'. va_to_pa r va (hmm h) = Inr pa \<and> va_to_pa r va (hmm h') = Inr pa \<and> va_to_pa q va (hmm h') = Inr pa' \<and>
       (pa = 0 \<longleftrightarrow> pa' = 0) \<and> (pa \<noteq> 0 \<longrightarrow> mem (hmm h') (PA2VA pa) = mem (hmm h) (PA2VA pa) \<and>
         mem (hmm h') (PA2VA pa') = mem (hmm h) (PA2VA pa) \<and> PA2VA pa \<noteq> PA2VA pa'))"
proof -
  obtain pl h' ys U' Rp Rc' gs where A: "copy_pagetable r l q nl h = Some (Inr (pl, h'))" "uspace h' ys r T pl (rev ms) Rp"
    "uspace h' ys q U' nl (rev (copies ms gs)) Rc'" "length gs = length ms"
    "owned h' ys [pages (set (frames_in ms)), pages (set gs), pages (ran T), pages (ran U'), Rp, Rc']"
    "list_all2 (\<lambda>f g. same_page (mem (hmm h)) f (mem (hmm h')) g) (frames_in ms) gs" "evolves h xs (R \<union> pages (ran U) \<union> Rc) h' ys"
    by (rule copy_pagetable_ok [OF assms])
  have F: "pages (set (frames_in ms)) \<inter> (avail h xs \<union> (R \<union> pages (ran U) \<union> Rc)) = {}" using assms(3) by (auto simp: owned_def)
  have G: "pages (set (frames_in ms)) \<inter> pages (set gs) = {}" using A(5) by (auto simp: owned_def)
  have "\<exists>pa pa'. va_to_pa r va (hmm h) = Inr pa \<and> va_to_pa r va (hmm h') = Inr pa \<and> va_to_pa q va (hmm h') = Inr pa' \<and>
       (pa = 0 \<longleftrightarrow> pa' = 0) \<and> (pa \<noteq> 0 \<longrightarrow> mem (hmm h') (PA2VA pa) = mem (hmm h) (PA2VA pa) \<and>
         mem (hmm h') (PA2VA pa') = mem (hmm h) (PA2VA pa) \<and> PA2VA pa \<noteq> PA2VA pa')" if va: "va < MAXVA" for va
  proof -
    obtain pa pa' where c: "va_to_pa r va (hmm h) = Inr pa" "va_to_pa q va (hmm h') = Inr pa'" "pa = 0 \<longleftrightarrow> pa' = 0"
      "pa \<noteq> 0 \<Longrightarrow> mem (hmm h') (PA2VA pa') = mem (hmm h) (PA2VA pa) \<and> PA2VA pa \<in> pages (set (frames_in ms)) \<and> PA2VA pa' \<in> pages (set gs)"
      using copied_view [OF assms(1) A(3,4,6) va] by blast
    have "mem (hmm h') a = mem (hmm h) a" if "a \<in> pages (set (frames_in ms))" for a using evolvesD(3) [OF A(7)] F that by blast
    moreover have "PA2VA pa \<noteq> PA2VA pa'" if "pa \<noteq> 0" using c(4) [OF that] G by auto
    ultimately show ?thesis using c same_view [OF assms(1) A(2) va] by auto
  qed
  then show ?thesis using A(1-4) by blast
qed

theorem fork_copies_memory_witness:
  "\<exists>s l h h1 q h2 nl h3 pl h4 pa pa'. pgtbl_create (sample_heap 31) = Inr (KERNBASE + 491520, s) \<and> mlist_init (heap_boot s) = Inr (l, h) \<and>
    alloc_vm (KERNBASE + 491520) l 0x10000 0x10001 7 h = Inr (0, h1) \<and> in_mm pgtbl_create h1 = Inr (q, h2) \<and> mlist_init h2 = Inr (nl, h3) \<and>
    copy_pagetable (KERNBASE + 491520) l q nl h3 = Some (Inr (pl, h4)) \<and>
    va_to_pa (KERNBASE + 491520) 0x10010 (hmm h4) = Inr pa \<and> va_to_pa q 0x10010 (hmm h4) = Inr pa' \<and> pa \<noteq> 0 \<and> PA2VA pa \<noteq> PA2VA pa' \<and>
    mem (hmm h4) (PA2VA pa') = mem (hmm h4) (PA2VA pa)"
proof -
  let ?r = "KERNBASE + 491520"
  obtain s l h h1 q h2 nl h3 f T ys R Rc where
    S: "pgtbl_create (sample_heap 31) = Inr (?r, s)" "mlist_init (heap_boot s) = Inr (l, h)"
      "alloc_vm ?r l 0x10000 0x10001 7 h = Inr (0, h1)" "in_mm pgtbl_create h1 = Inr (q, h2)" "mlist_init h2 = Inr (nl, h3)"
    and U: "uspace h3 ys ?r T l [(0x10000, f, 7)] R" "uspace h3 ys q [[] \<mapsto> q] nl [] Rc"
      "owned h3 ys [pages (set (frames_in [(0x10000, f, 7)])), pages (ran T), R, pages (ran ([[] \<mapsto> q] :: pt_tree)), Rc]"
      "7 * length [(0x10000 :: u64, f, 7 :: u64)] < length ys" "\<forall>x\<in>set ys. PTE2PA x \<noteq> 0"
    by (rule sample_fork)
  have v: "(0x10010 :: u64) < MAXVA" "pg 0x10010 = pg 0x10000" by (simp_all add: MAXVA_def pg_def)
  obtain pl h4 pa pa' where F: "copy_pagetable ?r l q nl h3 = Some (Inr (pl, h4))" "va_to_pa ?r 0x10010 (hmm h3) = Inr pa"
    "va_to_pa ?r 0x10010 (hmm h4) = Inr pa" "va_to_pa q 0x10010 (hmm h4) = Inr pa'"
    "pa \<noteq> 0 \<Longrightarrow> mem (hmm h4) (PA2VA pa) = mem (hmm h3) (PA2VA pa) \<and> mem (hmm h4) (PA2VA pa') = mem (hmm h3) (PA2VA pa) \<and> PA2VA pa \<noteq> PA2VA pa'"
    using fork_copies_memory [OF U] v(1) by blast
  moreover have "pa \<noteq> 0" using uspace_translate(2) [OF U(1) v(1) _ v(2), of f 7] F(2) by auto
  ultimately show ?thesis using S by auto
qed

text \<open>
  C14: \<open>pgtbl_free\<close> gives back everything that the page table and the list of a process refer to. It ends; afterwards the free pages are those from before, all frames of
  the process and all pages of its table, each of them once, the elements and mappings of the list are in the bins of the heap, and memory of others is not written.
\<close>

theorem pgtbl_free_returns_all:
  assumes "uspace h xs r T l ms R"
  shows "\<exists>h' ys. pgtbl_free r l h = Some (Inr h') \<and> heap_ok h' ys \<and> distinct ys \<and> set ys = set xs \<union> set (frames_in ms) \<union> ran T \<and>
    (\<forall>a. a \<notin> avail h xs \<union> R \<union> pages (ran T) \<union> pages (set (frames_in ms)) \<longrightarrow> mem (hmm h') a = mem (hmm h) a)"
proof -
  obtain h' ys where F: "pgtbl_free r l h = Some (Inr h')" "evolves h xs (R \<union> pages (ran T) \<union> pages (set (frames_in ms))) h' ys"
    "set ys = set xs \<union> set (frames_in ms) \<union> ran T" "distinct ys"
    by (rule pgtbl_free_ok [OF assms])
  have "mem (hmm h') a = mem (hmm h) a" if "a \<notin> avail h xs \<union> R \<union> pages (ran T) \<union> pages (set (frames_in ms))" for a
    using evolvesD(3) [OF F(2)] that by simp
  then show ?thesis using F(1,3,4) evolvesD(1) [OF F(2)] by blast
qed

theorem pgtbl_free_returns_all_witness:
  "\<exists>s l h h1 h2 f ys. pgtbl_create (sample_heap 31) = Inr (KERNBASE + 491520, s) \<and> mlist_init (heap_boot s) = Inr (l, h) \<and>
    alloc_vm (KERNBASE + 491520) l 0x10000 0x10001 7 h = Inr (0, h1) \<and> pgtbl_free (KERNBASE + 491520) l h1 = Some (Inr h2) \<and>
    va_to_pa (KERNBASE + 491520) 0x10000 (hmm h1) = Inr (PTE2PA f) \<and> mm_inv (hmm h2) ys \<and> KERNBASE + 491520 \<in> set ys \<and> f \<in> set ys"
proof -
  let ?r = "KERNBASE + 491520"
  obtain s l h h1 f T ys R where S: "pgtbl_create (sample_heap 31) = Inr (?r, s)" "mlist_init (heap_boot s) = Inr (l, h)"
    "alloc_vm ?r l 0x10000 0x10001 7 h = Inr (0, h1)" and U: "uspace h1 ys ?r T l [(0x10000, f, 7)] R"
    by (rule sample_process)
  obtain h2 zs where F: "pgtbl_free ?r l h1 = Some (Inr h2)" "heap_ok h2 zs" "set zs = set ys \<union> set (frames_in [(0x10000, f, 7)]) \<union> ran T"
    using pgtbl_free_returns_all [OF U] by blast
  have "?r \<in> ran T" using pt_wfD(1) [OF spaceD(4) [OF vspaceD(1) [OF uspaceD(1) [OF U]]]] by (auto simp: ran_def)
  moreover have "va_to_pa ?r 0x10000 (hmm h1) = Inr (PTE2PA f)"
    using uspace_translate(2) [OF U, where v = "0x10000" and va = "0x10000" and pa = f and perm = 7] by (simp add: MAXVA_def PGSIZE_def)
  ultimately show ?thesis using S F(1,3) heap_okD(1) [OF F(2)]
    by - (rule exI [of _ s], rule exI [of _ l], rule exI [of _ h], rule exI [of _ h1], rule exI [of _ h2], rule exI [of _ f], rule exI [of _ zs], simp)
qed

text \<open>
  C15: a child that \<open>fork\<close> has made and that exits at once leaves no trace in its parent: after \<open>copy_pagetable\<close> and the \<open>pgtbl_free\<close> of the child the parent's
  page table and list agree, every user address of the parent translates as before the fork to the same byte, and the frames and tables of the child are free.
\<close>

theorem child_exit_keeps_parent:
  assumes "uspace h xs r T l ms R" "uspace h xs q U nl [] Rc" "owned h xs [pages (set (frames_in ms)), pages (ran T), R, pages (ran U), Rc]"
    and "7 * length ms < length xs" "\<forall>x\<in>set xs. PTE2PA x \<noteq> 0"
  shows "\<exists>pl h1 h2 ys zs U' Rp Rc' gs. copy_pagetable r l q nl h = Some (Inr (pl, h1)) \<and> uspace h1 ys q U' nl (rev (copies ms gs)) Rc' \<and>
    pgtbl_free q nl h1 = Some (Inr h2) \<and> uspace h2 zs r T pl (rev ms) Rp \<and> length gs = length ms \<and> set zs = set ys \<union> set gs \<union> ran U' \<and>
    (\<forall>va<MAXVA. \<exists>pa. va_to_pa r va (hmm h) = Inr pa \<and> va_to_pa r va (hmm h2) = Inr pa \<and>
       (pa \<noteq> 0 \<longrightarrow> mem (hmm h2) (PA2VA pa) = mem (hmm h) (PA2VA pa)))"
proof -
  obtain pl h1 ys U' Rp Rc' gs where A: "copy_pagetable r l q nl h = Some (Inr (pl, h1))" "uspace h1 ys r T pl (rev ms) Rp"
    "uspace h1 ys q U' nl (rev (copies ms gs)) Rc'" "length gs = length ms" "set gs \<subseteq> set xs" "takes (7 * length ms + 1) xs ys"
    "owned h1 ys [pages (set (frames_in ms)), pages (set gs), pages (ran T), pages (ran U'), Rp, Rc']"
    "list_all2 (\<lambda>f g. same_page (mem (hmm h)) f (mem (hmm h1)) g) (frames_in ms) gs" "evolves h xs (R \<union> pages (ran U) \<union> Rc) h1 ys"
    by (rule copy_pagetable_ok [OF assms])
  have g: "frames_in (rev (copies ms gs)) = rev gs" using copies_pages [OF A(4)] by simp
  obtain h2 zs where B: "pgtbl_free q nl h1 = Some (Inr h2)" "evolves h1 ys (Rc' \<union> pages (ran U') \<union> pages (set gs)) h2 zs"
    "set zs = set ys \<union> set gs \<union> ran U'"
    using pgtbl_free_ok [OF A(3)] unfolding g set_rev by blast
  let ?p = "(r, T, pl, rev ms, Rp)"
  have "dmw_page z" if "z \<in> set zs" for z
  proof -
    have "z \<in> set xs \<or> z \<in> ran U'" using that B(3) A(5) takes_set [OF A(6)] by blast
    then show ?thesis using spaceD(5) [OF vspaceD(1) [OF uspaceD(1) [OF assms(1)]]] spaceD(4) [OF vspaceD(1) [OF uspaceD(1) [OF A(3)]]]
      by (auto simp: pt_wf_def)
  qed
  moreover have "(case ?p of (r, T, l, ms, R) \<Rightarrow> pages (set (frames_in ms)) \<union> pages (ran T) \<union> R) \<inter> (Rc' \<union> pages (ran U') \<union> pages (set gs)) = {}"
    using A(7) by (auto simp: owned_def)
  ultimately have K: "uspace h2 zs r T pl (rev ms) Rp" "\<And>a. a \<in> pages (set (frames_in ms)) \<Longrightarrow> mem (hmm h2) a = mem (hmm h1) a"
    using processes.beside [where p = ?p, OF _ B(2), of "{}"] A(2) by simp_all
  have F: "pages (set (frames_in ms)) \<inter> (avail h xs \<union> (R \<union> pages (ran U) \<union> Rc)) = {}" using assms(3) by (auto simp: owned_def)
  have "\<exists>pa. va_to_pa r va (hmm h) = Inr pa \<and> va_to_pa r va (hmm h2) = Inr pa \<and> (pa \<noteq> 0 \<longrightarrow> mem (hmm h2) (PA2VA pa) = mem (hmm h) (PA2VA pa))"
    if va: "va < MAXVA" for va
  proof -
    obtain pa where c: "va_to_pa r va (hmm h) = Inr pa" "pa \<noteq> 0 \<Longrightarrow> PA2VA pa \<in> pages (set (frames_in ms))"
      using copied_view [OF assms(1) A(3,4,8) va] by blast
    have "mem (hmm h1) a = mem (hmm h) a" if "a \<in> pages (set (frames_in ms))" for a using evolvesD(3) [OF A(9)] F that by blast
    then show ?thesis using c K(2) same_view [OF assms(1) K(1) va] by simp
  qed
  then show ?thesis using A(1,3,4) B(1,3) K(1) by blast
qed

theorem child_exit_keeps_parent_witness:
  "\<exists>s l h h1 q h2 nl h3 pl h4 h5 pa. pgtbl_create (sample_heap 31) = Inr (KERNBASE + 491520, s) \<and> mlist_init (heap_boot s) = Inr (l, h) \<and>
    alloc_vm (KERNBASE + 491520) l 0x10000 0x10001 7 h = Inr (0, h1) \<and> in_mm pgtbl_create h1 = Inr (q, h2) \<and> mlist_init h2 = Inr (nl, h3) \<and>
    copy_pagetable (KERNBASE + 491520) l q nl h3 = Some (Inr (pl, h4)) \<and> pgtbl_free q nl h4 = Some (Inr h5) \<and>
    va_to_pa (KERNBASE + 491520) 0x10010 (hmm h5) = Inr pa \<and> pa \<noteq> 0 \<and> mem (hmm h5) (PA2VA pa) = mem (hmm h3) (PA2VA pa)"
proof -
  let ?r = "KERNBASE + 491520"
  obtain s l h h1 q h2 nl h3 f T ys R Rc where
    S: "pgtbl_create (sample_heap 31) = Inr (?r, s)" "mlist_init (heap_boot s) = Inr (l, h)"
      "alloc_vm ?r l 0x10000 0x10001 7 h = Inr (0, h1)" "in_mm pgtbl_create h1 = Inr (q, h2)" "mlist_init h2 = Inr (nl, h3)"
    and U: "uspace h3 ys ?r T l [(0x10000, f, 7)] R" "uspace h3 ys q [[] \<mapsto> q] nl [] Rc"
      "owned h3 ys [pages (set (frames_in [(0x10000, f, 7)])), pages (ran T), R, pages (ran ([[] \<mapsto> q] :: pt_tree)), Rc]"
      "7 * length [(0x10000 :: u64, f, 7 :: u64)] < length ys" "\<forall>x\<in>set ys. PTE2PA x \<noteq> 0"
    by (rule sample_fork)
  have v: "(0x10010 :: u64) < MAXVA" "pg 0x10010 = pg 0x10000" by (simp_all add: MAXVA_def pg_def)
  obtain pl h4 h5 pa where F: "copy_pagetable ?r l q nl h3 = Some (Inr (pl, h4))" "pgtbl_free q nl h4 = Some (Inr h5)"
    "va_to_pa ?r 0x10010 (hmm h3) = Inr pa" "va_to_pa ?r 0x10010 (hmm h5) = Inr pa" "pa \<noteq> 0 \<Longrightarrow> mem (hmm h5) (PA2VA pa) = mem (hmm h3) (PA2VA pa)"
    using child_exit_keeps_parent [OF U] v(1) by blast
  moreover have "pa \<noteq> 0" using uspace_translate(2) [OF U(1) v(1) _ v(2), of f 7] F(3) by auto
  ultimately show ?thesis using S by auto
qed

end
