(* ===== verification/ForkTask.thy ===== *)
theory ForkTask
  imports Fork Exec
begin

text \<open>
  \<open>fork\<close> of core/exec.c as a whole: a slot and a page table for the child (\<open>proc_alloc_space\<close>), the copy of the memory (theory Fork), and the
  words on the child's stack that make it return 0 from the system call (\<open>put_words_eq\<close>, \<open>fork_words_read\<close>). \<open>user_addr\<close> is the place in
  memory of a byte at a user address; \<open>can_fork\<close> collects what \<open>fork\<close> needs.
\<close>

section \<open>A slot for the child\<close>

lemma new_fdtable_space:
  assumes "heap_ok (heap k) (x # xs)"
  shows "\<exists>h. new_fdtable k = Inr (x, k\<lparr>heap := h, tables := (tables k)(x := std_fdtable)\<rparr>) \<and> evolves (heap k) (x # xs) {} h xs"
proof -
  obtain h0 where K: "in_mm (kmalloc 16384) (heap k) = Inr (x, h0)" "evolves (heap k) (x # xs) {} (clear_page x h0) xs"
    using kmalloc_clear [OF assms] by blast
  then show ?thesis
    by (intro exI [of _ "clear_page x h0"]) (auto simp: in_mm_def kres_simps new_fdtable_def fdtable_alloc_def clear_page_def)
qed

lemma proc_alloc_space:
  assumes "uspace (heap k) (x # y # xs) r T l ms R" "xs \<noteq> []" "find (\<lambda>i. allocs (task k i) = UNUSED) [0..<PROC_MAX] = Some n" "n < length (proc k)"
  obtains k1 nl ys Rc where "proc_alloc k = Inr (n, k1)" "uspace (heap k1) ys r T l ms R" "uspace (heap k1) ys y [[] \<mapsto> y] nl [] Rc"
    "owned (heap k1) ys [pages (set (frames_in ms)), pages (ran T), R, pages {y}, Rc]" "takes 3 (x # y # xs) ys"
    "evolves (heap k) (x # y # xs) {} (heap k1) ys" "cur_sp k1 = cur_sp k" "\<forall>j. j \<noteq> n \<longrightarrow> task k1 j = task k j"
    "pgtbl (task k1 n) = y" "mapping_list (task k1 n) = nl" "length (proc k1) = length (proc k)" "pages {y} \<union> Rc \<subseteq> avail (heap k) (x # y # xs)"
proof -
  let ?k1 = "set_task n ((task k n)\<lparr>p_context := 0, p_trapframe := 0\<rparr>) k"
  have "heap_ok (heap ?k1) (x # y # xs)" using vspaceD(4) [OF uspaceD(1) [OF assms(1)]] by (simp add: set_task_def)
  from new_fdtable_space [OF this] obtain h where
    A: "new_fdtable ?k1 = Inr (x, ?k1\<lparr>heap := h, tables := (tables k)(x := std_fdtable)\<rparr>)" "evolves (heap k) (x # y # xs) {} h (y # xs)"
    by (auto simp: set_task_def)
  have U: "uspace h (y # xs) r T l ms R" by (rule uspace_keeps [OF assms(1) A(2)]) auto
  obtain h1 h2 nl ys Rc where B: "in_mm pgtbl_create h = Inr (y, h1)" "mlist_init h1 = Inr (nl, h2)" "uspace h2 ys r T l ms R"
    "uspace h2 ys y [[] \<mapsto> y] nl [] Rc" "owned h2 ys [pages (set (frames_in ms)), pages (ran T), R, pages {y}, Rc]" "takes 2 (y # xs) ys"
    "evolves h (y # xs) {} h2 ys" "pages {y} \<union> Rc \<subseteq> avail h (y # xs)"
    by (rule new_process [OF U assms(2)])
  define t where "t = (task k n)\<lparr>p_context := 0, p_trapframe := 0, p_fdtable := x, pid := last_pid k, allocs := USED, bss := 0, pgtbl := y,
    mapping_list := nl, callback := 0, timer_call_time := - 1\<rparr>"
  define k' where "k' = k\<lparr>proc := (proc k)[n := t], last_pid := last_pid k + 1, heap := h2, tables := (tables k)(x := std_fdtable),
    lists := init_list_head (Tasks n) (init_list_head (Children n) (lists k))\<rparr>"
  have "proc_alloc k = Inr (n, k')"
    using A(1) B(1,2) assms(3,4) by (simp add: proc_alloc_def Let_def in_heap_def set_task_def task_def k'_def t_def)
  moreover have "takes 3 (x # y # xs) ys" using takes_trans [OF takes_tl B(6)] by (simp add: eval_nat_numeral)
  moreover have "evolves (heap k) (x # y # xs) {} h2 ys" by (rule evolves_trans [OF A(2) B(7)]) simp
  moreover have "pages {y} \<union> Rc \<subseteq> avail (heap k) (x # y # xs)" using B(8) evolvesD(2) [OF A(2)] by blast
  ultimately show ?thesis using B(3-5) assms(4) by (intro that [of k' ys nl Rc]) (simp_all add: k'_def t_def task_def)
qed

section \<open>Words on a stack\<close>

lemma copied_word:
  assumes "copied m T va src 8 m'" "\<And>i. i < 8 \<Longrightarrow> loc m T (va + of_nat i) = a + of_nat i" "\<And>i. i < 8 \<Longrightarrow> m (src + of_nat i) = le_bytes 8 (unat v) ! i"
  shows "m' = store64 m a v"
proof
  fix x
  show "m' x = store64 m a v x"
  proof (cases "unat (x - a) < 8")
    case True
    define i where "i = unat (x - a)"
    have i: "i < 8" "x = a + of_nat i" using True by (simp_all add: i_def)
    then have "m' x = le_bytes 8 (unat v) ! i" using assms by (simp add: copied_def)
    then show ?thesis using True by (simp add: store64_def write_bytes_def i_def)
  next
    case False
    have "x \<noteq> a + of_nat i" if "i < 8" for i using False that by (auto simp: unat_of_nat_64)
    then show ?thesis using assms(1,2) False by (simp add: copied_def store64_def write_bytes_def)
  qed
qed

lemma put_user_eq:
  assumes "uspace (heap k) xs q U nl cs Rc" "(sv, g, perm) \<in> set cs" "pg va = pg sv" "unat va mod 16384 + 8 \<le> 16384" "va < MAXVA"
    and "reg (kword env) 8 \<inter> (pages (set (frames_in cs)) \<union> pages (ran U)) = {}" "unat (kword env) + 8 < 2 ^ 64"
  shows "put_user env q va v k = Inr (k\<lparr>heap := put64 (g + va mod PGSIZE) v (put64 (kword env) v (heap k))\<rparr>)"
proof -
  note D = uspaceD [OF assms(1)]
  note G = good_mapD [OF D(2) [OF assms(2)]]
  let ?kw = "kword env"
  define s where "s = hmm (put64 ?kw v (heap k))"
  have ms: "mem s = store64 (mem (hmm (heap k))) ?kw v" by (simp add: s_def)
  have same: "mem s a = mem (hmm (heap k)) a" if "u \<in> ran U" "in_page u a" for u a
    unfolding ms using that assms(6) by (intro store64_reg) (auto simp: pages_def)
  have W: "pt_wf (mem s) q U" "\<And>v. pte_of (mem s) U v = pte_of (mem (hmm (heap k))) U v"
    using pt_wf_frame [OF spaceD(4) [OF vspaceD(1) [OF D(1)]], of "mem s"] same by blast+
  have va: "unat va < 140737488355328" using assms(5) by (simp add: word_less_nat_alt MAXVA_unat)
  define p where "p = unat va div 16384"
  have vp: "unat va = 16384 * p + unat va mod 16384" "p < 8589934592" using va by (simp_all add: p_def)
  have C: "pg (va + of_nat i) = pg va" "vpn (va + of_nat i) = vpn va" "loc (mem s) U (va + of_nat i) = loc (mem s) U va + of_nat i" if "i < 8" for i
    using chunk_page(1,2) [of va i] chunk_page(3) [of va i "mem s" U] assms(4) va that by simp_all
  have pte: "pte_of (mem s) U (va + of_nat i) = PA2PTE g OR perm" if "i < 8" for i
    using W(2) pte_of_vpn [OF C(2) [OF that]] uspace_loc(1) [OF assms(1,2,5,3)] by metis
  have fr: "frame (mem s) U (va + of_nat i) = g" if "i < 8" for i
    using pte [OF that] G(3,9) by (simp add: frame_def dmw_page_def)
  have gf: "g \<in> set (frames_in cs)" using assms(2) by (force simp: frames_in_def)
  have "g \<notin> ran U" using gf D(6) page_in_pages [of g "set (frames_in cs)"] page_in_pages [of g "ran U"] by blast
  moreover have "unat va + 8 \<le> 140737488355328" using vp assms(4) by linarith
  ultimately have "user_range (mem s) U va (unat (8 :: u64))"
    using pte fr G(4,9,10) by (simp add: user_range_def user_page_def)
  moreover have "alias_free (mem s) U va (unat (8 :: u64))" using C(1) by (simp add: alias_free_def)
  moreover have "outside_frames (mem s) U va (unat (8 :: u64)) (?kw + of_nat i)" if "i < unat (8 :: u64)" for i
  proof -
    have "?kw + of_nat i \<in> reg ?kw 8" using that by (simp add: reg_def in_region_def unat_of_nat_64)
    then show ?thesis using assms(6) gf fr by (auto simp: outside_frames_def pages_def)
  qed
  ultimately obtain m' where M: "copy_to_va q va ?kw 8 s = Inr (0, s\<lparr>mem := m'\<rparr>)" "copied (mem s) U va ?kw (unat (8 :: u64)) m'"
    using copy_to_va_ok [OF W(1), of va 8 ?kw] assms(7) by auto
  have "m' = store64 (mem s) (g + va mod PGSIZE) v"
  proof (rule copied_word)
    show "copied (mem s) U va ?kw 8 m'" using M(2) by simp
    show "loc (mem s) U (va + of_nat i) = g + va mod PGSIZE + of_nat i" if "i < 8" for i
      using C(3) [OF that] fr [of 0] by (simp add: loc_def)
    show "mem s (?kw + of_nat i) = le_bytes 8 (unat v) ! i" if "i < 8" for i
      using that by (simp add: ms store64_def write_bytes_def unat_of_nat_64)
  qed
  then show ?thesis using M(1)
    by (simp add: put_user_def in_heap_def in_mm_def poke_def s_def put64_def store64_def)
qed

text \<open>Words put on the stack page \<open>g\<close> of a process, one after the other.\<close>

definition word_writes :: "u64 \<Rightarrow> u64 \<Rightarrow> (u64 \<times> u64) list \<Rightarrow> (u64 \<times> u64) list" where
  "word_writes kw g ws = concat (map (\<lambda>(a, v). [(kw, v), (g + a mod PGSIZE, v)]) ws)"

lemma word_writes_simps [simp]: "word_writes kw g [] = []"
    "word_writes kw g ((a, v) # ws) = (kw, v) # (g + a mod PGSIZE, v) # word_writes kw g ws"
  by (simp_all add: word_writes_def)

lemma word_in_page: "unat a mod 16384 + 8 \<le> 16384 \<Longrightarrow> reg (g + a mod PGSIZE) 8 \<subseteq> pages {g}"
proof
  fix x assume a: "unat a mod 16384 + 8 \<le> 16384" and "x \<in> reg (g + a mod PGSIZE) 8"
  then have x: "unat (x - (g + a mod PGSIZE)) < 8" by (simp add: reg_def in_region_def)
  have m: "unat (a mod PGSIZE) = unat a mod 16384" by (simp add: unat_mod PGSIZE_def)
  have "x - g = (x - (g + a mod PGSIZE)) + a mod PGSIZE" by simp
  also have "unat \<dots> = unat (x - (g + a mod PGSIZE)) + unat a mod 16384" using x a m by (subst unat_plus_64) simp_all
  finally show "x \<in> pages {g}" using x a by (simp add: pages_def in_page_def in_region_def)
qed

lemma put_words_eq:
  assumes "uspace (heap k) xs q U nl cs Rc" "(sv, g, perm) \<in> set cs"
    and "\<forall>(a, v)\<in>set ws. pg a = pg sv \<and> unat a mod 16384 + 8 \<le> 16384 \<and> a < MAXVA"
    and "reg (kword env) 8 \<inter> (pages (set (frames_in cs)) \<union> pages (ran U) \<union> Rc \<union> avail (heap k) xs) = {}" "unat (kword env) + 8 < 2 ^ 64"
  shows "put_words env q ws k = Inr (k\<lparr>heap := kh.puts (word_writes (kword env) g ws) (heap k)\<rparr>)"
    "uspace (kh.puts (word_writes (kword env) g ws) (heap k)) xs q U nl cs Rc"
    "evolves (heap k) xs (reg (kword env) 8 \<union> pages {g}) (kh.puts (word_writes (kword env) g ws) (heap k)) xs"
proof -
  let ?W = "reg (kword env) 8 \<union> pages {g}"
  have step: "put_user env q a v k = Inr (k\<lparr>heap := kh.puts [(kword env, v), (g + a mod PGSIZE, v)] (heap k)\<rparr>) \<and>
      uspace (kh.puts [(kword env, v), (g + a mod PGSIZE, v)] (heap k)) xs q U nl cs Rc \<and>
      evolves (heap k) xs ?W (kh.puts [(kword env, v), (g + a mod PGSIZE, v)] (heap k)) xs \<and>
      avail (kh.puts [(kword env, v), (g + a mod PGSIZE, v)] (heap k)) xs = avail (heap k) xs"
    if U: "uspace (heap k) xs q U nl cs Rc" and a: "pg a = pg sv" "unat a mod 16384 + 8 \<le> 16384" "a < MAXVA"
      and kw: "reg (kword env) 8 \<inter> (pages (set (frames_in cs)) \<union> pages (ran U) \<union> Rc \<union> avail (heap k) xs) = {}" for k a v
  proof -
    note D = uspaceD [OF U]
    note V = vspaceD [OF D(1)]
    have g: "pages {g} \<subseteq> pages (set (frames_in cs))" using assms(2) by (intro pages_mono) (force simp: frames_in_def)
    have "reg (kword env) 8 \<inter> (pages (set (frames_in cs)) \<union> pages (ran U)) = {}" using kw by blast
    note e = put_user_eq [OF U assms(2) a this assms(5), of v]
    have Wa: "?W \<inter> avail (heap k) xs = {}" "?W \<inter> (pages (ran U) \<union> Rc) = {}" using kw g D(6) by blast+
    have "\<forall>(b, w)\<in>set [(kword env, v), (g + a mod PGSIZE, v)]. reg b 8 \<subseteq> ?W" using word_in_page [OF a(2), of g] by auto
    note P = kh.puts_ev [OF V(4) Wa(1) this]
    have "pages (set (frames_in cs)) \<inter> avail (kh.puts [(kword env, v), (g + a mod PGSIZE, v)] (heap k)) xs = {}" unfolding P(2) using D(6) by blast
    from uspace_write(1) [OF U P(1) Wa(2) this spaceD(5) [OF V(1)]] show ?thesis using e P by simp
  qed
  have "put_words env q ws k = Inr (k\<lparr>heap := kh.puts (word_writes (kword env) g ws) (heap k)\<rparr>) \<and>
    uspace (kh.puts (word_writes (kword env) g ws) (heap k)) xs q U nl cs Rc \<and>
    evolves (heap k) xs ?W (kh.puts (word_writes (kword env) g ws) (heap k)) xs"
    using assms(1,3,4)
  proof (induction ws arbitrary: k)
    case Nil
    then show ?case using evolves_refl [OF vspaceD(4) [OF uspaceD(1) [OF Nil.prems(1)]]] by simp
  next
    case (Cons w ws)
    obtain a v where w: "w = (a, v)" by (cases w)
    have a: "pg a = pg sv" "unat a mod 16384 + 8 \<le> 16384" "a < MAXVA" using Cons.prems(2) by (auto simp: w)
    let ?h = "kh.puts [(kword env, v), (g + a mod PGSIZE, v)] (heap k)"
    have S: "put_user env q a v k = Inr (k\<lparr>heap := ?h\<rparr>)" "uspace ?h xs q U nl cs Rc" "evolves (heap k) xs ?W ?h xs" "avail ?h xs = avail (heap k) xs"
      using step [OF Cons.prems(1) a Cons.prems(3), of v] by blast+
    have "put_words env q ws (k\<lparr>heap := ?h\<rparr>) = Inr (k\<lparr>heap := kh.puts (word_writes (kword env) g ws) ?h\<rparr>) \<and>
      uspace (kh.puts (word_writes (kword env) g ws) ?h) xs q U nl cs Rc \<and> evolves ?h xs ?W (kh.puts (word_writes (kword env) g ws) ?h) xs"
      using Cons.IH [of "k\<lparr>heap := ?h\<rparr>"] S(2,4) Cons.prems(2,3) by simp
    then show ?case using S(1) evolves_trans [OF S(3), of ?W] by (simp add: w)
  qed
  then show "put_words env q ws k = Inr (k\<lparr>heap := kh.puts (word_writes (kword env) g ws) (heap k)\<rparr>)"
    "uspace (kh.puts (word_writes (kword env) g ws) (heap k)) xs q U nl cs Rc"
    "evolves (heap k) xs (reg (kword env) 8 \<union> pages {g}) (kh.puts (word_writes (kword env) g ws) (heap k)) xs" by blast+
qed

lemma word_offset:
  assumes "x \<in> reg (g + a mod PGSIZE) 8" "unat a mod 16384 + 8 \<le> 16384"
  shows "unat a mod 16384 \<le> unat (x - g) \<and> unat (x - g) < unat a mod 16384 + 8"
proof -
  have x: "unat (x - (g + a mod PGSIZE)) < 8" using assms(1) by (simp add: reg_def in_region_def)
  have m: "unat (a mod PGSIZE) = unat a mod 16384" by (simp add: unat_mod PGSIZE_def)
  have "x - g = (x - (g + a mod PGSIZE)) + a mod PGSIZE" by simp
  also have "unat \<dots> = unat (x - (g + a mod PGSIZE)) + unat a mod 16384" using x assms(2) m by (subst unat_plus_64) simp_all
  finally show ?thesis using x by simp
qed

lemma user_words_apart:
  assumes "unat a mod 16384 + 8 \<le> unat b mod 16384" "unat b mod 16384 + 8 \<le> 16384"
  shows "reg (g + a mod PGSIZE) 8 \<inter> reg (g + b mod PGSIZE) 8 = {}"
proof -
  have "x \<notin> reg (g + b mod PGSIZE) 8" if x: "x \<in> reg (g + a mod PGSIZE) 8" for x
    using word_offset [OF x] word_offset [of x g b] assms by auto
  then show ?thesis by blast
qed

section \<open>The address of a user's byte\<close>

text \<open>Where the byte at a user address lies, as \<open>copy_to_va\<close> and \<open>copy_from_va\<close> find it.\<close>

definition user_addr :: "kheap \<Rightarrow> u64 \<Rightarrow> u64 \<Rightarrow> u64 option" where
  "user_addr h r va = (case va_to_pa r va (hmm h) of Inl e \<Rightarrow> None | Inr pa \<Rightarrow> if pa = 0 then None else Some (PA2VA pa))"

lemma user_addr_in:
  assumes "uspace h xs r T l ms R" "va < MAXVA" "(v, pa, perm) \<in> set ms" "pg va = pg v"
  shows "user_addr h r va = Some (pa + va mod PGSIZE)"
  using uspace_translate(2) [OF assms] by (simp add: user_addr_def)

lemma user_addr_out: "uspace h xs r T l ms R \<Longrightarrow> va < MAXVA \<Longrightarrow> pg va \<notin> set (pages_in ms) \<Longrightarrow> user_addr h r va = None"
  using uspace_translate(1) by (simp add: user_addr_def)

lemma user_addr_frame:
  assumes "uspace h xs r T l ms R" "va < MAXVA" "user_addr h r va = Some a"
  shows "a \<in> pages (set (frames_in ms))"
proof (cases "pg va \<in> set (pages_in ms)")
  case True
  then obtain v pa perm where m: "(v, pa, perm) \<in> set ms" "pg va = pg v" by (auto simp: pages_in_def)
  have "unat (va mod PGSIZE) < 16384" by (simp add: unat_mod PGSIZE_def)
  then have "pa + of_nat (unat (va mod PGSIZE)) \<in> pages (set (frames_in ms))" by (rule frame_byte [OF m(1)])
  then show ?thesis using user_addr_in [OF assms(1,2) m] assms(3) by simp
qed (use user_addr_out [OF assms(1,2)] assms(3) in simp)

section \<open>Fork\<close>

text \<open>The top page of the stack, and the words that \<open>fork\<close> writes there.\<close>

definition stack_page :: u64 where "stack_page = USER_STACK_TOP - PGSIZE"

definition fork_words :: "exec_env \<Rightarrow> u64 \<Rightarrow> (u64 \<times> u64) list" where
  "fork_words env sp = [(sp + place ''a0'', 0), (context_va + place ''sp'', sp), (context_va + place ''ra'', exec_helper env)]"

lemma page_parts: "e < 16384 \<Longrightarrow> (n * 16384 + e) mod 16384 = e" "e < 16384 \<Longrightarrow> (n * 16384 + e) div 16384 = n" for e n :: nat
  by simp_all

lemma fork_words_place:
  assumes "stack_page \<le> sp" "sp \<le> context_va - sizeof_trapframe"
  shows "\<forall>(a, v)\<in>set (fork_words env sp). pg a = pg stack_page \<and> unat a mod 16384 + 8 \<le> 16384 \<and> a < MAXVA"
    "unat (sp + place ''a0'') mod 16384 + 8 \<le> unat (context_va + place ''ra'') mod 16384"
    "unat (context_va + place ''ra'') mod 16384 + 8 \<le> unat (context_va + place ''sp'') mod 16384"
    "unat (context_va + place ''sp'') mod 16384 + 8 \<le> 16384"
proof -
  have c: "context_va = 0x7FFEFF08" "sizeof_trapframe = 264" "stack_page = 0x7FFEC000"
    by (simp_all add: context_va_def sizeof_context_def sizeof_trapframe_def trapframe_regs_def context_regs_def USER_STACK_TOP_def stack_page_def PGSIZE_def)
  define d where "d = unat sp - 2147401728"
  have sp: "unat sp = 131067 * 16384 + d" "d \<le> 15872" using assms by (auto simp: c word_le_nat_alt d_def)
  have u: "unat (sp + 24) = 131067 * 16384 + (d + 24)" using sp by (subst unat_plus_64) simp_all
  have e: "d + 24 < 16384" using sp(2) by linarith
  note m = page_parts [OF e, of 131067, folded u]
  have lt: "sp + 24 < MAXVA" using u sp(2) by (simp add: word_less_nat_alt MAXVA_unat)
  show "\<forall>(a, v)\<in>set (fork_words env sp). pg a = pg stack_page \<and> unat a mod 16384 + 8 \<le> 16384 \<and> a < MAXVA"
    using m sp(2) lt by (simp add: fork_words_def c pg_def MAXVA_def)
  show "unat (sp + place ''a0'') mod 16384 + 8 \<le> unat (context_va + place ''ra'') mod 16384"
    "unat (context_va + place ''ra'') mod 16384 + 8 \<le> unat (context_va + place ''sp'') mod 16384"
    "unat (context_va + place ''sp'') mod 16384 + 8 \<le> 16384"
    using m sp(2) by (simp_all add: c)
qed

text \<open>What the child finds in its memory after the three words were written.\<close>

lemma fork_words_read:
  assumes "stack_page \<le> sp" "sp \<le> context_va - sizeof_trapframe" "reg kw 8 \<inter> pages {g} = {}"
  shows "(a, v) \<in> set (fork_words env sp) \<Longrightarrow> ld64 (g + a mod PGSIZE) (kh.puts (word_writes kw g (fork_words env sp)) h) = v"
    "x \<notin> reg kw 8 \<Longrightarrow> (\<And>a v. (a, v) \<in> set (fork_words env sp) \<Longrightarrow> x \<notin> reg (g + a mod PGSIZE) 8) \<Longrightarrow>
      mem (hmm (kh.puts (word_writes kw g (fork_words env sp)) h)) x = mem (hmm h) x"
proof -
  note F = fork_words_place [OF assms(1,2)]
  let ?A = "sp + place ''a0''" and ?S = "context_va + place ''sp''" and ?R = "context_va + place ''ra''"
  have le: "unat ?R mod 16384 + 8 \<le> 16384" "unat ?A mod 16384 + 8 \<le> unat ?S mod 16384" "unat ?A mod 16384 + 8 \<le> 16384" using F(2-4) by linarith+
  have ap: "reg (g + ?A mod PGSIZE) 8 \<inter> reg (g + ?S mod PGSIZE) 8 = {}" "reg (g + ?A mod PGSIZE) 8 \<inter> reg (g + ?R mod PGSIZE) 8 = {}"
    "reg (g + ?R mod PGSIZE) 8 \<inter> reg (g + ?S mod PGSIZE) 8 = {}"
    by (rule user_words_apart [OF le(2) F(4)], rule user_words_apart [OF F(2) le(1)], rule user_words_apart [OF F(3,4)])
  have kw: "reg (g + a mod PGSIZE) 8 \<inter> reg kw 8 = {}" if "unat a mod 16384 + 8 \<le> 16384" for a
    using word_in_page [OF that, of g] assms(3) by blast
  show "ld64 (g + a mod PGSIZE) (kh.puts (word_writes kw g (fork_words env sp)) h) = v" if "(a, v) \<in> set (fork_words env sp)"
  proof -
    have "ld64 (g + ?A mod PGSIZE) (kh.puts (word_writes kw g (fork_words env sp)) h) = 0"
      "ld64 (g + ?S mod PGSIZE) (kh.puts (word_writes kw g (fork_words env sp)) h) = sp"
      "ld64 (g + ?R mod PGSIZE) (kh.puts (word_writes kw g (fork_words env sp)) h) = exec_helper env"
      using ap kw [OF le(1)] kw [OF le(3)] kw [OF F(4)]
      by (simp_all add: fork_words_def ld64_put64_out Int_commute del: place_simps)
    then show ?thesis using that by (auto simp: fork_words_def)
  qed
  show "mem (hmm (kh.puts (word_writes kw g (fork_words env sp)) h)) x = mem (hmm h) x"
    if "x \<notin> reg kw 8" "\<And>a v. (a, v) \<in> set (fork_words env sp) \<Longrightarrow> x \<notin> reg (g + a mod PGSIZE) 8"
  proof -
    have "x \<notin> reg (g + ?A mod PGSIZE) 8" "x \<notin> reg (g + ?S mod PGSIZE) 8" "x \<notin> reg (g + ?R mod PGSIZE) 8"
      using that(2) by (auto simp: fork_words_def)
    then show ?thesis using that(1) by (simp add: fork_words_def store64_reg del: place_simps)
  qed
qed


text \<open>Offsets within a page.\<close>

lemma same_offset:
  assumes "pg va = pg w"
  shows "va - w = va mod PGSIZE - w mod PGSIZE"
proof -
  have "va div PGSIZE = w div PGSIZE" using assms by (simp add: pg_def PGSIZE_def unat_div word_unat_eq_iff)
  then have "va = w div PGSIZE * PGSIZE + va mod PGSIZE" using word_mod_div_equality [of va PGSIZE] by (simp add: algebra_simps)
  moreover have "w = w div PGSIZE * PGSIZE + w mod PGSIZE" using word_mod_div_equality [of w PGSIZE] by (simp add: algebra_simps)
  ultimately show ?thesis by (metis add_diff_cancel_left)
qed

lemma frame_owner:
  assumes "uspace h xs r T l ms R" "(v, f, perm) \<in> set ms" "(v', f', perm') \<in> set ms" "x \<in> pages {f}" "x \<in> pages {f'}"
  shows "(v, f, perm) = (v', f', perm')"
proof -
  note D = uspaceD [OF assms(1)]
  have "f = f'"
    using in_page_unique [of f f' x] good_mapD(7) [OF D(2) [OF assms(2)]] good_mapD(7) [OF D(2) [OF assms(3)]] assms(4,5) by (auto simp: pages_def)
  then show ?thesis using D(4) assms(2,3) inj_onD [of "\<lambda>(va, pa, perm). pa" "set ms" "(v, f, perm)" "(v', f', perm')"]
    unfolding frames_in_def distinct_map by simp
qed

text \<open>A byte of the child that is not in one of the three words is not in the places where they lie.\<close>

lemma word_hit:
  assumes "uspace h xs q U nl cs Rc" "(v, g', perm') \<in> set cs" "pg va = pg v" "(stack_page, g, perm) \<in> set cs"
    and "pg w = pg stack_page" "unat w mod 16384 + 8 \<le> 16384" "g' + va mod PGSIZE \<in> reg (g + w mod PGSIZE) 8"
  shows "unat (va - w) < 8"
proof -
  let ?x = "g' + va mod PGSIZE"
  have o: "unat (va mod PGSIZE) < 16384" by (simp add: unat_mod PGSIZE_def)
  have "?x \<in> pages {g'}" using page_byte [OF o, of g'] by simp
  moreover have "?x \<in> pages {g}" using word_in_page [OF assms(6), of g] assms(7) by blast
  ultimately have e: "(v, g', perm') = (stack_page, g, perm)" by (rule frame_owner [OF assms(1,2,4)])
  then have "va - w = ?x - (g + w mod PGSIZE)" using same_offset [of va w] assms(3,5) by simp
  then show ?thesis using assms(7) by (simp add: reg_def in_region_def)
qed


text \<open>The start of the child's kernel stack, as \<open>fork\<close> computes it from the physical address of the page.\<close>

lemma child_context:
  assumes "uspace h xs q U nl cs Rc" "(stack_page, g, perm) \<in> set cs"
  shows "\<exists>pa. va_to_pa q (USER_STACK_TOP - PGSIZE) (hmm h) = Inr pa \<and> PA2VA (pa + PGSIZE) - sizeof_context = g + context_va mod PGSIZE"
proof -
  note G = good_mapD [OF uspaceD(2) [OF assms]]
  have o: "stack_page mod PGSIZE = 0" by (simp add: stack_page_def USER_STACK_TOP_def PGSIZE_def)
  have pa: "va_to_pa q stack_page (hmm h) = Inr (PTE2PA g)" "PA2VA (PTE2PA g) = g"
    using uspace_translate(2) [OF assms(1) G(2) assms(2) refl] o by simp_all
  have "unat (PTE2PA g + PGSIZE) = unat (PTE2PA g) + 16384" using PTE2PA_unat(2) [of g] by (subst unat_plus_64) (simp_all add: PGSIZE_def)
  then have "PA2VA (PTE2PA g + PGSIZE) = PA2VA (PTE2PA g) + PGSIZE" using PTE2PA_unat(2) [of g] by (simp add: PA2VA_add(1))
  then show ?thesis using pa by (simp add: stack_page_def context_va_def sizeof_context_def context_regs_def USER_STACK_TOP_def PGSIZE_def)
qed

text \<open>The entries of the task table that \<open>fork\<close> writes after the copy.\<close>

definition fork_task :: "nat \<Rightarrow> nat \<Rightarrow> u64 \<Rightarrow> kernel \<Rightarrow> kernel" where
  "fork_task p n pl k = (let k2 = set_task p ((task k p)\<lparr>mapping_list := pl\<rparr>) k;
     k3 = k2\<lparr>lists := list_add (Children p) (Tasks n) (lists k2)\<rparr>; t = task k3 p in
     set_task n ((task k3 n)\<lparr>parent := Some p, state := TASK_RUNABLE, bss := bss t, name := name t, p_fdtable := p_fdtable t, cwd := cwd t,
       callback := callback t, timer_call_time := timer_call_time t\<rparr>) k3)"

lemma fork_task_simps:
  assumes "n \<noteq> p" "p < length (proc k)" "n < length (proc k)"
  shows "pgtbl (task (fork_task p n pl k) p) = pgtbl (task k p)" "mapping_list (task (fork_task p n pl k) p) = pl"
    "pgtbl (task (fork_task p n pl k) n) = pgtbl (task k n)" "mapping_list (task (fork_task p n pl k) n) = mapping_list (task k n)"
    "state (task (fork_task p n pl k) n) = TASK_RUNABLE" "parent (task (fork_task p n pl k) n) = Some p"
    "heap (fork_task p n pl k) = heap k" "cur_sp (fork_task p n pl k) = cur_sp k" "length (proc (fork_task p n pl k)) = length (proc k)"
  using assms by (simp_all add: fork_task_def Let_def set_task_def task_def)

lemma fork_steps:
  assumes "proc_alloc k = Inr (n, k1)"
    and "copy_pagetable (pgtbl (task k1 p)) (mapping_list (task k1 p)) (pgtbl (task k1 n)) (mapping_list (task k1 n)) (heap k1) = Some (Inr (pl, h))"
    and "k4 = fork_task p n pl (k1\<lparr>heap := h\<rparr>)" "va_to_pa (pgtbl (task k4 n)) (USER_STACK_TOP - PGSIZE) (hmm (heap k4)) = Inr pa"
    and "k5 = set_task n ((task k4 n)\<lparr>p_context := PA2VA (pa + PGSIZE) - sizeof_context\<rparr>) k4"
    and "put_words env (pgtbl (task k4 n)) (fork_words env (cur_sp k5)) k5 = Inr k6"
  shows "fork env p k = Some (Inr (n, k6))"
  using assms by (simp add: fork_def obind_def fork_task_def fork_words_def Let_def task_def del: place_simps)

text \<open>What \<open>fork\<close> needs: a free slot, free pages, the stack page of the parent, and a kernel stack that is not memory of a process.\<close>

definition can_fork :: "exec_env \<Rightarrow> nat \<Rightarrow> kernel \<Rightarrow> nat \<Rightarrow> u64 list \<Rightarrow> pt_tree \<Rightarrow> mapping list \<Rightarrow> u64 set \<Rightarrow> bool" where
  "can_fork env p k n xs T ms R \<longleftrightarrow> uspace (heap k) xs (pgtbl (task k p)) T (mapping_list (task k p)) ms R \<and>
     find (\<lambda>i. allocs (task k i) = UNUSED) [0..<PROC_MAX] = Some n \<and> n \<noteq> p \<and> p < length (proc k) \<and> n < length (proc k) \<and>
     7 * length ms + 3 < length xs \<and> (\<forall>x\<in>set xs. PTE2PA x \<noteq> 0) \<and> (\<exists>f perm. (stack_page, f, perm) \<in> set ms) \<and>
     stack_page \<le> cur_sp k \<and> cur_sp k \<le> context_va - sizeof_trapframe \<and>
     reg (kword env) 8 \<inter> (pages (set (frames_in ms)) \<union> pages (ran T) \<union> R \<union> avail (heap k) xs) = {} \<and> unat (kword env) + 8 < 2 ^ 64"

lemma can_forkD:
  assumes "can_fork env p k n xs T ms R"
  shows "uspace (heap k) xs (pgtbl (task k p)) T (mapping_list (task k p)) ms R" "find (\<lambda>i. allocs (task k i) = UNUSED) [0..<PROC_MAX] = Some n"
    "n \<noteq> p" "p < length (proc k)" "n < length (proc k)" "7 * length ms + 3 < length xs" "\<forall>x\<in>set xs. PTE2PA x \<noteq> 0" "\<exists>f perm. (stack_page, f, perm) \<in> set ms"
    "stack_page \<le> cur_sp k" "cur_sp k \<le> context_va - sizeof_trapframe"
    "reg (kword env) 8 \<inter> (pages (set (frames_in ms)) \<union> pages (ran T) \<union> R \<union> avail (heap k) xs) = {}" "unat (kword env) + 8 < 2 ^ 64"
  using assms by (simp_all add: can_fork_def)

lemma fork_parts:
  assumes "can_fork env p k n xs T ms R"
  obtains k' h h' ys zs pl q U' nl Rp Rc gs g perm where "fork env p k = Some (Inr (n, k'))"
    "pgtbl (task k' p) = pgtbl (task k p)" "mapping_list (task k' p) = pl" "pgtbl (task k' n) = q" "mapping_list (task k' n) = nl"
    "state (task k' n) = TASK_RUNABLE" "parent (task k' n) = Some p" "p_context (task k' n) = g + context_va mod PGSIZE"
    "heap k' = kh.puts (word_writes (kword env) g (fork_words env (cur_sp k))) h'"
    "uspace h ys (pgtbl (task k p)) T (mapping_list (task k p)) ms R" "evolves (heap k) xs {} h ys"
    "uspace h' zs (pgtbl (task k p)) T pl (rev ms) Rp" "uspace h' zs q U' nl (rev (copies ms gs)) Rc" "length gs = length ms"
    "set gs \<subseteq> set xs" "(stack_page, g, perm) \<in> set (copies ms gs)"
    "owned h' zs [pages (set (frames_in ms)), pages (set gs), pages (ran T), pages (ran U'), Rp, Rc]"
    "list_all2 (\<lambda>f g. same_page (mem (hmm h)) f (mem (hmm h')) g) (frames_in ms) gs"
    "evolves h ys (R \<union> avail (heap k) xs) h' zs" "pages (ran U') \<union> Rp \<union> Rc \<subseteq> R \<union> avail (heap k) xs"
    "uspace (heap k') zs q U' nl (rev (copies ms gs)) Rc" "evolves h' zs (reg (kword env) 8 \<union> pages {g}) (heap k') zs"
proof -
  note A = can_forkD [OF assms]
  obtain x y xs' where xs: "xs = x # y # xs'" "xs' \<noteq> []"
    using A(6) by (cases xs; cases "tl xs"; cases "tl (tl xs)") auto
  obtain k1 nl ys Rc0 where P: "proc_alloc k = Inr (n, k1)" "uspace (heap k1) ys (pgtbl (task k p)) T (mapping_list (task k p)) ms R"
    "uspace (heap k1) ys y [[] \<mapsto> y] nl [] Rc0" "owned (heap k1) ys [pages (set (frames_in ms)), pages (ran T), R, pages {y}, Rc0]" "takes 3 xs ys"
    "evolves (heap k) xs {} (heap k1) ys" "cur_sp k1 = cur_sp k" "\<forall>j. j \<noteq> n \<longrightarrow> task k1 j = task k j" "pgtbl (task k1 n) = y" "mapping_list (task k1 n) = nl"
    "length (proc k1) = length (proc k)" "pages {y} \<union> Rc0 \<subseteq> avail (heap k) xs"
    by (rule proc_alloc_space [OF A(1) [unfolded xs(1)] xs(2) A(2,5), folded xs(1)])
  have ys: "7 * length ms < length ys" "\<forall>x\<in>set ys. PTE2PA x \<noteq> 0" using takes_length [OF P(5)] takes_set [OF P(5)] A(6,7) by auto
  have oy: "owned (heap k1) ys [pages (set (frames_in ms)), pages (ran T), R, pages (ran ([[] \<mapsto> y] :: pt_tree)), Rc0]" using P(4) by simp
  obtain pl h' zs U' Rp Rc gs where C: "copy_pagetable (pgtbl (task k p)) (mapping_list (task k p)) y nl (heap k1) = Some (Inr (pl, h'))"
    "uspace h' zs (pgtbl (task k p)) T pl (rev ms) Rp" "uspace h' zs y U' nl (rev (copies ms gs)) Rc" "length gs = length ms" "set gs \<subseteq> set ys"
    "owned h' zs [pages (set (frames_in ms)), pages (set gs), pages (ran T), pages (ran U'), Rp, Rc]"
    "list_all2 (\<lambda>f g. same_page (mem (hmm (heap k1))) f (mem (hmm h')) g) (frames_in ms) gs"
    "evolves (heap k1) ys (R \<union> pages (ran ([[] \<mapsto> y] :: pt_tree)) \<union> Rc0) h' zs"
    "pages (ran U') \<union> Rp \<union> Rc \<subseteq> pages (ran ([[] \<mapsto> y] :: pt_tree)) \<union> R \<union> Rc0 \<union> avail (heap k1) ys"
    by (rule copy_pagetable_ok [OF P(2,3) oy ys])
  obtain f perm where f: "(stack_page, f, perm) \<in> set ms" using A(8) by blast
  obtain g where g: "(stack_page, g, perm) \<in> set (copies ms gs)" using copies_nth [OF C(4) f C(7)] by blast
  have xsa: "pages (set xs) \<subseteq> avail (heap k) xs" by (simp add: avail_def)
  have gx: "set gs \<subseteq> set xs" using C(5) takes_set [OF P(5)] by blast
  have sub: "avail (heap k1) ys \<subseteq> avail (heap k) xs" using evolvesD(2) [OF P(6)] by simp
  have R: "R \<union> pages (ran ([[] \<mapsto> y] :: pt_tree)) \<union> Rc0 \<subseteq> R \<union> avail (heap k) xs" using P(12) by auto
  have E: "evolves (heap k1) ys (R \<union> avail (heap k) xs) h' zs" by (rule evolves_mono [OF C(8)]) (use R in blast)
  have F: "pages (ran U') \<union> Rp \<union> Rc \<subseteq> R \<union> avail (heap k) xs" using C(9) sub P(12) by simp blast
  have gc: "(stack_page, g, perm) \<in> set (rev (copies ms gs))" using g by simp
  have kw: "reg (kword env) 8 \<inter> (pages (set (frames_in (rev (copies ms gs)))) \<union> pages (ran U') \<union> Rc \<union> avail h' zs) = {}"
    using A(11) F evolvesD(2) [OF E] sub pages_mono [OF gx] xsa copies_pages [OF C(4)] by simp blast
  define k4 where "k4 = fork_task p n pl (k1\<lparr>heap := h'\<rparr>)"
  have T4: "heap k4 = h'" "pgtbl (task k4 n) = y" "cur_sp k4 = cur_sp k" "length (proc k4) = length (proc k)"
    using fork_task_simps [of n p "k1\<lparr>heap := h'\<rparr>" pl] A(3-5) P(7-11) by (simp_all add: k4_def task_def)
  obtain pa where pa: "va_to_pa y (USER_STACK_TOP - PGSIZE) (hmm h') = Inr pa" "PA2VA (pa + PGSIZE) - sizeof_context = g + context_va mod PGSIZE"
    using child_context [OF C(3) gc] by blast
  define k5 where "k5 = set_task n ((task k4 n)\<lparr>p_context := g + context_va mod PGSIZE\<rparr>) k4"
  have k5: "heap k5 = h'" "cur_sp k5 = cur_sp k" using T4 by (simp_all add: k5_def set_task_def)
  note W = put_words_eq [where k = k5, unfolded k5(1), OF C(3) gc fork_words_place(1) [OF A(9,10), of env] kw A(12)]
  let ?k6 = "k5\<lparr>heap := kh.puts (word_writes (kword env) g (fork_words env (cur_sp k))) h'\<rparr>"
  have fk: "fork env p k = Some (Inr (n, ?k6))"
  proof (rule fork_steps [OF P(1) _ k4_def])
    show "copy_pagetable (pgtbl (task k1 p)) (mapping_list (task k1 p)) (pgtbl (task k1 n)) (mapping_list (task k1 n)) (heap k1) = Some (Inr (pl, h'))"
      using C(1) P(8-10) A(3) by simp
    show "va_to_pa (pgtbl (task k4 n)) (USER_STACK_TOP - PGSIZE) (hmm (heap k4)) = Inr pa" using pa(1) T4 by simp
    show "k5 = set_task n ((task k4 n)\<lparr>p_context := PA2VA (pa + PGSIZE) - sizeof_context\<rparr>) k4" using pa(2) by (simp add: k5_def)
    show "put_words env (pgtbl (task k4 n)) (fork_words env (cur_sp k5)) k5 = Inr ?k6" using W(1) T4(2) k5(2) by simp
  qed
  show thesis
    by (rule that [OF fk _ _ _ _ _ _ _ _ P(2,6) C(2,3,4) gx g C(6,7) E F])
      (use fork_task_simps [of n p "k1\<lparr>heap := h'\<rparr>" pl] A(3-5) P(8-11) W(2,3) in \<open>simp_all add: k5_def k4_def task_def set_task_def\<close>)
qed


text \<open>The bytes of parent and child, page by page.\<close>

lemma fork_byte:
  assumes P: "uspace h0 xs r T l ms R" and C: "uspace h' zs q U nl (rev (copies ms gs)) Rc" and n: "length gs = length ms"
    and same: "list_all2 (\<lambda>f g. same_page (mem (hmm h)) f (mem (hmm h1)) g) (frames_in ms) gs" and va: "va < MAXVA"
    and g: "(stack_page, g, perm) \<in> set (copies ms gs)" and h: "\<And>a. a \<in> pages (set (frames_in ms)) \<Longrightarrow> mem (hmm h) a = mem (hmm h0) a"
  shows "(user_addr h0 r va = None \<and> user_addr h' q va = None) \<or> (\<exists>a b. user_addr h0 r va = Some a \<and> user_addr h' q va = Some b \<and>
    a \<in> pages (set (frames_in ms)) \<and> b \<in> pages (set gs) \<and> mem (hmm h1) b = mem (hmm h0) a \<and>
    (\<forall>w. pg w = pg stack_page \<longrightarrow> unat w mod 16384 + 8 \<le> 16384 \<longrightarrow> b \<in> reg (g + w mod PGSIZE) 8 \<longrightarrow> unat (va - w) < 8))"
proof (cases "pg va \<in> set (pages_in ms)")
  case False
  then show ?thesis using user_addr_out [OF P va] user_addr_out [OF C va] copies_pages [OF n] by simp
next
  case True
  then obtain v pa perm' where m: "(v, pa, perm') \<in> set ms" "pg va = pg v" by (auto simp: pages_in_def)
  obtain g' where g': "(v, g', perm') \<in> set (copies ms gs)" "same_page (mem (hmm h)) pa (mem (hmm h1)) g'" using copies_nth [OF n m(1) same] by blast
  then have c: "(v, g', perm') \<in> set (rev (copies ms gs))" "(stack_page, g, perm) \<in> set (rev (copies ms gs))" using g by simp_all
  note A = user_addr_in [OF P va m] user_addr_in [OF C va c(1) m(2)]
  note F = user_addr_frame [OF P va A(1)] user_addr_frame [OF C va A(2)]
  have "unat (va mod PGSIZE) < 16384" by (simp add: unat_mod PGSIZE_def)
  then have "mem (hmm h1) (g' + of_nat (unat (va mod PGSIZE))) = mem (hmm h) (pa + of_nat (unat (va mod PGSIZE)))"
    using g'(2) unfolding same_page_def by blast
  then have "mem (hmm h1) (g' + va mod PGSIZE) = mem (hmm h0) (pa + va mod PGSIZE)" using h [OF F(1)] by simp
  then show ?thesis using A F word_hit [OF C c(1) m(2) c(2)] copies_pages [OF n] by simp
qed

lemma user_addr_same:
  assumes "uspace h xs r T l ms R" "uspace h' ys r' T' l' (rev ms) R'" "va < MAXVA"
  shows "user_addr h' r' va = user_addr h r va"
proof (cases "pg va \<in> set (pages_in ms)")
  case True
  then obtain v pa perm where m: "(v, pa, perm) \<in> set ms" "pg va = pg v" by (auto simp: pages_in_def)
  then show ?thesis using user_addr_in [OF assms(1,3) m] user_addr_in [OF assms(2,3), of v pa perm] by simp
qed (use user_addr_out [OF assms(1,3)] user_addr_out [OF assms(2,3)] in simp)

text \<open>The state after \<open>fork\<close>: both processes, and the memory of the parent unchanged.\<close>

lemma fork_view:
  assumes "can_fork env p k n xs T ms R"
  obtains k' and h :: kheap and h' zs U' Rp Rc gs g perm where "fork env p k = Some (Inr (n, k'))" "pgtbl (task k' p) = pgtbl (task k p)"
    "state (task k' n) = TASK_RUNABLE" "parent (task k' n) = Some p" "p_context (task k' n) = g + context_va mod PGSIZE"
    "heap k' = kh.puts (word_writes (kword env) g (fork_words env (cur_sp k))) h'"
    "uspace (heap k') zs (pgtbl (task k p)) T (mapping_list (task k' p)) (rev ms) Rp"
    "uspace (heap k') zs (pgtbl (task k' n)) U' (mapping_list (task k' n)) (rev (copies ms gs)) Rc"
    "length gs = length ms" "(stack_page, g, perm) \<in> set (copies ms gs)"
    "list_all2 (\<lambda>f g. same_page (mem (hmm h)) f (mem (hmm h')) g) (frames_in ms) gs"
    "\<forall>a\<in>pages (set (frames_in ms)). mem (hmm h) a = kmem k a \<and> kmem k' a = kmem k a"
    "pages (set (frames_in ms)) \<inter> pages (set gs) = {}" "reg (kword env) 8 \<inter> pages (set gs) = {}" "pages {g} \<subseteq> pages (set gs)"
proof -
  note A = can_forkD [OF assms]
  obtain k' h h' ys zs pl q U' nl Rp Rc gs g perm where F: "fork env p k = Some (Inr (n, k'))"
    "pgtbl (task k' p) = pgtbl (task k p)" "mapping_list (task k' p) = pl" "pgtbl (task k' n) = q" "mapping_list (task k' n) = nl"
    "state (task k' n) = TASK_RUNABLE" "parent (task k' n) = Some p" "p_context (task k' n) = g + context_va mod PGSIZE"
    "heap k' = kh.puts (word_writes (kword env) g (fork_words env (cur_sp k))) h'"
    "uspace h ys (pgtbl (task k p)) T (mapping_list (task k p)) ms R" "evolves (heap k) xs {} h ys"
    "uspace h' zs (pgtbl (task k p)) T pl (rev ms) Rp" "uspace h' zs q U' nl (rev (copies ms gs)) Rc" "length gs = length ms"
    "set gs \<subseteq> set xs" "(stack_page, g, perm) \<in> set (copies ms gs)"
    "owned h' zs [pages (set (frames_in ms)), pages (set gs), pages (ran T), pages (ran U'), Rp, Rc]"
    "list_all2 (\<lambda>f g. same_page (mem (hmm h)) f (mem (hmm h')) g) (frames_in ms) gs"
    "evolves h ys (R \<union> avail (heap k) xs) h' zs" "pages (ran U') \<union> Rp \<union> Rc \<subseteq> R \<union> avail (heap k) xs"
    "uspace (heap k') zs q U' nl (rev (copies ms gs)) Rc" "evolves h' zs (reg (kword env) 8 \<union> pages {g}) (heap k') zs"
    by (rule fork_parts [OF assms])
  let ?F = "pages (set (frames_in ms))" and ?W = "reg (kword env) 8 \<union> pages {g}"
  have "g \<in> set (frames_in (copies ms gs))" using F(16) by (force simp: frames_in_def)
  then have "g \<in> set gs" using copies_pages [OF F(14)] by simp
  then have g: "pages {g} \<subseteq> pages (set gs)" by (intro pages_mono) simp
  have gx: "pages (set gs) \<subseteq> avail (heap k) xs" using pages_mono [OF F(15)] by (auto simp: avail_def)
  have o: "?F \<inter> pages (set gs) = {}" "pages (set gs) \<inter> (pages (ran T) \<union> Rp) = {}" "?F \<inter> avail h' zs = {}" using F(17) by (auto simp: owned_def)
  have W: "?W \<inter> (pages (ran T) \<union> Rp) = {}" "?F \<inter> ?W = {}" "reg (kword env) 8 \<inter> pages (set gs) = {}"
    using A(11) F(20) gx g o by blast+
  have fa: "?F \<inter> avail (heap k') zs = {}" using evolvesD(2) [OF F(22)] W(2) o(3) by blast
  have P: "uspace (heap k') zs (pgtbl (task k p)) T pl (rev ms) Rp"
    by (rule uspace_write(1) [OF F(12,22) W(1) _ spaceD(5) [OF vspaceD(1) [OF uspaceD(1) [OF F(12)]]]]) (use fa in simp)
  have h: "mem (hmm h) a = mem (hmm (heap k)) a" "mem (hmm (heap k')) a = mem (hmm (heap k)) a" if a: "a \<in> ?F" for a
  proof -
    have na: "a \<notin> R \<union> avail (heap k) xs" using uspaceD(6) [OF A(1)] a by blast
    then have nh: "a \<notin> avail h ys" using evolvesD(2) [OF F(11)] by blast
    show "mem (hmm h) a = mem (hmm (heap k)) a" using evolvesD(3) [OF F(11)] na by simp
    moreover have "mem (hmm h') a = mem (hmm h) a" by (rule evolvesD(3) [OF F(19)]) (use na nh in blast)
    moreover have "mem (hmm (heap k')) a = mem (hmm h') a" by (rule evolvesD(3) [OF F(22)]) (use W(2) o(3) a in blast)
    ultimately show "mem (hmm (heap k')) a = mem (hmm (heap k)) a" by simp
  qed
  have m: "\<forall>a\<in>?F. mem (hmm h) a = kmem k a \<and> kmem k' a = kmem k a" using h by (simp add: kmem_def)
  have C: "uspace (heap k') zs (pgtbl (task k' n)) U' (mapping_list (task k' n)) (rev (copies ms gs)) Rc" using F(21) by (simp add: F(4,5))
  show thesis by (rule that [OF F(1,2,6,7,8,9) P [folded F(3)] C F(14,16,18) m o(1) W(3) g])
qed

section \<open>Properties\<close>

text \<open>
  C13: \<open>fork\<close> as a whole. With a free slot, seven free pages per page of the parent and three more, and the trap frame on the top page of the parent's stack,
  it ends and returns the slot of the child: the child is runnable and has the parent, the page tables and lists of both processes agree, the
  parent finds every byte where it was, the child has exactly the pages of the parent in places of its own with the same bytes, but for three words: \<open>a0\<close> of its trap frame is 0,
  so \<open>fork\<close> returns 0 in the child, and its context, to which \<open>np->context\<close> points, has the stack pointer at the trap frame and the return address \<open>exec_helper\<close>.
\<close>

theorem fork_child_resumes:
  assumes "can_fork env p k n xs T ms R"
  shows "\<exists>k' zs U Rp Rc cs. fork env p k = Some (Inr (n, k')) \<and> state (task k' n) = TASK_RUNABLE \<and> parent (task k' n) = Some p \<and>
    uspace (heap k') zs (pgtbl (task k' p)) T (mapping_list (task k' p)) (rev ms) Rp \<and>
    uspace (heap k') zs (pgtbl (task k' n)) U (mapping_list (task k' n)) cs Rc \<and>
    (\<forall>va<MAXVA. user_addr (heap k') (pgtbl (task k' p)) va = user_addr (heap k) (pgtbl (task k p)) va \<and>
      (case user_addr (heap k) (pgtbl (task k p)) va of None \<Rightarrow> user_addr (heap k') (pgtbl (task k' n)) va = None
       | Some a \<Rightarrow> \<exists>b. user_addr (heap k') (pgtbl (task k' n)) va = Some b \<and> a \<noteq> b \<and> kmem k' a = kmem k a \<and>
           ((\<forall>(w, v)\<in>set (fork_words env (cur_sp k)). 8 \<le> unat (va - w)) \<longrightarrow> kmem k' b = kmem k a))) \<and>
    (\<forall>(w, v)\<in>set (fork_words env (cur_sp k)). \<exists>b. user_addr (heap k') (pgtbl (task k' n)) w = Some b \<and> ld64 b (heap k') = v) \<and>
    user_addr (heap k') (pgtbl (task k' n)) context_va = Some (p_context (task k' n))"
proof -
  note A = can_forkD [OF assms]
  obtain k' and h :: kheap and h' zs U' Rp Rc gs g perm where F: "fork env p k = Some (Inr (n, k'))" "pgtbl (task k' p) = pgtbl (task k p)"
    "state (task k' n) = TASK_RUNABLE" "parent (task k' n) = Some p" "p_context (task k' n) = g + context_va mod PGSIZE"
    "heap k' = kh.puts (word_writes (kword env) g (fork_words env (cur_sp k))) h'"
    "uspace (heap k') zs (pgtbl (task k p)) T (mapping_list (task k' p)) (rev ms) Rp"
    "uspace (heap k') zs (pgtbl (task k' n)) U' (mapping_list (task k' n)) (rev (copies ms gs)) Rc"
    "length gs = length ms" "(stack_page, g, perm) \<in> set (copies ms gs)"
    "list_all2 (\<lambda>f g. same_page (mem (hmm h)) f (mem (hmm h')) g) (frames_in ms) gs"
    "\<forall>a\<in>pages (set (frames_in ms)). mem (hmm h) a = kmem k a \<and> kmem k' a = kmem k a"
    "pages (set (frames_in ms)) \<inter> pages (set gs) = {}" "reg (kword env) 8 \<inter> pages (set gs) = {}" "pages {g} \<subseteq> pages (set gs)"
    by (rule fork_view [OF assms])
  let ?F = "pages (set (frames_in ms))" and ?ws = "fork_words env (cur_sp k)" and ?q = "pgtbl (task k' n)"
  have h: "mem (hmm h) a = mem (hmm (heap k)) a" if "a \<in> ?F" for a using F(12) that by (simp add: kmem_def)
  note pl = fork_words_place(1) [OF A(9,10), of env]
  have B: "case user_addr (heap k) (pgtbl (task k p)) va of None \<Rightarrow> user_addr (heap k') ?q va = None
       | Some a \<Rightarrow> \<exists>b. user_addr (heap k') ?q va = Some b \<and> a \<noteq> b \<and> kmem k' a = kmem k a \<and>
           ((\<forall>(w, v)\<in>set ?ws. 8 \<le> unat (va - w)) \<longrightarrow> kmem k' b = kmem k a)" if va: "va < MAXVA" for va
  proof (cases "user_addr (heap k) (pgtbl (task k p)) va")
    case None
    then show ?thesis using fork_byte [OF A(1) F(8,9,11) va F(10) h] by simp
  next
    case (Some a)
    then obtain b where b: "user_addr (heap k') ?q va = Some b" "a \<in> ?F" "b \<in> pages (set gs)" "mem (hmm h') b = mem (hmm (heap k)) a"
      "\<forall>w. pg w = pg stack_page \<longrightarrow> unat w mod 16384 + 8 \<le> 16384 \<longrightarrow> b \<in> reg (g + w mod PGSIZE) 8 \<longrightarrow> unat (va - w) < 8"
      using fork_byte [OF A(1) F(8,9,11) va F(10) h] by auto
    have "mem (hmm (heap k')) b = mem (hmm h') b" if "\<forall>(w, v)\<in>set ?ws. 8 \<le> unat (va - w)"
      unfolding F(6) using F(14,15) b(3,5) that pl by (intro fork_words_read(2) [OF A(9,10)]) fastforce+
    then show ?thesis using Some b F(12,13) by (auto simp: kmem_def)
  qed
  have c: "(stack_page, g, perm) \<in> set (rev (copies ms gs))" using F(10) by simp
  have D: "\<exists>b. user_addr (heap k') ?q w = Some b \<and> ld64 b (heap k') = v" if w: "(w, v) \<in> set ?ws" for w v
    using pl w user_addr_in [OF F(8) _ c, of w] fork_words_read(1) [OF A(9,10) _ w, of "kword env" g h'] F(14,15) F(6) by fastforce
  have "context_va < MAXVA" "pg context_va = pg stack_page"
    by (simp_all add: context_va_def sizeof_context_def context_regs_def USER_STACK_TOP_def stack_page_def PGSIZE_def MAXVA_def pg_def)
  then have E: "user_addr (heap k') ?q context_va = Some (p_context (task k' n))" using user_addr_in [OF F(8) _ c] F(5) by simp
  show ?thesis using F(1-4,7,8) user_addr_same [OF A(1) F(7)] B D E
    by - (rule exI [of _ k'], rule exI [of _ zs], rule exI [of _ U'], rule exI [of _ Rp], rule exI [of _ Rc], rule exI [of _ "rev (copies ms gs)"], auto)
qed


text \<open>A process with a stack page in the second slot of the task table, the kernel's stack past the pages of the allocator.\<close>

definition forking_kernel :: "u64 \<Rightarrow> kheap \<Rightarrow> kernel" where
  "forking_kernel l h = sample_kernel\<lparr>proc := (proc sample_kernel)[1 := (task sample_kernel 1)\<lparr>pgtbl := KERNBASE + 491520, mapping_list := l\<rparr>],
     heap := h, cur_sp := context_va - sizeof_trapframe\<rparr>"

lemma forking_kernel_simps:
  "heap (forking_kernel l h) = h" "cur_sp (forking_kernel l h) = context_va - sizeof_trapframe" "length (proc (forking_kernel l h)) = PROC_MAX"
  "pgtbl (task (forking_kernel l h) 1) = KERNBASE + 491520" "mapping_list (task (forking_kernel l h) 1) = l"
  "find (\<lambda>i. allocs (task (forking_kernel l h) i) = UNUSED) [0..<PROC_MAX] = Some 3"
proof -
  have u: "i < PROC_MAX \<Longrightarrow> allocs (task (forking_kernel l h) i) = (if i < 3 then USED else UNUSED)" for i
    by (auto simp: forking_kernel_def task_def sample_kernel_def zero_task_def nth_list_update PROC_MAX_def)
  then show "find (\<lambda>i. allocs (task (forking_kernel l h) i) = UNUSED) [0..<PROC_MAX] = Some 3"
    unfolding find_Some_iff by (intro exI [of _ 3]) (auto simp: PROC_MAX_def)
qed (simp_all add: forking_kernel_def sample_kernel_def task_def PROC_MAX_def)

lemma sample_forks:
  assumes "kword env = KERNBASE + 0x100000"
  obtains s l h h1 f T ys R where "pgtbl_create (sample_heap 31) = Inr (KERNBASE + 491520, s)" "mlist_init (heap_boot s) = Inr (l, h)"
    "alloc_vm (KERNBASE + 491520) l stack_page USER_STACK_TOP PTE_USER h = Inr (0, h1)"
    "can_fork env 1 (forking_kernel l h1) 3 ys T [(stack_page, f, PTE_USER)] R"
proof -
  have c: "context_va = 0x7FFEFF08" "sizeof_trapframe = 264" "stack_page = 0x7FFEC000" "USER_STACK_TOP = 0x7FFF0000"
    by (simp_all add: context_va_def sizeof_context_def sizeof_trapframe_def trapframe_regs_def context_regs_def USER_STACK_TOP_def stack_page_def PGSIZE_def)
  have "PGROUNDUP USER_STACK_TOP = USER_STACK_TOP" by (simp add: c PGROUNDUP_def PGSIZE_def)
  then have a: "page_aligned stack_page" "stack_page \<le> PGROUNDUP USER_STACK_TOP" "PGROUNDUP USER_STACK_TOP \<le> MAXVA"
    "pg (PGROUNDUP USER_STACK_TOP) = Suc (pg stack_page)" "PTE_USER AND PAMASK = 0" "PTE_USER AND PTE_V \<noteq> 0"
    by (simp_all add: c page_aligned_def MAXVA_def pg_def PAMASK_def PTE_V_def PTE_USER_def)
  obtain s l h h1 f T ys R where S: "pgtbl_create (sample_heap 31) = Inr (KERNBASE + 491520, s)" "mlist_init (heap_boot s) = Inr (l, h)"
    "alloc_vm (KERNBASE + 491520) l stack_page USER_STACK_TOP PTE_USER h = Inr (0, h1)"
    "uspace h1 ys (KERNBASE + 491520) T l [(stack_page, f, PTE_USER)] R" "24 \<le> length ys" "\<forall>x\<in>set ys. PTE2PA x \<noteq> 0"
    "pages {f} \<union> pages (ran T) \<union> R \<union> avail h1 ys \<subseteq> pages (set (page_run KERNBASE 31))"
    by (rule sample_page_at [OF a])
  have far: "reg (KERNBASE + 0x100000) 8 \<inter> pages (set (page_run KERNBASE 31)) = {}"
  proof -
    have "\<not> in_page x b" if "x \<in> set (page_run KERNBASE 31)" "b \<in> reg (KERNBASE + 0x100000) 8" for x b
    proof -
      obtain i where i: "i < 31" "x = KERNBASE + of_nat (i * 16384)" using \<open>x \<in> _\<close> by (auto simp: page_run_def)
      have x: "unat x = 10376293543877541888 + i * 16384" "dmw_page x" using sample_page [of i] i by simp_all
      define d where "d = b - (KERNBASE + 0x100000)"
      have d: "unat d < 8" "b = d + (KERNBASE + 0x100000)" using \<open>b \<in> _\<close> by (simp_all add: d_def reg_def in_region_def)
      have "unat b = unat d + 10376293543878590464" unfolding d(2) using d(1) by (subst unat_plus_64) (simp_all add: KERNBASE_def)
      then have "unat b div 16384 \<noteq> unat x div 16384" using d(1) x(1) i(1) by linarith
      then show ?thesis using x(2) in_page_iff [of x b] by (simp add: dmw_page_def)
    qed
    then show ?thesis by (auto simp: pages_def)
  qed
  have "can_fork env 1 (forking_kernel l h1) 3 ys T [(stack_page, f, PTE_USER)] R"
    using S(4-7) far assms unfolding can_fork_def forking_kernel_simps by (auto simp: c PROC_MAX_def KERNBASE_def)
  then show ?thesis using S(1-3) by (intro that)
qed

theorem fork_child_resumes_witness:
  "\<exists>s l h h1 k' a b. pgtbl_create (sample_heap 31) = Inr (KERNBASE + 491520, s) \<and> mlist_init (heap_boot s) = Inr (l, h) \<and>
    alloc_vm (KERNBASE + 491520) l stack_page USER_STACK_TOP PTE_USER h = Inr (0, h1) \<and>
    fork \<lparr>fsenv = sample_env, elf_buf = 0, exec_helper = 0x90000000A0000000, kword = KERNBASE + 0x100000\<rparr> 1 (forking_kernel l h1) = Some (Inr (3, k')) \<and>
    state (task k' 3) = TASK_RUNABLE \<and> user_addr (heap k') (pgtbl (task k' 3)) (context_va - sizeof_trapframe + place ''a0'') = Some a \<and> ld64 a (heap k') = 0 \<and>
    user_addr (heap k') (pgtbl (task k' 3)) context_va = Some b \<and> p_context (task k' 3) = b \<and> ld64 b (heap k') = 0x90000000A0000000"
proof -
  let ?env = "\<lparr>fsenv = sample_env, elf_buf = 0, exec_helper = 0x90000000A0000000, kword = KERNBASE + 0x100000\<rparr>"
  obtain s l h h1 f T ys R where S: "pgtbl_create (sample_heap 31) = Inr (KERNBASE + 491520, s)" "mlist_init (heap_boot s) = Inr (l, h)"
    "alloc_vm (KERNBASE + 491520) l stack_page USER_STACK_TOP PTE_USER h = Inr (0, h1)"
    "can_fork ?env 1 (forking_kernel l h1) 3 ys T [(stack_page, f, PTE_USER)] R"
    by (rule sample_forks [of ?env]) simp
  obtain k' where K: "fork ?env 1 (forking_kernel l h1) = Some (Inr (3, k'))" "state (task k' 3) = TASK_RUNABLE"
    "\<forall>(w, v)\<in>set (fork_words ?env (cur_sp (forking_kernel l h1))). \<exists>b. user_addr (heap k') (pgtbl (task k' 3)) w = Some b \<and> ld64 b (heap k') = v"
    "user_addr (heap k') (pgtbl (task k' 3)) context_va = Some (p_context (task k' 3))"
    using fork_child_resumes [OF S(4)] by blast
  then obtain a where "user_addr (heap k') (pgtbl (task k' 3)) (context_va - sizeof_trapframe + place ''a0'') = Some a" "ld64 a (heap k') = 0"
    by (auto simp: fork_words_def forking_kernel_simps)
  moreover have "ld64 (p_context (task k' 3)) (heap k') = 0x90000000A0000000" using K(3,4) by (simp add: fork_words_def)
  ultimately show ?thesis using S(1-3) K(1,2,4) by blast
qed

end
