(* ===== verification/Spec2Isabelle.thy ===== *)
theory Spec2Isabelle
  imports CString CSort Stdio Structs Boot ForkTask
begin

text \<open>
  Verification development for LoOS, a kernel for LoongArch written in C (sources under src/).

  \<^bold>\<open>The program.\<close> \<open>_start\<close> and \<open>kmain\<close> (core/_start.c, core/kmain.c) set up the control registers, the page allocator, the open files,
  the task table and the disk, load the first program and enter the loop of the scheduler.
  The scheduler (core/sche.c) switches to a runnable task (core/swtch.s); the task traps back into the kernel by system calls,
  exceptions and the timer (core/trap_entry.s, core/trap.c, core/syscall.c, core/time.c). System calls work on tasks
  (core/proc.c, core/exec.c), on open files (fs/ext2_fs.c) over a reader of ext2 (fs/ext2.c) over the disk driver
  (driver/ahci.c), and on the console (driver/uart.c). Tasks own page tables and lists of mapped pages (mm/n_vm.c,
  lolibc/struct/mlist.c), which live in pages of the allocator (mm/memblock.c, mm/mm.c) and in blocks of the kernel heap
  (lolibc/stdlib.c); the processor reads the tables through the refill handler mm/tlb_entry.s. The rest of lolibc is the C library of the kernel.

  \<^bold>\<open>How it is modelled.\<close> Pointers, sizes and registers are 64-bit words, \<open>int\<close> is an integer or a 32-bit word,
  memory is a function from addresses to bytes; objects that the code reaches by addresses (free pages, page tables, heap
  blocks, mapping lists, trap frames, strings) live in that memory. Statically allocated tables (open files, tasks) are lists
  of records; the links between tasks are a pair of maps from node to node; the control registers and the TLB are a record. An operation takes the state and returns an error or a value with the
  new state (\<open>kres\<close>, theory Prelude): \<open>panic\<close>, failed assertions, accesses that C gives no meaning to, and calls
  that do not return are errors. A loop that may run for ever is a \<open>partial_function\<close> with \<open>None\<close> for not
  returning, or has a termination proof; there is no fuel, and the only counted loops are those of the code (100 chunks
  in \<open>malloc\<close>, 1024 characters in \<open>strcmp\<close>, a million polls in the disk driver).

  \<^bold>\<open>Theories.\<close>
  \<^item> Prelude, CMem: error results, counted loops, words; byte memory, little-endian words.
  \<^item> CString, SortSpec, CSort, Stdio, Structs: lolibc/string.c (copying, comparing, tokens), its \<open>qsort\<close>, lolibc/stdio.c, the
    bitmap and the table of lolibc/struct. \<open>memmove\<close> is right for any overlap; numbers printed read back; the bitmap
    gives out the first run that fits and takes it back, with or without assertions compiled in. \<open>qsort\<close> (CSort) works on memory and on the kernel heap, from which it takes
    the buffer for every exchange; it refines a sort of the list of elements (SortSpec), so that it ends and sorts.
  \<^item> Memblock: the list of free pages, with the interface \<open>page_allocator\<close>: a locale that states what \<open>kmalloc\<close> and
    \<open>kfree\<close> promise and derives the facts its clients use, interpreted on the code's definitions. All pages of the
    range get on the list; pages handed out are distinct; freeing and allocating are inverse.
  \<^item> PageTable, UserMem: walking, mapping and freeing page tables of three levels; copies between kernel and user
    addresses. A mapped page translates to its frame and no other translation changes; freeing returns every table page; bytes
    copied out come back.
  \<^item> KHeap, Vm: \<open>malloc\<close> and \<open>free\<close> with their invariant; mapping lists; the operations that allocate, copy and free address spaces.
  \<^item> HeapSpace: which memory the heap and the page allocator may still hand out (\<open>avail\<close>), and that every operation only writes
    there and to its own objects (\<open>evolves\<close>). The interface \<open>block_heap\<close> states what \<open>malloc\<close> and \<open>free\<close> promise for the blocks of 16, 24 and 32 bytes that
    the kernel asks for and of which it gives back those of 24 and 32 bytes; blocks given back may be handed out again.
  \<^item> AddrSpace, Fork: page tables, mapping lists, heap and free pages together. \<open>alloc_vm\<close> maps zeroed frames and records them, \<open>copy_pagetable\<close>
    gives the child of \<open>fork\<close> frames of its own with the same bytes, \<open>pgtbl_free\<close> gives everything back; table and list of a process agree
    throughout (\<open>uspace\<close>). The interface \<open>memory_part\<close> states what a part of memory with a footprint keeps while others work; it is interpreted on page tables,
    lists and processes.
  \<^item> ForkTask: \<open>fork\<close> from the free slot to the child that is ready to run: both processes see the same bytes at every user address, in different places,
    but for the words that make the child return 0 on a stack of its own.
  \<^item> Ext2, Fs: decoding of the disk structures, inodes, directories, paths, block maps and file contents, with abstract
    directories and files they refine; descriptors and open files with the invariant that descriptors lead to files or to the console; the console. The
    entry loop of \<open>find_dir_entry\<close> need not end; where it does not is characterised exactly.
  \<^item> KList: the linked lists of lolibc/kstruct/list.h refine sequences, with the interface \<open>deque\<close> (a locale, interpreted on
    the code's operations).
  \<^item> Proc, Exec, Syscall: task table, scheduler, timer; program loading and \<open>fork\<close>; every system call, the
    dispatcher and the trap handler. The scheduler is fair; new tasks get a slot and number of their own; \<open>wait4\<close>, \<open>chdir\<close>,
    unknown calls and the layout of the first stack.
  \<^item> Kernel: scheduler, traps and programs as one transition system \<open>kernel_step\<close>, with timer interrupts while a program runs, while a read waits
    for a key, and in the first pass of the scheduler, where \<open>kmain\<close> has turned interrupts on. The invariant that only the task that
    executes is marked running, but for the kernel task if the first switch was interrupted, is shown by induction over its steps.
  \<^item> Machine: the control registers the kernel sets (include/asm/cpu.h, mm/mm.c, \<open>vm_init\<close>), the TLB with the refill handler, the switch of contexts, entry to and
    exit from traps, power off. The hardware walk finds the entries the software walk finds; a task that is switched away continues with its
    registers; a system call returns behind its instruction.
  \<^item> Ahci, Disk: the disk driver's commands and waits; \<open>disk_init\<close> and the block read over the driver. The interface \<open>block_device\<close> states what
    the ext2 reader relies on; it is interpreted on the block read of Ext2 and holds of the driver with every drive that carries out
    its commands (\<open>carries_out_reads\<close>, \<open>answers\<close>).
  \<^item> Boot: \<open>_start\<close> and \<open>kmain\<close>. The state before the disk is initialised satisfies the invariants of the other
    theories, and every state the kernel reaches from there keeps the one of Kernel.
  \<^item> This theory: what a program sees in memory it was given, from the page allocator to the TLB.

  \<^bold>\<open>Parameters.\<close> The contents of the disk and what the controller does with a command, what junk lies in
  uninitialised buffers, the addresses the linker assigns, the keys that arrive, and the signal handlers of programs (assumed
  to leave the task table alone where the invariant of the kernel needs it) are arguments of the definitions. The instructions \<open>lddir\<close>, \<open>ldpte\<close>, \<open>tlbfill\<close> and
  \<open>invtlb\<close> are modelled as docs/loongarch/mm.md and the architecture describe them; a TLB that forgets entries by itself is not considered.

  \<^bold>\<open>Behaviour that is not what the code means to do\<close> is stated as theorems where it matters: a directory record of
  length 0 (Ext2), reference counts of descriptors and the line buffer of the console (Fs), blocks of the heap that are
  too small or handed out twice (KHeap), a removed element that stays linked (Vm), a program that cannot
  be loaded (Exec), \<open>sendfile\<close> (Syscall), \<open>%u\<close> (Stdio), a page that stays invalid in the TLB after it was mapped (Machine), a failed read that
  goes unnoticed (Disk), a bitmap scan that runs over the end (Structs), and two tasks marked running after an interrupt of the first switch (Kernel).

  \<^bold>\<open>Not modelled.\<close> In the model of the C code a call that ends in a switch returns the state in
  which the other context goes on; the exchange of registers behind it is in Machine. User addresses that the kernel follows directly in a system call are
  addresses of the one memory, without the translation of the processor. Timer interrupts inside \<open>switch_to\<close>, behind its store to the current task, have no step: they
  would store the registers of the kernel into the context of the new task. The model of \<open>getstr\<close> is a call that no other reader interrupts; that the processor
  may be given away while it waits for a key is a step of \<open>kernel_step\<close>. Assertions outside of the bitmap are those of a build in which they are compiled in and halt. Left out are the output of \<open>printf\<close> and \<open>Log\<close> inside the other parts and the functions
  that only print (\<open>proc_print\<close>, \<open>mlist_print\<close>, \<open>map_print\<close>, \<open>hexdump\<close>); \<open>halt\<close>, an endless loop; accessors of control registers that
  nothing uses and the operations of \<open>invtlb\<close> other than the one that clears all; fs/open.c, which is not built; the test in
  lolibc/kstruct/list.c; headers that only define constants and types the code does not use.
\<close>

section \<open>Growing a process, as its program sees it\<close>

text \<open>
  C16: a program reads 0 from every byte of the memory it was given: when \<open>alloc_vm\<close> has grown its address space, the processor, after a switch to the task
  and whatever it has accessed since, translates an address of the new range by a valid entry, and the byte at the physical
  address it gets there is 0. The pages of the tables and of the free list are taken to lie between the kernel's base and
  the end of its memory.
\<close>

theorem grown_memory_reads_zero:
  assumes "vspace h xs r T l ms R" "page_aligned va0" "va0 \<le> PGROUNDUP e" "PGROUNDUP e \<le> MAXVA"
    and "5 * (pg (PGROUNDUP e) - pg va0) \<le> length xs" "perm AND PAMASK = 0" "perm AND PTE_V \<noteq> 0"
    and "\<forall>t\<in>ran T \<union> set xs. KERNBASE \<le> t \<and> t < PHYSTOP" "va0 \<le> va" "va < PGROUNDUP e"
  shows "\<exists>h' en. alloc_vm r l va0 e perm h = Inr (0, h') \<and>
    tlb_entry (access (mem (hmm h')) va (fold (access (mem (hmm h'))) vs (switch_csrs r (vm_init c)))) va = Some en \<and> en AND PTE_V \<noteq> 0 \<and>
    mem (hmm h') (phys_at (PTE2PA en + va mod PGSIZE)) = 0"
proof -
  obtain h' T' ys R' fs where
    A: "alloc_vm r l va0 e perm h = Inr (0, h')" "vspace h' ys r T' l (rev (page_maps va0 perm fs) @ ms) R'"
      "length fs = pg (PGROUNDUP e) - pg va0" "set fs \<subseteq> set xs" "ran T' \<subseteq> ran T \<union> set xs"
      "frames_for fs va0 perm (mem (hmm h)) T (mem (hmm h')) T'"
    by (rule alloc_vm_ok [OF assms(1-5), of perm])
  let ?m = "mem (hmm h')" and ?f = "fs ! (pg va - pg va0)"
  have va: "va < MAXVA" using assms(4,10) by simp
  have "PGROUNDUP e = PGROUNDDOWN (e + PGSIZE - 1)" by (simp add: PGROUNDUP_def PGROUNDDOWN_def)
  then have "unat va < unat (PGROUNDUP e)" "16384 dvd unat (PGROUNDUP e)" "unat va0 \<le> unat va"
    using assms(9,10) PGROUNDDOWN_unat [of "e + PGSIZE - 1"] by (simp_all add: word_less_nat_alt word_le_nat_alt dvd_minus_mod)
  then have p: "pg va0 \<le> pg va" "pg va < pg (PGROUNDUP e)" by (auto simp: pg_def div_le_mono elim!: dvdE)
  then have f: "?f \<in> set fs" "pg va < pg va0 + length fs" using A(3) by simp_all
  let ?en = "PA2PTE ?f OR PTE_FLAGS (pte_of (mem (hmm h)) T va) OR perm"
  have en: "pte_of ?m T' va = ?en" using A(6) va p(1) f(2) by (simp add: frames_for_def)
  note N = new_pte [OF assms(6,7)]
  have dom: "vpath 2 va \<in> dom T'" 
  proof (rule ccontr)
    assume "vpath 2 va \<notin> dom T'"
    then have "?en = 0" using en by (simp add: pte_of_def domIff)
    then show False using N(2) [of ?f "pte_of (mem (hmm h)) T va"] by simp
  qed
  note wf = spaceD(4) [OF vspaceD(1) [OF A(2)]]
  have ran: "\<forall>t\<in>ran T'. KERNBASE \<le> t \<and> t < PHYSTOP" using assms(8) A(5) by blast
  have hw: "tlb_entry (access ?m va (fold (access ?m) vs (switch_csrs r (vm_init c)))) va = Some ?en"
    using access_keeps(2) [OF wf ran accesses_keep [OF wf ran switched_tlb_ok] va dom] by (simp add: en)
  have F: "dmw_page ?f" "KERNBASE \<le> ?f" "?f < PHYSTOP"
    using spaceD(5) [OF vspaceD(1) [OF assms(1)]] assms(8) f(1) A(4) by blast+
  have "va mod PGSIZE < PGSIZE" by (simp add: PGSIZE_def word_mod_less_divisor)
  note ph = phys_at_frame [OF F this]
  have "?m (phys_at (PTE2PA ?en + va mod PGSIZE)) = 0" using A(6) f(1) ph by (simp add: N(1) frames_for_def)
  then show ?thesis using A(1) hw N(2) by blast
qed

theorem grown_memory_reads_zero_witness:
  "\<exists>s l h h' en. pgtbl_create (sample_heap 12) = Inr (KERNBASE + 180224, s) \<and> mlist_init (heap_boot s) = Inr (l, h) \<and>
    alloc_vm (KERNBASE + 180224) l 0x10000 0x14001 7 h = Inr (0, h') \<and>
    tlb_entry (access (mem (hmm h')) 0x14010
      (fold (access (mem (hmm h'))) [0x10000, 0x7fff0] (switch_csrs (KERNBASE + 180224) (vm_init reset_csrs)))) 0x14010 = Some en \<and>
    en AND PTE_V \<noteq> 0 \<and> mem (hmm h') (phys_at (PTE2PA en + 0x10)) = 0"
proof -
  let ?r = "KERNBASE + 180224"
  obtain s l h R ys where s: "pgtbl_create (sample_heap 12) = Inr (?r, s)" and
    l: "mlist_init (heap_boot s) = Inr (l, h)" "vspace h ys ?r [[] \<mapsto> ?r] l [] R" "11 \<le> Suc (length ys)"
      "set ys \<subseteq> set (page_run KERNBASE 11)" "\<forall>va. pte_of (mem (hmm h)) [[] \<mapsto> ?r] va = 0"
    by (rule sample_space [of 11 ?r 12]) (simp_all del: sample_heap.simps)
  have g: "PGROUNDUP 0x14001 = (0x18000 :: u64)" by (simp add: PGROUNDUP_def PGSIZE_def)
  have a: "page_aligned 0x10000" "(0x10000 :: u64) \<le> PGROUNDUP 0x14001" "PGROUNDUP 0x14001 \<le> MAXVA"
    "5 * (pg (PGROUNDUP 0x14001) - pg 0x10000) \<le> length ys" "(7 :: u64) AND PAMASK = 0" "(7 :: u64) AND PTE_V \<noteq> 0"
    "(0x10000 :: u64) \<le> 0x14010" "(0x14010 :: u64) < PGROUNDUP 0x14001"
    using l(3) by (simp_all add: g page_aligned_def MAXVA_def pg_def PAMASK_def PTE_V_def)
  have "\<forall>t\<in>insert ?r (set (page_run KERNBASE 11)). KERNBASE \<le> t \<and> t < PHYSTOP"
    by (auto simp: page_run_def KERNBASE_def PHYSTOP_def KMEMSIZE_def word_le_nat_alt word_less_nat_alt upt_rec)
  then have b: "\<forall>t\<in>ran [[] \<mapsto> ?r] \<union> set ys. KERNBASE \<le> t \<and> t < PHYSTOP" using l(4) by auto
  have o: "(0x14010 :: u64) mod PGSIZE = 0x10" by (simp add: PGSIZE_def)
  show ?thesis
    using grown_memory_reads_zero [OF l(2) a(1-6) b a(7,8), of "[0x10000, 0x7fff0]" reset_csrs] s l(1) unfolding o by blast
qed

end
